(* ===== verification/Prelude.thy ===== *)
theory Prelude
  imports Main "HOL-Library.Word" "HOL-Library.Signed_Division"
begin

text \<open>
  Shared vocabulary of the development: the C integer types as words, the tests and
  updates of single bits, C loops as folds, and the lemmas on lists and words that several
  components use.

  A C unsigned integer of w bits is a \<open>w word\<close>; \<open>unat\<close> reads it as an \<open>int\<close> operand
  after the usual arithmetic conversions, \<open>of_nat\<close> stores an \<open>int\<close> result back.
  \<open>(T)1 << n\<close> is \<open>push_bit n 1\<close>, which is 0 once n reaches the width.
\<close>

unbundle bit_operations_syntax

type_synonym u8 = "8 word"
type_synonym u16 = "16 word"
type_synonym u32 = "32 word"
type_synonym u64 = "64 word"

named_theorems reads_simps \<open>reading a field back after the operations of a component\<close>

section \<open>Single bits\<close>

definition BIT :: "nat \<Rightarrow> 'a::len word" where
  "BIT n = push_bit n 1"

lemma bit_BIT [simp]: "bit (BIT n :: 'a::len word) k \<longleftrightarrow> k = n \<and> n < LENGTH('a)"
  unfolding BIT_def bit_push_bit_iff bit_1_iff by auto

lemma and_BIT_neq_0: "(w AND BIT n \<noteq> (0 :: 'a::len word)) \<longleftrightarrow> bit w n"
proof
  assume "w AND BIT n \<noteq> 0"
  then obtain k where "bit (w AND BIT n) k" by (metis bit_eqI bit_0_eq bot_apply bot_bool_def)
  then show "bit w n" by (auto simp: bit_and_iff)
next
  assume w: "bit w n"
  then have "n < LENGTH('a)" by (rule bit_imp_le_length)
  with w have "bit (w AND BIT n) n" by (simp add: bit_and_iff)
  then show "w AND BIT n \<noteq> 0" by (metis bit_0_eq bot_apply bot_bool_def)
qed

lemma and_BIT_eq_0: "(w AND BIT n = (0 :: 'a::len word)) \<longleftrightarrow> \<not> bit w n"
  using and_BIT_neq_0 by blast

lemma BIT_and_neq_0: "(BIT n AND w \<noteq> (0 :: 'a::len word)) \<longleftrightarrow> bit w n"
  by (metis and.commute and_BIT_neq_0)

lemma word_eqI_bits: "(\<And>k. k < LENGTH('a) \<Longrightarrow> bit u k = bit w k) \<Longrightarrow> u = (w :: 'a::len word)"
  by (rule bit_word_eqI)

lemma word_neq_bits: "u \<noteq> (w :: 'a::len word) \<longleftrightarrow> (\<exists>k < LENGTH('a). bit u k \<noteq> bit w k)"
  using word_eqI_bits by blast

lemma bit_unat: "bit (unat (w :: 'a::len word)) n = bit w n"
  by (simp add: bit_unsigned_iff)

lemma bit_word_iff_div: "bit (w :: 'a::len word) n \<longleftrightarrow> odd (unat w div 2 ^ n)"
  by (metis bit_unat bit_iff_odd)

lemma bit_small: "unat (a :: 'a::len word) < 2 ^ n \<Longrightarrow> bit a k \<Longrightarrow> k < n"
proof -
  assume "unat a < 2 ^ n" "bit a k"
  then have "take_bit n (unat a) = unat a" by (simp add: take_bit_nat_eq_self_iff)
  moreover have "bit (unat a) k" using \<open>bit a k\<close> by (simp add: bit_unat)
  ultimately show "k < n" by (metis bit_take_bit_iff)
qed

lemma bit_of_small:
  assumes "n < 2 ^ m" "bit (of_nat n :: 'a::len word) k"
  shows "k < m"
proof -
  have "bit n k" using assms(2) by (simp add: bit_of_nat_iff)
  moreover have "take_bit m n = n" using assms(1) by (simp add: take_bit_nat_eq_self_iff)
  ultimately show ?thesis by (metis bit_take_bit_iff)
qed

section \<open>Stores\<close>

lemma unat_of_nat_mod:
  "n < 2 ^ LENGTH('a) \<Longrightarrow> unat (of_nat n :: 'a::len word) = n"
  by (simp add: unat_of_nat take_bit_nat_eq_self_iff)

lemma unat_lt_256: "unat (w :: u8) < 256"
  using unsigned_less[of w] by simp

lemma unat_eq_0_iff: "unat w = 0 \<longleftrightarrow> w = (0 :: 'a::len word)"
  by (metis unat_0 unat_eq_zero)

section \<open>Loops\<close>

text \<open>
  \<open>for (i = 0; i < n; i++) s = body(i, s)\<close> is \<open>fold body [0..<n] s\<close>.
\<close>

lemma fold_upt_Suc: "fold f [0..<Suc n] s = f n (fold f [0..<n] s)"
  by simp

lemma fold_upt_induct [consumes 0, case_names 0 Suc]:
  assumes "P 0 s"
    and "\<And>i t. i < n \<Longrightarrow> P i t \<Longrightarrow> P (Suc i) (f i t)"
  shows "P n (fold f [0..<n] s)"
proof -
  have "k \<le> n \<Longrightarrow> P k (fold f [0..<k] s)" for k
    by (induction k) (auto intro: assms)
  then show ?thesis by simp
qed

lemma fold_keeps:
  assumes "\<And>x s. x \<in> set xs \<Longrightarrow> g (f x s) = g s"
  shows "g (fold f xs s) = g s"
  using assms by (induction xs arbitrary: s) auto

lemma fold_invariant_on:
  assumes "P s" and "\<And>x s. x \<in> set xs \<Longrightarrow> P s \<Longrightarrow> P (f x s)"
  shows "P (fold f xs s)"
  using assms by (induction xs arbitrary: s) auto

lemma nth_update_if: "j < length xs \<Longrightarrow> xs[i := x] ! j = (if i = j then x else xs ! j)"
  by (auto simp: nth_list_update)

lemma nth_fold_update:
  assumes "\<And>i xs. length (f i xs) = length xs"
    and "\<And>i j xs. i < length xs \<Longrightarrow> j \<noteq> i \<Longrightarrow> f i xs ! j = xs ! j"
    and "k < n" and "n \<le> length ys"
    and "\<And>xs. length xs = length ys \<Longrightarrow> xs ! k = ys ! k \<Longrightarrow> f k xs ! k = v"
  shows "fold f [0..<n] ys ! k = v"
proof -
  have "m \<le> n \<Longrightarrow> length (fold f [0..<m] ys) = length ys
      \<and> fold f [0..<m] ys ! k = (if k < m then v else ys ! k)" for m
  proof (induction m)
    case (Suc m)
    with assms show ?case by (cases "k = m") (auto simp: less_Suc_eq)
  qed simp
  from this[of n] show ?thesis using \<open>k < n\<close> by simp
qed

text \<open>
  A loop whose body at x changes only the cell x of the state, by \<open>h x\<close>, and raises a flag
  when \<open>g x\<close> holds of that cell, applies \<open>h\<close> once to every cell it visits.
\<close>

lemma fold_cells:
  assumes step: "\<And>x s. x \<in> set xs \<Longrightarrow> I s \<Longrightarrow> I (f x s) \<and> get (f x s) x = h x (get s x)
      \<and> (\<forall>y \<in> K. y \<noteq> x \<longrightarrow> get (f x s) y = get s y)"
    and "distinct xs" "set xs \<subseteq> K" "I s"
  shows "I (fold f xs s) \<and> (\<forall>y \<in> K. get (fold f xs s) y = (if y \<in> set xs then h y (get s y) else get s y))"
  using assms
proof (induction xs arbitrary: s)
  case (Cons x xs)
  have x: "I (f x s)" "get (f x s) x = h x (get s x)" "\<forall>y \<in> K. y \<noteq> x \<longrightarrow> get (f x s) y = get s y"
    using Cons.prems(1)[of x s] Cons.prems(4) by auto
  have "I (fold f xs (f x s)) \<and> (\<forall>y \<in> K. get (fold f xs (f x s)) y
      = (if y \<in> set xs then h y (get (f x s) y) else get (f x s) y))"
    using Cons.prems x(1) by (intro Cons.IH) auto
  then show ?case using x Cons.prems(2,3) by (auto simp: Ball_def)
qed simp

lemma fold_cells_flag:
  assumes step: "\<And>x s. x \<in> set xs \<Longrightarrow> I s \<Longrightarrow> I (f x s) \<and> get (f x s) x = h x (get s x)
      \<and> (\<forall>y \<in> K. y \<noteq> x \<longrightarrow> get (f x s) y = get s y)"
    and flag: "\<And>x s. x \<in> set xs \<Longrightarrow> I s \<Longrightarrow> fl (f x s) \<longleftrightarrow> fl s \<or> g x (get s x)"
    and "distinct xs" "set xs \<subseteq> K" "I s"
  shows "fl (fold f xs s) \<longleftrightarrow> fl s \<or> (\<exists>x \<in> set xs. g x (get s x))"
  using assms
proof (induction xs arbitrary: s)
  case (Cons x xs)
  have x: "I (f x s)" "\<forall>y \<in> K. y \<noteq> x \<longrightarrow> get (f x s) y = get s y"
    "fl (f x s) \<longleftrightarrow> fl s \<or> g x (get s x)"
    using Cons.prems(1)[of x s] Cons.prems(2)[of x s] Cons.prems(5) by auto
  have "fl (fold f xs (f x s)) \<longleftrightarrow> fl (f x s) \<or> (\<exists>y \<in> set xs. g y (get (f x s) y))"
    using Cons.prems x(1) by (intro Cons.IH) auto
  moreover have "g y (get (f x s) y) = g y (get s y)" if "y \<in> set xs" for y
    using that x(2) Cons.prems(3,4) by (metis distinct.simps(2) list.set_intros(2) subsetD)
  ultimately show ?case using x(3) by auto
qed simp

lemma list_update_same_value: "xs ! i = x \<Longrightarrow> xs[i := x] = xs"
  by (metis list_update_id)

lemma fold_refine:
  assumes "\<And>x s. x \<in> set xs \<Longrightarrow> I s \<Longrightarrow> p (f x s) = g x (p s) \<and> I (f x s)" "I s"
  shows "p (fold f xs s) = fold g xs (p s) \<and> I (fold f xs s)"
  using assms by (induction xs arbitrary: s) auto

section \<open>Signed bytes\<close>

lemma sint_of_int_8: "- 128 \<le> x \<Longrightarrow> x < 128 \<Longrightarrow> sint (word_of_int x :: u8) = x"
  by (simp add: sint_sbintrunc' signed_take_bit_int_eq_self)

lemma smod_small: "\<bar>x\<bar> < r \<Longrightarrow> x smod r = (x :: int)"
  by (simp add: signed_modulo_int_def signed_divide_int_def sgn_mult_abs)

lemma smod_self [simp]: "r smod r = (0 :: int)" "(- r) smod r = (0 :: int)"
  by (simp_all add: signed_modulo_int_def signed_divide_int_def)

end
