(* ===== verification/Ring_Queue.thy ===== *)
theory Ring_Queue
  imports Prelude
begin

text \<open>
  The interface of the firmware's ring buffers. Two components keep one: the MIDI byte queue
  (quantum/midi/bytequeue/bytequeue.c) and the encoder event queue (quantum/encoder.c). Both
  store the elements in an array of n cells between a start and an end index that run
  modulo n, and both keep one cell free to tell a full ring from an empty one.

  \<open>bounded_fifo\<close> is the contract their clients rely on: a bounded first-in first-out queue
  that refuses an element when full. Each provider interprets it on its own operations.
\<close>

section \<open>Ring arithmetic\<close>

definition ring_count :: "nat \<Rightarrow> nat \<Rightarrow> nat \<Rightarrow> nat" where
  "ring_count n s e = (if s \<le> e then e - s else (n - s) + e)"

definition ring_list :: "'a list \<Rightarrow> nat \<Rightarrow> nat \<Rightarrow> 'a list" where
  "ring_list xs s e =
     map (\<lambda>i. xs ! ((s + i) mod length xs)) [0..<ring_count (length xs) s e]"

lemma length_ring_list [simp]: "length (ring_list xs s e) = ring_count (length xs) s e"
  by (simp add: ring_list_def)

lemma ring_count_lt: "s < n \<Longrightarrow> e < n \<Longrightarrow> ring_count n s e < n"
  by (auto simp: ring_count_def)

lemma ring_succ: "e < n \<Longrightarrow> Suc e mod n = (if Suc e = n then 0 else Suc e)"
  by (simp add: mod_Suc)

lemma ring_full_iff:
  "s < n \<Longrightarrow> e < n \<Longrightarrow> (e + 1) mod n = s \<longleftrightarrow> ring_count n s e = n - 1"
  by (auto simp: ring_count_def ring_succ)

lemma ring_empty_iff: "s < n \<Longrightarrow> e < n \<Longrightarrow> ring_count n s e = 0 \<longleftrightarrow> s = e"
  by (auto simp: ring_count_def)

lemma ring_end_index:
  "s < n \<Longrightarrow> e < n \<Longrightarrow> (s + ring_count n s e) mod n = e"
  by (auto simp: ring_count_def)

lemma ring_count_enq:
  "s < n \<Longrightarrow> e < n \<Longrightarrow> (e + 1) mod n \<noteq> s
    \<Longrightarrow> ring_count n s ((e + 1) mod n) = Suc (ring_count n s e)"
  by (auto simp: ring_count_def ring_succ split: if_splits)

lemma ring_count_deq:
  "s < n \<Longrightarrow> e < n \<Longrightarrow> s \<noteq> e
    \<Longrightarrow> ring_count n ((s + 1) mod n) e = ring_count n s e - 1"
  by (auto simp: ring_count_def ring_succ split: if_splits)

lemma ring_index_inj:
  fixes s i j n :: nat
  assumes "s < n" "i < n" "j < n" "(s + i) mod n = (s + j) mod n"
  shows "i = j"
  using assms by (auto simp: mod_if split: if_splits)

lemma ring_list_enq:
  assumes s: "s < length xs" and e: "e < length xs" and room: "(e + 1) mod length xs \<noteq> s"
  shows "ring_list (xs[e := x]) s ((e + 1) mod length xs) = ring_list xs s e @ [x]"
proof -
  let ?n = "length xs" and ?c = "ring_count (length xs) s e"
  have c: "?c < ?n" using s e by (rule ring_count_lt)
  have "xs[e := x] ! ((s + i) mod ?n) = xs ! ((s + i) mod ?n)" if "i < ?c" for i
    using that ring_index_inj[OF s _ c, of i] ring_end_index[OF s e] c
    by (metis nat_neq_iff nth_list_update_neq order.strict_trans)
  moreover have "xs[e := x] ! ((s + ?c) mod ?n) = x"
    using ring_end_index[OF s e] e by simp
  ultimately show ?thesis
    using ring_count_enq[OF s e room] by (simp add: ring_list_def)
qed

lemma ring_list_deq:
  assumes s: "s < length xs" and e: "e < length xs" and ne: "s \<noteq> e"
  shows "ring_list xs s e = xs ! s # ring_list xs ((s + 1) mod length xs) e"
proof -
  have "ring_count (length xs) s e = Suc (ring_count (length xs) ((s + 1) mod length xs) e)"
    using ring_count_deq[OF s e ne] ring_empty_iff[OF s e] ne by simp
  then show ?thesis
    using s by (simp add: ring_list_def upt_conv_Cons map_Suc_upt[symmetric] mod_add_left_eq o_def
        del: upt_Suc)
qed

lemma ring_list_empty [simp]: "ring_list xs s s = []"
  by (simp add: ring_list_def ring_count_def)

lemma ring_list_Cons:
  assumes "s < length xs" "e < length xs" "ring_list xs s e = y # ys"
  shows "y = xs ! s \<and> ys = ring_list xs (Suc s mod length xs) e"
proof -
  have "s \<noteq> e" using assms(3) by auto
  from ring_list_deq[OF assms(1,2) this] assms(3) show ?thesis by simp
qed

section \<open>The interface\<close>

text \<open>
  \<open>enq\<close> returns the queue and whether the element was taken, \<open>deq\<close> the first element and
  the rest, or \<open>None\<close> when there is none.
\<close>

locale bounded_fifo =
  fixes enq :: "'q \<Rightarrow> 'a \<Rightarrow> 'q \<times> bool"
    and deq :: "'q \<Rightarrow> ('a \<times> 'q) option"
    and contents :: "'q \<Rightarrow> 'a list"
    and capacity :: "'q \<Rightarrow> nat"
    and invar :: "'q \<Rightarrow> bool"
  assumes invar_enq: "invar q \<Longrightarrow> invar (fst (enq q x))"
    and invar_deq: "invar q \<Longrightarrow> deq q = Some (x, q') \<Longrightarrow> invar q'"
    and capacity_enq: "invar q \<Longrightarrow> capacity (fst (enq q x)) = capacity q"
    and capacity_deq: "invar q \<Longrightarrow> deq q = Some (x, q') \<Longrightarrow> capacity q' = capacity q"
    and within_capacity: "invar q \<Longrightarrow> length (contents q) \<le> capacity q"
    and enq_room: "invar q \<Longrightarrow> length (contents q) < capacity q
      \<Longrightarrow> snd (enq q x) \<and> contents (fst (enq q x)) = contents q @ [x]"
    and enq_full: "invar q \<Longrightarrow> length (contents q) = capacity q \<Longrightarrow> enq q x = (q, False)"
    and deq_empty: "invar q \<Longrightarrow> contents q = [] \<Longrightarrow> deq q = None"
    and deq_cons: "invar q \<Longrightarrow> contents q = x # xs
      \<Longrightarrow> \<exists>q'. deq q = Some (x, q') \<and> contents q' = xs"
begin

text \<open>A producer that offers a list of elements loses the ones that do not fit, in order.\<close>

lemma enq_list:
  assumes "invar q"
  shows "invar (fold (\<lambda>x q. fst (enq q x)) xs q) \<and>
    capacity (fold (\<lambda>x q. fst (enq q x)) xs q) = capacity q \<and>
    contents (fold (\<lambda>x q. fst (enq q x)) xs q)
      = contents q @ take (capacity q - length (contents q)) xs"
  using assms
proof (induction xs arbitrary: q)
  case Nil
  then show ?case by simp
next
  case (Cons x xs)
  let ?q = "fst (enq q x)"
  have IH: "invar (fold (\<lambda>x q. fst (enq q x)) xs ?q) \<and>
      capacity (fold (\<lambda>x q. fst (enq q x)) xs ?q) = capacity ?q \<and>
      contents (fold (\<lambda>x q. fst (enq q x)) xs ?q)
        = contents ?q @ take (capacity ?q - length (contents ?q)) xs"
    using Cons by (intro Cons.IH invar_enq)
  show ?case
  proof (cases "length (contents q) = capacity q")
    case True
    with IH enq_full[OF Cons.prems True] show ?thesis by simp
  next
    case False
    with within_capacity[OF Cons.prems] have "length (contents q) < capacity q" by simp
    with IH enq_room[OF Cons.prems, of x] capacity_enq[OF Cons.prems, of x] show ?thesis
      by (simp add: take_Cons' Suc_diff_Suc[symmetric] del: Suc_diff_Suc)
  qed
qed

lemma deq_Some_contents:
  assumes "invar q" "deq q = Some (x, q')"
  shows "contents q = x # contents q'"
  using assms deq_empty[of q] deq_cons[of q] by (cases "contents q") fastforce+

lemma deq_None_iff: "invar q \<Longrightarrow> deq q = None \<longleftrightarrow> contents q = []"
  using deq_empty[of q] deq_cons[of q] by (cases "contents q") fastforce+

text \<open>
  A consumer whose step takes the first element and folds it into what it observes sees the
  queue's elements in order and leaves the rest.
\<close>

lemma consume_prefix:
  assumes step: "\<And>s x q'. invar (qu s) \<Longrightarrow> deq (qu s) = Some (x, q')
      \<Longrightarrow> qu (st s) = q' \<and> obs (st s) = f x (obs s)"
    and "invar (qu s)" "k \<le> length (contents (qu s))"
  shows "invar (qu ((st ^^ k) s)) \<and> contents (qu ((st ^^ k) s)) = drop k (contents (qu s))
    \<and> capacity (qu ((st ^^ k) s)) = capacity (qu s)
    \<and> obs ((st ^^ k) s) = fold f (take k (contents (qu s))) (obs s)"
  using assms(2,3)
proof (induction k arbitrary: s)
  case 0
  then show ?case by simp
next
  case (Suc k)
  then obtain x xs where c: "contents (qu s) = x # xs" by (cases "contents (qu s)") auto
  obtain q' where d: "deq (qu s) = Some (x, q')" and c': "contents q' = xs"
    using deq_cons[OF Suc.prems(1) c] by auto
  note st = step[OF Suc.prems(1) d]
  have "invar q'" "capacity q' = capacity (qu s)"
    using invar_deq[OF Suc.prems(1) d] capacity_deq[OF Suc.prems(1) d] by auto
  with Suc.IH[of "st s"] Suc.prems(2) c c' st show ?case
    by (simp add: funpow_Suc_right del: funpow.simps)
qed

end

end
