(* ===== verification/Key_Event.thy ===== *)
theory Key_Event
  imports Prelude
begin

text \<open>
  Key positions and key events (quantum/keyboard.h): what the matrix, the encoders and the
  combo code hand to \<open>action_exec\<close>. The \<open>timer_read()\<close> inside the event macros is an argument.
\<close>

record keypos_t =
  kp_col :: u8
  kp_row :: u8

datatype keyevent_type_t =
    TICK_EVENT | KEY_EVENT | ENCODER_CW_EVENT | ENCODER_CCW_EVENT | COMBO_EVENT
  | DIP_SWITCH_ON_EVENT | DIP_SWITCH_OFF_EVENT

record keyevent_t =
  ev_key :: keypos_t
  ev_time :: u16
  ev_type :: keyevent_type_t
  ev_pressed :: bool

definition KEYEQ :: "keypos_t \<Rightarrow> keypos_t \<Rightarrow> bool" where
  "KEYEQ keya keyb \<longleftrightarrow> kp_row keya = kp_row keyb \<and> kp_col keya = kp_col keyb"

definition KEYLOC_ENCODER_CW :: u8 where "KEYLOC_ENCODER_CW = 253"
definition KEYLOC_ENCODER_CCW :: u8 where "KEYLOC_ENCODER_CCW = 252"

definition IS_NOEVENT :: "keyevent_t \<Rightarrow> bool" where
  "IS_NOEVENT event \<longleftrightarrow> ev_type event = TICK_EVENT"

definition IS_EVENT :: "keyevent_t \<Rightarrow> bool" where
  "IS_EVENT event \<longleftrightarrow> ev_type event \<noteq> TICK_EVENT"

definition IS_KEYEVENT :: "keyevent_t \<Rightarrow> bool" where
  "IS_KEYEVENT event \<longleftrightarrow> ev_type event = KEY_EVENT"

definition IS_COMBOEVENT :: "keyevent_t \<Rightarrow> bool" where
  "IS_COMBOEVENT event \<longleftrightarrow> ev_type event = COMBO_EVENT"

definition IS_ENCODEREVENT :: "keyevent_t \<Rightarrow> bool" where
  "IS_ENCODEREVENT event \<longleftrightarrow> ev_type event = ENCODER_CW_EVENT \<or> ev_type event = ENCODER_CCW_EVENT"

definition MAKE_KEYPOS :: "u8 \<Rightarrow> u8 \<Rightarrow> keypos_t" where
  "MAKE_KEYPOS row_num col_num = \<lparr>kp_col = col_num, kp_row = row_num\<rparr>"

definition MAKE_EVENT :: "u16 \<Rightarrow> u8 \<Rightarrow> u8 \<Rightarrow> bool \<Rightarrow> keyevent_type_t \<Rightarrow> keyevent_t" where
  "MAKE_EVENT now row_num col_num press event_type =
     \<lparr>ev_key = MAKE_KEYPOS row_num col_num, ev_time = now, ev_type = event_type,
      ev_pressed = press\<rparr>"

definition MAKE_KEYEVENT :: "u16 \<Rightarrow> u8 \<Rightarrow> u8 \<Rightarrow> bool \<Rightarrow> keyevent_t" where
  "MAKE_KEYEVENT now row_num col_num press = MAKE_EVENT now row_num col_num press KEY_EVENT"

definition MAKE_TICK_EVENT :: "u16 \<Rightarrow> keyevent_t" where
  "MAKE_TICK_EVENT now = MAKE_EVENT now 0 0 False TICK_EVENT"

definition MAKE_ENCODER_CW_EVENT :: "u16 \<Rightarrow> u8 \<Rightarrow> bool \<Rightarrow> keyevent_t" where
  "MAKE_ENCODER_CW_EVENT now enc_id press =
     MAKE_EVENT now KEYLOC_ENCODER_CW enc_id press ENCODER_CW_EVENT"

definition MAKE_ENCODER_CCW_EVENT :: "u16 \<Rightarrow> u8 \<Rightarrow> bool \<Rightarrow> keyevent_t" where
  "MAKE_ENCODER_CCW_EVENT now enc_id press =
     MAKE_EVENT now KEYLOC_ENCODER_CCW enc_id press ENCODER_CCW_EVENT"

text \<open>Two positions are the same key exactly when \<open>KEYEQ\<close> says so.\<close>

lemma KEYEQ_iff: "KEYEQ a b \<longleftrightarrow> a = b"
  by (cases a; cases b) (auto simp: KEYEQ_def)

lemma IS_EVENT_iff: "IS_EVENT e \<longleftrightarrow> \<not> IS_NOEVENT e"
  by (simp add: IS_EVENT_def IS_NOEVENT_def)

end
