(* ===== verification/Encoder.thy ===== *)
theory Encoder
  imports Ring_Queue Key_Event
begin

text \<open>
  Rotary encoders: the event queue and its task (quantum/encoder.c) and the quadrature
  driver that feeds it (drivers/encoder/encoder_quadrature.c), for a keyboard that is not
  split and has \<open>ENCODER_MAP_ENABLE\<close> set. The pins, the clock and
  \<open>should_process_encoder\<close> are arguments; the events passed to \<open>action_exec\<close> are collected
  in \<open>enc_exec\<close>, in order, and \<open>wait_ms\<close> shows only in the times the clock gives them.
\<close>

section \<open>The event queue\<close>

record encoder_event_t =
  ee_index :: "7 word"
  ee_clockwise :: "1 word"

record encoder_events_t =
  eq_enqueued :: u8
  eq_dequeued :: u8
  eq_head :: u8
  eq_tail :: u8
  eq_queue :: "encoder_event_t list"

abbreviation MAX_QUEUED_ENCODER_EVENTS :: "encoder_events_t \<Rightarrow> nat" where
  "MAX_QUEUED_ENCODER_EVENTS events \<equiv> length (eq_queue events)"

definition encoder_queue_full_advanced :: "encoder_events_t \<Rightarrow> bool" where
  "encoder_queue_full_advanced events \<longleftrightarrow>
     unat (eq_tail events) = (unat (eq_head events) + 1) mod MAX_QUEUED_ENCODER_EVENTS events"

definition encoder_queue_empty_advanced :: "encoder_events_t \<Rightarrow> bool" where
  "encoder_queue_empty_advanced events \<longleftrightarrow> eq_head events = eq_tail events"

definition encoder_queue_event_advanced ::
    "encoder_events_t \<Rightarrow> u8 \<Rightarrow> bool \<Rightarrow> encoder_events_t \<times> bool" where
  "encoder_queue_event_advanced events index clockwise =
     (if encoder_queue_full_advanced events then (events, False)
      else
        let new_event = \<lparr>ee_index = ucast index, ee_clockwise = (if clockwise then 1 else 0)\<rparr>;
            events = events\<lparr>eq_queue := (eq_queue events)[unat (eq_head events) := new_event]\<rparr>;
            events = events\<lparr>eq_head :=
              of_nat ((unat (eq_head events) + 1) mod MAX_QUEUED_ENCODER_EVENTS events)\<rparr>
        in (events\<lparr>eq_enqueued := eq_enqueued events + 1\<rparr>, True))"

definition encoder_dequeue_event_advanced ::
    "encoder_events_t \<Rightarrow> ((u8 \<times> bool) \<times> encoder_events_t) option" where
  "encoder_dequeue_event_advanced events =
     (if encoder_queue_empty_advanced events then None
      else
        let event = eq_queue events ! unat (eq_tail events);
            events = events\<lparr>eq_tail :=
              of_nat ((unat (eq_tail events) + 1) mod MAX_QUEUED_ENCODER_EVENTS events)\<rparr>
        in Some ((ucast (ee_index event), ee_clockwise event \<noteq> 0),
                 events\<lparr>eq_dequeued := eq_dequeued events + 1\<rparr>))"

section \<open>The task\<close>

record encoder_sys =
  enc_events :: encoder_events_t
  enc_signal_queue_drain :: bool
  enc_state :: "u8 list"
  enc_pulses :: "u8 list"
  enc_exec :: "keyevent_t list"

definition encoder_queue_drain :: "encoder_sys \<Rightarrow> encoder_sys" where
  "encoder_queue_drain s = s\<lparr>enc_events := (enc_events s)
     \<lparr>eq_tail := eq_head (enc_events s), eq_dequeued := eq_enqueued (enc_events s)\<rparr>\<rparr>"

definition encoder_signal_queue_drain :: "encoder_sys \<Rightarrow> encoder_sys" where
  "encoder_signal_queue_drain s = s\<lparr>enc_signal_queue_drain := True\<rparr>"

definition encoder_queue_event :: "u8 \<Rightarrow> bool \<Rightarrow> encoder_sys \<Rightarrow> encoder_sys \<times> bool" where
  "encoder_queue_event index clockwise s =
     (case encoder_queue_event_advanced (enc_events s) index clockwise of
        (ev, r) \<Rightarrow> (s\<lparr>enc_events := ev\<rparr>, r))"

definition encoder_dequeue_event :: "encoder_sys \<Rightarrow> ((u8 \<times> bool) \<times> encoder_sys) option" where
  "encoder_dequeue_event s =
     (case encoder_dequeue_event_advanced (enc_events s) of
        None \<Rightarrow> None
      | Some (x, ev) \<Rightarrow> Some (x, s\<lparr>enc_events := ev\<rparr>))"

definition action_exec_encoder ::
    "(nat \<Rightarrow> u16) \<Rightarrow> u8 \<Rightarrow> bool \<Rightarrow> bool \<Rightarrow> encoder_sys \<Rightarrow> encoder_sys" where
  "action_exec_encoder clk index clockwise pressed s =
     (let now = clk (length (enc_exec s))
      in s\<lparr>enc_exec := enc_exec s @
            [if clockwise then MAKE_ENCODER_CW_EVENT now index pressed
             else MAKE_ENCODER_CCW_EVENT now index pressed]\<rparr>)"

partial_function (option) encoder_handle_queue ::
    "(nat \<Rightarrow> u16) \<Rightarrow> bool \<Rightarrow> encoder_sys \<Rightarrow> (encoder_sys \<times> bool) option" where
  "encoder_handle_queue clk changed s =
     (case encoder_dequeue_event s of
        None \<Rightarrow> Some (s, changed)
      | Some ((index, clockwise), s) \<Rightarrow>
          encoder_handle_queue clk True
            (action_exec_encoder clk index clockwise False
              (action_exec_encoder clk index clockwise True s)))"

section \<open>The quadrature driver\<close>

definition encoder_LUT :: "int list" where
  "encoder_LUT = [0, -1, 1, 0, 1, 0, 0, -1, -1, 0, 0, 1, 0, 1, -1, 0]"

text \<open>
  \<open>ENCODER_DIRECTION_FLIP\<close> is not set: clockwise is \<open>True\<close>. \<open>ENCODER_RESOLUTION\<close> and the
  optional \<open>ENCODER_DEFAULT_POS\<close> are arguments. The pulse counter is an \<open>int8_t\<close>, and \<open>%\<close>
  truncates towards zero.
\<close>

definition queue_when :: "bool \<Rightarrow> u8 \<Rightarrow> bool \<Rightarrow> encoder_sys \<Rightarrow> encoder_sys" where
  "queue_when b index clockwise s = (if b then fst (encoder_queue_event index clockwise s) else s)"

definition encoder_handle_state_change ::
    "u8 \<Rightarrow> u8 option \<Rightarrow> u8 \<Rightarrow> u8 \<Rightarrow> encoder_sys \<Rightarrow> encoder_sys" where
  "encoder_handle_state_change resolution default_pos index state s =
     (let i = unat index;
          pulses = word_of_int (sint (enc_pulses s ! i) + encoder_LUT ! unat (state AND 0xF)) :: u8;
          s = s\<lparr>enc_pulses := (enc_pulses s)[i := pulses]\<rparr>
      in case default_pos of
           Some pos \<Rightarrow>
             (if sint pulses \<ge> uint resolution \<or> sint pulses \<le> - uint resolution \<or> state AND 3 = pos
              then (queue_when (sint pulses \<le> -1) index True
                     (queue_when (sint pulses \<ge> 1) index False s))
                   \<lparr>enc_pulses := (enc_pulses s)[i := 0]\<rparr>
              else s)
         | None \<Rightarrow>
             (queue_when (sint pulses \<le> - uint resolution) index True
               (queue_when (sint pulses \<ge> uint resolution) index False s))
             \<lparr>enc_pulses := (enc_pulses s)[i := word_of_int (sint pulses smod uint resolution)]\<rparr>)"

definition encoder_quadrature_handle_read ::
    "u8 \<Rightarrow> u8 option \<Rightarrow> u8 \<Rightarrow> u8 \<Rightarrow> u8 \<Rightarrow> encoder_sys \<Rightarrow> encoder_sys" where
  "encoder_quadrature_handle_read resolution default_pos index pin_a_state pin_b_state s =
     (let state = pin_a_state OR push_bit 1 pin_b_state; i = unat index
      in if enc_state s ! i AND 3 \<noteq> state
         then let s = s\<lparr>enc_state := (enc_state s)[i := push_bit 2 (enc_state s ! i) OR state]\<rparr>
              in encoder_handle_state_change resolution default_pos index (enc_state s ! i) s
         else s)"

definition encoder_driver_task ::
    "u8 \<Rightarrow> u8 option \<Rightarrow> (nat \<Rightarrow> bool \<Rightarrow> u8) \<Rightarrow> nat \<Rightarrow> encoder_sys \<Rightarrow> encoder_sys" where
  "encoder_driver_task resolution default_pos read_pin thisCount s =
     fold (\<lambda>i. encoder_quadrature_handle_read resolution default_pos (of_nat i)
                 (read_pin i False) (read_pin i True)) [0..<thisCount] s"

definition encoder_task ::
    "(nat \<Rightarrow> u16) \<Rightarrow> bool \<Rightarrow> (encoder_sys \<Rightarrow> encoder_sys) \<Rightarrow> encoder_sys \<Rightarrow> (encoder_sys \<times> bool) option" where
  "encoder_task clk should_process driver_task s =
     (let s = (if enc_signal_queue_drain s
               then encoder_queue_drain (s\<lparr>enc_signal_queue_drain := False\<rparr>) else s);
          s = driver_task s
      in if should_process then encoder_handle_queue clk False s else Some (s, False))"

section \<open>The queue as a bounded first-in first-out queue\<close>

definition eq_inv :: "encoder_events_t \<Rightarrow> bool" where
  "eq_inv q \<longleftrightarrow> 0 < length (eq_queue q) \<and> length (eq_queue q) \<le> 256
     \<and> unat (eq_head q) < length (eq_queue q) \<and> unat (eq_tail q) < length (eq_queue q)"

definition ee_value :: "encoder_event_t \<Rightarrow> 7 word \<times> bool" where
  "ee_value e = (ee_index e, ee_clockwise e \<noteq> 0)"

definition eq_contents :: "encoder_events_t \<Rightarrow> (7 word \<times> bool) list" where
  "eq_contents q = map ee_value (ring_list (eq_queue q) (unat (eq_tail q)) (unat (eq_head q)))"

definition eq_capacity :: "encoder_events_t \<Rightarrow> nat" where
  "eq_capacity q = length (eq_queue q) - 1"

definition eq_put :: "encoder_events_t \<Rightarrow> 7 word \<times> bool \<Rightarrow> encoder_events_t \<times> bool" where
  "eq_put q x = encoder_queue_event_advanced q (ucast (fst x)) (snd x)"

definition eq_take :: "encoder_events_t \<Rightarrow> ((7 word \<times> bool) \<times> encoder_events_t) option" where
  "eq_take q = map_option (\<lambda>((i, c), q'). ((ucast i, c), q')) (encoder_dequeue_event_advanced q)"

lemma unat_ring_index:
  "0 < n \<Longrightarrow> n \<le> 256 \<Longrightarrow> unat (of_nat (k mod n) :: u8) = k mod n"
  using order.strict_trans2[OF mod_less_divisor, of n 256 k] by (simp add: unat_of_nat_mod)

lemma ucast_ucast_7 [simp]: "ucast (ucast (i :: 7 word) :: u8) = i"
  by (rule bit_word_eqI) (simp add: bit_simps)

lemma eq_enq:
  assumes "eq_inv q"
  shows "eq_inv (fst (eq_put q x))"
    and "eq_capacity (fst (eq_put q x)) = eq_capacity q"
    and "length (eq_contents q) < eq_capacity q
      \<Longrightarrow> snd (eq_put q x) \<and> eq_contents (fst (eq_put q x)) = eq_contents q @ [x]"
    and "length (eq_contents q) = eq_capacity q \<Longrightarrow> eq_put q x = (q, False)"
proof -
  have i: "unat (eq_tail q) < length (eq_queue q)" "unat (eq_head q) < length (eq_queue q)"
    and n: "0 < length (eq_queue q)" "length (eq_queue q) \<le> 256"
    using assms by (auto simp: eq_inv_def)
  note u = unat_ring_index[OF n]
  have full: "Suc (unat (eq_head q)) mod length (eq_queue q) = unat (eq_tail q)
      \<longleftrightarrow> length (eq_contents q) = eq_capacity q"
    using ring_full_iff[OF i] by (simp add: eq_contents_def eq_capacity_def)
  note d = eq_put_def encoder_queue_event_advanced_def encoder_queue_full_advanced_def Let_def
  show "eq_inv (fst (eq_put q x))" using assms by (auto simp: d eq_inv_def u)
  show "eq_capacity (fst (eq_put q x)) = eq_capacity q" by (simp add: d eq_capacity_def)
  show "length (eq_contents q) = eq_capacity q \<Longrightarrow> eq_put q x = (q, False)"
    using full by (simp add: d)
  show "snd (eq_put q x) \<and> eq_contents (fst (eq_put q x)) = eq_contents q @ [x]"
    if "length (eq_contents q) < eq_capacity q"
  proof -
    have "Suc (unat (eq_head q)) mod length (eq_queue q) \<noteq> unat (eq_tail q)"
      using full that by simp
    with ring_list_enq[OF i, simplified] show ?thesis
      by (cases x) (auto simp: d eq_contents_def u ee_value_def)
  qed
qed

lemma eq_deq:
  assumes "eq_inv q" "eq_contents q = x # xs"
  shows "\<exists>q'. eq_take q = Some (x, q') \<and> eq_inv q' \<and> eq_contents q' = xs
    \<and> eq_capacity q' = eq_capacity q"
proof -
  have i: "unat (eq_tail q) < length (eq_queue q)" "unat (eq_head q) < length (eq_queue q)"
    and n: "0 < length (eq_queue q)" "length (eq_queue q) \<le> 256"
    using assms by (auto simp: eq_inv_def)
  note u = unat_ring_index[OF n]
  from assms(2) have ne: "eq_head q \<noteq> eq_tail q" by (auto simp: eq_contents_def)
  obtain y ys where r: "ring_list (eq_queue q) (unat (eq_tail q)) (unat (eq_head q)) = y # ys"
    and y: "ee_value y = x" "map ee_value ys = xs"
    using assms(2) by (auto simp: eq_contents_def Cons_eq_map_conv)
  from ring_list_Cons[OF i r] y ne assms(1) show ?thesis
    by (auto simp: eq_take_def encoder_dequeue_event_advanced_def Let_def ee_value_def
        encoder_queue_empty_advanced_def eq_inv_def eq_contents_def eq_capacity_def u)
qed

interpretation eq: bounded_fifo eq_put eq_take eq_contents eq_capacity eq_inv
proof
  fix q x y q' xs
  assume inv: "eq_inv q"
  then have i: "unat (eq_tail q) < length (eq_queue q)" "unat (eq_head q) < length (eq_queue q)"
    by (auto simp: eq_inv_def)
  show "length (eq_contents q) \<le> eq_capacity q"
    using ring_count_lt[OF i] by (simp add: eq_contents_def eq_capacity_def)
  show empty: "eq_contents q = [] \<Longrightarrow> eq_take q = None"
    using ring_empty_iff[OF i]
    by (simp add: eq_contents_def eq_take_def encoder_dequeue_event_advanced_def
        encoder_queue_empty_advanced_def ring_list_def word_unat_eq_iff[of "eq_head q"])
  show "eq_contents q = x # xs \<Longrightarrow> \<exists>q'. eq_take q = Some (x, q') \<and> eq_contents q' = xs"
    using eq_deq[OF inv] by blast
  assume d: "eq_take q = Some (x, q')"
  with empty obtain z xs where "eq_contents q = z # xs" by (cases "eq_contents q") auto
  from eq_deq[OF inv this] d show "eq_inv q'" "eq_capacity q' = eq_capacity q" by auto
qed (use eq_enq in auto)

section \<open>Draining the queue\<close>

text \<open>The events one drained entry causes, from the n-th call of \<open>action_exec\<close> on.\<close>

fun exec_events :: "(nat \<Rightarrow> u16) \<Rightarrow> nat \<Rightarrow> (7 word \<times> bool) list \<Rightarrow> keyevent_t list" where
  "exec_events clk n [] = []"
| "exec_events clk n ((i, c) # xs) =
     (if c then [MAKE_ENCODER_CW_EVENT (clk n) (ucast i) True,
                 MAKE_ENCODER_CW_EVENT (clk (Suc n)) (ucast i) False]
      else [MAKE_ENCODER_CCW_EVENT (clk n) (ucast i) True,
            MAKE_ENCODER_CCW_EVENT (clk (Suc n)) (ucast i) False])
     @ exec_events clk (Suc (Suc n)) xs"

lemma dequeue_Cons:
  assumes "eq_inv (enc_events s)" "eq_contents (enc_events s) = (i, c) # xs"
  shows "\<exists>q'. encoder_dequeue_event s = Some ((ucast i, c), s\<lparr>enc_events := q'\<rparr>)
    \<and> eq_inv q' \<and> eq_contents q' = xs \<and> eq_capacity q' = eq_capacity (enc_events s)"
proof -
  from eq_deq[OF assms] obtain q' where
    "eq_take (enc_events s) = Some ((i, c), q')"
    and q': "eq_inv q'" "eq_contents q' = xs" "eq_capacity q' = eq_capacity (enc_events s)"
    by auto
  then obtain j where j: "encoder_dequeue_event_advanced (enc_events s) = Some ((j, c), q')"
    and i: "i = ucast j"
    by (auto simp: eq_take_def)
  from j obtain k :: "7 word" where "j = ucast k"
    by (auto simp: encoder_dequeue_event_advanced_def Let_def split: if_splits)
  with i have "j = ucast i" by simp
  with j q' show ?thesis by (intro exI[of _ q']) (simp add: encoder_dequeue_event_def)
qed

lemma dequeue_Nil:
  assumes "eq_inv (enc_events s)" "eq_contents (enc_events s) = []"
  shows "encoder_dequeue_event s = None"
  using eq.deq_empty[OF assms] by (auto simp: encoder_dequeue_event_def eq_take_def)

lemma handle_queue_drains:
  assumes "eq_inv (enc_events s)"
  shows "\<exists>s'. encoder_handle_queue clk b s = Some (s', b \<or> eq_contents (enc_events s) \<noteq> [])
    \<and> eq_inv (enc_events s') \<and> eq_contents (enc_events s') = []
    \<and> enc_exec s' = enc_exec s
        @ exec_events clk (length (enc_exec s)) (eq_contents (enc_events s))"
  using assms
proof (induction "eq_contents (enc_events s)" arbitrary: s b)
  case Nil
  then show ?case by (subst encoder_handle_queue.simps) (simp add: dequeue_Nil)
next
  case (Cons x xs)
  obtain i c where x: "x = (i, c)" by (cases x)
  with Cons.hyps(2) have c: "eq_contents (enc_events s) = (i, c) # xs" by simp
  obtain q' where d: "encoder_dequeue_event s = Some ((ucast i, c), s\<lparr>enc_events := q'\<rparr>)"
    and q': "eq_inv q'" "eq_contents q' = xs"
    using dequeue_Cons[OF Cons.prems c] by auto
  let ?t = "action_exec_encoder clk (ucast i) c False
    (action_exec_encoder clk (ucast i) c True (s\<lparr>enc_events := q'\<rparr>))"
  have t: "enc_events ?t = q'"
    "enc_exec ?t = enc_exec s @ exec_events clk (length (enc_exec s)) [(i, c)]"
    by (simp_all add: action_exec_encoder_def Let_def)
  from Cons.hyps(1)[of ?t True] q' t c show ?case
    by (subst encoder_handle_queue.simps) (auto simp: d)
qed

section \<open>The quadrature decoder follows the shaft\<close>

text \<open>
  The two pins of a shaft at position p, in the order the table counts up, as the two-bit
  state \<open>pin_a | pin_b << 1\<close>.
\<close>

definition shaft_phase :: "int \<Rightarrow> u8" where
  "shaft_phase p = (if p mod 4 = 0 then 0 else if p mod 4 = 1 then 2 else if p mod 4 = 2 then 3 else 1)"

definition shaft_pin :: "int \<Rightarrow> bool \<Rightarrow> u8" where
  "shaft_pin p b = (if b then drop_bit 1 (shaft_phase p) else shaft_phase p AND 1)"

definition encoder_net :: "7 word \<Rightarrow> (7 word \<times> bool) list \<Rightarrow> int" where
  "encoder_net i xs = sum_list (map (\<lambda>(j, c). if j = i then if c then -1 else 1 else 0) xs)"

text \<open>Where the decoder believes the shaft is: whole detents queued, plus the pulses since.\<close>

definition encoder_position :: "u8 \<Rightarrow> 7 word \<Rightarrow> encoder_sys \<Rightarrow> int" where
  "encoder_position resolution i s =
     uint resolution * encoder_net i (eq_contents (enc_events s)) + sint (enc_pulses s ! unat i)"

definition encoder_ok :: "u8 \<Rightarrow> 7 word \<Rightarrow> encoder_sys \<Rightarrow> bool" where
  "encoder_ok resolution i s \<longleftrightarrow> eq_inv (enc_events s)
     \<and> unat i < length (enc_state s) \<and> unat i < length (enc_pulses s)
     \<and> \<bar>sint (enc_pulses s ! unat i)\<bar> < uint resolution"

lemma shaft_pins: "shaft_pin p False OR shaft_pin p True * 2 = shaft_phase p"
  by (simp add: shaft_pin_def shaft_phase_def)

lemma shaft_phase_and: "shaft_phase p AND 3 = shaft_phase p"
  by (simp add: shaft_phase_def)

lemma state_low_bits:
  fixes old new :: u8
  assumes "new AND 3 = new"
  shows "(push_bit 2 old OR new) AND 3 = new"
    and "(push_bit 2 old OR new) AND 0xF = push_bit 2 (old AND 3) OR new"
proof -
  have m: "(3 :: u8) = mask 2" "(0xF :: u8) = mask 4" by (simp_all add: mask_eq_exp_minus_1)
  have new: "bit new k \<Longrightarrow> k < 2" for k
    using assms by (metis bit_and_iff bit_mask_iff m(1))
  show "(push_bit 2 old OR new) AND 3 = new"
    unfolding m by (rule bit_word_eqI) (auto simp: bit_simps dest: new)
  show "(push_bit 2 old OR new) AND 0xF = push_bit 2 (old AND 3) OR new"
    unfolding m by (rule bit_word_eqI) (auto simp: bit_simps dest: new)
qed

lemma mod4_steps:
  fixes p :: int
  shows "(p + 1) mod 4 = (if p mod 4 = 3 then 0 else p mod 4 + 1)"
    and "(p - 1) mod 4 = (if p mod 4 = 0 then 3 else p mod 4 - 1)"
    and "p mod 4 = 0 \<or> p mod 4 = 1 \<or> p mod 4 = 2 \<or> p mod 4 = 3"
  by presburger+

lemma shaft_phase_eq_iff:
  assumes "\<bar>q - p\<bar> \<le> 1"
  shows "shaft_phase p = shaft_phase q \<longleftrightarrow> p = q"
proof -
  from assms consider "q = p" | "q = p + 1" | "q = p - 1" by linarith
  then show ?thesis using mod4_steps[of p] by cases (auto simp: shaft_phase_def)
qed

lemma LUT_step:
  assumes "\<bar>q - p\<bar> \<le> 1"
  shows "encoder_LUT ! unat (push_bit 2 (shaft_phase p) OR shaft_phase q) = q - p"
proof -
  from assms consider "q = p" | "q = p + 1" | "q = p - 1" by linarith
  then show ?thesis
    using mod4_steps[of p] by cases (auto simp: shaft_phase_def encoder_LUT_def)
qed

lemma unat_ucast_7 [simp]: "unat (ucast (i :: 7 word) :: u8) = unat i"
  by (simp add: unsigned_ucast_eq take_bit_nat_eq_self unsigned_less[THEN order.strict_trans2])

lemma encoder_net_snoc [simp]:
  "encoder_net i (xs @ [(i, c)]) = encoder_net i xs + (if c then -1 else 1)"
  by (simp add: encoder_net_def)

text \<open>Queueing one detent when there is room.\<close>

lemma queue_event_room:
  assumes "eq_inv (enc_events s)" "length (eq_contents (enc_events s)) < eq_capacity (enc_events s)"
  shows "\<exists>q'. fst (encoder_queue_event (ucast i) c s) = s\<lparr>enc_events := q'\<rparr> \<and> eq_inv q'
    \<and> eq_contents q' = eq_contents (enc_events s) @ [(i, c)]
    \<and> eq_capacity q' = eq_capacity (enc_events s)"
  using eq_enq(1,2,3)[OF assms(1), of "(i, c)"] assms(2)
  by (auto simp: encoder_queue_event_def eq_put_def split: prod.splits
      intro!: exI[of _ "fst (encoder_queue_event_advanced (enc_events s) (ucast i) c)"])

lemma state_change_step:
  assumes ok: "encoder_ok resolution i s" and res: "0 < uint resolution" "uint resolution \<le> 127"
    and room: "length (eq_contents (enc_events s)) < eq_capacity (enc_events s)"
    and d: "encoder_LUT ! unat (state AND 0xF) = d" "\<bar>d\<bar> \<le> 1"
    and s': "s' = encoder_handle_state_change resolution None (ucast i) state s"
  shows "encoder_ok resolution i s' \<and> enc_state s' = enc_state s
    \<and> encoder_position resolution i s' = encoder_position resolution i s + d
    \<and> length (eq_contents (enc_events s')) \<le> Suc (length (eq_contents (enc_events s)))
    \<and> eq_capacity (enc_events s') = eq_capacity (enc_events s)"
proof -
  define v where "v = sint (enc_pulses s ! unat i) + d"
  have old: "\<bar>sint (enc_pulses s ! unat i)\<bar> < uint resolution"
    using ok by (simp add: encoder_ok_def)
  with d(2) have v: "\<bar>v\<bar> \<le> uint resolution" by (simp add: v_def)
  define w where "w = enc_pulses s ! unat i + word_of_int d"
  have "w = word_of_int v" by (simp add: w_def v_def)
  then have sv: "sint w = v" using v res sint_of_int_8[of v] by simp
  let ?s = "\<lambda>w. s\<lparr>enc_pulses := (enc_pulses s)[unat i := w]\<rparr>"
  consider "v = uint resolution" | "v = - uint resolution" | "\<bar>v\<bar> < uint resolution"
    using v by linarith
  then show ?thesis
  proof cases
    case 1
    obtain q' where q: "fst (encoder_queue_event (ucast i) False (?s w))
        = (?s w)\<lparr>enc_events := q'\<rparr>" "eq_inv q'"
      "eq_contents q' = eq_contents (enc_events s) @ [(i, False)]"
      "eq_capacity q' = eq_capacity (enc_events s)"
      using queue_event_room[of "?s w" i False] ok room
      by (auto simp: encoder_ok_def)
    have s'': "s' = s\<lparr>enc_pulses := (enc_pulses s)[unat i := 0], enc_events := q'\<rparr>"
      using res by (simp add: s' encoder_handle_state_change_def Let_def d(1) w_def[symmetric] sv queue_when_def
          q(1)) (simp add: 1)
    show ?thesis
      using ok res q 1 by (simp add: s'' encoder_ok_def encoder_position_def v_def algebra_simps)
  next
    case 2
    obtain q' where q: "fst (encoder_queue_event (ucast i) True (?s w))
        = (?s w)\<lparr>enc_events := q'\<rparr>" "eq_inv q'"
      "eq_contents q' = eq_contents (enc_events s) @ [(i, True)]"
      "eq_capacity q' = eq_capacity (enc_events s)"
      using queue_event_room[of "?s w" i True] ok room
      by (auto simp: encoder_ok_def)
    have nle: "\<not> uint resolution \<le> v" using 2 res by linarith
    have s'': "s' = s\<lparr>enc_pulses := (enc_pulses s)[unat i := 0], enc_events := q'\<rparr>"
      using res nle by (simp add: s' encoder_handle_state_change_def Let_def d(1) w_def[symmetric] sv
          queue_when_def q(1)) (simp add: 2)
    show ?thesis
      using ok res q 2 by (simp add: s'' encoder_ok_def encoder_position_def v_def algebra_simps)
  next
    case 3
    have nle: "\<not> uint resolution \<le> v" "\<not> v \<le> - uint resolution" using 3 by linarith+
    have s'': "s' = ?s w"
      using nle by (simp add: s' encoder_handle_state_change_def Let_def d(1) w_def[symmetric] sv
          queue_when_def smod_small[OF 3] \<open>w = word_of_int v\<close>[symmetric])
    show ?thesis
      using ok res 3 by (simp add: s'' encoder_ok_def encoder_position_def sv) (simp add: v_def)
  qed
qed

lemma handle_read_step:
  assumes ok: "encoder_ok resolution i s" and res: "0 < uint resolution" "uint resolution \<le> 127"
    and room: "length (eq_contents (enc_events s)) < eq_capacity (enc_events s)"
    and p: "enc_state s ! unat i AND 3 = shaft_phase p" and q: "\<bar>q - p\<bar> \<le> 1"
    and s': "s' = encoder_quadrature_handle_read resolution None (ucast i)
      (shaft_pin q False) (shaft_pin q True) s"
  shows "encoder_ok resolution i s' \<and> enc_state s' ! unat i AND 3 = shaft_phase q
    \<and> encoder_position resolution i s' = encoder_position resolution i s + (q - p)
    \<and> length (eq_contents (enc_events s')) \<le> Suc (length (eq_contents (enc_events s)))
    \<and> eq_capacity (enc_events s') = eq_capacity (enc_events s)"
proof (cases "q = p")
  case True
  with p have "s' = s" by (simp add: s' encoder_quadrature_handle_read_def shaft_pins Let_def)
  with True ok p show ?thesis by simp
next
  case False
  let ?n = "push_bit 2 (enc_state s ! unat i) OR shaft_phase q"
  let ?t = "s\<lparr>enc_state := (enc_state s)[unat i := ?n]\<rparr>"
  have len: "unat i < length (enc_state s)" using ok by (simp add: encoder_ok_def)
  have ne: "shaft_phase p \<noteq> shaft_phase q" using shaft_phase_eq_iff[OF q] False by auto
  have s'': "s' = encoder_handle_state_change resolution None (ucast i) ?n ?t"
    using len ne by (simp add: s' encoder_quadrature_handle_read_def shaft_pins p Let_def)
  note low = state_low_bits[OF shaft_phase_and, of "enc_state s ! unat i" q]
  have "encoder_LUT ! unat (?n AND 0xF) = q - p"
    using LUT_step[OF q] by (simp add: low p)
  from state_change_step[OF _ res _ this q s''] ok room len low(1)
  show ?thesis by (simp add: encoder_ok_def encoder_position_def)
qed

fun shaft_walk :: "int \<Rightarrow> int list \<Rightarrow> bool" where
  "shaft_walk p [] = True"
| "shaft_walk p (q # qs) = (\<bar>q - p\<bar> \<le> 1 \<and> shaft_walk q qs)"

fun read_shaft :: "u8 \<Rightarrow> 7 word \<Rightarrow> int list \<Rightarrow> encoder_sys \<Rightarrow> encoder_sys" where
  "read_shaft resolution i [] s = s"
| "read_shaft resolution i (q # qs) s = read_shaft resolution i qs
     (encoder_quadrature_handle_read resolution None (ucast i)
        (shaft_pin q False) (shaft_pin q True) s)"

text \<open>
  C24. The quadrature decoder tracks the shaft: over any walk of the shaft that moves at most one
  quarter step between two reads of the pins, the detents queued times the resolution plus the
  pulses kept change by exactly how far the shaft moved, as long as the queue has room, and
  the kept pulses stay below the resolution.
\<close>

theorem encoder_tracks_shaft:
  assumes "encoder_ok resolution i s" "0 < uint resolution" "uint resolution \<le> 127"
    and "length (eq_contents (enc_events s)) + length qs \<le> eq_capacity (enc_events s)"
    and "enc_state s ! unat i AND 3 = shaft_phase p" "shaft_walk p qs"
  shows "encoder_ok resolution i (read_shaft resolution i qs s)
    \<and> encoder_position resolution i (read_shaft resolution i qs s)
      = encoder_position resolution i s + (last (p # qs) - p)"
  using assms
proof (induction qs arbitrary: p s)
  case Nil
  then show ?case by simp
next
  case (Cons q qs)
  define s' where "s' = encoder_quadrature_handle_read resolution None (ucast i)
      (shaft_pin q False) (shaft_pin q True) s"
  have step: "encoder_ok resolution i s' \<and> enc_state s' ! unat i AND 3 = shaft_phase q
    \<and> encoder_position resolution i s' = encoder_position resolution i s + (q - p)
    \<and> length (eq_contents (enc_events s')) \<le> Suc (length (eq_contents (enc_events s)))
    \<and> eq_capacity (enc_events s') = eq_capacity (enc_events s)"
    using Cons.prems by (intro handle_read_step s'_def) auto
  with Cons.IH[of s' q] Cons.prems show ?case by (simp add: s'_def[symmetric])
qed

section \<open>The task\<close>

lemma queue_event_frame:
  assumes "eq_inv (enc_events s)"
  shows "eq_inv (enc_events (fst (encoder_queue_event index c s)))
    \<and> enc_exec (fst (encoder_queue_event index c s)) = enc_exec s"
proof -
  have "eq_inv (fst (encoder_queue_event_advanced (enc_events s) index c))"
    using assms unat_ring_index[of "length (eq_queue (enc_events s))"]
    by (auto simp: encoder_queue_event_advanced_def Let_def eq_inv_def)
  then show ?thesis by (auto simp: encoder_queue_event_def split: prod.splits)
qed

definition enc_frame :: "keyevent_t list \<Rightarrow> encoder_sys \<Rightarrow> bool" where
  "enc_frame xs s \<longleftrightarrow> eq_inv (enc_events s) \<and> enc_exec s = xs"

lemma enc_frame_queue_when: "enc_frame xs s \<Longrightarrow> enc_frame xs (queue_when b i c s)"
  using queue_event_frame[of s i c] by (simp add: enc_frame_def queue_when_def)

lemma enc_frame_update [simp]:
  "enc_frame xs (s\<lparr>enc_pulses := p\<rparr>) = enc_frame xs s"
  "enc_frame xs (s\<lparr>enc_state := p\<rparr>) = enc_frame xs s"
  "enc_frame xs (s\<lparr>enc_signal_queue_drain := b\<rparr>) = enc_frame xs s"
  by (simp_all add: enc_frame_def)

lemma enc_frame_driver: "enc_frame xs s \<Longrightarrow> enc_frame xs (encoder_driver_task res pos pin n s)"
  unfolding encoder_driver_task_def
  by (rule fold_invariant_on)
    (auto simp: encoder_quadrature_handle_read_def encoder_handle_state_change_def Let_def
      enc_frame_queue_when split: option.splits)

text \<open>
  C40. A pass of \<open>encoder_task\<close> that may process encoders always ends. It first drops what was
  queued if a drain was signalled, lets the driver read the pins, then hands
  \<open>action_exec\<close> a press and a release for each queued event, in the order they were queued,
  and leaves the queue empty; it reports a change exactly when there was an event.
\<close>

theorem encoder_task_drains:
  assumes "eq_inv (enc_events s)"
    and "t = encoder_driver_task res pos pin n
      (if enc_signal_queue_drain s then encoder_queue_drain (s\<lparr>enc_signal_queue_drain := False\<rparr>) else s)"
  shows "\<exists>s'. encoder_task clk True (encoder_driver_task res pos pin n) s
      = Some (s', eq_contents (enc_events t) \<noteq> [])
    \<and> eq_contents (enc_events s') = []
    \<and> enc_exec s' = enc_exec s @ exec_events clk (length (enc_exec s)) (eq_contents (enc_events t))"
proof -
  have "enc_frame (enc_exec s) t"
    unfolding assms(2) using assms(1)
    by (intro enc_frame_driver) (simp add: enc_frame_def encoder_queue_drain_def eq_inv_def)
  then have t: "eq_inv (enc_events t)" "enc_exec t = enc_exec s" by (simp_all add: enc_frame_def)
  have "encoder_task clk True (encoder_driver_task res pos pin n) s = encoder_handle_queue clk False t"
    by (simp add: encoder_task_def Let_def assms(2))
  with handle_queue_drains[OF t(1), of clk False] t(2) show ?thesis by auto
qed

section \<open>Witnesses\<close>

definition encoder_example :: encoder_sys where
  "encoder_example = \<lparr>enc_events = \<lparr>eq_enqueued = 0, eq_dequeued = 0, eq_head = 0, eq_tail = 0,
       eq_queue = replicate 8 \<lparr>ee_index = 0, ee_clockwise = 0\<rparr>\<rparr>,
     enc_signal_queue_drain = False, enc_state = [0], enc_pulses = [0], enc_exec = []\<rparr>"

theorem encoder_tracks_shaft_witness:
  "encoder_position 4 0 (read_shaft 4 0 [1, 2, 3, 4, 5] encoder_example) = 5"
proof -
  have "encoder_ok 4 0 encoder_example" "eq_contents (enc_events encoder_example) = []"
    "eq_capacity (enc_events encoder_example) = 7" "enc_state encoder_example ! unat (0 :: 7 word) AND 3 = shaft_phase 0"
    "encoder_position 4 0 encoder_example = 0"
    by (simp_all add: encoder_ok_def encoder_example_def eq_inv_def eq_contents_def eq_capacity_def
        shaft_phase_def encoder_position_def encoder_net_def)
  then show ?thesis
    using encoder_tracks_shaft[of 4 0 encoder_example "[1, 2, 3, 4, 5]" 0] by simp
qed

theorem encoder_task_drains_witness:
  "\<exists>s' b. encoder_task (\<lambda>_. 0) True (encoder_driver_task 4 None (\<lambda>_ _. 0) 1) encoder_example = Some (s', b)"
  using encoder_task_drains[of encoder_example _ 4 None "\<lambda>_ _. 0" 1 "\<lambda>_. 0"]
  by (auto simp: eq_inv_def encoder_example_def)

end
