(* ===== verification/Byte_Queue.thy ===== *)
theory Byte_Queue
  imports Ring_Queue
begin

text \<open>
  The byte queue of quantum/midi/bytequeue/bytequeue.c: a ring over an array of bytes with
  8-bit start, end and length. The functions run with interrupts off
  (\<open>store_and_clear_interrupt\<close> / \<open>restore_interrupt_setting\<close>), so each is one atomic step.
\<close>

record byteQueue_t =
  bq_start :: u8
  bq_end :: u8
  bq_length :: u8
  bq_data :: "u8 list"

definition bytequeue_init :: "byteQueue_t \<Rightarrow> u8 list \<Rightarrow> u8 \<Rightarrow> byteQueue_t" where
  "bytequeue_init queue dataArray arrayLen =
     queue\<lparr>bq_length := arrayLen, bq_data := dataArray, bq_start := 0, bq_end := 0\<rparr>"

text \<open>\<open>(queue->end + 1) % queue->length\<close> is an \<open>int\<close> expression: it does not wrap at 256.\<close>

definition bytequeue_enqueue :: "byteQueue_t \<Rightarrow> u8 \<Rightarrow> byteQueue_t \<times> bool" where
  "bytequeue_enqueue queue item =
     (if (unat (bq_end queue) + 1) mod unat (bq_length queue) = unat (bq_start queue)
      then (queue, False)
      else (queue\<lparr>bq_data := (bq_data queue)[unat (bq_end queue) := item],
                  bq_end := of_nat ((unat (bq_end queue) + 1) mod unat (bq_length queue))\<rparr>,
            True))"

definition bytequeue_length :: "byteQueue_t \<Rightarrow> u8" where
  "bytequeue_length queue =
     (if bq_start queue \<le> bq_end queue then bq_end queue - bq_start queue
      else (bq_length queue - bq_start queue) + bq_end queue)"

definition bytequeue_get :: "byteQueue_t \<Rightarrow> u8 \<Rightarrow> u8" where
  "bytequeue_get queue index =
     bq_data queue ! ((unat (bq_start queue) + unat index) mod unat (bq_length queue))"

definition bytequeue_remove :: "byteQueue_t \<Rightarrow> u8 \<Rightarrow> byteQueue_t" where
  "bytequeue_remove queue numToRemove =
     queue\<lparr>bq_start :=
       of_nat ((unat (bq_start queue) + unat numToRemove) mod unat (bq_length queue))\<rparr>"

section \<open>The queue as a list of bytes\<close>

definition bq_inv :: "byteQueue_t \<Rightarrow> bool" where
  "bq_inv q \<longleftrightarrow> length (bq_data q) = unat (bq_length q)
     \<and> bq_start q < bq_length q \<and> bq_end q < bq_length q"

definition bq_contents :: "byteQueue_t \<Rightarrow> u8 list" where
  "bq_contents q = ring_list (bq_data q) (unat (bq_start q)) (unat (bq_end q))"

definition bq_capacity :: "byteQueue_t \<Rightarrow> nat" where
  "bq_capacity q = unat (bq_length q) - 1"

text \<open>Reading and taking the first byte, the way the consumer of the queue does it.\<close>

definition bq_take :: "byteQueue_t \<Rightarrow> (u8 \<times> byteQueue_t) option" where
  "bq_take q = (if bytequeue_length q = 0 then None
     else Some (bytequeue_get q 0, bytequeue_remove q 1))"

lemma bq_indices:
  assumes "bq_inv q"
  shows "unat (bq_start q) < length (bq_data q)" "unat (bq_end q) < length (bq_data q)"
    "length (bq_data q) = unat (bq_length q)"
  using assms by (auto simp: bq_inv_def word_less_nat_alt)

lemma unat_index_mod:
  "0 < unat (n :: u8) \<Longrightarrow> unat (of_nat (k mod unat n) :: u8) = k mod unat n"
  using order.strict_trans[OF mod_less_divisor unat_lt_256, of n k] by (simp add: unat_of_nat_mod)

lemma unat_bytequeue_length:
  assumes "bq_inv q"
  shows "unat (bytequeue_length q) = length (bq_contents q)"
proof -
  note i = bq_indices[OF assms]
  have "unat (bq_length q - bq_start q + bq_end q)
      = unat (bq_length q) - unat (bq_start q) + unat (bq_end q)"
    if "\<not> bq_start q \<le> bq_end q"
  proof -
    from that have "unat (bq_end q) < unat (bq_start q)" by (simp add: word_le_nat_alt)
    with i unat_lt_256[of "bq_length q"] show ?thesis
      by (subst unat_add_lem[THEN iffD1]) (auto simp: unat_sub word_le_nat_alt)
  qed
  with i show ?thesis
    by (auto simp: bytequeue_length_def bq_contents_def ring_count_def word_le_nat_alt unat_sub)
qed

lemma bq_take_eq:
  assumes "bq_inv q"
  shows "bq_take q = (case bq_contents q of [] \<Rightarrow> None
    | x # _ \<Rightarrow> Some (x, q\<lparr>bq_start := of_nat (Suc (unat (bq_start q)) mod unat (bq_length q))\<rparr>))"
proof -
  note i = bq_indices[OF assms]
  have "bytequeue_length q = 0 \<longleftrightarrow> bq_contents q = []"
    using unat_bytequeue_length[OF assms] unat_eq_0_iff[of "bytequeue_length q"] by auto
  moreover have "bytequeue_get q 0 = bq_data q ! unat (bq_start q)"
    using i by (simp add: bytequeue_get_def)
  moreover have "bq_contents q = x # xs \<Longrightarrow> x = bq_data q ! unat (bq_start q)" for x xs
    using ring_list_Cons[OF i(1,2)] by (simp add: bq_contents_def)
  ultimately show ?thesis
    by (auto simp: bq_take_def bytequeue_remove_def split: list.split)
qed

lemma bq_deq:
  assumes "bq_inv q" "bq_contents q = x # xs"
  shows "\<exists>q'. bq_take q = Some (x, q') \<and> bq_inv q' \<and> bq_contents q' = xs
    \<and> bq_capacity q' = bq_capacity q"
proof -
  note i = bq_indices[OF assms(1)]
  let ?s = "Suc (unat (bq_start q)) mod unat (bq_length q)"
  let ?q = "q\<lparr>bq_start := of_nat ?s\<rparr>"
  have u: "unat (of_nat ?s :: u8) = ?s" using i by (intro unat_index_mod) simp
  have "bq_contents ?q = xs"
    using ring_list_Cons[OF i(1,2)] assms(2) i(3) by (simp add: bq_contents_def u)
  moreover have "bq_inv ?q" using assms(1) i u by (auto simp: bq_inv_def word_less_nat_alt)
  ultimately show ?thesis by (simp add: bq_take_eq[OF assms(1)] assms(2) bq_capacity_def)
qed

lemma bq_enq:
  assumes "bq_inv q"
  shows "bq_inv (fst (bytequeue_enqueue q x))"
    and "bq_capacity (fst (bytequeue_enqueue q x)) = bq_capacity q"
    and "length (bq_contents q) < bq_capacity q \<Longrightarrow> snd (bytequeue_enqueue q x)
      \<and> bq_contents (fst (bytequeue_enqueue q x)) = bq_contents q @ [x]"
    and "length (bq_contents q) = bq_capacity q \<Longrightarrow> bytequeue_enqueue q x = (q, False)"
proof -
  note i = bq_indices[OF assms]
  let ?e = "Suc (unat (bq_end q)) mod unat (bq_length q)"
  have u: "unat (of_nat ?e :: u8) = ?e" using i by (intro unat_index_mod) simp
  have full: "?e = unat (bq_start q) \<longleftrightarrow> length (bq_contents q) = bq_capacity q"
    using ring_full_iff[OF i(1,2)] i(3) by (simp add: bq_contents_def bq_capacity_def)
  show "bq_inv (fst (bytequeue_enqueue q x))"
    using assms i u by (auto simp: bytequeue_enqueue_def bq_inv_def word_less_nat_alt)
  show "bq_capacity (fst (bytequeue_enqueue q x)) = bq_capacity q"
    by (simp add: bytequeue_enqueue_def bq_capacity_def)
  show "length (bq_contents q) = bq_capacity q \<Longrightarrow> bytequeue_enqueue q x = (q, False)"
    using full by (simp add: bytequeue_enqueue_def)
  show "snd (bytequeue_enqueue q x)
      \<and> bq_contents (fst (bytequeue_enqueue q x)) = bq_contents q @ [x]"
    if "length (bq_contents q) < bq_capacity q"
    using that full ring_list_enq[OF i(1,2), of x] i(3)
    by (auto simp: bytequeue_enqueue_def bq_contents_def u)
qed

interpretation bq: bounded_fifo bytequeue_enqueue bq_take bq_contents bq_capacity bq_inv
proof
  fix q :: byteQueue_t and x y q' xs
  assume inv: "bq_inv q"
  show "length (bq_contents q) \<le> bq_capacity q"
    using ring_count_lt[OF bq_indices(1,2)[OF inv]] bq_indices(3)[OF inv]
    by (simp add: bq_contents_def bq_capacity_def)
  show "bq_contents q = [] \<Longrightarrow> bq_take q = None" by (simp add: bq_take_eq[OF inv])
  show "bq_contents q = x # xs \<Longrightarrow> \<exists>q'. bq_take q = Some (x, q') \<and> bq_contents q' = xs"
    using bq_deq[OF inv] by blast
  assume d: "bq_take q = Some (x, q')"
  then obtain xs where "bq_contents q = x # xs"
    by (auto simp: bq_take_eq[OF inv] split: list.splits)
  from bq_deq[OF inv this] d show "bq_inv q'" "bq_capacity q' = bq_capacity q" by auto
qed (use bq_enq in auto)

lemma bytequeue_init_inv:
  "length xs = unat n \<Longrightarrow> 0 < n \<Longrightarrow> bq_inv (bytequeue_init q xs n)
    \<and> bq_contents (bytequeue_init q xs n) = []"
  by (simp add: bq_inv_def bytequeue_init_def bq_contents_def)

end
