(* ===== verification/Midi.thy ===== *)
theory Midi
  imports Byte_Queue
begin

text \<open>
  The MIDI byte stream of quantum/midi: the message senders and the registration of callbacks
  (midi.c), and the input side (midi_device.c): a byte queue filled by \<open>midi_device_input\<close> and
  a byte parser with running status, system-exclusive messages and realtime bytes that may
  appear anywhere.

  A callback pointer is modelled by whether it is set (\<open>md_cb\<close>); the calls made through the
  pointers are collected in \<open>md_calls\<close>, in order. A sender returns the arguments it passes to
  \<open>send_func\<close>.
\<close>

section \<open>Message bytes (midi.h)\<close>

definition MIDI_CC :: u8 where "MIDI_CC = 0xB0"
definition MIDI_NOTEON :: u8 where "MIDI_NOTEON = 0x90"
definition MIDI_NOTEOFF :: u8 where "MIDI_NOTEOFF = 0x80"
definition MIDI_AFTERTOUCH :: u8 where "MIDI_AFTERTOUCH = 0xA0"
definition MIDI_PITCHBEND :: u8 where "MIDI_PITCHBEND = 0xE0"
definition MIDI_PROGCHANGE :: u8 where "MIDI_PROGCHANGE = 0xC0"
definition MIDI_CHANPRESSURE :: u8 where "MIDI_CHANPRESSURE = 0xD0"
definition MIDI_CLOCK :: u8 where "MIDI_CLOCK = 0xF8"
definition MIDI_TICK :: u8 where "MIDI_TICK = 0xF9"
definition MIDI_START :: u8 where "MIDI_START = 0xFA"
definition MIDI_CONTINUE :: u8 where "MIDI_CONTINUE = 0xFB"
definition MIDI_STOP :: u8 where "MIDI_STOP = 0xFC"
definition MIDI_ACTIVESENSE :: u8 where "MIDI_ACTIVESENSE = 0xFE"
definition MIDI_RESET :: u8 where "MIDI_RESET = 0xFF"
definition MIDI_TC_QUARTERFRAME :: u8 where "MIDI_TC_QUARTERFRAME = 0xF1"
definition MIDI_SONGPOSITION :: u8 where "MIDI_SONGPOSITION = 0xF2"
definition MIDI_SONGSELECT :: u8 where "MIDI_SONGSELECT = 0xF3"
definition MIDI_TUNEREQUEST :: u8 where "MIDI_TUNEREQUEST = 0xF6"
definition SYSEX_BEGIN :: u8 where "SYSEX_BEGIN = 0xF0"
definition SYSEX_END :: u8 where "SYSEX_END = 0xF7"
definition MIDI_STATUSMASK :: u8 where "MIDI_STATUSMASK = 0x80"
definition MIDI_CHANMASK :: u8 where "MIDI_CHANMASK = 0x0F"

lemmas midi_codes = MIDI_CC_def MIDI_NOTEON_def MIDI_NOTEOFF_def MIDI_AFTERTOUCH_def
  MIDI_PITCHBEND_def MIDI_PROGCHANGE_def MIDI_CHANPRESSURE_def MIDI_CLOCK_def MIDI_TICK_def
  MIDI_START_def MIDI_CONTINUE_def MIDI_STOP_def MIDI_ACTIVESENSE_def MIDI_RESET_def
  MIDI_TC_QUARTERFRAME_def MIDI_SONGPOSITION_def MIDI_SONGSELECT_def MIDI_TUNEREQUEST_def
  SYSEX_BEGIN_def SYSEX_END_def MIDI_STATUSMASK_def MIDI_CHANMASK_def

definition midi_is_statusbyte :: "u8 \<Rightarrow> bool" where
  "midi_is_statusbyte theByte \<longleftrightarrow> theByte AND MIDI_STATUSMASK \<noteq> 0"

definition midi_is_realtime :: "u8 \<Rightarrow> bool" where
  "midi_is_realtime theByte \<longleftrightarrow> theByte \<ge> MIDI_CLOCK"

datatype midi_packet_length_t = UNDEFINED | ONE | TWO | THREE

definition midi_packet_length :: "u8 \<Rightarrow> midi_packet_length_t" where
  "midi_packet_length status =
     (let hi = status AND 0xF0
      in if hi \<in> {MIDI_CC, MIDI_NOTEON, MIDI_NOTEOFF, MIDI_AFTERTOUCH, MIDI_PITCHBEND} then THREE
         else if hi \<in> {MIDI_PROGCHANGE, MIDI_CHANPRESSURE, MIDI_SONGSELECT} then TWO
         else if hi = 0xF0 then
           (if status \<in> {MIDI_CLOCK, MIDI_TICK, MIDI_START, MIDI_CONTINUE, MIDI_STOP,
                         MIDI_ACTIVESENSE, MIDI_RESET, MIDI_TUNEREQUEST} then ONE
            else if status = MIDI_SONGPOSITION then THREE
            else if status = MIDI_TC_QUARTERFRAME \<or> status = MIDI_SONGSELECT then TWO
            else UNDEFINED)
         else UNDEFINED)"

section \<open>Senders\<close>

type_synonym midi_packet = "u16 \<times> u8 \<times> u8 \<times> u8"

definition midi_send_cc :: "u8 \<Rightarrow> u8 \<Rightarrow> u8 \<Rightarrow> midi_packet" where
  "midi_send_cc chan num val = (3, MIDI_CC OR (chan AND MIDI_CHANMASK), num AND 0x7F, val AND 0x7F)"

definition midi_send_noteon :: "u8 \<Rightarrow> u8 \<Rightarrow> u8 \<Rightarrow> midi_packet" where
  "midi_send_noteon chan num vel =
     (3, MIDI_NOTEON OR (chan AND MIDI_CHANMASK), num AND 0x7F, vel AND 0x7F)"

definition midi_send_noteoff :: "u8 \<Rightarrow> u8 \<Rightarrow> u8 \<Rightarrow> midi_packet" where
  "midi_send_noteoff chan num vel =
     (3, MIDI_NOTEOFF OR (chan AND MIDI_CHANMASK), num AND 0x7F, vel AND 0x7F)"

definition midi_send_aftertouch :: "u8 \<Rightarrow> u8 \<Rightarrow> u8 \<Rightarrow> midi_packet" where
  "midi_send_aftertouch chan note_num amt =
     (3, MIDI_AFTERTOUCH OR (chan AND MIDI_CHANMASK), note_num AND 0x7F, amt AND 0x7F)"

text \<open>\<open>amt\<close> is an \<open>int16_t\<close>.\<close>

definition midi_send_pitchbend :: "u8 \<Rightarrow> u16 \<Rightarrow> midi_packet" where
  "midi_send_pitchbend chan amt =
     (let uAmt :: u16 = (if sint amt > 0x1fff then 0x3FFF
                         else if sint amt < - 0x2000 then 0
                         else word_of_int (sint amt + 0x2000))
      in (3, MIDI_PITCHBEND OR (chan AND MIDI_CHANMASK), ucast (uAmt AND 0x7F),
          ucast (drop_bit 7 uAmt AND 0x7F)))"

definition midi_send_programchange :: "u8 \<Rightarrow> u8 \<Rightarrow> midi_packet" where
  "midi_send_programchange chan num =
     (2, MIDI_PROGCHANGE OR (chan AND MIDI_CHANMASK), num AND 0x7F, 0)"

definition midi_send_channelpressure :: "u8 \<Rightarrow> u8 \<Rightarrow> midi_packet" where
  "midi_send_channelpressure chan amt =
     (2, MIDI_CHANPRESSURE OR (chan AND MIDI_CHANMASK), amt AND 0x7F, 0)"

text \<open>\<open>midi_send_clock\<close> to \<open>midi_send_reset\<close> differ in the status byte only.\<close>

definition midi_send_realtime :: "u8 \<Rightarrow> midi_packet" where
  "midi_send_realtime status = (1, status, 0, 0)"

definition midi_send_tcquarterframe :: "u8 \<Rightarrow> midi_packet" where
  "midi_send_tcquarterframe time = (2, MIDI_TC_QUARTERFRAME, time AND 0x7F, 0)"

definition midi_send_songposition :: "u16 \<Rightarrow> midi_packet" where
  "midi_send_songposition pos =
     (3, MIDI_SONGPOSITION, ucast (pos AND 0x7F), ucast (drop_bit 7 pos AND 0x7F))"

definition midi_send_songselect :: "u8 \<Rightarrow> midi_packet" where
  "midi_send_songselect song = (2, MIDI_SONGSELECT, song AND 0x7F, 0)"

definition midi_send_data :: "u16 \<Rightarrow> u8 \<Rightarrow> u8 \<Rightarrow> u8 \<Rightarrow> midi_packet" where
  "midi_send_data count byte0 byte1 byte2 = (count, byte0, byte1, byte2)"

text \<open>
  \<open>for (i = 0; i < count; i += 3)\<close>, at most three bytes per packet. The index is a \<open>uint16_t\<close>:
  the last step from 65532 to 65535 does not wrap, and 65535 is not below any count.
\<close>

function midi_send_array_from :: "nat \<Rightarrow> u16 \<Rightarrow> u8 list \<Rightarrow> midi_packet list" where
  "midi_send_array_from i count xs =
     (if i < unat count then
        let to_send = (if unat count - i > 3 then 3 else unat count - i);
            b = take to_send (drop i xs) @ replicate (3 - to_send) 0
        in midi_send_data (of_nat to_send) (b ! 0) (b ! 1) (b ! 2)
           # midi_send_array_from (i + 3) count xs
      else [])"
  by pat_completeness auto
termination
  by (relation "measure (\<lambda>(i, count, xs). unat count - i)") auto

declare midi_send_array_from.simps [simp del]

definition midi_send_array :: "u16 \<Rightarrow> u8 list \<Rightarrow> midi_packet list" where
  "midi_send_array count xs = midi_send_array_from 0 count xs"

section \<open>The device\<close>

datatype input_state_t = IDLE | ONE_BYTE_MESSAGE | TWO_BYTE_MESSAGE | THREE_BYTE_MESSAGE | SYSEX_MESSAGE

datatype midi_callback =
    Cb_cc | Cb_noteon | Cb_noteoff | Cb_aftertouch | Cb_pitchbend | Cb_songposition
  | Cb_progchange | Cb_chanpressure | Cb_songselect | Cb_tc_quarterframe
  | Cb_realtime | Cb_tunerequest
  | Cb_sysex | Cb_fallthrough | Cb_catchall

datatype midi_call =
    Call3 midi_callback u8 u8 u8
  | Call2 midi_callback u8 u8
  | Call1 midi_callback u8
  | CallSysex u16 u8 "u8 list"
  | CallVar midi_callback u16 u8 u8 u8

record midi_device =
  md_cb :: "midi_callback \<Rightarrow> bool"
  md_input_buffer :: "u8 list"
  md_input_state :: input_state_t
  md_input_count :: u16
  md_input_queue :: byteQueue_t
  md_calls :: "midi_call list"

definition MIDI_INPUT_QUEUE_LENGTH :: u8 where "MIDI_INPUT_QUEUE_LENGTH = 192"

definition midi_device_init :: "midi_device \<Rightarrow> u8 list \<Rightarrow> midi_device" where
  "midi_device_init device input_queue_data =
     device\<lparr>md_input_state := IDLE, md_input_count := 0,
       md_input_queue :=
         bytequeue_init (md_input_queue device) input_queue_data MIDI_INPUT_QUEUE_LENGTH,
       md_cb := (\<lambda>_. False)\<rparr>"

text \<open>All the \<open>midi_register_..._callback\<close> functions: \<open>func\<close> says whether the pointer is not null.\<close>

definition midi_register_callback :: "midi_device \<Rightarrow> midi_callback \<Rightarrow> bool \<Rightarrow> midi_device" where
  "midi_register_callback device cb func = device\<lparr>md_cb := (md_cb device)(cb := func)\<rparr>"

definition midi_device_input :: "midi_device \<Rightarrow> u8 list \<Rightarrow> midi_device" where
  "midi_device_input device input =
     fold (\<lambda>x d. d\<lparr>md_input_queue := fst (bytequeue_enqueue (md_input_queue d) x)\<rparr>) input device"

definition call_if :: "midi_device \<Rightarrow> midi_callback option \<Rightarrow> (midi_callback \<Rightarrow> midi_call) \<Rightarrow> midi_call list" where
  "call_if device func call =
     (case func of None \<Rightarrow> [] | Some cb \<Rightarrow> if md_cb device cb then [call cb] else [])"

definition three_byte_func :: "u8 \<Rightarrow> midi_callback option" where
  "three_byte_func byte0 =
     (let hi = byte0 AND 0xF0
      in if hi = MIDI_CC then Some Cb_cc
         else if hi = MIDI_NOTEON then Some Cb_noteon
         else if hi = MIDI_NOTEOFF then Some Cb_noteoff
         else if hi = MIDI_AFTERTOUCH then Some Cb_aftertouch
         else if hi = MIDI_PITCHBEND then Some Cb_pitchbend
         else if hi = 0xF0 then (if byte0 = MIDI_SONGPOSITION then Some Cb_songposition else None)
         else None)"

definition two_byte_func :: "u8 \<Rightarrow> midi_callback option" where
  "two_byte_func byte0 =
     (let hi = byte0 AND 0xF0
      in if hi = MIDI_PROGCHANGE then Some Cb_progchange
         else if hi = MIDI_CHANPRESSURE then Some Cb_chanpressure
         else if hi = 0xF0 then
           (if byte0 = MIDI_SONGSELECT then Some Cb_songselect
            else if byte0 = MIDI_TC_QUARTERFRAME then Some Cb_tc_quarterframe
            else None)
         else None)"

definition one_byte_func :: "u8 \<Rightarrow> midi_callback option" where
  "one_byte_func byte0 =
     (if midi_is_realtime byte0 then Some Cb_realtime
      else if byte0 = MIDI_TUNEREQUEST then Some Cb_tunerequest
      else None)"

text \<open>The specific callback, if any, and the count as the \<open>switch\<close> leaves it.\<close>

definition midi_specific_call :: "midi_device \<Rightarrow> u16 \<Rightarrow> u8 \<Rightarrow> u8 \<Rightarrow> u8 \<Rightarrow> midi_call list \<times> u16" where
  "midi_specific_call device cnt byte0 byte1 byte2 =
     (if md_input_state device = SYSEX_MESSAGE then
        (let start = (unat cnt - 1) div 3 * 3; len = unat cnt - start
         in (call_if device (Some Cb_sysex)
               (\<lambda>_. CallSysex (of_nat start) (of_nat len) [byte0, byte1, byte2]), cnt))
      else if cnt = 3 then
        (call_if device (three_byte_func byte0)
           (\<lambda>cb. if byte0 = MIDI_SONGPOSITION then Call3 cb byte0 byte1 byte2
                 else Call3 cb (byte0 AND 0x0F) byte1 byte2), cnt)
      else if cnt = 2 then
        (call_if device (two_byte_func byte0)
           (\<lambda>cb. if byte0 = MIDI_SONGSELECT \<or> byte0 = MIDI_TC_QUARTERFRAME then Call2 cb byte0 byte1
                 else Call2 cb (byte0 AND 0x0F) byte1), cnt)
      else if cnt = 1 then (call_if device (one_byte_func byte0) (\<lambda>cb. Call1 cb byte0), cnt)
      else ([], if cnt > 3 then 0 else cnt))"

definition midi_input_callbacks :: "midi_device \<Rightarrow> u16 \<Rightarrow> u8 \<Rightarrow> u8 \<Rightarrow> u8 \<Rightarrow> midi_device" where
  "midi_input_callbacks device cnt byte0 byte1 byte2 =
     (case midi_specific_call device cnt byte0 byte1 byte2 of (calls, cnt) \<Rightarrow>
        device\<lparr>md_calls := md_calls device @ calls
          @ (if calls = [] \<and> md_cb device Cb_fallthrough
             then [CallVar Cb_fallthrough cnt byte0 byte1 byte2] else [])
          @ (if md_cb device Cb_catchall
             then [CallVar Cb_catchall cnt byte0 byte1 byte2] else [])\<rparr>)"

definition callbacks_from_buffer :: "midi_device \<Rightarrow> midi_device" where
  "callbacks_from_buffer d = midi_input_callbacks d (md_input_count d)
     (md_input_buffer d ! 0) (md_input_buffer d ! 1) (md_input_buffer d ! 2)"

definition midi_status_byte :: "midi_device \<Rightarrow> u8 \<Rightarrow> midi_device" where
  "midi_status_byte device input =
     (let d = (if md_input_state device \<noteq> SYSEX_MESSAGE
               then device\<lparr>md_input_buffer := (md_input_buffer device)[0 := input],
                           md_input_count := 1\<rparr>
               else device)
      in case midi_packet_length input of
           ONE \<Rightarrow> (midi_input_callbacks (d\<lparr>md_input_state := ONE_BYTE_MESSAGE\<rparr>) 1 input 0 0)
                    \<lparr>md_input_state := IDLE\<rparr>
         | TWO \<Rightarrow> d\<lparr>md_input_state := TWO_BYTE_MESSAGE\<rparr>
         | THREE \<Rightarrow> d\<lparr>md_input_state := THREE_BYTE_MESSAGE\<rparr>
         | UNDEFINED \<Rightarrow>
             (if input = SYSEX_BEGIN then
                d\<lparr>md_input_state := SYSEX_MESSAGE,
                  md_input_buffer := (md_input_buffer d)[0 := input], md_input_count := 1\<rparr>
              else if input = SYSEX_END then
                (callbacks_from_buffer
                  (d\<lparr>md_input_buffer :=
                       (md_input_buffer d)[unat (md_input_count d) mod 3 := input],
                     md_input_count := md_input_count d + 1\<rparr>))\<lparr>md_input_state := IDLE\<rparr>
              else d\<lparr>md_input_state := IDLE, md_input_count := 0\<rparr>))"

definition keep_running_status :: "midi_device \<Rightarrow> midi_device" where
  "keep_running_status d =
     (if md_input_state d \<noteq> SYSEX_MESSAGE then d\<lparr>md_input_count := 1\<rparr> else d)"

definition midi_data_byte :: "midi_device \<Rightarrow> u8 \<Rightarrow> midi_device" where
  "midi_data_byte device input =
     (if md_input_state device \<noteq> IDLE then
        let prev = md_input_count device;
            d = device\<lparr>md_input_buffer := (md_input_buffer device)[unat prev mod 3 := input],
                       md_input_count := prev + 1\<rparr>
        in if unat prev mod 3 = 2 then keep_running_status (callbacks_from_buffer d)
           else if unat prev mod 3 = 1 then
             (if md_input_state d = TWO_BYTE_MESSAGE then
                keep_running_status (midi_input_callbacks d (md_input_count d)
                  (md_input_buffer d ! 0) (md_input_buffer d ! 1) 0)
              else d)
           else d
      else device)"

definition midi_process_byte :: "midi_device \<Rightarrow> u8 \<Rightarrow> midi_device" where
  "midi_process_byte device input =
     (if midi_is_realtime input then
        let state = md_input_state device
        in (midi_input_callbacks (device\<lparr>md_input_state := ONE_BYTE_MESSAGE\<rparr>) 1 input 0 0)
             \<lparr>md_input_state := state\<rparr>
      else if midi_is_statusbyte input then midi_status_byte device input
      else midi_data_byte device input)"

text \<open>
  The loop of \<open>midi_device_process\<close>, run \<open>bytequeue_length\<close> times. The callbacks of the model
  do not add to the queue. No \<open>pre_input_process_callback\<close> is registered.
\<close>

fun process_queued :: "nat \<Rightarrow> midi_device \<Rightarrow> midi_device" where
  "process_queued 0 device = device"
| "process_queued (Suc n) device =
     (let val = bytequeue_get (md_input_queue device) 0;
          device = midi_process_byte device val
      in process_queued n
           (device\<lparr>md_input_queue := bytequeue_remove (md_input_queue device) 1\<rparr>))"

definition midi_device_process :: "midi_device \<Rightarrow> midi_device" where
  "midi_device_process device =
     process_queued (unat (bytequeue_length (md_input_queue device))) device"

section \<open>The parser and the queue\<close>

lemma midi_input_callbacks_frame [reads_simps]:
  "md_cb (midi_input_callbacks d n a b c) = md_cb d"
  "md_input_buffer (midi_input_callbacks d n a b c) = md_input_buffer d"
  "md_input_state (midi_input_callbacks d n a b c) = md_input_state d"
  "md_input_count (midi_input_callbacks d n a b c) = md_input_count d"
  "md_input_queue (midi_input_callbacks d n a b c) = md_input_queue d"
  by (simp_all add: midi_input_callbacks_def split: prod.splits)

text \<open>The parser neither reads the queue nor the record of calls: both can be changed around it.\<close>

lemma midi_specific_call_cong:
  assumes "md_cb d = md_cb d'" "md_input_state d = md_input_state d'"
  shows "midi_specific_call d n b0 b1 b2 = midi_specific_call d' n b0 b1 b2"
  unfolding midi_specific_call_def call_if_def assms ..

definition midi_around :: "byteQueue_t \<Rightarrow> midi_call list \<Rightarrow> midi_device \<Rightarrow> midi_device" where
  "midi_around q c d = d\<lparr>md_input_queue := q, md_calls := c @ md_calls d\<rparr>"

lemma midi_around_sel [simp]:
  "md_cb (midi_around q c d) = md_cb d"
  "md_input_buffer (midi_around q c d) = md_input_buffer d"
  "md_input_state (midi_around q c d) = md_input_state d"
  "md_input_count (midi_around q c d) = md_input_count d"
  "md_input_queue (midi_around q c d) = q"
  "md_calls (midi_around q c d) = c @ md_calls d"
  by (simp_all add: midi_around_def)

lemma midi_around_upd:
  "(midi_around q c d)\<lparr>md_input_buffer := b\<rparr> = midi_around q c (d\<lparr>md_input_buffer := b\<rparr>)"
  "(midi_around q c d)\<lparr>md_input_state := st\<rparr> = midi_around q c (d\<lparr>md_input_state := st\<rparr>)"
  "(midi_around q c d)\<lparr>md_input_count := n\<rparr> = midi_around q c (d\<lparr>md_input_count := n\<rparr>)"
  by (simp_all add: midi_around_def)

lemma callbacks_around:
  "midi_input_callbacks (midi_around q c d) n b0 b1 b2
     = midi_around q c (midi_input_callbacks d n b0 b1 b2)"
proof -
  have "midi_specific_call (midi_around q c d) n b0 b1 b2 = midi_specific_call d n b0 b1 b2"
    by (rule midi_specific_call_cong) simp_all
  then show ?thesis
    by (simp add: midi_input_callbacks_def midi_around_def split: prod.split)
qed

lemma process_byte_around:
  "midi_process_byte (midi_around q c d) x = midi_around q c (midi_process_byte d x)"
proof -
  have "midi_status_byte (midi_around q c d) x = midi_around q c (midi_status_byte d x)"
    unfolding midi_status_byte_def callbacks_from_buffer_def Let_def
    by (simp add: midi_around_upd callbacks_around split: midi_packet_length_t.split)
  moreover have "midi_data_byte (midi_around q c d) x = midi_around q c (midi_data_byte d x)"
    unfolding midi_data_byte_def callbacks_from_buffer_def keep_running_status_def Let_def
    by (simp add: midi_around_upd callbacks_around)
  ultimately show ?thesis
    unfolding midi_process_byte_def Let_def by (simp add: midi_around_upd callbacks_around)
qed

lemma midi_around_self: "midi_around (md_input_queue d) (md_calls d) (d\<lparr>md_calls := []\<rparr>) = d"
  by (simp add: midi_around_def)

lemma process_byte_queue [reads_simps]:
  "md_input_queue (midi_process_byte d x) = md_input_queue d"
  using process_byte_around[of "md_input_queue d" "md_calls d" "d\<lparr>md_calls := []\<rparr>" x]
  by (metis midi_around_self midi_around_sel(5))

lemma fold_process_around:
  "fold (\<lambda>x d. midi_process_byte d x) xs (midi_around q c d)
     = midi_around q c (fold (\<lambda>x d. midi_process_byte d x) xs d)"
  by (induction xs arbitrary: d) (simp_all add: process_byte_around)

abbreviation midi_parse :: "u8 list \<Rightarrow> midi_device \<Rightarrow> midi_device" where
  "midi_parse xs d \<equiv> fold (\<lambda>x d. midi_process_byte d x) xs d"

text \<open>One round of the processing loop, as a consumer of the queue interface.\<close>

definition process_one :: "midi_device \<Rightarrow> midi_device" where
  "process_one device = process_queued 1 device"

lemma process_queued_funpow: "process_queued n d = (process_one ^^ n) d"
proof (induction n arbitrary: d)
  case (Suc n)
  have "process_queued (Suc n) d = process_queued n (process_one d)"
    by (simp add: process_one_def Let_def)
  with Suc show ?case by (simp add: funpow_Suc_right del: funpow.simps process_queued.simps)
qed simp

lemma set_queue_around: "d\<lparr>md_input_queue := q\<rparr> = midi_around q [] d"
  by (simp add: midi_around_def)

lemma process_one_step:
  assumes "bq_inv (md_input_queue d)" "bq_take (md_input_queue d) = Some (x, q')"
  shows "md_input_queue (process_one d) = q'
    \<and> (process_one d)\<lparr>md_input_queue := q\<rparr> = midi_process_byte (d\<lparr>md_input_queue := q\<rparr>) x"
proof -
  have "x = bytequeue_get (md_input_queue d) 0" "q' = bytequeue_remove (md_input_queue d) 1"
    using assms(2) by (auto simp: bq_take_def split: if_splits)
  then show ?thesis
    by (simp add: process_one_def Let_def reads_simps set_queue_around process_byte_around)
qed

lemma midi_device_process_parses:
  assumes inv: "bq_inv (md_input_queue d)"
  shows "bq_inv (md_input_queue (midi_device_process d))
    \<and> bq_contents (md_input_queue (midi_device_process d)) = []
    \<and> (midi_device_process d)\<lparr>md_input_queue := q\<rparr>
      = midi_parse (bq_contents (md_input_queue d)) (d\<lparr>md_input_queue := q\<rparr>)"
  using bq.consume_prefix[where qu = md_input_queue and st = process_one
      and obs = "\<lambda>d. d\<lparr>md_input_queue := q\<rparr>" and f = "\<lambda>x d. midi_process_byte d x"
      and s = d and k = "length (bq_contents (md_input_queue d))"] process_one_step inv
  by (simp add: midi_device_process_def unat_bytequeue_length[OF inv] process_queued_funpow)

lemma midi_device_input_queue:
  "midi_device_input d xs
     = d\<lparr>md_input_queue := fold (\<lambda>x q. fst (bytequeue_enqueue q x)) xs (md_input_queue d)\<rparr>"
  unfolding midi_device_input_def by (induction xs arbitrary: d) simp_all

section \<open>Messages survive the round trip\<close>

datatype midi_message =
    CC u8 u8 u8 | NoteOn u8 u8 u8 | NoteOff u8 u8 u8 | Aftertouch u8 u8 u8
  | PitchBend u8 u16 | ProgChange u8 u8 | ChanPressure u8 u8
  | QuarterFrame u8 | SongPosition u16 | SongSelect u8

fun send_message :: "midi_message \<Rightarrow> midi_packet" where
  "send_message (CC c n v) = midi_send_cc c n v"
| "send_message (NoteOn c n v) = midi_send_noteon c n v"
| "send_message (NoteOff c n v) = midi_send_noteoff c n v"
| "send_message (Aftertouch c n v) = midi_send_aftertouch c n v"
| "send_message (PitchBend c a) = midi_send_pitchbend c a"
| "send_message (ProgChange c n) = midi_send_programchange c n"
| "send_message (ChanPressure c a) = midi_send_channelpressure c a"
| "send_message (QuarterFrame t) = midi_send_tcquarterframe t"
| "send_message (SongPosition p) = midi_send_songposition p"
| "send_message (SongSelect n) = midi_send_songselect n"

definition packet_bytes :: "midi_packet \<Rightarrow> u8 list" where
  "packet_bytes p = (case p of (n, a, b, c) \<Rightarrow> take (unat n) [a, b, c])"

text \<open>The two data bytes of a 14-bit value, low seven bits first.\<close>

definition lo7 :: "u16 \<Rightarrow> u8" where "lo7 w = ucast (w AND 0x7F)"
definition hi7 :: "u16 \<Rightarrow> u8" where "hi7 w = ucast (drop_bit 7 w AND 0x7F)"

definition bend_value :: "u16 \<Rightarrow> u16" where
  "bend_value amt = word_of_int (max 0 (min 0x3FFF (sint amt + 0x2000)))"

fun received_call :: "midi_message \<Rightarrow> midi_call" where
  "received_call (CC c n v) = Call3 Cb_cc (c AND 0xF) (n AND 0x7F) (v AND 0x7F)"
| "received_call (NoteOn c n v) = Call3 Cb_noteon (c AND 0xF) (n AND 0x7F) (v AND 0x7F)"
| "received_call (NoteOff c n v) = Call3 Cb_noteoff (c AND 0xF) (n AND 0x7F) (v AND 0x7F)"
| "received_call (Aftertouch c n v) = Call3 Cb_aftertouch (c AND 0xF) (n AND 0x7F) (v AND 0x7F)"
| "received_call (PitchBend c a) =
     Call3 Cb_pitchbend (c AND 0xF) (lo7 (bend_value a)) (hi7 (bend_value a))"
| "received_call (ProgChange c n) = Call2 Cb_progchange (c AND 0xF) (n AND 0x7F)"
| "received_call (ChanPressure c a) = Call2 Cb_chanpressure (c AND 0xF) (a AND 0x7F)"
| "received_call (QuarterFrame t) = Call2 Cb_tc_quarterframe MIDI_TC_QUARTERFRAME (t AND 0x7F)"
| "received_call (SongPosition p) = Call3 Cb_songposition MIDI_SONGPOSITION (lo7 p) (hi7 p)"
| "received_call (SongSelect n) = Call2 Cb_songselect MIDI_SONGSELECT (n AND 0x7F)"

text \<open>A device between messages: not inside a system-exclusive one, three bytes of buffer.\<close>

definition midi_ready :: "midi_device \<Rightarrow> bool" where
  "midi_ready d \<longleftrightarrow> md_input_state d \<noteq> SYSEX_MESSAGE \<and> length (md_input_buffer d) = 3
     \<and> (\<forall>cb. cb \<noteq> Cb_catchall \<longrightarrow> md_cb d cb) \<and> \<not> md_cb d Cb_catchall"

definition status_nibble :: "u8 \<Rightarrow> bool" where
  "status_nibble k \<longleftrightarrow> k \<in> {0x80, 0x90, 0xA0, 0xB0, 0xC0, 0xD0, 0xE0}"

lemma status_chan_bits:
  assumes "status_nibble k"
  shows "(k OR (c AND 0x0F)) AND 0xF0 = k" "(k OR (c AND 0x0F)) AND 0x0F = c AND 0x0F"
    "(k OR (c AND 0x0F)) AND 0x80 = 0x80"
proof -
  from assms show "(k OR (c AND 0x0F)) AND 0xF0 = k"
    "(k OR (c AND 0x0F)) AND 0x0F = c AND 0x0F" "(k OR (c AND 0x0F)) AND 0x80 = 0x80"
    by (auto simp: status_nibble_def word_ao_dist and.assoc)
qed

lemma and_80_iff: "(y :: u8) AND 0x80 = 0 \<longleftrightarrow> \<not> bit y 7"
  using and_BIT_eq_0[of y 7] by (simp add: BIT_def)

lemma data_byte:
  assumes "(y :: u8) < 0x80"
  shows "\<not> midi_is_realtime y" "\<not> midi_is_statusbyte y"
proof -
  show "\<not> midi_is_realtime y"
    using assms by (simp add: midi_is_realtime_def MIDI_CLOCK_def word_less_nat_alt word_le_nat_alt)
  have "\<not> bit y 7" using assms by (simp add: bit_word_iff_div word_less_nat_alt)
  then show "\<not> midi_is_statusbyte y"
    by (simp add: midi_is_statusbyte_def MIDI_STATUSMASK_def and_80_iff)
qed

lemma and_7F_less: "(y :: u8) AND 0x7F < 0x80"
  by (rule order.strict_trans1[OF word_and_le1]) simp

lemma realtime_high_nibble:
  assumes "midi_is_realtime y"
  shows "y AND 0xF0 = 0xF0"
proof -
  have "unat y \<ge> 248" using assms by (simp add: midi_is_realtime_def MIDI_CLOCK_def word_le_nat_alt)
  then have "unat y \<in> {248, 249, 250, 251, 252, 253, 254, 255}" using unat_lt_256[of y] by auto
  then have "unat (y AND 0xF0) = unat (0xF0 :: u8)" by (auto simp: unsigned_and_eq)
  then show ?thesis by (rule unsigned_word_eqI)
qed

lemma status_byte:
  assumes "status_nibble k"
  shows "\<not> midi_is_realtime (k OR (c AND 0x0F))" "midi_is_statusbyte (k OR (c AND 0x0F))"
proof -
  show "\<not> midi_is_realtime (k OR (c AND 0x0F))"
    using realtime_high_nibble[of "k OR (c AND 0x0F)"] status_chan_bits(1)[OF assms, of c] assms
    by (auto simp: status_nibble_def)
  show "midi_is_statusbyte (k OR (c AND 0x0F))"
    using status_chan_bits(3)[OF assms, of c]
    by (simp add: midi_is_statusbyte_def MIDI_STATUSMASK_def)
qed

lemma length_3: "length xs = 3 \<longleftrightarrow> (\<exists>a b c. xs = [a, b, c])"
  by (auto simp: numeral_3_eq_3 length_Suc_conv)

text \<open>A three-byte and a two-byte message, parsed from a ready device.\<close>

lemma parse_three:
  assumes d: "midi_ready d" and x: "\<not> midi_is_realtime x" "midi_is_statusbyte x"
    "midi_packet_length x = THREE" "three_byte_func x = Some cb" "cb \<noteq> Cb_catchall"
    and y: "y < 0x80" and z: "z < 0x80"
  shows "midi_parse [x, y, z] d = d\<lparr>md_input_buffer := [x, y, z],
    md_input_state := THREE_BYTE_MESSAGE, md_input_count := 1,
    md_calls := md_calls d @
      [if x = MIDI_SONGPOSITION then Call3 cb x y z else Call3 cb (x AND 0x0F) y z]\<rparr>"
proof -
  obtain a b c where buf: "md_input_buffer d = [a, b, c]"
    using d by (auto simp: midi_ready_def length_3)
  have cb: "md_cb d cb" "\<not> md_cb d Cb_catchall" using d x(5) by (auto simp: midi_ready_def)
  have st: "md_input_state d \<noteq> SYSEX_MESSAGE" using d by (simp add: midi_ready_def)
  show ?thesis
    by (simp add: midi_process_byte_def x data_byte[OF y] data_byte[OF z] midi_status_byte_def st
        midi_data_byte_def Let_def buf callbacks_from_buffer_def midi_input_callbacks_def
        midi_specific_call_def call_if_def cb keep_running_status_def)
qed

lemma parse_two:
  assumes d: "midi_ready d" and x: "\<not> midi_is_realtime x" "midi_is_statusbyte x"
    "midi_packet_length x = TWO" "two_byte_func x = Some cb" "cb \<noteq> Cb_catchall"
    and y: "y < 0x80"
  shows "midi_parse [x, y] d = d\<lparr>md_input_buffer := [x, y, md_input_buffer d ! 2],
    md_input_state := TWO_BYTE_MESSAGE, md_input_count := 1,
    md_calls := md_calls d @ [if x = MIDI_SONGSELECT \<or> x = MIDI_TC_QUARTERFRAME
      then Call2 cb x y else Call2 cb (x AND 0x0F) y]\<rparr>"
proof -
  obtain a b c where buf: "md_input_buffer d = [a, b, c]"
    using d by (auto simp: midi_ready_def length_3)
  have cb: "md_cb d cb" "\<not> md_cb d Cb_catchall" using d x(5) by (auto simp: midi_ready_def)
  have st: "md_input_state d \<noteq> SYSEX_MESSAGE" using d by (simp add: midi_ready_def)
  show ?thesis
    by (simp add: midi_process_byte_def x data_byte[OF y] midi_status_byte_def st
        midi_data_byte_def Let_def buf midi_input_callbacks_def numeral_2_eq_2
        midi_specific_call_def call_if_def cb keep_running_status_def)
qed

lemma bend_value_eq:
  "(if sint amt > 0x1fff then 0x3FFF else if sint amt < - 0x2000 then 0
    else word_of_int (sint amt + 0x2000)) = bend_value amt"
proof -
  have "(if x > 0x1fff then 0x3FFF else if x < - 0x2000 then 0 else word_of_int (x + 0x2000))
      = (word_of_int (max 0 (min 0x3FFF (x + 0x2000))) :: u16)" for x :: int
    by (auto simp: max_def min_def)
  then show ?thesis by (simp only: bend_value_def)
qed

lemma lo7_hi7_bounds: "lo7 w < 0x80" "hi7 w < 0x80"
proof -
  have "lo7 w = lo7 w AND 0x7F" "hi7 w = hi7 w AND 0x7F"
    by (rule bit_word_eqI; auto simp: lo7_def hi7_def bit_simps)+
  then show "lo7 w < 0x80" "hi7 w < 0x80" using and_7F_less by metis+
qed

lemma chan_length_func:
  assumes "k \<in> {0x80, 0x90, 0xA0, 0xB0, 0xE0}"
  shows "midi_packet_length (k OR (c AND 0x0F)) = THREE"
    and "three_byte_func (k OR (c AND 0x0F)) = Some (if k = 0x80 then Cb_noteoff
      else if k = 0x90 then Cb_noteon else if k = 0xA0 then Cb_aftertouch
      else if k = 0xB0 then Cb_cc else Cb_pitchbend)"
    and "k OR (c AND 0x0F) \<noteq> MIDI_SONGPOSITION"
proof -
  have hi: "(k OR (c AND 0x0F)) AND 0xF0 = k"
    using assms by (intro status_chan_bits) (auto simp: status_nibble_def)
  show "midi_packet_length (k OR (c AND 0x0F)) = THREE"
    using assms by (auto simp: midi_packet_length_def hi midi_codes)
  show "three_byte_func (k OR (c AND 0x0F)) = Some (if k = 0x80 then Cb_noteoff
      else if k = 0x90 then Cb_noteon else if k = 0xA0 then Cb_aftertouch
      else if k = 0xB0 then Cb_cc else Cb_pitchbend)"
    using assms by (auto simp: three_byte_func_def hi midi_codes)
  show "k OR (c AND 0x0F) \<noteq> MIDI_SONGPOSITION"
  proof
    assume "k OR (c AND 0x0F) = MIDI_SONGPOSITION"
    with hi have "k = 0xF0" by (simp add: midi_codes)
    with assms show False by auto
  qed
qed

lemma chan_length_func2:
  assumes "k \<in> {0xC0, 0xD0}"
  shows "midi_packet_length (k OR (c AND 0x0F)) = TWO"
    and "two_byte_func (k OR (c AND 0x0F)) = Some (if k = 0xC0 then Cb_progchange
      else Cb_chanpressure)"
    and "k OR (c AND 0x0F) \<noteq> MIDI_SONGSELECT" "k OR (c AND 0x0F) \<noteq> MIDI_TC_QUARTERFRAME"
proof -
  have hi: "(k OR (c AND 0x0F)) AND 0xF0 = k"
    using assms by (intro status_chan_bits) (auto simp: status_nibble_def)
  show "midi_packet_length (k OR (c AND 0x0F)) = TWO"
    using assms by (auto simp: midi_packet_length_def hi midi_codes)
  show "two_byte_func (k OR (c AND 0x0F)) = Some (if k = 0xC0 then Cb_progchange
      else Cb_chanpressure)"
    using assms by (auto simp: two_byte_func_def hi midi_codes)
  show "k OR (c AND 0x0F) \<noteq> MIDI_SONGSELECT" "k OR (c AND 0x0F) \<noteq> MIDI_TC_QUARTERFRAME"
    using hi assms by (auto simp: midi_codes)
qed

text \<open>What parsing one sent message does to a ready device.\<close>

definition parsed_as :: "u8 list \<Rightarrow> midi_call \<Rightarrow> bool" where
  "parsed_as xs call \<longleftrightarrow> (\<forall>d. midi_ready d \<longrightarrow> midi_ready (midi_parse xs d)
     \<and> md_calls (midi_parse xs d) = md_calls d @ [call])"

lemma parsed_three:
  assumes "\<not> midi_is_realtime x" "midi_is_statusbyte x" "midi_packet_length x = THREE"
    "three_byte_func x = Some cb" "cb \<noteq> Cb_catchall" "y < 0x80" "z < 0x80"
  shows "parsed_as [x, y, z]
    (if x = MIDI_SONGPOSITION then Call3 cb x y z else Call3 cb (x AND 0x0F) y z)"
  unfolding parsed_as_def using parse_three[OF _ assms] by (simp add: midi_ready_def)

lemma parsed_two:
  assumes "\<not> midi_is_realtime x" "midi_is_statusbyte x" "midi_packet_length x = TWO"
    "two_byte_func x = Some cb" "cb \<noteq> Cb_catchall" "y < 0x80"
  shows "parsed_as [x, y] (if x = MIDI_SONGSELECT \<or> x = MIDI_TC_QUARTERFRAME
    then Call2 cb x y else Call2 cb (x AND 0x0F) y)"
  unfolding parsed_as_def using parse_two[OF _ assms] by (simp add: midi_ready_def)

lemma parsed_chan3:
  assumes "k \<in> {0x80, 0x90, 0xA0, 0xB0, 0xE0}" "y < 0x80" "z < 0x80"
  shows "parsed_as [k OR (c AND 0x0F), y, z] (Call3 (if k = 0x80 then Cb_noteoff
      else if k = 0x90 then Cb_noteon else if k = 0xA0 then Cb_aftertouch
      else if k = 0xB0 then Cb_cc else Cb_pitchbend) (c AND 0x0F) y z)"
proof -
  have n: "status_nibble k" using assms(1) by (auto simp: status_nibble_def)
  show ?thesis
    using parsed_three[OF status_byte[OF n] chan_length_func(1,2)[OF assms(1)] _ assms(2,3), of c]
    by (simp add: chan_length_func(3)[OF assms(1)] status_chan_bits(2)[OF n])
qed

lemma parsed_chan2:
  assumes "k \<in> {0xC0, 0xD0}" "y < 0x80"
  shows "parsed_as [k OR (c AND 0x0F), y]
    (Call2 (if k = 0xC0 then Cb_progchange else Cb_chanpressure) (c AND 0x0F) y)"
proof -
  have n: "status_nibble k" using assms(1) by (auto simp: status_nibble_def)
  show ?thesis
    using parsed_two[OF status_byte[OF n] chan_length_func2(1,2)[OF assms(1)] _ assms(2), of c]
    by (simp add: chan_length_func2(3,4)[OF assms(1)] status_chan_bits(2)[OF n])
qed

lemma parsed_message: "parsed_as (packet_bytes (send_message m)) (received_call m)"
proof (cases m)
  case (PitchBend c a)
  have "packet_bytes (midi_send_pitchbend c a)
      = [0xE0 OR (c AND 0x0F), lo7 (bend_value a), hi7 (bend_value a)]"
    unfolding midi_send_pitchbend_def bend_value_eq Let_def
    by (simp add: packet_bytes_def midi_codes lo7_def hi7_def)
  with PitchBend show ?thesis
    using parsed_chan3[of "0xE0" "lo7 (bend_value a)" "hi7 (bend_value a)" c]
    by (simp add: lo7_hi7_bounds)
next
  case (SongPosition p)
  have "parsed_as [MIDI_SONGPOSITION, lo7 p, hi7 p]
      (if MIDI_SONGPOSITION = MIDI_SONGPOSITION then
         Call3 Cb_songposition MIDI_SONGPOSITION (lo7 p) (hi7 p)
       else Call3 Cb_songposition (MIDI_SONGPOSITION AND 0x0F) (lo7 p) (hi7 p))"
    by (rule parsed_three) (simp_all add: midi_is_realtime_def midi_is_statusbyte_def
        midi_packet_length_def three_byte_func_def midi_codes lo7_hi7_bounds)
  moreover have "packet_bytes (midi_send_songposition p) = [MIDI_SONGPOSITION, lo7 p, hi7 p]"
    by (simp add: midi_send_songposition_def packet_bytes_def lo7_def hi7_def)
  ultimately show ?thesis using SongPosition by simp
next
  case (QuarterFrame t)
  have "parsed_as [MIDI_TC_QUARTERFRAME, t AND 0x7F]
      (if MIDI_TC_QUARTERFRAME = MIDI_SONGSELECT \<or> MIDI_TC_QUARTERFRAME = MIDI_TC_QUARTERFRAME then
         Call2 Cb_tc_quarterframe MIDI_TC_QUARTERFRAME (t AND 0x7F)
       else Call2 Cb_tc_quarterframe (MIDI_TC_QUARTERFRAME AND 0x0F) (t AND 0x7F))"
    by (rule parsed_two) (simp_all add: midi_is_realtime_def midi_is_statusbyte_def
        midi_packet_length_def two_byte_func_def midi_codes and_7F_less)
  with QuarterFrame show ?thesis
    by (simp add: midi_send_tcquarterframe_def packet_bytes_def)
next
  case (SongSelect t)
  have "parsed_as [MIDI_SONGSELECT, t AND 0x7F]
      (if MIDI_SONGSELECT = MIDI_SONGSELECT \<or> MIDI_SONGSELECT = MIDI_TC_QUARTERFRAME then
         Call2 Cb_songselect MIDI_SONGSELECT (t AND 0x7F)
       else Call2 Cb_songselect (MIDI_SONGSELECT AND 0x0F) (t AND 0x7F))"
    by (rule parsed_two) (simp_all add: midi_is_realtime_def midi_is_statusbyte_def
        midi_packet_length_def two_byte_func_def midi_codes and_7F_less)
  with SongSelect show ?thesis
    by (simp add: midi_send_songselect_def packet_bytes_def)
next
  case (CC c n v)
  then show ?thesis using parsed_chan3[of "0xB0" "n AND 0x7F" "v AND 0x7F" c]
    by (simp add: midi_send_cc_def packet_bytes_def midi_codes and_7F_less)
next
  case (NoteOn c n v)
  then show ?thesis using parsed_chan3[of "0x90" "n AND 0x7F" "v AND 0x7F" c]
    by (simp add: midi_send_noteon_def packet_bytes_def midi_codes and_7F_less)
next
  case (NoteOff c n v)
  then show ?thesis using parsed_chan3[of "0x80" "n AND 0x7F" "v AND 0x7F" c]
    by (simp add: midi_send_noteoff_def packet_bytes_def midi_codes and_7F_less)
next
  case (Aftertouch c n v)
  then show ?thesis using parsed_chan3[of "0xA0" "n AND 0x7F" "v AND 0x7F" c]
    by (simp add: midi_send_aftertouch_def packet_bytes_def midi_codes and_7F_less)
next
  case (ProgChange c n)
  then show ?thesis using parsed_chan2[of "0xC0" "n AND 0x7F" c]
    by (simp add: midi_send_programchange_def packet_bytes_def midi_codes and_7F_less)
next
  case (ChanPressure c n)
  then show ?thesis using parsed_chan2[of "0xD0" "n AND 0x7F" c]
    by (simp add: midi_send_channelpressure_def packet_bytes_def midi_codes and_7F_less)
qed

lemma parse_messages:
  assumes "midi_ready d"
  shows "midi_ready (midi_parse (concat (map (packet_bytes \<circ> send_message) ms)) d)
    \<and> md_calls (midi_parse (concat (map (packet_bytes \<circ> send_message) ms)) d)
      = md_calls d @ map received_call ms"
  using assms
proof (induction ms arbitrary: d)
  case (Cons m ms)
  let ?d = "midi_parse (packet_bytes (send_message m)) d"
  have "midi_ready ?d \<and> md_calls ?d = md_calls d @ [received_call m]"
    using parsed_message[of m] Cons.prems by (simp add: parsed_as_def)
  with Cons.IH[of ?d] show ?case by simp
qed simp

text \<open>
  C11. Messages sent, queued and processed arrive: a ready device whose queue is empty and large
  enough calls, for any list of channel and system-common messages, the matching callbacks in
  order with the channel and the seven-bit arguments that were sent, and its queue is empty
  again.
\<close>

theorem midi_messages_roundtrip:
  assumes "midi_ready d" "bq_inv (md_input_queue d)" "bq_contents (md_input_queue d) = []"
    and "length (concat (map (packet_bytes \<circ> send_message) ms)) \<le> bq_capacity (md_input_queue d)"
  shows "md_calls (midi_device_process (midi_device_input d
      (concat (map (packet_bytes \<circ> send_message) ms)))) = md_calls d @ map received_call ms
    \<and> bq_contents (md_input_queue (midi_device_process (midi_device_input d
      (concat (map (packet_bytes \<circ> send_message) ms))))) = []"
proof -
  let ?xs = "concat (map (packet_bytes \<circ> send_message) ms)"
  let ?d = "midi_device_input d ?xs"
  have q: "bq_inv (md_input_queue ?d)" "bq_contents (md_input_queue ?d) = ?xs"
    using bq.enq_list[OF assms(2), of ?xs] assms(3,4) by (simp_all add: midi_device_input_queue)
  have d: "?d\<lparr>md_input_queue := md_input_queue d\<rparr> = d" by (simp add: midi_device_input_queue)
  note p = midi_device_process_parses[OF q(1), of "md_input_queue d"]
  have "md_calls (midi_device_process ?d)
      = md_calls ((midi_device_process ?d)\<lparr>md_input_queue := md_input_queue d\<rparr>)" by simp
  also have "\<dots> = md_calls (midi_parse ?xs d)" using p by (simp only: d q(2))
  finally show ?thesis using parse_messages[OF assms(1), of ms] p by simp
qed

section \<open>Realtime bytes are transparent\<close>

fun is_realtime_call :: "midi_call \<Rightarrow> bool" where
  "is_realtime_call (Call1 Cb_realtime _) = True"
| "is_realtime_call (CallVar _ _ b _ _) = midi_is_realtime b"
| "is_realtime_call _ = False"

definition without_realtime :: "midi_device \<Rightarrow> midi_device" where
  "without_realtime d = d\<lparr>md_calls := filter (\<lambda>c. \<not> is_realtime_call c) (md_calls d)\<rparr>"

lemma without_realtime_byte:
  assumes "midi_is_realtime x"
  shows "without_realtime (midi_process_byte d x) = without_realtime d"
  using assms
  by (simp add: midi_process_byte_def midi_input_callbacks_def midi_specific_call_def
      call_if_def one_byte_func_def without_realtime_def Let_def)

lemma without_realtime_cong:
  assumes "without_realtime d = without_realtime d'"
  shows "without_realtime (midi_process_byte d x) = without_realtime (midi_process_byte d' x)"
proof -
  let ?q = "md_input_queue d" and ?e = "d\<lparr>md_calls := []\<rparr>"
  have "?e = d'\<lparr>md_calls := []\<rparr>" "md_input_queue d' = ?q"
    and f: "filter (\<lambda>c. \<not> is_realtime_call c) (md_calls d)
      = filter (\<lambda>c. \<not> is_realtime_call c) (md_calls d')"
    using assms unfolding without_realtime_def
    by (metis (no_types, lifting) midi_device.update_convs(6) midi_device.surjective
        midi_device.select_convs(5) midi_device.select_convs(6) midi_device.simps(1))+
  then have e: "d = midi_around ?q (md_calls d) ?e" "d' = midi_around ?q (md_calls d') ?e"
    using midi_around_self[of d] midi_around_self[of d'] by metis+
  have "midi_process_byte d x = midi_around ?q (md_calls d) (midi_process_byte ?e x)"
    "midi_process_byte d' x = midi_around ?q (md_calls d') (midi_process_byte ?e x)"
    using process_byte_around e by metis+
  then show ?thesis using f by (simp add: without_realtime_def midi_around_def)
qed

text \<open>
  C30. Realtime bytes (clock, start, stop, active sensing) may be inserted anywhere in the
  stream, also inside a message or a system-exclusive dump: parsing the stream with them leaves
  the parser in the same state and makes the same non-realtime calls in the same order as
  parsing it without them.
\<close>

theorem midi_realtime_transparent:
  "without_realtime (midi_parse xs d)
     = without_realtime (midi_parse (filter (\<lambda>x. \<not> midi_is_realtime x) xs) d)"
proof -
  have "without_realtime d = without_realtime e \<Longrightarrow> without_realtime (midi_parse xs d)
      = without_realtime (midi_parse (filter (\<lambda>x. \<not> midi_is_realtime x) xs) e)" for e
  proof (induction xs arbitrary: d e)
    case (Cons x xs)
    show ?case
    proof (cases "midi_is_realtime x")
      case True
      have "without_realtime (midi_process_byte d x) = without_realtime e"
        using without_realtime_byte[OF True] Cons.prems by simp
      from Cons.IH[OF this] True show ?thesis by simp
    next
      case False
      from Cons.IH[OF without_realtime_cong[OF Cons.prems, of x]] False show ?thesis by simp
    qed
  qed simp
  then show ?thesis by simp
qed

section \<open>System-exclusive messages\<close>

fun sysex_chunk :: "midi_call \<Rightarrow> (u16 \<times> u8 list) list" where
  "sysex_chunk (CallSysex start len data) = [(start, take (unat len) data)]"
| "sysex_chunk _ = []"

definition sysex_chunks :: "midi_call list \<Rightarrow> (u16 \<times> u8 list) list" where
  "sysex_chunks cs = concat (map sysex_chunk cs)"

text \<open>A message cut into pieces of three bytes, each with its offset.\<close>

fun chunks3 :: "nat \<Rightarrow> u8 list \<Rightarrow> (u16 \<times> u8 list) list" where
  "chunks3 n (a # b # c # xs) = (of_nat n, [a, b, c]) # chunks3 (n + 3) xs"
| "chunks3 n [] = []"
| "chunks3 n xs = [(of_nat n, xs)]"

lemma chunks3_append:
  "length xs mod 3 = 0 \<Longrightarrow> chunks3 n (xs @ ys) = chunks3 n xs @ chunks3 (n + length xs) ys"
proof (induction n xs rule: chunks3.induct)
  case (1 n a b c xs)
  from "1.prems" have "length xs mod 3 = 0" by (simp add: mod_Suc split: if_splits)
  moreover have "n + 3 + length xs = n + length (a # b # c # xs)" by simp
  ultimately show ?case using "1.IH" by (metis append_Cons chunks3.simps(1))
qed simp_all

lemma chunks3_short: "xs \<noteq> [] \<Longrightarrow> length xs \<le> 3 \<Longrightarrow> chunks3 n xs = [(of_nat n, xs)]"
  by (cases "(n, xs)" rule: chunks3.cases) (auto simp: length_3)

lemma chunks3_concat: "concat (map snd (chunks3 n xs)) = xs"
  by (induction n xs rule: chunks3.induct) auto

text \<open>The state after k bytes p of a system-exclusive message.\<close>

definition in_sysex :: "midi_device \<Rightarrow> u8 list \<Rightarrow> (u16 \<times> u8 list) list \<Rightarrow> bool" where
  "in_sysex d p old \<longleftrightarrow> md_cb d Cb_sysex \<and> md_input_state d = SYSEX_MESSAGE
     \<and> length (md_input_buffer d) = 3 \<and> unat (md_input_count d) = length p
     \<and> take (length p mod 3) (md_input_buffer d) = drop (length p div 3 * 3) p
     \<and> sysex_chunks (md_calls d) = old @ chunks3 0 (take (length p div 3 * 3) p)"

lemma callbacks_in_sysex:
  assumes "md_cb d Cb_sysex" "md_input_state d = SYSEX_MESSAGE" "0 < unat n"
  shows "sysex_chunks (md_calls (midi_input_callbacks d n a b c)) = sysex_chunks (md_calls d)
    @ [(of_nat ((unat n - 1) div 3 * 3), take ((unat n - 1) mod 3 + 1) [a, b, c])]"
proof -
  have "unat n - (unat n - 1) div 3 * 3 = (unat n - 1) mod 3 + 1"
    using assms(3) minus_div_mult_eq_mod[of "unat n - 1" 3]
    by (metis Suc_diff_1 Suc_diff_le Suc_eq_plus1 div_times_less_eq_dividend)
  moreover have "unat (of_nat ((unat n - 1) mod 3 + 1) :: u8) = (unat n - 1) mod 3 + 1"
    by (rule unat_of_nat_mod) (use mod_less_divisor[of 3 "unat n - 1"] in \<open>simp add: less_trans[of _ 3]\<close>)
  ultimately show ?thesis
    by (simp add: midi_input_callbacks_def midi_specific_call_def assms call_if_def
        sysex_chunks_def Let_def)
qed

lemma callbacks_frame_upd:
  "in_sysex d p old \<Longrightarrow> take (length p mod 3) (md_input_buffer d) @ [x]
     = take (Suc (length p mod 3)) ((md_input_buffer d)[length p mod 3 := x])"
  by (simp add: in_sysex_def take_Suc_conv_app_nth)

lemma list_split3:
  fixes xs :: "'a list"
  shows "take (length xs div 3 * 3) xs @ drop (length xs div 3 * 3) xs = xs"
    and "length (take (length xs div 3 * 3) xs) = length xs div 3 * 3"
    and "length (drop (length xs div 3 * 3) xs) = length xs mod 3"
  by (simp_all add: minus_div_mult_eq_mod)

text \<open>The tail that a callback hands over completes the message in pieces of three.\<close>

lemma chunks3_flush:
  assumes "in_sysex d p old"
  shows "chunks3 0 (p @ [x]) = chunks3 0 (take (length p div 3 * 3) p)
    @ [(of_nat (length p div 3 * 3),
        take (length p mod 3 + 1) ((md_input_buffer d)[length p mod 3 := x]))]"
proof -
  let ?k = "length p div 3 * 3"
  let ?t = "take (Suc (length p mod 3)) ((md_input_buffer d)[length p mod 3 := x])"
  have t: "drop ?k p @ [x] = ?t"
    using callbacks_frame_upd[OF assms, of x] assms by (simp add: in_sysex_def)
  have "length (drop ?k p @ [x]) \<le> 3"
    using list_split3(3)[of p] mod_less_divisor[of 3 "length p"] by simp
  then have "chunks3 ?k ?t = [(of_nat ?k, ?t)]" using t by (intro chunks3_short) auto
  moreover have "chunks3 0 (p @ [x]) = chunks3 0 (take ?k p @ (drop ?k p @ [x]))"
    by (metis append.assoc append_take_drop_id)
  moreover have "\<dots> = chunks3 0 (take ?k p) @ chunks3 (0 + length (take ?k p)) (drop ?k p @ [x])"
    by (rule chunks3_append) (simp only: list_split3(2) mod_mult_self2_is_0)
  ultimately show ?thesis using list_split3(2)[of p] t by simp
qed

lemma list_upd_all3: "length b = 3 \<Longrightarrow> [b ! 0, b ! Suc 0, b ! 2] = b"
  by (auto simp: length_3)

lemma sysex_byte:
  assumes "md_input_state d = SYSEX_MESSAGE" "y < 0x80"
    and "e = d\<lparr>md_input_buffer := (md_input_buffer d)[unat (md_input_count d) mod 3 := y],
      md_input_count := md_input_count d + 1\<rparr>"
  shows "midi_process_byte d y
    = (if unat (md_input_count d) mod 3 = 2 then callbacks_from_buffer e else e)"
  using assms(1)
  by (simp add: midi_process_byte_def data_byte[OF assms(2)] midi_data_byte_def Let_def assms(3)
      keep_running_status_def callbacks_from_buffer_def reads_simps)

lemma sysex_data_step:
  assumes s: "in_sysex d p old" and y: "y < 0x80" and len: "length p + 1 < 2 ^ 16"
  shows "in_sysex (midi_process_byte d y) (p @ [y]) old"
proof -
  let ?m = "length p mod 3" and ?k = "length p div 3 * 3"
  define e where "e = d\<lparr>md_input_buffer := (md_input_buffer d)[?m := y],
    md_input_count := md_input_count d + 1\<rparr>"
  have d: "md_cb d Cb_sysex" "md_input_state d = SYSEX_MESSAGE" "length (md_input_buffer d) = 3"
    "unat (md_input_count d) = length p"
    using s by (auto simp: in_sysex_def)
  have n: "unat (md_input_count d + 1) = Suc (length p)"
    using d(4) len by (subst unat_add_lem[THEN iffD1]) simp_all
  have r: "midi_process_byte d y = (if ?m = 2 then callbacks_from_buffer e else e)"
    using sysex_byte[OF d(2) y, of e] by (simp add: e_def d(4))
  have m3: "?m < 3" by simp
  show ?thesis
  proof (cases "?m = 2")
    case True
    have k: "Suc (length p) div 3 * 3 = Suc (length p)" "Suc (length p) mod 3 = 0"
      using True by presburger+
    have ee: "md_cb e Cb_sysex" "md_input_state e = SYSEX_MESSAGE" "0 < unat (md_input_count e)"
      "unat (md_input_count e) - 1 = length p"
      using d n by (simp_all add: e_def)
    have c: "sysex_chunks (md_calls (callbacks_from_buffer e))
        = sysex_chunks (md_calls d) @ [(of_nat ?k, take (?m + 1) ((md_input_buffer d)[?m := y]))]"
      unfolding callbacks_from_buffer_def callbacks_in_sysex[OF ee(1,2,3)] ee(4)
      using list_upd_all3[of "md_input_buffer e"] d(3) by (simp add: e_def)
    show ?thesis
      using s d n True c chunks3_flush[OF s, of y] k
      by (simp add: r in_sysex_def) (simp add: callbacks_from_buffer_def reads_simps e_def)
  next
    case False
    have k: "Suc (length p) div 3 * 3 = ?k" "Suc (length p) mod 3 = Suc ?m"
      using False m3 by presburger+
    have "length p \<ge> ?k" by simp
    then show ?thesis
      using s d n False k callbacks_frame_upd[OF s, of y]
      by (simp add: r in_sysex_def e_def) 
  qed
qed

lemma sysex_data:
  assumes "in_sysex d p old" "\<forall>y \<in> set ys. y < 0x80" "length p + length ys < 2 ^ 16"
  shows "in_sysex (midi_parse ys d) (p @ ys) old"
  using assms
proof (induction ys arbitrary: d p)
  case (Cons y ys)
  have "in_sysex (midi_process_byte d y) (p @ [y]) old"
    using Cons.prems by (intro sysex_data_step) auto
  from Cons.IH[OF this] Cons.prems show ?case by simp
qed simp

lemma sysex_begin:
  assumes "md_cb d Cb_sysex" "length (md_input_buffer d) = 3"
  shows "in_sysex (midi_process_byte d SYSEX_BEGIN) [SYSEX_BEGIN] (sysex_chunks (md_calls d))"
  using assms
  by (auto simp: in_sysex_def midi_process_byte_def midi_is_realtime_def midi_is_statusbyte_def
      midi_status_byte_def midi_packet_length_def midi_codes Let_def length_3)

lemma sysex_end:
  assumes s: "in_sysex d p old" and len: "length p + 1 < 2 ^ 16"
  shows "md_input_state (midi_process_byte d SYSEX_END) = IDLE
    \<and> sysex_chunks (md_calls (midi_process_byte d SYSEX_END)) = old @ chunks3 0 (p @ [SYSEX_END])"
proof -
  let ?m = "length p mod 3" and ?k = "length p div 3 * 3"
  define e where "e = d\<lparr>md_input_buffer := (md_input_buffer d)[?m := SYSEX_END],
    md_input_count := md_input_count d + 1\<rparr>"
  have d: "md_cb d Cb_sysex" "md_input_state d = SYSEX_MESSAGE" "length (md_input_buffer d) = 3"
    "unat (md_input_count d) = length p"
    using s by (auto simp: in_sysex_def)
  have n: "unat (md_input_count d + 1) = Suc (length p)"
    using d(4) len by (subst unat_add_lem[THEN iffD1]) simp_all
  have r: "midi_process_byte d SYSEX_END = (callbacks_from_buffer e)\<lparr>md_input_state := IDLE\<rparr>"
    unfolding e_def d(4)[symmetric] using d(2)
    by (simp add: midi_process_byte_def midi_is_realtime_def midi_is_statusbyte_def
        midi_status_byte_def midi_packet_length_def midi_codes Let_def)
  have ee: "md_cb e Cb_sysex" "md_input_state e = SYSEX_MESSAGE" "0 < unat (md_input_count e)"
    "unat (md_input_count e) - 1 = length p"
    using d n by (simp_all add: e_def)
  have c: "sysex_chunks (md_calls (callbacks_from_buffer e)) = sysex_chunks (md_calls d)
      @ [(of_nat ?k, take (?m + 1) ((md_input_buffer d)[?m := SYSEX_END]))]"
    unfolding callbacks_from_buffer_def callbacks_in_sysex[OF ee(1,2,3)] ee(4)
    using list_upd_all3[of "md_input_buffer e"] d(3) by (simp add: e_def)
  show ?thesis
    using s c chunks3_flush[OF s, of SYSEX_END] by (simp add: r in_sysex_def)
qed


definition three_byte_calls :: "midi_call list \<Rightarrow> midi_call list" where
  "three_byte_calls cs = filter (\<lambda>c. case c of Call3 _ _ _ _ \<Rightarrow> True | _ \<Rightarrow> False) cs"

lemma sysex_no_three_byte_call:
  assumes "md_input_state d = SYSEX_MESSAGE"
  shows "three_byte_calls (md_calls (midi_input_callbacks d n a b c)) = three_byte_calls (md_calls d)"
  using assms by (simp add: midi_input_callbacks_def midi_specific_call_def call_if_def
      three_byte_calls_def Let_def)


section \<open>Sending an array\<close>

lemma send_array_from:
  assumes "unat count = length xs" "i \<le> length xs"
  shows "concat (map packet_bytes (midi_send_array_from i count xs)) = drop i xs
    \<and> (\<forall>p \<in> set (midi_send_array_from i count xs). 1 \<le> unat (fst p) \<and> unat (fst p) \<le> 3)"
  using assms
proof (induction i count xs rule: midi_send_array_from.induct)
  case (1 i count xs)
  show ?case
  proof (cases "i < length xs")
    case True
    define t where "t = (if length xs - i > 3 then 3 else length xs - i)"
    have t: "1 \<le> t" "t \<le> 3" "t \<le> length xs - i" using True by (auto simp: t_def)
    define b where "b = take t (drop i xs) @ replicate (3 - t) (0 :: u8)"
    have b: "length b = 3" "take t b = take t (drop i xs)" using t by (auto simp: b_def)
    have u: "unat (of_nat t :: u16) = t" using t by (intro unat_of_nat_mod) simp
    have eq: "midi_send_array_from i count xs
        = midi_send_data (of_nat t) (b ! 0) (b ! 1) (b ! 2) # midi_send_array_from (i + 3) count xs"
      using True 1(2) by (subst midi_send_array_from.simps) (simp add: Let_def t_def b_def)
    have p: "packet_bytes (midi_send_data (of_nat t) (b ! 0) (b ! 1) (b ! 2)) = take t (drop i xs)"
      using list_upd_all3[OF b(1)] b(2) by (simp add: packet_bytes_def midi_send_data_def u)
    have f: "1 \<le> unat (fst (midi_send_data (of_nat t) (b ! 0) (b ! 1) (b ! 2)))
        \<and> unat (fst (midi_send_data (of_nat t) (b ! 0) (b ! 1) (b ! 2))) \<le> 3"
      using t by (simp add: midi_send_data_def u)
    show ?thesis
    proof (cases "i + 3 \<le> length xs")
      case True': True
      then have t3: "t = 3" by (auto simp: t_def)
      have "concat (map packet_bytes (midi_send_array_from (i + 3) count xs)) = drop (i + 3) xs
          \<and> (\<forall>p \<in> set (midi_send_array_from (i + 3) count xs). 1 \<le> unat (fst p) \<and> unat (fst p) \<le> 3)"
        using 1 True True' by simp
      moreover have "take 3 (drop i xs) @ drop (i + 3) xs = drop i xs"
        by (metis add.commute append_take_drop_id drop_drop)
      ultimately show ?thesis using f p by (simp add: eq t3)
    next
      case False
      have "midi_send_array_from (i + 3) count xs = []"
        using False 1(2) by (subst midi_send_array_from.simps) simp
      moreover have "t = length xs - i" using False by (auto simp: t_def)
      ultimately show ?thesis using f p by (simp add: eq)
    qed
  next
    case False
    with 1 show ?thesis by (subst (1 2) midi_send_array_from.simps) simp
  qed
qed

text \<open>
  Sending an array loses and adds no byte: the packets of \<open>midi_send_array\<close> hold one to
  three bytes each and together are the array.
\<close>

theorem midi_send_array_complete:
  assumes "unat count = length xs"
  shows "concat (map packet_bytes (midi_send_array count xs)) = xs
    \<and> (\<forall>p \<in> set (midi_send_array count xs). 1 \<le> unat (fst p) \<and> unat (fst p) \<le> 3)"
  using send_array_from[OF assms, of 0] by (simp add: midi_send_array_def)

section \<open>Witnesses\<close>

definition midi_example_device :: midi_device where
  "midi_example_device = \<lparr>md_cb = (\<lambda>cb. cb \<noteq> Cb_catchall), md_input_buffer = [0, 0, 0],
     md_input_state = IDLE, md_input_count = 0,
     md_input_queue = \<lparr>bq_start = 0, bq_end = 0, bq_length = 4, bq_data = [0, 0, 0, 0]\<rparr>,
     md_calls = []\<rparr>"

lemma midi_example_ready:
  "midi_ready midi_example_device \<and> bq_inv (md_input_queue midi_example_device)
    \<and> bq_contents (md_input_queue midi_example_device) = []
    \<and> bq_capacity (md_input_queue midi_example_device) = 3"
  by (simp add: midi_example_device_def midi_ready_def bq_inv_def bq_contents_def bq_capacity_def)

theorem midi_messages_roundtrip_witness:
  "md_calls (midi_device_process (midi_device_input midi_example_device
      (concat (map (packet_bytes \<circ> send_message) [NoteOn 2 60 100]))))
    = [Call3 Cb_noteon 2 60 100]"
proof -
  have "length (concat (map (packet_bytes \<circ> send_message) [NoteOn 2 60 100])) = 3"
    by (simp add: midi_send_noteon_def packet_bytes_def)
  with midi_messages_roundtrip[of midi_example_device "[NoteOn 2 60 100]"] midi_example_ready
  show ?thesis by (simp add: midi_example_device_def)
qed



theorem midi_send_array_complete_witness:
  "concat (map packet_bytes (midi_send_array 4 [1, 2, 3, 4])) = [1, 2, 3, 4]"
  using midi_send_array_complete[of 4 "[1, 2, 3, 4]"] by simp

end
