(* ===== verification/Debounce.thy ===== *)
theory Debounce
  imports Prelude
begin

text \<open>
  Debouncing (quantum/debounce): what the algorithms have in common. Each turns the raw
  matrix of a scan into the cooked matrix that the rest of the firmware reads; which one is
  built in is a choice of the keyboard.

  The C functions update the cooked array in place and keep their counters and flags in static
  variables: here the cooked array and the statics are one record, and the clock reading of a
  call (\<open>timer_read_fast\<close>, read at most once per call) is an argument. The number of rows and
  columns and \<open>DEBOUNCE\<close> are arguments too; \<open>matrix_row_t\<close> is a word type of at least as many
  bits as there are columns.

  The locale \<open>debouncer\<close> is the contract the matrix code relies on; the theories of the
  algorithms interpret it. \<open>none.c\<close> is here.
\<close>

section \<open>State\<close>

record 'w debounce_io =
  db_cooked :: "'w list"

record ('c, 'w) debounce_t = "'w debounce_io" +
  db_counters :: "'c list"
  db_counters_need_update :: bool
  db_matrix_need_update :: bool
  db_cooked_changed :: bool
  db_last_time :: u32

text \<open>\<open>MIN(elapsed_time, limit)\<close> passed as an 8-bit argument.\<close>

definition clamp_elapsed :: "nat \<Rightarrow> u32 \<Rightarrow> u8" where
  "clamp_elapsed limit elapsed_time = of_nat (min (unat elapsed_time) limit)"

text \<open>
  The body all algorithms with counters share: they differ in the two loops, \<open>update\<close> and
  \<open>transfer\<close>, in the clamp, and in whether \<open>matrix_need_update\<close> asks for a transfer.
\<close>

definition debounce_call ::
    "nat \<Rightarrow> (u8 \<Rightarrow> ('c, 'w) debounce_t \<Rightarrow> ('c, 'w) debounce_t)
      \<Rightarrow> (('c, 'w) debounce_t \<Rightarrow> ('c, 'w) debounce_t)
      \<Rightarrow> u32 \<Rightarrow> bool \<Rightarrow> ('c, 'w) debounce_t \<Rightarrow> ('c, 'w) debounce_t \<times> bool" where
  "debounce_call limit update transfer now changed s =
     (let updated_last = db_counters_need_update s;
          s = s\<lparr>db_cooked_changed := False\<rparr>;
          s = (if db_counters_need_update s then
                 let elapsed_time = now - db_last_time s;
                     s = s\<lparr>db_last_time := now\<rparr>
                 in if elapsed_time > 0 then update (clamp_elapsed limit elapsed_time) s else s
               else s);
          s = (if changed \<or> db_matrix_need_update s then
                 transfer (if \<not> updated_last then s\<lparr>db_last_time := now\<rparr> else s)
               else s)
      in (s, db_cooked_changed s))"

section \<open>Loops over the matrix\<close>

definition for_rows :: "nat \<Rightarrow> (nat \<Rightarrow> 's \<Rightarrow> 's) \<Rightarrow> 's \<Rightarrow> 's" where
  "for_rows R body s = fold body [0..<R] s"

definition for_keys :: "nat \<Rightarrow> nat \<Rightarrow> (nat \<Rightarrow> nat \<Rightarrow> 's \<Rightarrow> 's) \<Rightarrow> 's \<Rightarrow> 's" where
  "for_keys R C body s = for_rows R (\<lambda>row. fold (body row) [0..<C]) s"

lemma fold_product:
  "fold (\<lambda>(x, y). f x y) (List.product xs ys) s = fold (\<lambda>x. fold (f x) ys) xs s"
proof (induction xs arbitrary: s)
  case (Cons x xs)
  have "fold (\<lambda>(x, y). f x y) (map (Pair x) ys) s = fold (f x) ys s" for s
    by (induction ys arbitrary: s) auto
  with Cons show ?case by simp
qed simp

lemma for_keys_product:
  "for_keys R C body s = fold (\<lambda>(row, col). body row col) (List.product [0..<R] [0..<C]) s"
  by (simp add: for_keys_def for_rows_def fold_product)

text \<open>A pair of row and column below the limits is one of the cells of the loop.\<close>

lemma product_cells:
  "distinct (List.product [0..<R] [0..<C])"
  "set (List.product [0..<R] [0..<C]) = {..<R} \<times> {..<C}"
  by (auto simp: distinct_product)

lemma index_lt: "row < R \<Longrightarrow> col < C \<Longrightarrow> row * C + col < R * (C :: nat)"
  using mult_le_mono1[of "Suc row" R C] by simp

lemma index_inj:
  assumes "col < C" "col' < C" "row * C + col = row' * C + (col' :: nat)"
  shows "row = row' \<and> col = col'"
proof -
  have "row = (row * C + col) div C" "col = (row * C + col) mod C" using assms(1) by simp_all
  moreover have "row' = (row' * C + col') div C" "col' = (row' * C + col') mod C"
    using assms(2) by simp_all
  ultimately show ?thesis using assms(3) by metis
qed

section \<open>Rows\<close>

text \<open>The bits of a matrix are its keys; no row has a bit past the last column.\<close>

definition matrix_shape :: "nat \<Rightarrow> nat \<Rightarrow> 'r::len word list \<Rightarrow> bool" where
  "matrix_shape R C m \<longleftrightarrow> length m = R \<and> (\<forall>row < R. \<forall>k. bit (m ! row) k \<longrightarrow> k < C)"

lemma matrix_eq_iff:
  assumes "matrix_shape R C m" "matrix_shape R C m'"
  shows "m = m' \<longleftrightarrow> (\<forall>row < R. \<forall>col < C. bit (m ! row) col = bit (m' ! row) col)"
proof
  assume eq: "\<forall>row < R. \<forall>col < C. bit (m ! row) col = bit (m' ! row) col"
  show "m = m'"
  proof (rule nth_equalityI)
    show "m ! row = m' ! row" if "row < length m" for row
      using that assms eq by (intro bit_word_eqI) (metis matrix_shape_def)
  qed (use assms in \<open>simp add: matrix_shape_def\<close>)
qed simp

lemma matrix_shape_set:
  assumes "matrix_shape R C m" "\<And>k. bit w k \<Longrightarrow> k < C"
  shows "matrix_shape R C (m[row := w])"
proof -
  have "bit (m[row := w] ! i) k \<Longrightarrow> k < C" if "i < R" for i k
    using that assms by (cases "i = row") (auto simp: matrix_shape_def)
  then show ?thesis using assms(1) by (simp add: matrix_shape_def)
qed

section \<open>The contract\<close>

text \<open>
  \<open>inv s raw\<close>: the state after scans of which \<open>raw\<close> was the last. \<open>idle s\<close>: no key waits.
  \<open>waited s now\<close>: the debounce time has passed since the last call that started a wait.
  The caller says whether the raw matrix differs from that of the scan before.
\<close>

locale debouncer =
  fixes deb :: "u32 \<Rightarrow> 'r::len word list \<Rightarrow> bool \<Rightarrow> 's \<Rightarrow> 's \<times> bool"
    and cooked :: "'s \<Rightarrow> 'r word list"
    and R C :: nat
    and inv :: "'s \<Rightarrow> 'r word list \<Rightarrow> bool"
    and idle :: "'s \<Rightarrow> bool"
    and waited :: "'s \<Rightarrow> u32 \<Rightarrow> bool"
  assumes inv_shape: "inv s raw \<Longrightarrow> matrix_shape R C (cooked s) \<and> matrix_shape R C raw"
    and inv_deb: "inv s raw \<Longrightarrow> matrix_shape R C raw' \<Longrightarrow> inv (fst (deb now raw' (raw' \<noteq> raw) s)) raw'"
    and reports: "inv s raw \<Longrightarrow> matrix_shape R C raw'
      \<Longrightarrow> snd (deb now raw' (raw' \<noteq> raw) s) \<longleftrightarrow> cooked (fst (deb now raw' (raw' \<noteq> raw) s)) \<noteq> cooked s"
    and old_or_raw: "inv s raw \<Longrightarrow> matrix_shape R C raw' \<Longrightarrow> row < R \<Longrightarrow> col < C
      \<Longrightarrow> bit (cooked (fst (deb now raw' (raw' \<noteq> raw) s)) ! row) col
        \<in> {bit (cooked s ! row) col, bit (raw' ! row) col}"
    and idle_cooked: "inv s raw \<Longrightarrow> idle s \<Longrightarrow> cooked s = raw"
    and settles: "inv s raw \<Longrightarrow> waited s t1 \<Longrightarrow> waited (fst (deb t1 raw False s)) t2
      \<Longrightarrow> cooked (fst (deb t2 raw False (fst (deb t1 raw False s)))) = raw"
begin

text \<open>A sequence of scans, each with its clock reading.\<close>

fun scans :: "(u32 \<times> 'r word list) list \<Rightarrow> 's \<times> 'r word list \<Rightarrow> 's \<times> 'r word list" where
  "scans [] x = x"
| "scans ((now, raw') # rest) (s, raw) = scans rest (fst (deb now raw' (raw' \<noteq> raw) s), raw')"

lemma inv_scans:
  assumes "inv s raw" "\<forall>(now, m) \<in> set xs. matrix_shape R C m"
  shows "inv (fst (scans xs (s, raw))) (snd (scans xs (s, raw)))"
  using assms
proof (induction xs arbitrary: s raw)
  case (Cons x xs)
  then obtain now m where x: "x = (now, m)" and m: "matrix_shape R C m" by (cases x) auto
  with Cons.IH[OF inv_deb[OF Cons.prems(1) m, of now]] Cons.prems(2) show ?case by simp
qed simp

text \<open>
  A key whose raw bit never left its cooked value keeps it: only a contact that moved can
  change what the keyboard reports.
\<close>

lemma untouched_key:
  assumes "inv s raw" "\<forall>(now, m) \<in> set xs. matrix_shape R C m \<and> bit (m ! row) col = b"
    and "row < R" "col < C" "bit (cooked s ! row) col = b"
  shows "bit (cooked (fst (scans xs (s, raw))) ! row) col = b"
  using assms
proof (induction xs arbitrary: s raw)
  case (Cons x xs)
  obtain now m where x: "x = (now, m)" by force
  from Cons.prems x have m: "matrix_shape R C m" "bit (m ! row) col = b" by auto
  have "bit (cooked (fst (deb now m (m \<noteq> raw) s)) ! row) col = b"
    using old_or_raw[OF Cons.prems(1) m(1) Cons.prems(3,4), of now] m(2) Cons.prems(5) by auto
  with Cons.IH[of "fst (deb now m (m \<noteq> raw) s)" m] inv_deb[OF Cons.prems(1) m(1)] Cons.prems x
  show ?case by simp
qed simp

text \<open>When the contacts rest the cooked matrix becomes the raw one, whatever came before.\<close>

lemma settles_after_scans:
  assumes "inv s raw" "\<forall>(now, m) \<in> set xs. matrix_shape R C m"
    and "scans xs (s, raw) = (s', raw')" "waited s' t1" "waited (fst (deb t1 raw' False s')) t2"
  shows "cooked (fst (scans [(t1, raw'), (t2, raw')] (s', raw'))) = raw'"
  using settles[of s' raw' t1 t2] inv_scans[OF assms(1,2)] assms(3-5) by simp

end

section \<open>No debouncing (none.c)\<close>

definition none_debounce ::
    "u32 \<Rightarrow> 'r::len word list \<Rightarrow> bool \<Rightarrow> 'r word debounce_io \<Rightarrow> 'r word debounce_io \<times> bool" where
  "none_debounce now raw changed s =
     (if changed \<and> db_cooked s \<noteq> raw then (s\<lparr>db_cooked := raw\<rparr>, True) else (s, False))"

definition none_inv :: "nat \<Rightarrow> nat \<Rightarrow> 'r::len word debounce_io \<Rightarrow> 'r word list \<Rightarrow> bool" where
  "none_inv R C s raw \<longleftrightarrow> matrix_shape R C raw \<and> db_cooked s = raw"

interpretation none: debouncer none_debounce db_cooked R C "none_inv R C" "\<lambda>_. True" "\<lambda>_ _. True"
  by unfold_locales (auto simp: none_inv_def none_debounce_def)

end
