(* ===== verification/Debounce_Cells.thy ===== *)
theory Debounce_Cells
  imports Debounce
begin

text \<open>
  The debounce algorithms with counters, reduced to their cells: a cell is what one counter
  guards, a key or a whole row. The locale \<open>cellwise\<close> states what the two loops of an
  algorithm do, as a step on one cell each (\<open>tick\<close> and \<open>start\<close>), what a call amounts to when
  the raw matrix did not change (\<open>still\<close>), and how these relate;
  it proves that a call of \<open>debounce\<close> is one step of every cell, whatever the flags that save
  the loops, and from that the contract \<open>debouncer\<close>.
\<close>

locale cellwise =
  fixes limit :: nat
    and update :: "'r::len word list \<Rightarrow> u8 \<Rightarrow> ('c, 'r word) debounce_t \<Rightarrow> ('c, 'r word) debounce_t"
    and transfer :: "'r word list \<Rightarrow> ('c, 'r word) debounce_t \<Rightarrow> ('c, 'r word) debounce_t"
    and R C :: nat
    and K :: "'k set"
    and val :: "'r word list \<Rightarrow> 'k \<Rightarrow> 'v"
    and counters_ok :: "'c list \<Rightarrow> bool"
    and counter :: "'c list \<Rightarrow> 'k \<Rightarrow> 'c"
    and running :: "'c \<Rightarrow> bool"
    and tick :: "u8 \<Rightarrow> 'v \<Rightarrow> 'c \<times> 'v \<Rightarrow> 'c \<times> 'v"
    and wants :: "u8 \<Rightarrow> 'c \<times> 'v \<Rightarrow> bool"
    and start :: "'v \<Rightarrow> 'c \<times> 'v \<Rightarrow> 'c \<times> 'v"
    and still :: "u8 \<Rightarrow> 'v \<Rightarrow> 'c \<times> 'v \<Rightarrow> 'c \<times> 'v"
    and cell_inv :: "'v \<Rightarrow> 'c \<times> 'v \<Rightarrow> bool"
    and long :: "u8 \<Rightarrow> bool"
  assumes cells_eq: "matrix_shape R C m \<Longrightarrow> matrix_shape R C m'
      \<Longrightarrow> m = m' \<longleftrightarrow> (\<forall>k \<in> K. val m k = val m' k)"
    and cell_of_bit: "row < R \<Longrightarrow> col < C \<Longrightarrow> \<exists>k \<in> K. \<forall>m m'. val m k = val m' k
      \<longrightarrow> bit (m ! row) col = bit (m' ! row) col"
    and update_cells: "counters_ok (db_counters s) \<Longrightarrow> matrix_shape R C (db_cooked s)
      \<Longrightarrow> matrix_shape R C raw \<Longrightarrow> \<not> db_matrix_need_update s
      \<Longrightarrow> counters_ok (db_counters (update raw e s)) \<and> matrix_shape R C (db_cooked (update raw e s))
        \<and> db_last_time (update raw e s) = db_last_time s
        \<and> (\<forall>k \<in> K. (counter (db_counters (update raw e s)) k, val (db_cooked (update raw e s)) k)
            = tick e (val raw k) (counter (db_counters s) k, val (db_cooked s) k))
        \<and> (db_counters_need_update (update raw e s)
            \<longleftrightarrow> (\<exists>k \<in> K. running (counter (db_counters (update raw e s)) k)))
        \<and> (db_matrix_need_update (update raw e s)
            \<longleftrightarrow> (\<exists>k \<in> K. wants e (counter (db_counters s) k, val (db_cooked s) k)))
        \<and> (db_cooked_changed (update raw e s) \<longleftrightarrow> db_cooked_changed s
            \<or> (\<exists>k \<in> K. val (db_cooked (update raw e s)) k \<noteq> val (db_cooked s) k))"
    and transfer_cells: "counters_ok (db_counters s) \<Longrightarrow> matrix_shape R C (db_cooked s)
      \<Longrightarrow> matrix_shape R C raw
      \<Longrightarrow> counters_ok (db_counters (transfer raw s)) \<and> matrix_shape R C (db_cooked (transfer raw s))
        \<and> db_last_time (transfer raw s) = db_last_time s
        \<and> (\<forall>k \<in> K. (counter (db_counters (transfer raw s)) k, val (db_cooked (transfer raw s)) k)
            = start (val raw k) (counter (db_counters s) k, val (db_cooked s) k))
        \<and> (db_counters_need_update s \<longrightarrow> db_counters_need_update (transfer raw s))
        \<and> (\<forall>k \<in> K. running (counter (db_counters (transfer raw s)) k)
            \<longrightarrow> db_counters_need_update (transfer raw s) \<or> running (counter (db_counters s) k))
        \<and> (db_matrix_need_update (transfer raw s) \<longrightarrow> db_matrix_need_update s \<and> (\<forall>e v. \<not> wants e v))
        \<and> (db_cooked_changed (transfer raw s) \<longleftrightarrow> db_cooked_changed s
            \<or> (\<exists>k \<in> K. val (db_cooked (transfer raw s)) k \<noteq> val (db_cooked s) k))"
    and tick_stopped: "\<not> running (fst v) \<Longrightarrow> tick e r v = v"
    and wants_stopped: "\<not> running (fst v) \<Longrightarrow> \<not> wants e v"
    and tick_zero: "tick 0 r v = v" "\<not> wants 0 v"
    and start_inv: "cell_inv r0 v \<Longrightarrow> cell_inv r (start r (tick e r v))"
    and still_inv: "cell_inv r v \<Longrightarrow> cell_inv r (still e r v)"
    and still_tick: "cell_inv r v \<Longrightarrow> \<not> wants e v \<Longrightarrow> tick e r v = still e r v"
    and still_start: "cell_inv r v \<Longrightarrow> wants e w \<Longrightarrow> start r (tick e r v) = still e r v"
    and changes_once: "cell_inv r0 v \<Longrightarrow> snd (start r (tick e r v)) \<noteq> snd v
      \<longleftrightarrow> snd (tick e r v) \<noteq> snd v \<or> snd (start r (tick e r v)) \<noteq> snd (tick e r v)"
    and start_raw: "cell_inv r0 v \<Longrightarrow> snd (start r (tick e r v)) \<in> {snd v, r}"
    and still_raw: "cell_inv r v \<Longrightarrow> snd (still e r v) \<in> {snd v, r}"
    and stopped_raw: "cell_inv r v \<Longrightarrow> \<not> running (fst v) \<Longrightarrow> snd v = r"
    and cell_settles: "cell_inv r v \<Longrightarrow> long e \<Longrightarrow> long e' \<Longrightarrow> snd (still e' r (still e r v)) = r"
begin

abbreviation cell :: "('c, 'r word) debounce_t \<Rightarrow> 'k \<Rightarrow> 'c \<times> 'v" where
  "cell s k \<equiv> (counter (db_counters s) k, val (db_cooked s) k)"

abbreviation call ::
    "u32 \<Rightarrow> 'r word list \<Rightarrow> bool \<Rightarrow> ('c, 'r word) debounce_t \<Rightarrow> ('c, 'r word) debounce_t \<times> bool" where
  "call now raw changed s \<equiv> debounce_call limit (update raw) (transfer raw) now changed s"

definition inv :: "('c, 'r word) debounce_t \<Rightarrow> 'r word list \<Rightarrow> bool" where
  "inv s raw \<longleftrightarrow> counters_ok (db_counters s) \<and> matrix_shape R C (db_cooked s)
     \<and> matrix_shape R C raw \<and> \<not> db_matrix_need_update s
     \<and> (\<forall>k \<in> K. cell_inv (val raw k) (cell s k))
     \<and> (\<forall>k \<in> K. running (counter (db_counters s) k) \<longrightarrow> db_counters_need_update s)"

abbreviation elapsed :: "u32 \<Rightarrow> ('c, 'r word) debounce_t \<Rightarrow> u8" where
  "elapsed now s \<equiv> clamp_elapsed limit (now - db_last_time s)"

text \<open>The first half of a call, whether or not the update loop runs.\<close>

definition updated :: "u32 \<Rightarrow> 'r word list \<Rightarrow> ('c, 'r word) debounce_t \<Rightarrow> ('c, 'r word) debounce_t" where
  "updated now raw s =
     (let s' = s\<lparr>db_cooked_changed := False\<rparr>
      in if db_counters_need_update s then
           if now - db_last_time s > 0 then update raw (elapsed now s) (s'\<lparr>db_last_time := now\<rparr>)
           else s'\<lparr>db_last_time := now\<rparr>
         else s')"

lemma clamp_zero: "clamp_elapsed n 0 = 0"
  by (simp add: clamp_elapsed_def)

lemma updated_cells:
  assumes "inv s raw0" "matrix_shape R C raw"
  shows "counters_ok (db_counters (updated now raw s)) \<and> matrix_shape R C (db_cooked (updated now raw s))
    \<and> (\<forall>k \<in> K. cell (updated now raw s) k = tick (elapsed now s) (val raw k) (cell s k))
    \<and> (\<forall>k \<in> K. running (counter (db_counters (updated now raw s)) k)
        \<longrightarrow> db_counters_need_update (updated now raw s))
    \<and> (db_matrix_need_update (updated now raw s) \<longleftrightarrow> (\<exists>k \<in> K. wants (elapsed now s) (cell s k)))
    \<and> (db_cooked_changed (updated now raw s)
        \<longleftrightarrow> (\<exists>k \<in> K. val (db_cooked (updated now raw s)) k \<noteq> val (db_cooked s) k))"
proof -
  note i = assms(1)[unfolded inv_def]
  consider "\<not> db_counters_need_update s"
    | "db_counters_need_update s" "now - db_last_time s = 0"
    | "db_counters_need_update s" "now - db_last_time s > 0"
    by (cases "db_counters_need_update s"; cases "now - db_last_time s = 0") (auto simp: word_gt_0)
  then show ?thesis
  proof cases
    case 1
    with i have st: "\<not> running (fst (cell s k))" if "k \<in> K" for k using that by auto
    have u: "updated now raw s = s\<lparr>db_cooked_changed := False\<rparr>" using 1 by (simp add: updated_def)
    have "tick e (val raw k) (cell s k) = cell s k" "\<not> wants e (cell s k)" if "k \<in> K" for k e
      using tick_stopped[OF st[OF that]] wants_stopped[OF st[OF that]] by blast+
    then show ?thesis using i st by (simp add: u)
  next
    case 2
    then have "updated now raw s = s\<lparr>db_cooked_changed := False, db_last_time := now\<rparr>"
      by (simp add: updated_def)
    then show ?thesis using i 2 by (simp add: clamp_zero tick_zero)
  next
    case 3
    then have "updated now raw s
        = update raw (elapsed now s) (s\<lparr>db_cooked_changed := False, db_last_time := now\<rparr>)"
      by (simp add: updated_def)
    then show ?thesis
      using update_cells[of "s\<lparr>db_cooked_changed := False, db_last_time := now\<rparr>" raw "elapsed now s"]
        i assms(2) \<open>updated now raw s = _\<close> by simp
  qed
qed

lemma call_eq:
  "call now raw changed s
    = (let u = updated now raw s;
           t = (if changed \<or> db_matrix_need_update u
                then transfer raw (if \<not> db_counters_need_update s then u\<lparr>db_last_time := now\<rparr> else u)
                else u)
       in (t, db_cooked_changed t))"
  by (simp add: debounce_call_def updated_def Let_def)

definition step :: "bool \<Rightarrow> u8 \<Rightarrow> 'v \<Rightarrow> 'c \<times> 'v \<Rightarrow> 'c \<times> 'v" where
  "step changed e r v = (if changed then start r (tick e r v) else still e r v)"

text \<open>
  A call steps every cell once: the flags skip a loop only where it would change nothing. It
  reports a change exactly when a cell's value changed.
\<close>

lemma call_cells:
  assumes i: "inv s raw0" and raw: "matrix_shape R C raw"
  shows "inv (fst (call now raw (raw \<noteq> raw0) s)) raw
    \<and> (\<forall>k \<in> K. cell (fst (call now raw (raw \<noteq> raw0) s)) k
        = step (raw \<noteq> raw0) (elapsed now s) (val raw k) (cell s k))
    \<and> (snd (call now raw (raw \<noteq> raw0) s)
        \<longleftrightarrow> (\<exists>k \<in> K. val (db_cooked (fst (call now raw (raw \<noteq> raw0) s))) k \<noteq> val (db_cooked s) k))"
proof -
  let ?e = "elapsed now s" and ?u = "updated now raw s"
  note ii = i[unfolded inv_def]
  note u = updated_cells[OF i raw, of now]
  have ci: "cell_inv (val raw0 k) (cell s k)" if "k \<in> K" for k using ii that by blast
  have inv_of: "\<forall>k \<in> K. cell_inv (val raw k) (step (raw \<noteq> raw0) ?e (val raw k) (cell s k))"
    using start_inv[OF ci] still_inv ci by (simp add: step_def)
  show ?thesis
  proof (cases "raw \<noteq> raw0 \<or> db_matrix_need_update ?u")
    case True
    define w where "w = (if \<not> db_counters_need_update s then ?u\<lparr>db_last_time := now\<rparr> else ?u)"
    have wu: "cell w = cell ?u" "counters_ok (db_counters w)" "matrix_shape R C (db_cooked w)"
      "db_counters_need_update w = db_counters_need_update ?u"
      "db_matrix_need_update w = db_matrix_need_update ?u" "db_cooked_changed w = db_cooked_changed ?u"
      "db_cooked w = db_cooked ?u" "db_counters w = db_counters ?u"
      using u by (auto simp: w_def)
    note t = transfer_cells[OF wu(2,3) raw]
    have c: "call now raw (raw \<noteq> raw0) s = (transfer raw w, db_cooked_changed (transfer raw w))"
      using True by (simp add: call_eq w_def Let_def)
    have st: "cell (transfer raw w) k = start (val raw k) (tick ?e (val raw k) (cell s k))" if "k \<in> K" for k
      using that t u by (simp add: wu(7,8))
    have "\<not> db_matrix_need_update (transfer raw w)" using t u wu(5) by auto
    moreover have "db_counters_need_update (transfer raw w)"
      if "k \<in> K" "running (counter (db_counters (transfer raw w)) k)" for k
      using that t u wu(4,8) by metis
    moreover have "val (db_cooked (transfer raw w)) k \<noteq> val (db_cooked s) k
        \<longleftrightarrow> val (db_cooked ?u) k \<noteq> val (db_cooked s) k
          \<or> val (db_cooked (transfer raw w)) k \<noteq> val (db_cooked w) k" if "k \<in> K" for k
    proof -
      have "snd (cell (transfer raw w) k) \<noteq> snd (cell s k) \<longleftrightarrow>
          snd (cell ?u k) \<noteq> snd (cell s k) \<or> snd (cell (transfer raw w) k) \<noteq> snd (cell ?u k)"
        using st[OF that] u that changes_once[OF ci[OF that], of "val raw k" ?e] by simp
      then show ?thesis by (simp add: wu(7))
    qed
    moreover have "start (val raw k) (tick ?e (val raw k) (cell s k)) = step (raw \<noteq> raw0) ?e (val raw k) (cell s k)"
      if "k \<in> K" for k
      using True u still_start ci that by (auto simp: step_def)
    ultimately show ?thesis using t u raw st inv_of wu(6) unfolding c inv_def fst_conv snd_conv by auto
  next
    case False
    then have [simp]: "raw = raw0" and w: "\<forall>k \<in> K. \<not> wants ?e (cell s k)" using u by auto
    have c: "call now raw (raw \<noteq> raw0) s = (?u, db_cooked_changed ?u)"
      using False by (simp add: call_eq Let_def)
    have "step (raw \<noteq> raw0) ?e (val raw k) (cell s k) = tick ?e (val raw k) (cell s k)" if "k \<in> K" for k
      using still_tick ci w that by (simp add: step_def)
    with inv_of have st: "\<forall>k \<in> K. cell ?u k = step (raw \<noteq> raw0) ?e (val raw k) (cell s k)"
      and si: "\<forall>k \<in> K. cell_inv (val raw k) (tick ?e (val raw k) (cell s k))"
      using u by auto
    have "\<not> db_matrix_need_update ?u" using False by simp
    with st si u raw show ?thesis unfolding c inv_def fst_conv snd_conv by auto
  qed
qed

lemmas call_inv = call_cells[THEN conjunct1]
  and call_step = call_cells[THEN conjunct2, THEN conjunct1, rule_format]
  and call_flag = call_cells[THEN conjunct2, THEN conjunct2]

text \<open>While counters run, the time of the last call is on record.\<close>

lemma call_last_time:
  assumes "inv s raw0" "matrix_shape R C raw" "s' = fst (call now raw (raw \<noteq> raw0) s)"
    and "db_counters_need_update s'"
  shows "db_last_time s' = now"
proof -
  let ?u = "updated now raw s"
  note i = assms(1)[unfolded inv_def]
  have u: "db_last_time ?u = (if db_counters_need_update s then now else db_last_time s)"
    using i assms(2) update_cells[of "s\<lparr>db_cooked_changed := False, db_last_time := now\<rparr>" raw "elapsed now s"]
    by (simp add: updated_def Let_def)
  have n: "\<not> db_counters_need_update s \<Longrightarrow> \<not> db_counters_need_update ?u"
    by (simp add: updated_def Let_def)
  define w where "w = (if \<not> db_counters_need_update s then ?u\<lparr>db_last_time := now\<rparr> else ?u)"
  have w: "db_last_time w = now" "counters_ok (db_counters w)" "matrix_shape R C (db_cooked w)"
    using u updated_cells[OF assms(1,2), of now] by (auto simp: w_def)
  have "s' = (if raw \<noteq> raw0 \<or> db_matrix_need_update ?u then transfer raw w else ?u)"
    using assms(3) by (simp add: call_eq Let_def w_def)
  then show ?thesis using transfer_cells[OF w(2,3) assms(2)] w(1) u n assms(4) by (auto split: if_splits)
qed

definition waited :: "('c, 'r word) debounce_t \<Rightarrow> u32 \<Rightarrow> bool" where
  "waited s now \<longleftrightarrow> long (elapsed now s)"

lemma inv_shapes: "inv s raw \<Longrightarrow> matrix_shape R C (db_cooked s) \<and> matrix_shape R C raw"
  by (simp add: inv_def)

lemma val_step:
  assumes "inv s raw0" "matrix_shape R C raw" "k \<in> K"
  shows "val (db_cooked (fst (call now raw (raw \<noteq> raw0) s))) k
    = snd (step (raw \<noteq> raw0) (elapsed now s) (val raw k) (cell s k))"
  using call_step[OF assms, of now] by (metis snd_conv)

end

sublocale cellwise \<subseteq> debouncer call db_cooked R C inv "\<lambda>s. \<not> db_counters_need_update s" waited
proof
  fix s :: "('c, 'r word) debounce_t" and raw raw' :: "'r word list" and now row col t1 t2
  assume i: "inv s raw"
  show "matrix_shape R C (db_cooked s) \<and> matrix_shape R C raw" using i by (rule inv_shapes)
  show "\<not> db_counters_need_update s \<Longrightarrow> db_cooked s = raw"
  proof -
    assume n: "\<not> db_counters_need_update s"
    have "val (db_cooked s) k = val raw k" if "k \<in> K" for k
      using i n that stopped_raw[of "val raw k" "cell s k"] by (auto simp: inv_def)
    then show "db_cooked s = raw" using cells_eq[of "db_cooked s" raw] inv_shapes[OF i] by blast
  qed
  show "waited s t1 \<Longrightarrow> waited (fst (call t1 raw False s)) t2
      \<Longrightarrow> db_cooked (fst (call t2 raw False (fst (call t1 raw False s)))) = raw"
  proof -
    assume w: "waited s t1" "waited (fst (call t1 raw False s)) t2"
    let ?s1 = "fst (call t1 raw False s)"
    have raw: "matrix_shape R C raw" using inv_shapes[OF i] by simp
    have i1: "inv ?s1 raw" using call_inv[OF i raw, of t1] by simp
    have "val (db_cooked (fst (call t2 raw False ?s1))) k = val raw k" if k: "k \<in> K" for k
      using val_step[OF i1 raw k, of t2] call_step[OF i raw k, of t1]
        cell_settles[of "val raw k" "cell s k" "elapsed t1 s" "elapsed t2 ?s1"] i k w
      by (simp add: waited_def inv_def step_def)
    then show ?thesis
      using cells_eq[of "db_cooked (fst (call t2 raw False ?s1))" raw] call_inv[OF i1 raw, of t2]
        inv_shapes raw by auto
  qed
  assume raw': "matrix_shape R C raw'"
  show inv': "inv (fst (call now raw' (raw' \<noteq> raw) s)) raw'" using i raw' by (rule call_inv)
  show "snd (call now raw' (raw' \<noteq> raw) s)
      \<longleftrightarrow> db_cooked (fst (call now raw' (raw' \<noteq> raw) s)) \<noteq> db_cooked s"
    using call_flag[OF i raw', of now] cells_eq inv_shapes[OF inv'] inv_shapes[OF i] by blast
  assume rc: "row < R" "col < C"
  show "bit (db_cooked (fst (call now raw' (raw' \<noteq> raw) s)) ! row) col
      \<in> {bit (db_cooked s ! row) col, bit (raw' ! row) col}"
  proof -
    obtain k where k: "k \<in> K" and b: "\<forall>m m'. val m k = val m' k
        \<longrightarrow> bit (m ! row) col = bit (m' ! row) col"
      using cell_of_bit[OF rc] by blast
    have "val (db_cooked (fst (call now raw' (raw' \<noteq> raw) s))) k \<in> {val (db_cooked s) k, val raw' k}"
      using val_step[OF i raw' k, of now] start_raw[of "val raw k" "cell s k" "val raw' k" "elapsed now s"]
        still_raw[of "val raw k" "cell s k" "elapsed now s"] i k
      by (auto simp: inv_def step_def)
    then show ?thesis using b by blast
  qed
qed

end
