(* ===== verification/Debounce_Key.thy ===== *)
theory Debounce_Key
  imports Debounce_Cells
begin

text \<open>
  Keys as the cells of the debounce algorithms that keep a counter per key, and what a loop over
  rows and columns does to them when its body touches one key.
\<close>

section \<open>Keys as cells\<close>

definition key_val :: "'r::len word list \<Rightarrow> nat \<times> nat \<Rightarrow> bool" where
  "key_val m k = bit (m ! fst k) (snd k)"

definition key_counter :: "nat \<Rightarrow> 'c list \<Rightarrow> nat \<times> nat \<Rightarrow> 'c" where
  "key_counter C cs k = cs ! (fst k * C + snd k)"

definition keys :: "nat \<Rightarrow> nat \<Rightarrow> (nat \<times> nat) set" where
  "keys R C = {..<R} \<times> {..<C}"

definition key_view :: "nat \<Rightarrow> ('c, 'r::len word) debounce_t \<Rightarrow> nat \<times> nat \<Rightarrow> 'c \<times> bool" where
  "key_view C s k = (key_counter C (db_counters s) k, key_val (db_cooked s) k)"

datatype db_flag = Counters_need_update | Matrix_need_update | Cooked_changed

fun flag_of :: "('c, 'w) debounce_t \<Rightarrow> db_flag \<Rightarrow> bool" where
  "flag_of s Counters_need_update = db_counters_need_update s"
| "flag_of s Matrix_need_update = db_matrix_need_update s"
| "flag_of s Cooked_changed = db_cooked_changed s"

definition key_shape :: "nat \<Rightarrow> nat \<Rightarrow> u32 \<Rightarrow> ('c, 'r::len word) debounce_t \<Rightarrow> bool" where
  "key_shape R C t s \<longleftrightarrow> length (db_counters s) = R * C \<and> matrix_shape R C (db_cooked s)
     \<and> db_last_time s = t"

lemma keys_iff [simp]: "(row, col) \<in> keys R C \<longleftrightarrow> row < R \<and> col < C"
  by (auto simp: keys_def)

lemma key_cells_eq:
  "matrix_shape R C m \<Longrightarrow> matrix_shape R C m' \<Longrightarrow> m = m' \<longleftrightarrow> (\<forall>k \<in> keys R C. key_val m k = key_val m' k)"
  by (auto simp: matrix_eq_iff keys_def key_val_def)

lemma key_of_bit:
  "row < R \<Longrightarrow> col < C \<Longrightarrow> \<exists>k \<in> keys R C. \<forall>m m'. key_val m k = key_val m' k
    \<longrightarrow> bit (m ! row) col = bit (m' ! row) col"
  by (rule bexI[of _ "(row, col)"]) (auto simp: key_val_def)

text \<open>A store to one counter and to one bit of the cooked matrix changes one key.\<close>

lemma key_put:
  assumes "key_shape R C t s" "row < R" "col < C"
    and "\<And>k. k \<noteq> col \<Longrightarrow> bit w k = bit (db_cooked s ! row) k"
    and "db_counters s' = (db_counters s)[row * C + col := c]"
    and "db_cooked s' = (db_cooked s)[row := w]" "db_last_time s' = db_last_time s"
  shows "key_shape R C t s' \<and> key_view C s' (row, col) = (c, bit w col)
    \<and> (\<forall>y \<in> keys R C. y \<noteq> (row, col) \<longrightarrow> key_view C s' y = key_view C s y)"
proof -
  have len: "length (db_counters s) = R * C" "length (db_cooked s) = R"
    and sh: "matrix_shape R C (db_cooked s)"
    using assms(1) by (auto simp: key_shape_def matrix_shape_def)
  have ix: "row * C + col < R * C" using assms(2,3) by (rule index_lt)
  have "bit w k \<Longrightarrow> k < C" for k
    using assms(2,3,4) sh by (cases "k = col") (auto simp: matrix_shape_def)
  with sh have "matrix_shape R C (db_cooked s')" unfolding assms(6) by (intro matrix_shape_set)
  moreover have "key_view C s' (row, col) = (c, bit w col)"
    using len ix assms(2) by (simp add: key_view_def key_counter_def key_val_def assms(5,6))
  moreover have "key_view C s' (i, j) = key_view C s (i, j)"
    if "i < R" "j < C" "(i, j) \<noteq> (row, col)" for i j
  proof -
    have "i * C + j \<noteq> row * C + col" using index_inj[OF that(2) assms(3), of i row] that(3) by auto
    moreover have "bit ((db_cooked s)[row := w] ! i) j = bit (db_cooked s ! i) j"
      using that assms(2,4) len(2) by (cases "i = row") auto
    ultimately show ?thesis by (simp add: key_view_def key_counter_def key_val_def assms(5,6))
  qed
  moreover have "key_shape R C t s'"
    using assms(1,7) len \<open>matrix_shape R C (db_cooked s')\<close> by (simp add: key_shape_def assms(5))
  ultimately show ?thesis unfolding keys_def by blast
qed

lemma key_put_counter:
  assumes "key_shape R C t s" "row < R" "col < C"
    and "db_counters s' = (db_counters s)[row * C + col := c]"
    and "db_cooked s' = db_cooked s" "db_last_time s' = db_last_time s"
  shows "key_shape R C t s' \<and> key_view C s' (row, col) = (c, bit (db_cooked s ! row) col)
    \<and> (\<forall>y \<in> keys R C. y \<noteq> (row, col) \<longrightarrow> key_view C s' y = key_view C s y)"
  by (rule key_put) (use assms in auto)

text \<open>
  The loop over rows and columns: the body of the inner loop may use the state s0 at the start
  of its row, and each key is visited once.
\<close>

lemma keys_loop:
  assumes body: "\<And>row col s0 s. row < R \<Longrightarrow> col < C \<Longrightarrow> I s0 \<Longrightarrow> I s
      \<Longrightarrow> view s (row, col) = view s0 (row, col)
      \<Longrightarrow> I (body row s0 col s) \<and> view (body row s0 col s) (row, col) = h (row, col) (view s (row, col))
        \<and> (\<forall>y \<in> keys R C. y \<noteq> (row, col) \<longrightarrow> view (body row s0 col s) y = view s y)
        \<and> (\<forall>i. fl (body row s0 col s) i \<longleftrightarrow> fl s i \<or> g i (row, col) (view s (row, col)))"
    and "I s"
  shows "I (for_rows R (\<lambda>row s. fold (body row s) [0..<C] s) s)
    \<and> (\<forall>y \<in> keys R C. view (for_rows R (\<lambda>row s. fold (body row s) [0..<C] s) s) y = h y (view s y))
    \<and> (\<forall>i. fl (for_rows R (\<lambda>row s. fold (body row s) [0..<C] s) s) i
        \<longleftrightarrow> fl s i \<or> (\<exists>y \<in> keys R C. g i y (view s y)))"
proof -
  define P where "P row s0 m t \<longleftrightarrow> I t
      \<and> (\<forall>i < R. \<forall>j < C. view t (i, j) = (if i = row \<and> j < m then h (i, j) (view s0 (i, j)) else view s0 (i, j)))
      \<and> (\<forall>f. fl t f \<longleftrightarrow> fl s0 f \<or> (\<exists>j < m. g f (row, j) (view s0 (row, j))))" for row s0 m t
  have inner: "m \<le> C \<Longrightarrow> P row s0 m (fold (body row s0) [0..<m] s0)"
    if row: "row < R" and s0: "I s0" for row s0 m
  proof (induction m)
    case 0
    then show ?case using s0 by (simp add: P_def)
  next
    case (Suc m)
    let ?t = "fold (body row s0) [0..<m] s0"
    have m: "m < C" and "P row s0 m ?t" using Suc by simp_all
    then have IH: "I ?t" "\<And>i j. i < R \<Longrightarrow> j < C
        \<Longrightarrow> view ?t (i, j) = (if i = row \<and> j < m then h (i, j) (view s0 (i, j)) else view s0 (i, j))"
      "\<And>f. fl ?t f \<longleftrightarrow> fl s0 f \<or> (\<exists>j < m. g f (row, j) (view s0 (row, j)))"
      unfolding P_def by blast+
    have v: "view ?t (row, m) = view s0 (row, m)" using IH(2)[OF row m] by simp
    note b = body[OF row m s0 IH(1) v]
    have "view (body row s0 m ?t) (i, j)
        = (if i = row \<and> j < Suc m then h (i, j) (view s0 (i, j)) else view s0 (i, j))"
      if ij: "i < R" "j < C" for i j
    proof (cases "(i, j) = (row, m)")
      case True
      then show ?thesis using b v by simp
    next
      case False
      then have "view (body row s0 m ?t) (i, j) = view ?t (i, j)" using b ij by simp
      with False show ?thesis using IH(2)[OF ij] by (auto simp: less_Suc_eq)
    qed
    moreover have "fl (body row s0 m ?t) f \<longleftrightarrow> fl s0 f \<or> (\<exists>j < Suc m. g f (row, j) (view s0 (row, j)))" for f
    proof -
      have "fl (body row s0 m ?t) f \<longleftrightarrow> fl ?t f \<or> g f (row, m) (view s0 (row, m))" using b v by simp
      then show ?thesis unfolding IH(3) less_Suc_eq by blast
    qed
    ultimately show ?case using b by (simp add: P_def)
  qed
  let ?f = "\<lambda>row s. fold (body row s) [0..<C] s"
  define Q where "Q n t \<longleftrightarrow> I t
      \<and> (\<forall>i < R. \<forall>j < C. view t (i, j) = (if i < n then h (i, j) (view s (i, j)) else view s (i, j)))
      \<and> (\<forall>f. fl t f \<longleftrightarrow> fl s f \<or> (\<exists>i < n. \<exists>j < C. g f (i, j) (view s (i, j))))" for n t
  have "n \<le> R \<Longrightarrow> Q n (fold ?f [0..<n] s)" for n
  proof (induction n)
    case 0
    then show ?case using assms(2) by (simp add: Q_def)
  next
    case (Suc n)
    let ?t = "fold ?f [0..<n] s"
    have n: "n < R" and "Q n ?t" using Suc by simp_all
    then have IH: "I ?t" "\<And>i j. i < R \<Longrightarrow> j < C
        \<Longrightarrow> view ?t (i, j) = (if i < n then h (i, j) (view s (i, j)) else view s (i, j))"
      "\<And>f. fl ?t f \<longleftrightarrow> fl s f \<or> (\<exists>i < n. \<exists>j < C. g f (i, j) (view s (i, j)))"
      unfolding Q_def by blast+
    have "P n ?t C (?f n ?t)" using inner[OF n IH(1), of C] by simp
    then have r: "I (?f n ?t)" "\<And>i j. i < R \<Longrightarrow> j < C
        \<Longrightarrow> view (?f n ?t) (i, j) = (if i = n \<and> j < C then h (i, j) (view ?t (i, j)) else view ?t (i, j))"
      "\<And>f. fl (?f n ?t) f \<longleftrightarrow> fl ?t f \<or> (\<exists>j < C. g f (n, j) (view ?t (n, j)))"
      unfolding P_def by blast+
    have "view (?f n ?t) (i, j) = (if i < Suc n then h (i, j) (view s (i, j)) else view s (i, j))"
      if "i < R" "j < C" for i j
      using r(2)[OF that] IH(2)[OF that] that(2) by (auto simp: less_Suc_eq)
    moreover have "fl (?f n ?t) f \<longleftrightarrow> fl s f \<or> (\<exists>i < Suc n. \<exists>j < C. g f (i, j) (view s (i, j)))" for f
    proof -
      have "view ?t (n, j) = view s (n, j)" if "j < C" for j using IH(2)[OF n that] by simp
      then have "(\<exists>j < C. g f (n, j) (view ?t (n, j))) \<longleftrightarrow> (\<exists>j < C. g f (n, j) (view s (n, j)))" by auto
      then show ?thesis unfolding r(3) IH(3) less_Suc_eq by blast
    qed
    ultimately show ?case using r(1) by (simp add: Q_def)
  qed
  from this[of R] have "Q R (for_rows R ?f s)" by (simp add: for_rows_def)
  then show ?thesis unfolding Q_def keys_def by auto
qed

lemma sub_running: "e < (c :: 'a::len word) \<Longrightarrow> c - e \<noteq> 0 \<and> c - e \<le> c"
  by (auto simp: word_le_sub1 word_sub_le)

text \<open>The two shapes in which the loops meet the contract of cells.\<close>

lemma key_update_form:
  assumes "key_shape R C (db_last_time s) t
      \<and> (\<forall>k \<in> keys R C. key_view C t k = h k (key_view C s k))
      \<and> (\<forall>f. flag_of t f \<longleftrightarrow> flag_of s0 f \<or> (\<exists>k \<in> keys R C. g f k (key_view C s k)))"
    and "\<not> db_counters_need_update s0" "\<not> db_matrix_need_update s0" "db_cooked_changed s0 = db_cooked_changed s"
    and "\<And>k v. g Counters_need_update k v \<longleftrightarrow> running (fst (h k v))"
    and "\<And>k v. g Matrix_need_update k v \<longleftrightarrow> wants v"
    and "\<And>k v. g Cooked_changed k v \<longleftrightarrow> snd (h k v) \<noteq> snd v"
  shows "length (db_counters t) = R * C \<and> matrix_shape R C (db_cooked t)
      \<and> db_last_time t = db_last_time s
      \<and> (\<forall>k \<in> keys R C. (key_counter C (db_counters t) k, key_val (db_cooked t) k)
          = h k (key_counter C (db_counters s) k, key_val (db_cooked s) k))
      \<and> (db_counters_need_update t \<longleftrightarrow> (\<exists>k \<in> keys R C. running (key_counter C (db_counters t) k)))
      \<and> (db_matrix_need_update t
          \<longleftrightarrow> (\<exists>k \<in> keys R C. wants (key_counter C (db_counters s) k, key_val (db_cooked s) k)))
      \<and> (db_cooked_changed t \<longleftrightarrow> db_cooked_changed s
          \<or> (\<exists>k \<in> keys R C. key_val (db_cooked t) k \<noteq> key_val (db_cooked s) k))"
proof -
  have v: "\<forall>k \<in> keys R C. (key_counter C (db_counters t) k, key_val (db_cooked t) k)
      = h k (key_counter C (db_counters s) k, key_val (db_cooked s) k)"
    using assms(1) by (simp add: key_view_def)
  then have v': "\<forall>k \<in> keys R C. fst (h k (key_view C s k)) = key_counter C (db_counters t) k
      \<and> snd (h k (key_view C s k)) = key_val (db_cooked t) k"
    by (metis fst_conv snd_conv key_view_def)
  note f = assms(1)[THEN conjunct2, THEN conjunct2, rule_format]
  show ?thesis
    using assms(1) v v' assms(2-) f[of Matrix_need_update] f[of Cooked_changed] f[of Counters_need_update]
    by (simp add: key_shape_def key_view_def)
qed

lemma key_transfer_form:
  assumes "key_shape R C (db_last_time s) t
      \<and> (\<forall>k \<in> keys R C. key_view C t k = h k (key_view C s k))
      \<and> (\<forall>f. flag_of t f \<longleftrightarrow> flag_of s0 f \<or> (\<exists>k \<in> keys R C. g f k (key_view C s k)))"
    and "db_counters_need_update s0 = db_counters_need_update s"
    and "db_matrix_need_update s0 \<longrightarrow> db_matrix_need_update s \<and> nowants"
    and "db_cooked_changed s0 = db_cooked_changed s"
    and "\<And>k v. running (fst (h k v)) \<Longrightarrow> g Counters_need_update k v \<or> running (fst v)"
    and "\<And>k v. \<not> g Matrix_need_update k v"
    and "\<And>k v. g Cooked_changed k v \<longleftrightarrow> snd (h k v) \<noteq> snd v"
  shows "length (db_counters t) = R * C \<and> matrix_shape R C (db_cooked t)
      \<and> db_last_time t = db_last_time s
      \<and> (\<forall>k \<in> keys R C. (key_counter C (db_counters t) k, key_val (db_cooked t) k)
          = h k (key_counter C (db_counters s) k, key_val (db_cooked s) k))
      \<and> (db_counters_need_update s \<longrightarrow> db_counters_need_update t)
      \<and> (\<forall>k \<in> keys R C. running (key_counter C (db_counters t) k)
          \<longrightarrow> db_counters_need_update t \<or> running (key_counter C (db_counters s) k))
      \<and> (db_matrix_need_update t \<longrightarrow> db_matrix_need_update s \<and> nowants)
      \<and> (db_cooked_changed t \<longleftrightarrow> db_cooked_changed s
          \<or> (\<exists>k \<in> keys R C. key_val (db_cooked t) k \<noteq> key_val (db_cooked s) k))"
proof -
  have v: "\<forall>k \<in> keys R C. (key_counter C (db_counters t) k, key_val (db_cooked t) k)
      = h k (key_counter C (db_counters s) k, key_val (db_cooked s) k)"
    using assms(1) by (simp add: key_view_def)
  then have v': "\<forall>k \<in> keys R C. fst (h k (key_view C s k)) = key_counter C (db_counters t) k
      \<and> snd (h k (key_view C s k)) = key_val (db_cooked t) k"
    by (metis fst_conv snd_conv key_view_def)
  note f = assms(1)[THEN conjunct2, THEN conjunct2, rule_format]
  have "db_counters_need_update t \<or> running (key_counter C (db_counters s) k)"
    if "k \<in> keys R C" "running (key_counter C (db_counters t) k)" for k
    using v' that assms(5)[of k "key_view C s k"] f[of Counters_need_update] by (auto simp: key_view_def)
  then show ?thesis
    using assms(1) v v' assms(2-4,6,7) f[of Matrix_need_update] f[of Cooked_changed] f[of Counters_need_update]
    by (simp add: key_shape_def key_view_def)
qed

end
