(* ===== verification/Debounce_Per_Key.thy ===== *)
theory Debounce_Per_Key
  imports Debounce_Key
begin

text \<open>
  The debounce algorithms with a counter per key: quantum/debounce/sym_defer_pk.c (both edges
  wait), sym_eager_pk.c (both edges are taken at once, then the key is held), and
  asym_eager_defer_pk.c (presses at once, releases wait). Each section has the two loops as the
  code has them, the step they make on one key, and the interpretation that gives the contract.

  \<open>R\<close> and \<open>C\<close> are \<open>MATRIX_ROWS_PER_HAND\<close> and \<open>MATRIX_COLS\<close>, \<open>D\<close> is \<open>DEBOUNCE\<close>, not 0. The
  symmetric deferring algorithm has no \<open>matrix_need_update\<close>: in its state the flag is never set.
\<close>

section \<open>Symmetric, deferred (sym_defer_pk.c)\<close>

definition defer_pk_update_key ::
    "nat \<Rightarrow> 'r::len word list \<Rightarrow> u8 \<Rightarrow> nat \<Rightarrow> nat \<Rightarrow> (u8, 'r word) debounce_t \<Rightarrow> (u8, 'r word) debounce_t" where
  "defer_pk_update_key C raw elapsed_time row col s =
     (let index = row * C + col
      in if db_counters s ! index \<noteq> 0 then
           if db_counters s ! index \<le> elapsed_time then
             let col_mask = BIT col;
                 cooked_next = (db_cooked s ! row AND NOT col_mask) OR (raw ! row AND col_mask)
             in s\<lparr>db_counters := (db_counters s)[index := 0],
                  db_cooked_changed := db_cooked_changed s \<or> db_cooked s ! row XOR cooked_next \<noteq> 0,
                  db_cooked := (db_cooked s)[row := cooked_next]\<rparr>
           else s\<lparr>db_counters := (db_counters s)[index := db_counters s ! index - elapsed_time],
                  db_counters_need_update := True\<rparr>
         else s)"

definition defer_pk_update ::
    "nat \<Rightarrow> nat \<Rightarrow> 'r::len word list \<Rightarrow> u8 \<Rightarrow> (u8, 'r word) debounce_t \<Rightarrow> (u8, 'r word) debounce_t" where
  "defer_pk_update R C raw elapsed_time s =
     for_keys R C (defer_pk_update_key C raw elapsed_time) (s\<lparr>db_counters_need_update := False\<rparr>)"

definition defer_pk_start_key ::
    "nat \<Rightarrow> u8 \<Rightarrow> 'r::len word \<Rightarrow> nat \<Rightarrow> nat \<Rightarrow> (u8, 'r word) debounce_t \<Rightarrow> (u8, 'r word) debounce_t" where
  "defer_pk_start_key C D delta row col s =
     (let index = row * C + col
      in if delta AND BIT col \<noteq> 0 then
           if db_counters s ! index = 0 then
             s\<lparr>db_counters := (db_counters s)[index := D], db_counters_need_update := True\<rparr>
           else s
         else s\<lparr>db_counters := (db_counters s)[index := 0]\<rparr>)"

definition defer_pk_start ::
    "nat \<Rightarrow> nat \<Rightarrow> u8 \<Rightarrow> 'r::len word list \<Rightarrow> (u8, 'r word) debounce_t \<Rightarrow> (u8, 'r word) debounce_t" where
  "defer_pk_start R C D raw s =
     for_rows R (\<lambda>row s. let delta = raw ! row XOR db_cooked s ! row
       in fold (defer_pk_start_key C D delta row) [0..<C] s) s"

definition defer_pk_debounce ::
    "nat \<Rightarrow> nat \<Rightarrow> u8 \<Rightarrow> u32 \<Rightarrow> 'r::len word list \<Rightarrow> bool \<Rightarrow> (u8, 'r word) debounce_t
      \<Rightarrow> (u8, 'r word) debounce_t \<times> bool" where
  "defer_pk_debounce R C D now raw changed s =
     debounce_call 255 (defer_pk_update R C raw) (defer_pk_start R C D raw) now changed s"

text \<open>What happens to one key: its counter and cooked bit, with r its raw bit.\<close>

definition defer_tick :: "u8 \<Rightarrow> 'v \<Rightarrow> u8 \<times> 'v \<Rightarrow> u8 \<times> 'v" where
  "defer_tick e r v = (case v of (c, b) \<Rightarrow>
     if c = 0 then (c, b) else if c \<le> e then (0, r) else (c - e, b))"

definition defer_start :: "u8 \<Rightarrow> 'v \<Rightarrow> u8 \<times> 'v \<Rightarrow> u8 \<times> 'v" where
  "defer_start D r v = (case v of (c, b) \<Rightarrow>
     if r \<noteq> b then (if c = 0 then D else c, b) else (0, b))"

definition defer_inv :: "u8 \<Rightarrow> 'v \<Rightarrow> u8 \<times> 'v \<Rightarrow> bool" where
  "defer_inv D r v \<longleftrightarrow> 0 < D \<and> fst v \<le> D \<and> (fst v = 0 \<longleftrightarrow> snd v = r)"

lemmas defer_defs = defer_tick_def defer_start_def defer_inv_def

lemma xor_masked_bit:
  "(w XOR ((w AND NOT (BIT n)) OR (u AND BIT n)) \<noteq> (0 :: 'r::len word))
    \<longleftrightarrow> n < LENGTH('r) \<and> bit w n \<noteq> bit u n"
proof -
  have "(w XOR ((w AND NOT (BIT n)) OR (u AND BIT n)) \<noteq> 0)
      \<longleftrightarrow> (\<exists>k < LENGTH('r). bit (w XOR ((w AND NOT (BIT n)) OR (u AND BIT n))) k \<noteq> bit (0 :: 'r word) k)"
    by (rule word_neq_bits)
  also have "\<dots> \<longleftrightarrow> n < LENGTH('r) \<and> bit w n \<noteq> bit u n"
    by (auto simp: bit_simps)
  finally show ?thesis .
qed

lemma bit_masked:
  "bit ((w AND NOT (BIT n)) OR (u AND BIT n)) k \<longleftrightarrow> (if k = n then bit u n else bit (w :: 'r::len word) k)"
  using bit_imp_le_length[of u k] bit_imp_le_length[of w k] by (auto simp: bit_simps)

lemma bit_neq_imp_length: "bit (w :: 'r::len word) n \<noteq> bit (u :: 'r word) n \<Longrightarrow> n < LENGTH('r)"
  by (metis bit_imp_le_length)

lemma defer_pk_update_cells:
  assumes "length (db_counters s) = R * C" "matrix_shape R C (db_cooked s)"
    and t_def: "t = defer_pk_update R C raw e s"
  shows "key_shape R C (db_last_time s) t
    \<and> (\<forall>k \<in> keys R C. key_view C t k = defer_tick e (key_val raw k) (key_view C s k))
    \<and> (\<forall>f. flag_of t f \<longleftrightarrow> flag_of (s\<lparr>db_counters_need_update := False\<rparr>) f \<or> (\<exists>k \<in> keys R C.
        case f of
          Counters_need_update \<Rightarrow> fst (defer_tick e (key_val raw k) (key_view C s k)) \<noteq> 0
        | Cooked_changed \<Rightarrow> snd (defer_tick e (key_val raw k) (key_view C s k)) \<noteq> snd (key_view C s k)
        | Matrix_need_update \<Rightarrow> False))"
proof -
  let ?s = "s\<lparr>db_counters_need_update := False\<rparr>"
  have v: "key_view C ?s = key_view C s" by (auto simp: key_view_def)
  have sh: "key_shape R C (db_last_time s) ?s" using assms by (simp add: key_shape_def)
  let ?h = "\<lambda>k. defer_tick e (key_val raw k)"
  let ?g = "\<lambda>f k v. case f of Counters_need_update \<Rightarrow> fst (?h k v) \<noteq> 0
    | Cooked_changed \<Rightarrow> snd (?h k v) \<noteq> snd v | Matrix_need_update \<Rightarrow> False"
  have step: "key_shape R C T (defer_pk_update_key C raw e row col s)
      \<and> key_view C (defer_pk_update_key C raw e row col s) (row, col) = ?h (row, col) (key_view C s (row, col))
      \<and> (\<forall>y \<in> keys R C. y \<noteq> (row, col) \<longrightarrow> key_view C (defer_pk_update_key C raw e row col s) y = key_view C s y)
      \<and> (\<forall>f. flag_of (defer_pk_update_key C raw e row col s) f \<longleftrightarrow> flag_of s f \<or> ?g f (row, col) (key_view C s (row, col)))"
    if rc: "row < R" "col < C" and s: "key_shape R C T s" for row col T and s :: "(u8, 'a word) debounce_t"
  proof -
    let ?c = "db_counters s ! (row * C + col)" and ?s' = "defer_pk_update_key C raw e row col s"
    have kv: "key_view C s (row, col) = (?c, bit (db_cooked s ! row) col)" "key_val raw (row, col) = bit (raw ! row) col"
      by (simp_all add: key_view_def key_counter_def key_val_def)
    consider "?c = 0" | "?c \<noteq> 0" "?c \<le> e" | "?c \<noteq> 0" "\<not> ?c \<le> e" by blast
    then show ?thesis
    proof cases
      case 1
      then have "?s' = s" by (simp add: defer_pk_update_key_def)
      then show ?thesis using 1 s by (auto simp: kv defer_tick_def split: db_flag.split)
    next
      case 2
      let ?w = "(db_cooked s ! row AND NOT (BIT col)) OR (raw ! row AND BIT col)"
      have "key_shape R C T ?s' \<and> key_view C ?s' (row, col) = (0, bit ?w col)
          \<and> (\<forall>y \<in> keys R C. y \<noteq> (row, col) \<longrightarrow> key_view C ?s' y = key_view C s y)"
        by (rule key_put[OF s rc]) (use 2 in \<open>auto simp: defer_pk_update_key_def Let_def bit_masked\<close>)
      moreover have "db_flag_eq" if "db_flag_eq = (flag_of ?s' f \<longleftrightarrow> flag_of s f \<or> ?g f (row, col) (key_view C s (row, col)))" for db_flag_eq f
        unfolding that using 2 bit_neq_imp_length[of "db_cooked s ! row" col "raw ! row"]
        by (cases f) (auto simp: kv defer_tick_def defer_pk_update_key_def Let_def xor_masked_bit)
      ultimately show ?thesis using 2 by (auto simp: kv defer_tick_def bit_masked)
    next
      case 3
      have "key_shape R C T ?s' \<and> key_view C ?s' (row, col) = (?c - e, bit (db_cooked s ! row) col)
          \<and> (\<forall>y \<in> keys R C. y \<noteq> (row, col) \<longrightarrow> key_view C ?s' y = key_view C s y)"
        by (rule key_put_counter[OF s rc]) (use 3 in \<open>auto simp: defer_pk_update_key_def Let_def\<close>)
      moreover have "?c - e \<noteq> 0" using 3 sub_running[of e ?c] by simp
      ultimately show ?thesis using 3
        by (auto simp: kv defer_tick_def defer_pk_update_key_def Let_def split: db_flag.split)
    qed
  qed
  have t: "t = for_rows R (\<lambda>row s. fold (defer_pk_update_key C raw e row) [0..<C] s) ?s"
    by (simp add: t_def defer_pk_update_def for_keys_def)
  show ?thesis
    using keys_loop[of R C "key_shape R C (db_last_time s)" "key_view C" "\<lambda>row s0. defer_pk_update_key C raw e row"
        ?h flag_of ?g ?s] step sh
    unfolding t v by blast
qed

lemma bit_delta: "(u XOR w) AND BIT n \<noteq> (0 :: 'r::len word) \<longleftrightarrow> bit u n \<noteq> bit w n"
  by (simp add: and_BIT_neq_0 bit_xor_iff)

lemma defer_pk_start_cells:
  assumes "length (db_counters s) = R * C" "matrix_shape R C (db_cooked s)"
    and t_def: "t = defer_pk_start R C D raw s"
  shows "key_shape R C (db_last_time s) t
    \<and> (\<forall>k \<in> keys R C. key_view C t k = defer_start D (key_val raw k) (key_view C s k))
    \<and> (\<forall>f. flag_of t f \<longleftrightarrow> flag_of s f \<or> (\<exists>k \<in> keys R C.
        f = Counters_need_update \<and> key_val raw k \<noteq> snd (key_view C s k) \<and> fst (key_view C s k) = 0))"
proof -
  have sh: "key_shape R C (db_last_time s) s" using assms by (simp add: key_shape_def)
  let ?h = "\<lambda>k. defer_start D (key_val raw k)"
  let ?g = "\<lambda>f k v. f = Counters_need_update \<and> key_val raw k \<noteq> snd v \<and> fst v = (0 :: u8)"
  let ?b = "\<lambda>row (s0 :: (u8, 'a word) debounce_t). defer_pk_start_key C D (raw ! row XOR db_cooked s0 ! row) row"
  have step: "key_shape R C T (?b row s0 col s)
      \<and> key_view C (?b row s0 col s) (row, col) = ?h (row, col) (key_view C s (row, col))
      \<and> (\<forall>y \<in> keys R C. y \<noteq> (row, col) \<longrightarrow> key_view C (?b row s0 col s) y = key_view C s y)
      \<and> (\<forall>f. flag_of (?b row s0 col s) f \<longleftrightarrow> flag_of s f \<or> ?g f (row, col) (key_view C s (row, col)))"
    if rc: "row < R" "col < C" and s: "key_shape R C T s" and v: "key_view C s (row, col) = key_view C s0 (row, col)"
    for row col T and s s0 :: "(u8, 'a word) debounce_t"
  proof -
    let ?c = "db_counters s ! (row * C + col)" and ?s' = "?b row s0 col s"
    have kv: "key_view C s (row, col) = (?c, bit (db_cooked s ! row) col)" "key_val raw (row, col) = bit (raw ! row) col"
      by (simp_all add: key_view_def key_counter_def key_val_def)
    have d: "(raw ! row XOR db_cooked s0 ! row) AND BIT col \<noteq> 0 \<longleftrightarrow> bit (raw ! row) col \<noteq> bit (db_cooked s ! row) col"
      using v by (simp add: bit_delta key_view_def key_val_def)
    have "key_shape R C T ?s' \<and> key_view C ?s' (row, col) = (fst (?h (row, col) (key_view C s (row, col))), bit (db_cooked s ! row) col)
        \<and> (\<forall>y \<in> keys R C. y \<noteq> (row, col) \<longrightarrow> key_view C ?s' y = key_view C s y)"
      by (rule key_put_counter[OF s rc])
        (auto simp: defer_pk_start_key_def Let_def d kv defer_start_def)
    moreover have "flag_of ?s' f \<longleftrightarrow> flag_of s f \<or> ?g f (row, col) (key_view C s (row, col))" for f
      by (cases f) (auto simp: defer_pk_start_key_def Let_def d kv)
    ultimately show ?thesis by (simp add: kv defer_start_def)
  qed
  have t: "t = for_rows R (\<lambda>row s. fold (?b row s) [0..<C] s) s"
    by (simp add: t_def defer_pk_start_def Let_def)
  show ?thesis
    using keys_loop[of R C "key_shape R C (db_last_time s)" "key_view C" ?b ?h flag_of ?g s] step sh
    unfolding t by blast
qed

lemma defer_cell_laws:
  "defer_inv D r0 v \<Longrightarrow> defer_inv D r (defer_start D r (defer_tick e r v))"
  "defer_inv D r v \<Longrightarrow> defer_start D r (defer_tick e r v) = defer_tick e r v"
  "snd (defer_start D r w) = snd w"
  "snd (defer_tick e r v) \<in> {snd v, r}"
  "defer_inv D r v \<Longrightarrow> D \<le> e \<Longrightarrow> snd (defer_tick e r v) = r"
proof -
  obtain c b where v: "v = (c, b)" by force
  have c: "c \<noteq> 0 \<Longrightarrow> \<not> c \<le> e \<Longrightarrow> c - e \<noteq> 0 \<and> c - e \<le> c" using sub_running[of e c] by simp
  show "defer_inv D r (defer_start D r (defer_tick e r v))" if "defer_inv D r0 v"
    using that c unfolding v defer_defs by (auto split: if_splits)
  show "defer_start D r (defer_tick e r v) = defer_tick e r v" if "defer_inv D r v"
    using that c unfolding v defer_defs by auto
  show "snd (defer_tick e r v) = r" if "defer_inv D r v" "D \<le> e"
    using that unfolding v defer_defs by (auto split: if_splits)
qed (auto simp: defer_defs split: prod.splits)

interpretation defer_pk: cellwise 255 "defer_pk_update R C" "defer_pk_start R C D" R C "keys R C" key_val
  "\<lambda>cs. length cs = R * C" "key_counter C" "\<lambda>c. c \<noteq> 0" defer_tick "\<lambda>_ _. False"
  "defer_start D" "\<lambda>e r v. defer_start D r (defer_tick e r v)" "defer_inv D" "\<lambda>e. D \<le> e"
proof
  fix s :: "(u8, 'a word) debounce_t" and raw :: "'a word list" and e
  assume s: "length (db_counters s) = R * C" "matrix_shape R C (db_cooked s)"
  let ?t = "defer_pk_start R C D raw s" and ?u = "defer_pk_update R C raw e s"
  show "length (db_counters ?t) = R * C \<and> matrix_shape R C (db_cooked ?t)
      \<and> db_last_time ?t = db_last_time s
      \<and> (\<forall>k \<in> keys R C. (key_counter C (db_counters ?t) k, key_val (db_cooked ?t) k)
          = defer_start D (key_val raw k) (key_counter C (db_counters s) k, key_val (db_cooked s) k))
      \<and> (db_counters_need_update s \<longrightarrow> db_counters_need_update ?t)
      \<and> (\<forall>k \<in> keys R C. key_counter C (db_counters ?t) k \<noteq> 0
          \<longrightarrow> db_counters_need_update ?t \<or> key_counter C (db_counters s) k \<noteq> 0)
      \<and> (db_matrix_need_update ?t \<longrightarrow> db_matrix_need_update s \<and> (\<forall>e v. \<not> False))
      \<and> (db_cooked_changed ?t \<longleftrightarrow> db_cooked_changed s
          \<or> (\<exists>k \<in> keys R C. key_val (db_cooked ?t) k \<noteq> key_val (db_cooked s) k))"
    by (rule key_transfer_form[where s = s and h = "\<lambda>k. defer_start D (key_val raw k)"
          and g = "\<lambda>f k v. f = Counters_need_update \<and> key_val raw k \<noteq> snd v \<and> fst v = 0"
          and running = "\<lambda>c. c \<noteq> 0", OF defer_pk_start_cells[OF s refl]])
      (auto simp: defer_start_def split: prod.splits if_splits)
  assume "\<not> db_matrix_need_update s"
  then show "length (db_counters ?u) = R * C \<and> matrix_shape R C (db_cooked ?u)
      \<and> db_last_time ?u = db_last_time s
      \<and> (\<forall>k \<in> keys R C. (key_counter C (db_counters ?u) k, key_val (db_cooked ?u) k)
          = defer_tick e (key_val raw k) (key_counter C (db_counters s) k, key_val (db_cooked s) k))
      \<and> (db_counters_need_update ?u \<longleftrightarrow> (\<exists>k \<in> keys R C. key_counter C (db_counters ?u) k \<noteq> 0))
      \<and> (db_matrix_need_update ?u \<longleftrightarrow> (\<exists>k \<in> keys R C. False))
      \<and> (db_cooked_changed ?u \<longleftrightarrow> db_cooked_changed s
          \<or> (\<exists>k \<in> keys R C. key_val (db_cooked ?u) k \<noteq> key_val (db_cooked s) k))"
    by (intro key_update_form[where s = s and h = "\<lambda>k. defer_tick e (key_val raw k)"
          and g = "\<lambda>f k v. case f of
            Counters_need_update \<Rightarrow> fst (defer_tick e (key_val raw k) v) \<noteq> 0
          | Cooked_changed \<Rightarrow> snd (defer_tick e (key_val raw k) v) \<noteq> snd v
          | Matrix_need_update \<Rightarrow> False"
          and running = "\<lambda>c. c \<noteq> 0" and wants = "\<lambda>_. False", OF defer_pk_update_cells[OF s refl]]) simp_all
next
  fix r r0 :: bool and v e e'
  assume i: "defer_inv D r0 v"
  show "defer_inv D r (defer_start D r (defer_tick e r v))" using i by (rule defer_cell_laws)
  show "snd (defer_start D r (defer_tick e r v)) \<noteq> snd v
      \<longleftrightarrow> snd (defer_tick e r v) \<noteq> snd v
        \<or> snd (defer_start D r (defer_tick e r v)) \<noteq> snd (defer_tick e r v)"
    by (simp add: defer_cell_laws(3))
  show "snd (defer_start D r (defer_tick e r v)) \<in> {snd v, r}"
    unfolding defer_cell_laws(3) by (rule defer_cell_laws)
next
  fix r :: bool and v e
  assume i: "defer_inv D r v"
  show "defer_inv D r (defer_start D r (defer_tick e r v))" using i by (rule defer_cell_laws)
  show "snd (defer_start D r (defer_tick e r v)) \<in> {snd v, r}"
    unfolding defer_cell_laws(3) by (rule defer_cell_laws)
  show "defer_tick e r v = defer_start D r (defer_tick e r v)"
    using defer_cell_laws(2)[OF i, of e] by simp
next
  fix r :: bool and v e e'
  assume i: "defer_inv D r v" "D \<le> e" "D \<le> e'"
  show "snd (defer_start D r (defer_tick e' r (defer_start D r (defer_tick e r v)))) = r"
    unfolding defer_cell_laws(3)[of D r "defer_tick e' r _"]
    by (intro defer_cell_laws(5)[OF defer_cell_laws(1)[OF i(1)] i(3)])
qed (auto simp: key_cells_eq key_of_bit defer_cell_laws(2), auto simp: defer_defs split: prod.splits)

section \<open>Symmetric, eager (sym_eager_pk.c)\<close>

definition eager_pk_update_key ::
    "nat \<Rightarrow> u8 \<Rightarrow> nat \<Rightarrow> nat \<Rightarrow> (u8, 'r::len word) debounce_t \<Rightarrow> (u8, 'r word) debounce_t" where
  "eager_pk_update_key C elapsed_time row col s =
     (let index = row * C + col
      in if db_counters s ! index \<noteq> 0 then
           if db_counters s ! index \<le> elapsed_time then
             s\<lparr>db_counters := (db_counters s)[index := 0], db_matrix_need_update := True\<rparr>
           else s\<lparr>db_counters := (db_counters s)[index := db_counters s ! index - elapsed_time],
                  db_counters_need_update := True\<rparr>
         else s)"

definition eager_pk_update ::
    "nat \<Rightarrow> nat \<Rightarrow> u8 \<Rightarrow> (u8, 'r::len word) debounce_t \<Rightarrow> (u8, 'r word) debounce_t" where
  "eager_pk_update R C elapsed_time s =
     for_keys R C (eager_pk_update_key C elapsed_time)
       (s\<lparr>db_counters_need_update := False, db_matrix_need_update := False\<rparr>)"

text \<open>The inner loop of the transfer works on a copy of the row, stored after the loop.\<close>

definition eager_pk_transfer_key ::
    "nat \<Rightarrow> u8 \<Rightarrow> 'r::len word \<Rightarrow> nat \<Rightarrow> nat \<Rightarrow> (u8, 'r word) debounce_t \<times> 'r word
      \<Rightarrow> (u8, 'r word) debounce_t \<times> 'r word" where
  "eager_pk_transfer_key C D delta row col x =
     (case x of (s, existing_row) \<Rightarrow>
       let index = row * C + col; col_mask = BIT col
       in if delta AND col_mask \<noteq> 0 \<and> db_counters s ! index = 0 then
            (s\<lparr>db_counters := (db_counters s)[index := D], db_counters_need_update := True,
               db_cooked_changed := True\<rparr>, existing_row XOR col_mask)
          else (s, existing_row))"

definition eager_pk_transfer ::
    "nat \<Rightarrow> nat \<Rightarrow> u8 \<Rightarrow> 'r::len word list \<Rightarrow> (u8, 'r word) debounce_t \<Rightarrow> (u8, 'r word) debounce_t" where
  "eager_pk_transfer R C D raw s =
     for_rows R (\<lambda>row s. let delta = raw ! row XOR db_cooked s ! row
       in case fold (eager_pk_transfer_key C D delta row) [0..<C] (s, db_cooked s ! row) of
            (s, existing_row) \<Rightarrow> s\<lparr>db_cooked := (db_cooked s)[row := existing_row]\<rparr>)
       (s\<lparr>db_matrix_need_update := False\<rparr>)"

definition eager_pk_debounce ::
    "nat \<Rightarrow> nat \<Rightarrow> u8 \<Rightarrow> u32 \<Rightarrow> 'r::len word list \<Rightarrow> bool \<Rightarrow> (u8, 'r word) debounce_t
      \<Rightarrow> (u8, 'r word) debounce_t \<times> bool" where
  "eager_pk_debounce R C D now raw changed s =
     debounce_call 255 (eager_pk_update R C) (eager_pk_transfer R C D raw) now changed s"

definition eager_tick :: "u8 \<Rightarrow> 'v \<Rightarrow> u8 \<times> 'v \<Rightarrow> u8 \<times> 'v" where
  "eager_tick e r v = (case v of (c, b) \<Rightarrow>
     if c = 0 then (c, b) else if c \<le> e then (0, b) else (c - e, b))"

definition eager_wants :: "u8 \<Rightarrow> u8 \<times> 'v \<Rightarrow> bool" where
  "eager_wants e v \<longleftrightarrow> fst v \<noteq> 0 \<and> fst v \<le> e"

definition eager_start :: "u8 \<Rightarrow> 'v \<Rightarrow> u8 \<times> 'v \<Rightarrow> u8 \<times> 'v" where
  "eager_start D r v = (if r \<noteq> snd v \<and> fst v = 0 then (D, r) else v)"

definition eager_inv :: "u8 \<Rightarrow> 'v \<Rightarrow> u8 \<times> 'v \<Rightarrow> bool" where
  "eager_inv D r v \<longleftrightarrow> 0 < D \<and> fst v \<le> D \<and> (fst v = 0 \<longrightarrow> snd v = r)"

lemmas eager_defs = eager_tick_def eager_wants_def eager_start_def eager_inv_def

lemma eager_pk_update_cells:
  assumes "length (db_counters s) = R * C" "matrix_shape R C (db_cooked s)"
    and t_def: "t = eager_pk_update R C e s"
  shows "key_shape R C (db_last_time s) t
    \<and> (\<forall>k \<in> keys R C. key_view C t k = eager_tick e (key_val raw k) (key_view C s k))
    \<and> (\<forall>f. flag_of t f \<longleftrightarrow> flag_of (s\<lparr>db_counters_need_update := False, db_matrix_need_update := False\<rparr>) f
      \<or> (\<exists>k \<in> keys R C. case f of
          Counters_need_update \<Rightarrow> fst (eager_tick e (key_val raw k) (key_view C s k)) \<noteq> 0
        | Cooked_changed \<Rightarrow> False
        | Matrix_need_update \<Rightarrow> eager_wants e (key_view C s k)))"
proof -
  let ?s = "s\<lparr>db_counters_need_update := False, db_matrix_need_update := False\<rparr>"
  have v: "key_view C ?s = key_view C s" by (auto simp: key_view_def)
  have sh: "key_shape R C (db_last_time s) ?s" using assms by (simp add: key_shape_def)
  let ?h = "\<lambda>k. eager_tick e (key_val raw k)"
  let ?g = "\<lambda>f k v. case f of Counters_need_update \<Rightarrow> fst (?h k v) \<noteq> 0
    | Cooked_changed \<Rightarrow> False | Matrix_need_update \<Rightarrow> eager_wants e v"
  have step: "key_shape R C T (eager_pk_update_key C e row col s)
      \<and> key_view C (eager_pk_update_key C e row col s) (row, col) = ?h (row, col) (key_view C s (row, col))
      \<and> (\<forall>y \<in> keys R C. y \<noteq> (row, col) \<longrightarrow> key_view C (eager_pk_update_key C e row col s) y = key_view C s y)
      \<and> (\<forall>f. flag_of (eager_pk_update_key C e row col s) f \<longleftrightarrow> flag_of s f \<or> ?g f (row, col) (key_view C s (row, col)))"
    if rc: "row < R" "col < C" and s: "key_shape R C T s" for row col T and s :: "(u8, 'a word) debounce_t"
  proof -
    let ?c = "db_counters s ! (row * C + col)" and ?s' = "eager_pk_update_key C e row col s"
    have kv: "key_view C s (row, col) = (?c, bit (db_cooked s ! row) col)"
      by (simp add: key_view_def key_counter_def key_val_def)
    have c: "\<not> ?c \<le> e \<Longrightarrow> ?c - e \<noteq> 0" using sub_running[of e ?c] by simp
    have "key_shape R C T ?s' \<and> key_view C ?s' (row, col) = (fst (?h (row, col) (key_view C s (row, col))), bit (db_cooked s ! row) col)
        \<and> (\<forall>y \<in> keys R C. y \<noteq> (row, col) \<longrightarrow> key_view C ?s' y = key_view C s y)"
      by (rule key_put_counter[OF s rc]) (auto simp: eager_pk_update_key_def Let_def kv eager_tick_def list_update_same_value)
    moreover have "flag_of ?s' f \<longleftrightarrow> flag_of s f \<or> ?g f (row, col) (key_view C s (row, col))" for f
      using c by (cases f) (auto simp: eager_pk_update_key_def Let_def kv eager_tick_def eager_wants_def)
    ultimately show ?thesis by (simp add: kv eager_tick_def)
  qed
  have t: "t = for_rows R (\<lambda>row s. fold (eager_pk_update_key C e row) [0..<C] s) ?s"
    by (simp add: t_def eager_pk_update_def for_keys_def)
  show ?thesis
    using keys_loop[of R C "key_shape R C (db_last_time s)" "key_view C" "\<lambda>row s0. eager_pk_update_key C e row"
        ?h flag_of ?g ?s] step sh
    unfolding t v by blast
qed

text \<open>The same transfer with the row flipped in place.\<close>

definition eager_pk_flip_key ::
    "nat \<Rightarrow> u8 \<Rightarrow> 'r::len word \<Rightarrow> nat \<Rightarrow> nat \<Rightarrow> (u8, 'r word) debounce_t \<Rightarrow> (u8, 'r word) debounce_t" where
  "eager_pk_flip_key C D delta row col s =
     (let index = row * C + col; col_mask = BIT col
      in if delta AND col_mask \<noteq> 0 \<and> db_counters s ! index = 0 then
           s\<lparr>db_counters := (db_counters s)[index := D], db_counters_need_update := True,
             db_cooked_changed := True,
             db_cooked := (db_cooked s)[row := db_cooked s ! row XOR col_mask]\<rparr>
         else s)"

lemma eager_pk_row_in_place:
  assumes "row < length (db_cooked s)"
  shows "(case fold (eager_pk_transfer_key C D delta row) cols (s, db_cooked s ! row) of
      (s, existing_row) \<Rightarrow> s\<lparr>db_cooked := (db_cooked s)[row := existing_row]\<rparr>)
    = fold (eager_pk_flip_key C D delta row) cols s
    \<and> length (db_cooked (fold (eager_pk_flip_key C D delta row) cols s)) = length (db_cooked s)"
proof -
  let ?p = "\<lambda>(s, existing_row). s\<lparr>db_cooked := (db_cooked s)[row := existing_row]\<rparr>"
  let ?I = "\<lambda>x. db_cooked (fst x) = db_cooked s"
  have "?p (eager_pk_transfer_key C D delta row col x) = eager_pk_flip_key C D delta row col (?p x)
      \<and> ?I (eager_pk_transfer_key C D delta row col x)" if "?I x" for col x
    using that assms by (cases x) (auto simp: eager_pk_transfer_key_def eager_pk_flip_key_def Let_def)
  then have "?p (fold (eager_pk_transfer_key C D delta row) cols (s, db_cooked s ! row))
      = fold (eager_pk_flip_key C D delta row) cols (?p (s, db_cooked s ! row))
      \<and> ?I (fold (eager_pk_transfer_key C D delta row) cols (s, db_cooked s ! row))"
    by (intro fold_refine) simp_all
  then show ?thesis
    using fold_invariant_on[of "\<lambda>u. length (db_cooked u) = length (db_cooked s)" s cols
        "eager_pk_flip_key C D delta row"]
    by (auto simp: eager_pk_flip_key_def Let_def)
qed

lemma eager_pk_transfer_in_place:
  assumes "length (db_cooked s) = R"
  shows "eager_pk_transfer R C D raw s
    = for_rows R (\<lambda>row s. fold (eager_pk_flip_key C D (raw ! row XOR db_cooked s ! row) row) [0..<C] s)
        (s\<lparr>db_matrix_need_update := False\<rparr>)"
proof -
  let ?f = "\<lambda>row s. case fold (eager_pk_transfer_key C D (raw ! row XOR db_cooked s ! row) row) [0..<C]
      (s, db_cooked s ! row) of (s, existing_row) \<Rightarrow> s\<lparr>db_cooked := (db_cooked s)[row := existing_row]\<rparr>"
  let ?g = "\<lambda>row s. fold (eager_pk_flip_key C D (raw ! row XOR db_cooked s ! row) row) [0..<C] s"
  have "id (fold ?f [0..<R] (s\<lparr>db_matrix_need_update := False\<rparr>))
      = fold ?g [0..<R] (id (s\<lparr>db_matrix_need_update := False\<rparr>))
      \<and> length (db_cooked (fold ?f [0..<R] (s\<lparr>db_matrix_need_update := False\<rparr>))) = R"
  proof (rule fold_refine[where I = "\<lambda>s. length (db_cooked s) = R"])
    fix row and s :: "(u8, 'a word) debounce_t"
    assume "row \<in> set [0..<R]" "length (db_cooked s) = R"
    then show "id (?f row s) = ?g row (id s) \<and> length (db_cooked (?f row s)) = R"
      using eager_pk_row_in_place[of row s C D "raw ! row XOR db_cooked s ! row" "[0..<C]"] by simp
  qed (use assms in simp)
  then show ?thesis by (simp add: eager_pk_transfer_def for_rows_def Let_def)
qed

lemma bit_flip: "bit (w XOR BIT n) k \<longleftrightarrow> (if k = n \<and> n < LENGTH('r) then \<not> bit w k else bit (w :: 'r::len word) k)"
  using bit_imp_le_length[of w k] by (auto simp: bit_simps)

lemma eager_pk_transfer_cells:
  assumes "length (db_counters s) = R * C" "matrix_shape R C (db_cooked s)"
    and t_def: "t = eager_pk_transfer R C D raw s"
  shows "key_shape R C (db_last_time s) t
    \<and> (\<forall>k \<in> keys R C. key_view C t k = eager_start D (key_val raw k) (key_view C s k))
    \<and> (\<forall>f. flag_of t f \<longleftrightarrow> flag_of (s\<lparr>db_matrix_need_update := False\<rparr>) f \<or> (\<exists>k \<in> keys R C.
        f \<noteq> Matrix_need_update \<and> key_val raw k \<noteq> snd (key_view C s k) \<and> fst (key_view C s k) = 0))"
proof -
  let ?s = "s\<lparr>db_matrix_need_update := False\<rparr>"
  have kvs: "key_view C ?s = key_view C s" by (auto simp: key_view_def)
  have sh: "key_shape R C (db_last_time s) ?s" using assms by (simp add: key_shape_def)
  let ?h = "\<lambda>k. eager_start D (key_val raw k)"
  let ?g = "\<lambda>f k v. f \<noteq> Matrix_need_update \<and> key_val raw k \<noteq> snd v \<and> fst v = (0 :: u8)"
  let ?b = "\<lambda>row (s0 :: (u8, 'a word) debounce_t). eager_pk_flip_key C D (raw ! row XOR db_cooked s0 ! row) row"
  have step: "key_shape R C T (?b row s0 col s)
      \<and> key_view C (?b row s0 col s) (row, col) = ?h (row, col) (key_view C s (row, col))
      \<and> (\<forall>y \<in> keys R C. y \<noteq> (row, col) \<longrightarrow> key_view C (?b row s0 col s) y = key_view C s y)
      \<and> (\<forall>f. flag_of (?b row s0 col s) f \<longleftrightarrow> flag_of s f \<or> ?g f (row, col) (key_view C s (row, col)))"
    if rc: "row < R" "col < C" and s: "key_shape R C T s" and v: "key_view C s (row, col) = key_view C s0 (row, col)"
    for row col T and s s0 :: "(u8, 'a word) debounce_t"
  proof -
    let ?c = "db_counters s ! (row * C + col)" and ?s' = "?b row s0 col s"
    have kv: "key_view C s (row, col) = (?c, bit (db_cooked s ! row) col)" "key_val raw (row, col) = bit (raw ! row) col"
      by (simp_all add: key_view_def key_counter_def key_val_def)
    have d: "(raw ! row XOR db_cooked s0 ! row) AND BIT col \<noteq> 0 \<longleftrightarrow> bit (raw ! row) col \<noteq> bit (db_cooked s ! row) col"
      using v by (simp add: bit_delta key_view_def key_val_def)
    let ?flip = "bit (raw ! row) col \<noteq> bit (db_cooked s ! row) col \<and> ?c = 0"
    let ?w = "if ?flip then db_cooked s ! row XOR BIT col else db_cooked s ! row"
    have "key_shape R C T ?s' \<and> key_view C ?s' (row, col) = (if ?flip then D else ?c, bit ?w col)
        \<and> (\<forall>y \<in> keys R C. y \<noteq> (row, col) \<longrightarrow> key_view C ?s' y = key_view C s y)"
      by (rule key_put[OF s rc]) (auto simp: eager_pk_flip_key_def Let_def d bit_flip)
    moreover have "bit ?w col = (if ?flip then bit (raw ! row) col else bit (db_cooked s ! row) col)"
      using bit_neq_imp_length[of "raw ! row" col "db_cooked s ! row"] by (auto simp: bit_flip)
    moreover have "flag_of ?s' f \<longleftrightarrow> flag_of s f \<or> ?g f (row, col) (key_view C s (row, col))" for f
      by (cases f) (auto simp: eager_pk_flip_key_def Let_def d kv)
    ultimately show ?thesis by (auto simp: kv eager_start_def)
  qed
  have t: "t = for_rows R (\<lambda>row s. fold (?b row s) [0..<C] s) ?s"
    using assms(2) by (simp add: t_def eager_pk_transfer_in_place matrix_shape_def)
  show ?thesis
    using keys_loop[of R C "key_shape R C (db_last_time s)" "key_view C" ?b ?h flag_of ?g ?s] step sh
    unfolding t kvs by blast
qed

lemma eager_cell_laws:
  "eager_inv D r0 v \<Longrightarrow> eager_inv D r (eager_start D r (eager_tick e r v))"
  "eager_inv D r v \<Longrightarrow> \<not> eager_wants e v \<Longrightarrow> eager_start D r (eager_tick e r v) = eager_tick e r v"
  "snd (eager_tick e r v) = snd v"
  "snd (eager_start D r w) \<in> {snd w, r}"
  "eager_inv D r v \<Longrightarrow> D \<le> e \<Longrightarrow> snd (eager_start D r (eager_tick e r v)) = r"
proof -
  obtain c b where v: "v = (c, b)" by force
  have c: "c \<noteq> 0 \<Longrightarrow> \<not> c \<le> e \<Longrightarrow> c - e \<noteq> 0 \<and> c - e \<le> c" using sub_running[of e c] by simp
  show "eager_inv D r (eager_start D r (eager_tick e r v))" if "eager_inv D r0 v"
    using that c unfolding v eager_defs by (auto split: if_splits)
  show "eager_start D r (eager_tick e r v) = eager_tick e r v" if "eager_inv D r v" "\<not> eager_wants e v"
    using that c unfolding v eager_defs by auto
  show "snd (eager_start D r (eager_tick e r v)) = r" if "eager_inv D r v" "D \<le> e"
    using that unfolding v eager_defs by (auto split: if_splits)
qed (auto simp: eager_defs split: prod.splits)

interpretation eager_pk: cellwise 255 "\<lambda>_. eager_pk_update R C" "eager_pk_transfer R C D" R C "keys R C" key_val
  "\<lambda>cs. length cs = R * C" "key_counter C" "\<lambda>c. c \<noteq> 0" eager_tick eager_wants
  "eager_start D" "\<lambda>e r v. eager_start D r (eager_tick e r v)" "eager_inv D" "\<lambda>e. D \<le> e"
proof
  fix s :: "(u8, 'a word) debounce_t" and raw :: "'a word list" and e
  assume s: "length (db_counters s) = R * C" "matrix_shape R C (db_cooked s)"
  let ?t = "eager_pk_transfer R C D raw s" and ?u = "eager_pk_update R C e s"
  show "length (db_counters ?t) = R * C \<and> matrix_shape R C (db_cooked ?t)
      \<and> db_last_time ?t = db_last_time s
      \<and> (\<forall>k \<in> keys R C. (key_counter C (db_counters ?t) k, key_val (db_cooked ?t) k)
          = eager_start D (key_val raw k) (key_counter C (db_counters s) k, key_val (db_cooked s) k))
      \<and> (db_counters_need_update s \<longrightarrow> db_counters_need_update ?t)
      \<and> (\<forall>k \<in> keys R C. key_counter C (db_counters ?t) k \<noteq> 0
          \<longrightarrow> db_counters_need_update ?t \<or> key_counter C (db_counters s) k \<noteq> 0)
      \<and> (db_matrix_need_update ?t
          \<longrightarrow> db_matrix_need_update s \<and> (\<forall>e v. \<not> eager_wants e (v :: u8 \<times> bool)))
      \<and> (db_cooked_changed ?t \<longleftrightarrow> db_cooked_changed s
          \<or> (\<exists>k \<in> keys R C. key_val (db_cooked ?t) k \<noteq> key_val (db_cooked s) k))"
    by (rule key_transfer_form[where s = s and h = "\<lambda>k. eager_start D (key_val raw k)"
          and g = "\<lambda>f k v. f \<noteq> Matrix_need_update \<and> key_val raw k \<noteq> snd v \<and> fst v = 0"
          and running = "\<lambda>c. c \<noteq> 0", OF eager_pk_transfer_cells[OF s refl]])
      (auto simp: eager_start_def split: if_splits)
  show "length (db_counters ?u) = R * C \<and> matrix_shape R C (db_cooked ?u)
      \<and> db_last_time ?u = db_last_time s
      \<and> (\<forall>k \<in> keys R C. (key_counter C (db_counters ?u) k, key_val (db_cooked ?u) k)
          = eager_tick e (key_val raw k) (key_counter C (db_counters s) k, key_val (db_cooked s) k))
      \<and> (db_counters_need_update ?u \<longleftrightarrow> (\<exists>k \<in> keys R C. key_counter C (db_counters ?u) k \<noteq> 0))
      \<and> (db_matrix_need_update ?u
          \<longleftrightarrow> (\<exists>k \<in> keys R C. eager_wants e (key_counter C (db_counters s) k, key_val (db_cooked s) k)))
      \<and> (db_cooked_changed ?u \<longleftrightarrow> db_cooked_changed s
          \<or> (\<exists>k \<in> keys R C. key_val (db_cooked ?u) k \<noteq> key_val (db_cooked s) k))"
    by (intro key_update_form[where s = s and h = "\<lambda>k. eager_tick e (key_val raw k)"
          and g = "\<lambda>f k v. case f of
            Counters_need_update \<Rightarrow> fst (eager_tick e (key_val raw k) v) \<noteq> 0
          | Cooked_changed \<Rightarrow> False
          | Matrix_need_update \<Rightarrow> eager_wants e v"
          and running = "\<lambda>c. c \<noteq> 0" and wants = "eager_wants e", OF eager_pk_update_cells[OF s refl]])
      (simp_all add: eager_cell_laws(3))
next
  fix r r0 :: bool and v e e'
  assume i: "eager_inv D r0 v"
  show "eager_inv D r (eager_start D r (eager_tick e r v))" using i by (rule eager_cell_laws)
  show "snd (eager_start D r (eager_tick e r v)) \<noteq> snd v
      \<longleftrightarrow> snd (eager_tick e r v) \<noteq> snd v
        \<or> snd (eager_start D r (eager_tick e r v)) \<noteq> snd (eager_tick e r v)"
    by (simp add: eager_cell_laws(3))
  show "snd (eager_start D r (eager_tick e r v)) \<in> {snd v, r}"
    using eager_cell_laws(4)[of D r "eager_tick e r v"] by (simp add: eager_cell_laws(3))
next
  fix r :: bool and v e
  assume i: "eager_inv D r v"
  show "eager_inv D r (eager_start D r (eager_tick e r v))" using i by (rule eager_cell_laws)
  show "snd (eager_start D r (eager_tick e r v)) \<in> {snd v, r}"
    using eager_cell_laws(4)[of D r "eager_tick e r v"] by (simp add: eager_cell_laws(3))
  show "eager_tick e r v = eager_start D r (eager_tick e r v)" if "\<not> eager_wants e v"
    using eager_cell_laws(2)[OF i that] by simp
next
  fix r :: bool and v e e'
  assume i: "eager_inv D r v" "D \<le> e" "D \<le> e'"
  show "snd (eager_start D r (eager_tick e' r (eager_start D r (eager_tick e r v)))) = r"
    by (intro eager_cell_laws(5)[OF eager_cell_laws(1)[OF i(1)] i(3)])
qed (auto simp: key_cells_eq key_of_bit eager_cell_laws(2), auto simp: eager_defs split: prod.splits)

end
