(* ===== verification/Debounce_Asym.thy ===== *)
theory Debounce_Asym
  imports Debounce_Per_Key
begin

text \<open>
  quantum/debounce/asym_eager_defer_pk.c: a key press is taken at once and the key then held
  down for \<open>DEBOUNCE\<close> milliseconds, a release is taken after the contact has been open for that
  long. A counter is a 7-bit time and the edge it was started by; \<open>DEBOUNCE\<close> is at most 127.
\<close>

record debounce_counter_t =
  dc_pressed :: bool
  dc_time :: "7 word"

definition asym_update_key ::
    "nat \<Rightarrow> 'r::len word list \<Rightarrow> u8 \<Rightarrow> nat \<Rightarrow> nat \<Rightarrow> (debounce_counter_t, 'r word) debounce_t
      \<Rightarrow> (debounce_counter_t, 'r word) debounce_t" where
  "asym_update_key C raw elapsed_time row col s =
     (let index = row * C + col; counter = db_counters s ! index
      in if dc_time counter \<noteq> 0 then
           if unat (dc_time counter) \<le> unat elapsed_time then
             let s = s\<lparr>db_counters := (db_counters s)[index := counter\<lparr>dc_time := 0\<rparr>]\<rparr>
             in if dc_pressed counter then s\<lparr>db_matrix_need_update := True\<rparr>
                else
                  let col_mask = BIT col;
                      cooked_next = (db_cooked s ! row AND NOT col_mask) OR (raw ! row AND col_mask)
                  in s\<lparr>db_cooked_changed := db_cooked_changed s \<or> cooked_next XOR db_cooked s ! row \<noteq> 0,
                       db_cooked := (db_cooked s)[row := cooked_next]\<rparr>
           else s\<lparr>db_counters := (db_counters s)
                    [index := counter\<lparr>dc_time := dc_time counter - ucast elapsed_time\<rparr>],
                  db_counters_need_update := True\<rparr>
         else s)"

definition asym_update ::
    "nat \<Rightarrow> nat \<Rightarrow> 'r::len word list \<Rightarrow> u8 \<Rightarrow> (debounce_counter_t, 'r word) debounce_t
      \<Rightarrow> (debounce_counter_t, 'r word) debounce_t" where
  "asym_update R C raw elapsed_time s =
     for_keys R C (asym_update_key C raw elapsed_time)
       (s\<lparr>db_counters_need_update := False, db_matrix_need_update := False\<rparr>)"

definition asym_transfer_key ::
    "nat \<Rightarrow> 7 word \<Rightarrow> 'r::len word list \<Rightarrow> 'r word \<Rightarrow> nat \<Rightarrow> nat
      \<Rightarrow> (debounce_counter_t, 'r word) debounce_t \<Rightarrow> (debounce_counter_t, 'r word) debounce_t" where
  "asym_transfer_key C D raw delta row col s =
     (let index = row * C + col; col_mask = BIT col; counter = db_counters s ! index
      in if delta AND col_mask \<noteq> 0 then
           if dc_time counter = 0 then
             let pressed = (raw ! row AND col_mask \<noteq> 0);
                 s = s\<lparr>db_counters := (db_counters s)[index := counter\<lparr>dc_pressed := pressed, dc_time := D\<rparr>],
                       db_counters_need_update := True\<rparr>
             in if pressed then
                  s\<lparr>db_cooked := (db_cooked s)[row := db_cooked s ! row XOR col_mask],
                    db_cooked_changed := True\<rparr>
                else s
           else s
         else if dc_time counter \<noteq> 0 then
           if \<not> dc_pressed counter then
             s\<lparr>db_counters := (db_counters s)[index := counter\<lparr>dc_time := 0\<rparr>]\<rparr>
           else s
         else s)"

definition asym_transfer ::
    "nat \<Rightarrow> nat \<Rightarrow> 7 word \<Rightarrow> 'r::len word list \<Rightarrow> (debounce_counter_t, 'r word) debounce_t
      \<Rightarrow> (debounce_counter_t, 'r word) debounce_t" where
  "asym_transfer R C D raw s =
     for_rows R (\<lambda>row s. let delta = raw ! row XOR db_cooked s ! row
       in fold (asym_transfer_key C D raw delta row) [0..<C] s)
       (s\<lparr>db_matrix_need_update := False\<rparr>)"

definition asym_debounce ::
    "nat \<Rightarrow> nat \<Rightarrow> 7 word \<Rightarrow> u32 \<Rightarrow> 'r::len word list \<Rightarrow> bool \<Rightarrow> (debounce_counter_t, 'r word) debounce_t
      \<Rightarrow> (debounce_counter_t, 'r word) debounce_t \<times> bool" where
  "asym_debounce R C D now raw changed s =
     debounce_call 127 (asym_update R C raw) (asym_transfer R C D raw) now changed s"

section \<open>One key\<close>

definition asym_tick :: "u8 \<Rightarrow> bool \<Rightarrow> debounce_counter_t \<times> bool \<Rightarrow> debounce_counter_t \<times> bool" where
  "asym_tick e r v = (case v of (c, b) \<Rightarrow>
     if dc_time c = 0 then (c, b)
     else if unat (dc_time c) \<le> unat e then (c\<lparr>dc_time := 0\<rparr>, if dc_pressed c then b else r)
     else (c\<lparr>dc_time := dc_time c - ucast e\<rparr>, b))"

definition asym_wants :: "u8 \<Rightarrow> debounce_counter_t \<times> bool \<Rightarrow> bool" where
  "asym_wants e v \<longleftrightarrow> dc_time (fst v) \<noteq> 0 \<and> unat (dc_time (fst v)) \<le> unat e \<and> dc_pressed (fst v)"

definition asym_start :: "7 word \<Rightarrow> bool \<Rightarrow> debounce_counter_t \<times> bool \<Rightarrow> debounce_counter_t \<times> bool" where
  "asym_start D r v = (case v of (c, b) \<Rightarrow>
     if r \<noteq> b then (if dc_time c = 0 then (c\<lparr>dc_pressed := r, dc_time := D\<rparr>, r \<or> b) else (c, b))
     else if dc_time c \<noteq> 0 \<and> \<not> dc_pressed c then (c\<lparr>dc_time := 0\<rparr>, b) else (c, b))"

definition asym_inv :: "7 word \<Rightarrow> bool \<Rightarrow> debounce_counter_t \<times> bool \<Rightarrow> bool" where
  "asym_inv D r v \<longleftrightarrow> 0 < D \<and> dc_time (fst v) \<le> D \<and> (dc_time (fst v) = 0 \<longrightarrow> snd v = r)
     \<and> (dc_time (fst v) \<noteq> 0 \<longrightarrow> snd v \<and> (dc_pressed (fst v) \<or> \<not> r))"

lemmas asym_defs = asym_tick_def asym_wants_def asym_start_def asym_inv_def

lemma time_sub:
  assumes "\<not> unat (t :: 7 word) \<le> unat (e :: u8)"
  shows "t - ucast e \<noteq> 0 \<and> t - ucast e \<le> t"
proof -
  have "unat t < 2 ^ 7" using unsigned_less[of t, where 'a = nat] by simp
  with assms have "unat e < 2 ^ 7" by linarith
  then have "unat (ucast e :: 7 word) = unat e" by (simp add: unsigned_ucast_eq take_bit_nat_eq_self_iff)
  with assms have "(ucast e :: 7 word) < t" by (simp add: word_less_nat_alt)
  then show ?thesis using sub_running by blast
qed

lemma asym_update_cells:
  assumes "length (db_counters s) = R * C" "matrix_shape R C (db_cooked s)"
    and t_def: "t = asym_update R C raw e s"
  shows "key_shape R C (db_last_time s) t
    \<and> (\<forall>k \<in> keys R C. key_view C t k = asym_tick e (key_val raw k) (key_view C s k))
    \<and> (\<forall>f. flag_of t f \<longleftrightarrow> flag_of (s\<lparr>db_counters_need_update := False, db_matrix_need_update := False\<rparr>) f
      \<or> (\<exists>k \<in> keys R C. case f of
          Counters_need_update \<Rightarrow> dc_time (fst (asym_tick e (key_val raw k) (key_view C s k))) \<noteq> 0
        | Cooked_changed \<Rightarrow> snd (asym_tick e (key_val raw k) (key_view C s k)) \<noteq> snd (key_view C s k)
        | Matrix_need_update \<Rightarrow> asym_wants e (key_view C s k)))"
proof -
  let ?s = "s\<lparr>db_counters_need_update := False, db_matrix_need_update := False\<rparr>"
  have v: "key_view C ?s = key_view C s" by (auto simp: key_view_def)
  have sh: "key_shape R C (db_last_time s) ?s" using assms by (simp add: key_shape_def)
  let ?h = "\<lambda>k. asym_tick e (key_val raw k)"
  let ?g = "\<lambda>f k v. case f of Counters_need_update \<Rightarrow> dc_time (fst (?h k v)) \<noteq> 0
    | Cooked_changed \<Rightarrow> snd (?h k v) \<noteq> snd v | Matrix_need_update \<Rightarrow> asym_wants e v"
  let ?b = "asym_update_key C raw e"
  have step: "key_shape R C T (?b row col s)
      \<and> key_view C (?b row col s) (row, col) = ?h (row, col) (key_view C s (row, col))
      \<and> (\<forall>y \<in> keys R C. y \<noteq> (row, col) \<longrightarrow> key_view C (?b row col s) y = key_view C s y)
      \<and> (\<forall>f. flag_of (?b row col s) f \<longleftrightarrow> flag_of s f \<or> ?g f (row, col) (key_view C s (row, col)))"
    if rc: "row < R" "col < C" and s: "key_shape R C T s"
    for row col T and s :: "(debounce_counter_t, 'a word) debounce_t"
  proof -
    let ?c = "db_counters s ! (row * C + col)" and ?s' = "?b row col s"
    have kv: "key_view C s (row, col) = (?c, bit (db_cooked s ! row) col)" "key_val raw (row, col) = bit (raw ! row) col"
      by (simp_all add: key_view_def key_counter_def key_val_def)
    consider "dc_time ?c = 0"
      | "dc_time ?c \<noteq> 0" "unat (dc_time ?c) \<le> unat e" "dc_pressed ?c"
      | "dc_time ?c \<noteq> 0" "unat (dc_time ?c) \<le> unat e" "\<not> dc_pressed ?c"
      | "dc_time ?c \<noteq> 0" "\<not> unat (dc_time ?c) \<le> unat e" by blast
    then show ?thesis
    proof cases
      case 1
      then have s': "?s' = s" by (simp add: asym_update_key_def Let_def)
      have "flag_of s f \<longleftrightarrow> flag_of s f \<or> ?g f (row, col) (key_view C s (row, col))" for f
        using 1 by (cases f) (simp_all add: kv asym_tick_def asym_wants_def)
      then show ?thesis unfolding s' using 1 s by (simp add: kv asym_tick_def)
    next
      case 2
      then have s': "?s' = s\<lparr>db_counters := (db_counters s)[row * C + col := ?c\<lparr>dc_time := 0\<rparr>],
          db_matrix_need_update := True\<rparr>" by (simp add: asym_update_key_def Let_def)
      have "key_shape R C T ?s' \<and> key_view C ?s' (row, col) = (?c\<lparr>dc_time := 0\<rparr>, bit (db_cooked s ! row) col)
          \<and> (\<forall>y \<in> keys R C. y \<noteq> (row, col) \<longrightarrow> key_view C ?s' y = key_view C s y)"
        by (rule key_put_counter[OF s rc]) (simp_all add: s')
      moreover have "flag_of ?s' f \<longleftrightarrow> flag_of s f \<or> ?g f (row, col) (key_view C s (row, col))" for f
        using 2 by (cases f) (simp_all add: s' kv asym_tick_def asym_wants_def)
      ultimately show ?thesis using 2 by (simp add: kv asym_tick_def)
    next
      case 3
      let ?n = "(db_cooked s ! row AND NOT (BIT col)) OR (raw ! row AND BIT col)"
      from 3 have s': "?s' = s\<lparr>db_counters := (db_counters s)[row * C + col := ?c\<lparr>dc_time := 0\<rparr>],
          db_cooked_changed := db_cooked_changed s \<or> ?n XOR db_cooked s ! row \<noteq> 0,
          db_cooked := (db_cooked s)[row := ?n]\<rparr>" by (simp add: asym_update_key_def Let_def)
      have "key_shape R C T ?s' \<and> key_view C ?s' (row, col) = (?c\<lparr>dc_time := 0\<rparr>, bit ?n col)
          \<and> (\<forall>y \<in> keys R C. y \<noteq> (row, col) \<longrightarrow> key_view C ?s' y = key_view C s y)"
        by (rule key_put[OF s rc]) (simp_all add: s' bit_masked)
      moreover have "flag_of ?s' f \<longleftrightarrow> flag_of s f \<or> ?g f (row, col) (key_view C s (row, col))" for f
      proof -
        have "(?n XOR db_cooked s ! row \<noteq> 0) \<longleftrightarrow> bit (raw ! row) col \<noteq> bit (db_cooked s ! row) col"
          using xor_masked_bit[of "db_cooked s ! row" col "raw ! row"]
            bit_neq_imp_length[of "db_cooked s ! row" col "raw ! row"]
          unfolding xor.commute[of ?n] by blast
        then show ?thesis using 3 by (cases f) (simp_all only: s' kv asym_tick_def asym_wants_def
            flag_of.simps db_flag.case prod.case fst_conv snd_conv if_True if_False, simp_all)
      qed
      ultimately show ?thesis using 3 by (simp add: kv asym_tick_def bit_masked)
    next
      case 4
      then have s': "?s' = s\<lparr>db_counters := (db_counters s)
          [row * C + col := ?c\<lparr>dc_time := dc_time ?c - ucast e\<rparr>], db_counters_need_update := True\<rparr>"
        by (simp add: asym_update_key_def Let_def)
      have "key_shape R C T ?s' \<and> key_view C ?s' (row, col)
          = (?c\<lparr>dc_time := dc_time ?c - ucast e\<rparr>, bit (db_cooked s ! row) col)
          \<and> (\<forall>y \<in> keys R C. y \<noteq> (row, col) \<longrightarrow> key_view C ?s' y = key_view C s y)"
        by (rule key_put_counter[OF s rc]) (simp_all add: s')
      moreover have "flag_of ?s' f \<longleftrightarrow> flag_of s f \<or> ?g f (row, col) (key_view C s (row, col))" for f
        using 4 time_sub[OF 4(2)] by (cases f) (simp_all add: s' kv asym_tick_def asym_wants_def)
      ultimately show ?thesis using 4 by (simp add: kv asym_tick_def)
    qed
  qed
  have t: "t = for_rows R (\<lambda>row s. fold (?b row) [0..<C] s) ?s"
    by (simp add: t_def asym_update_def for_keys_def)
  show ?thesis
    using keys_loop[of R C "key_shape R C (db_last_time s)" "key_view C" "\<lambda>row s0. ?b row"
        ?h flag_of ?g ?s] step sh
    unfolding t v by blast
qed

lemma asym_transfer_cells:
  assumes "length (db_counters s) = R * C" "matrix_shape R C (db_cooked s)"
    and t_def: "t = asym_transfer R C D raw s"
  shows "key_shape R C (db_last_time s) t
    \<and> (\<forall>k \<in> keys R C. key_view C t k = asym_start D (key_val raw k) (key_view C s k))
    \<and> (\<forall>f. flag_of t f \<longleftrightarrow> flag_of (s\<lparr>db_matrix_need_update := False\<rparr>) f \<or> (\<exists>k \<in> keys R C. case f of
          Counters_need_update \<Rightarrow> key_val raw k \<noteq> snd (key_view C s k) \<and> dc_time (fst (key_view C s k)) = 0
        | Cooked_changed \<Rightarrow> snd (asym_start D (key_val raw k) (key_view C s k)) \<noteq> snd (key_view C s k)
        | Matrix_need_update \<Rightarrow> False))"
proof -
  let ?s = "s\<lparr>db_matrix_need_update := False\<rparr>"
  have kvs: "key_view C ?s = key_view C s" by (auto simp: key_view_def)
  have sh: "key_shape R C (db_last_time s) ?s" using assms by (simp add: key_shape_def)
  let ?h = "\<lambda>k. asym_start D (key_val raw k)"
  let ?g = "\<lambda>f k v. case f of
      Counters_need_update \<Rightarrow> key_val raw k \<noteq> snd v \<and> dc_time (fst v) = 0
    | Cooked_changed \<Rightarrow> snd (?h k v) \<noteq> snd v | Matrix_need_update \<Rightarrow> False"
  let ?b = "\<lambda>row (s0 :: (debounce_counter_t, 'a word) debounce_t).
    asym_transfer_key C D raw (raw ! row XOR db_cooked s0 ! row) row"
  have step: "key_shape R C T (?b row s0 col s)
      \<and> key_view C (?b row s0 col s) (row, col) = ?h (row, col) (key_view C s (row, col))
      \<and> (\<forall>y \<in> keys R C. y \<noteq> (row, col) \<longrightarrow> key_view C (?b row s0 col s) y = key_view C s y)
      \<and> (\<forall>f. flag_of (?b row s0 col s) f \<longleftrightarrow> flag_of s f \<or> ?g f (row, col) (key_view C s (row, col)))"
    if rc: "row < R" "col < C" and s: "key_shape R C T s" and v: "key_view C s (row, col) = key_view C s0 (row, col)"
    for row col T and s s0 :: "(debounce_counter_t, 'a word) debounce_t"
  proof -
    let ?c = "db_counters s ! (row * C + col)" and ?s' = "?b row s0 col s"
    have kv: "key_view C s (row, col) = (?c, bit (db_cooked s ! row) col)" "key_val raw (row, col) = bit (raw ! row) col"
      by (simp_all add: key_view_def key_counter_def key_val_def)
    have d: "bit (raw ! row XOR db_cooked s0 ! row) col \<longleftrightarrow> bit (raw ! row) col \<noteq> bit (db_cooked s ! row) col"
      using v by (simp add: bit_xor_iff key_view_def key_val_def)
    let ?r = "bit (raw ! row) col" and ?o = "bit (db_cooked s ! row) col"
    note d' = and_BIT_neq_0 and_BIT_eq_0 d
    have put: ?thesis
      if "db_counters ?s' = (db_counters s)[row * C + col := c]"
        and "db_cooked ?s' = (db_cooked s)[row := w]" "db_last_time ?s' = db_last_time s"
        and "\<And>k. k \<noteq> col \<Longrightarrow> bit w k = bit (db_cooked s ! row) k"
        and "asym_start D ?r (?c, ?o) = (c, bit w col)"
        and "\<And>f. flag_of ?s' f \<longleftrightarrow> flag_of s f \<or> ?g f (row, col) (?c, ?o)" for c w
      using key_put[OF s rc that(4,1,2,3)] that(5,6) by (simp only: kv) blast
    consider "?r \<noteq> ?o" "dc_time ?c = 0" ?r | "?r \<noteq> ?o" "dc_time ?c = 0" "\<not> ?r"
      | "?r \<noteq> ?o" "dc_time ?c \<noteq> 0" | "?r = ?o" "dc_time ?c \<noteq> 0" "\<not> dc_pressed ?c"
      | "?r = ?o" "dc_time ?c = 0 \<or> dc_pressed ?c" by blast
    then show ?thesis
    proof cases
      case 1
      then have s': "?s' = s\<lparr>db_counters := (db_counters s)[row * C + col := ?c\<lparr>dc_pressed := True, dc_time := D\<rparr>],
          db_counters_need_update := True, db_cooked := (db_cooked s)[row := db_cooked s ! row XOR BIT col],
          db_cooked_changed := True\<rparr>" by (simp add: asym_transfer_key_def Let_def d')
      have "col < LENGTH('a)" using 1 bit_neq_imp_length by blast
      with 1 have o: "bit (db_cooked s ! row XOR BIT col) col" by (simp add: bit_flip)
      show ?thesis
        by (rule put[where c = "?c\<lparr>dc_pressed := True, dc_time := D\<rparr>" and w = "db_cooked s ! row XOR BIT col"])
          (use 1 o in \<open>simp_all add: s' asym_start_def bit_flip kv flag_of.simps split: db_flag.split\<close>)
    next
      case 2
      then have s': "?s' = s\<lparr>db_counters := (db_counters s)[row * C + col := ?c\<lparr>dc_pressed := False, dc_time := D\<rparr>],
          db_counters_need_update := True\<rparr>" by (simp add: asym_transfer_key_def Let_def d')
      show ?thesis
        by (rule put[where c = "?c\<lparr>dc_pressed := False, dc_time := D\<rparr>" and w = "db_cooked s ! row"])
          (use 2 in \<open>simp_all add: s' asym_start_def kv split: db_flag.split\<close>)
    next
      case 3
      then have s': "?s' = s" by (simp add: asym_transfer_key_def Let_def d')
      show ?thesis
        by (rule put[where c = ?c and w = "db_cooked s ! row"])
          (use 3 in \<open>simp_all add: s' asym_start_def kv split: db_flag.split\<close>)
    next
      case 4
      then have s': "?s' = s\<lparr>db_counters := (db_counters s)[row * C + col := ?c\<lparr>dc_time := 0\<rparr>]\<rparr>"
        by (simp add: asym_transfer_key_def Let_def d')
      show ?thesis
        by (rule put[where c = "?c\<lparr>dc_time := 0\<rparr>" and w = "db_cooked s ! row"])
          (use 4 in \<open>simp_all add: s' asym_start_def kv split: db_flag.split\<close>)
    next
      case 5
      then have s': "?s' = s" by (auto simp: asym_transfer_key_def Let_def d')
      show ?thesis
        by (rule put[where c = ?c and w = "db_cooked s ! row"])
          (use 5 in \<open>auto simp: s' asym_start_def kv split: db_flag.split\<close>)
    qed
  qed
  have t: "t = for_rows R (\<lambda>row s. fold (?b row s) [0..<C] s) ?s"
    by (simp add: t_def asym_transfer_def Let_def)
  show ?thesis
    using keys_loop[of R C "key_shape R C (db_last_time s)" "key_view C" ?b ?h flag_of ?g ?s] step sh
    unfolding t kvs by blast
qed

lemma asym_cell_laws:
  "asym_inv D r0 v \<Longrightarrow> asym_inv D r (asym_start D r (asym_tick e r v))"
  "asym_inv D r v \<Longrightarrow> \<not> asym_wants e v \<Longrightarrow> asym_start D r (asym_tick e r v) = asym_tick e r v"
  "snd (asym_tick e r v) \<in> {snd v, r}"
  "snd (asym_start D r w) \<in> {snd w, r}"
  "asym_inv D r v \<Longrightarrow> unat D \<le> unat e \<Longrightarrow> unat D \<le> unat e'
    \<Longrightarrow> snd (asym_start D r (asym_tick e' r (asym_start D r (asym_tick e r v)))) = r"
  "asym_inv D r0 v \<Longrightarrow> snd (asym_tick e r v) \<noteq> snd v \<Longrightarrow> snd (asym_start D r (asym_tick e r v)) \<noteq> snd v"
proof -
  obtain c b where v: "v = (c, b)" by force
  have c: "dc_time c - ucast e \<noteq> 0" "dc_time c - ucast e \<le> dc_time c" if "\<not> unat (dc_time c) \<le> unat e"
    using time_sub[OF that] by simp_all
  have cD: "dc_time c \<le> D \<Longrightarrow> \<not> unat (dc_time c) \<le> unat e \<Longrightarrow> dc_time c - ucast e \<le> D"
    using c(2) by (meson order.trans)
  show "asym_inv D r (asym_start D r (asym_tick e r v))" if i: "asym_inv D r0 v"
    using i c(1) cD unfolding v asym_defs by (auto split: if_splits)
  show "asym_start D r (asym_tick e r v) = asym_tick e r v" if "asym_inv D r v" "\<not> asym_wants e v"
    using that c(1) unfolding v asym_defs by auto
  show "snd (asym_start D r (asym_tick e' r (asym_start D r (asym_tick e r v)))) = r"
    if "asym_inv D r v" "unat D \<le> unat e" "unat D \<le> unat e'"
  proof -
    have "unat (dc_time c) \<le> unat e" if "dc_time c \<le> D"
      using that \<open>unat D \<le> unat e\<close> by (simp add: word_le_nat_alt)
    with that show ?thesis unfolding v asym_defs by (auto split: if_splits)
  qed
  show "snd (asym_start D r (asym_tick e r v)) \<noteq> snd v"
    if "asym_inv D r0 v" "snd (asym_tick e r v) \<noteq> snd v"
    using that unfolding v asym_defs by (auto split: if_splits)
qed (auto simp: asym_defs unat_eq_0_iff split: prod.splits)

interpretation asym_pk: cellwise 127 "asym_update R C" "asym_transfer R C D" R C "keys R C" key_val
  "\<lambda>cs. length cs = R * C" "key_counter C" "\<lambda>c. dc_time c \<noteq> 0" asym_tick asym_wants
  "asym_start D" "\<lambda>e r v. asym_start D r (asym_tick e r v)" "asym_inv D" "\<lambda>e. unat D \<le> unat e"
proof
  fix s :: "(debounce_counter_t, 'a word) debounce_t" and raw :: "'a word list" and e
  assume s: "length (db_counters s) = R * C" "matrix_shape R C (db_cooked s)"
  let ?t = "asym_transfer R C D raw s" and ?u = "asym_update R C raw e s"
  show "length (db_counters ?t) = R * C \<and> matrix_shape R C (db_cooked ?t)
      \<and> db_last_time ?t = db_last_time s
      \<and> (\<forall>k \<in> keys R C. (key_counter C (db_counters ?t) k, key_val (db_cooked ?t) k)
          = asym_start D (key_val raw k) (key_counter C (db_counters s) k, key_val (db_cooked s) k))
      \<and> (db_counters_need_update s \<longrightarrow> db_counters_need_update ?t)
      \<and> (\<forall>k \<in> keys R C. dc_time (key_counter C (db_counters ?t) k) \<noteq> 0
          \<longrightarrow> db_counters_need_update ?t \<or> dc_time (key_counter C (db_counters s) k) \<noteq> 0)
      \<and> (db_matrix_need_update ?t \<longrightarrow> db_matrix_need_update s \<and> (\<forall>e v. \<not> asym_wants e v))
      \<and> (db_cooked_changed ?t \<longleftrightarrow> db_cooked_changed s
          \<or> (\<exists>k \<in> keys R C. key_val (db_cooked ?t) k \<noteq> key_val (db_cooked s) k))"
    by (rule key_transfer_form[where s = s and h = "\<lambda>k. asym_start D (key_val raw k)"
          and g = "\<lambda>f k v. case f of
            Counters_need_update \<Rightarrow> key_val raw k \<noteq> snd v \<and> dc_time (fst v) = 0
          | Cooked_changed \<Rightarrow> snd (asym_start D (key_val raw k) v) \<noteq> snd v
          | Matrix_need_update \<Rightarrow> False"
          and running = "\<lambda>c. dc_time c \<noteq> 0", OF asym_transfer_cells[OF s refl]])
      (auto simp: asym_start_def split: if_splits prod.splits)
  show "length (db_counters ?u) = R * C \<and> matrix_shape R C (db_cooked ?u)
      \<and> db_last_time ?u = db_last_time s
      \<and> (\<forall>k \<in> keys R C. (key_counter C (db_counters ?u) k, key_val (db_cooked ?u) k)
          = asym_tick e (key_val raw k) (key_counter C (db_counters s) k, key_val (db_cooked s) k))
      \<and> (db_counters_need_update ?u \<longleftrightarrow> (\<exists>k \<in> keys R C. dc_time (key_counter C (db_counters ?u) k) \<noteq> 0))
      \<and> (db_matrix_need_update ?u
          \<longleftrightarrow> (\<exists>k \<in> keys R C. asym_wants e (key_counter C (db_counters s) k, key_val (db_cooked s) k)))
      \<and> (db_cooked_changed ?u \<longleftrightarrow> db_cooked_changed s
          \<or> (\<exists>k \<in> keys R C. key_val (db_cooked ?u) k \<noteq> key_val (db_cooked s) k))"
    by (intro key_update_form[where s = s and h = "\<lambda>k. asym_tick e (key_val raw k)"
          and g = "\<lambda>f k v. case f of
            Counters_need_update \<Rightarrow> dc_time (fst (asym_tick e (key_val raw k) v)) \<noteq> 0
          | Cooked_changed \<Rightarrow> snd (asym_tick e (key_val raw k) v) \<noteq> snd v
          | Matrix_need_update \<Rightarrow> asym_wants e v"
          and running = "\<lambda>c. dc_time c \<noteq> 0" and wants = "asym_wants e", OF asym_update_cells[OF s refl]])
      simp_all
next
  fix r r0 :: bool and v e e'
  assume i: "asym_inv D r0 v"
  show "asym_inv D r (asym_start D r (asym_tick e r v))" using i by (rule asym_cell_laws)
  show "snd (asym_start D r (asym_tick e r v)) \<noteq> snd v
      \<longleftrightarrow> snd (asym_tick e r v) \<noteq> snd v
        \<or> snd (asym_start D r (asym_tick e r v)) \<noteq> snd (asym_tick e r v)"
    using asym_cell_laws(6)[OF i, of e r] by metis
  show "snd (asym_start D r (asym_tick e r v)) \<in> {snd v, r}"
    using asym_cell_laws(3)[of e r v] asym_cell_laws(4)[of D r "asym_tick e r v"] by auto
next
  fix r :: bool and v e
  assume i: "asym_inv D r v"
  show "asym_inv D r (asym_start D r (asym_tick e r v))" using i by (rule asym_cell_laws)
  show "snd (asym_start D r (asym_tick e r v)) \<in> {snd v, r}"
    using asym_cell_laws(3)[of e r v] asym_cell_laws(4)[of D r "asym_tick e r v"] by auto
  show "asym_tick e r v = asym_start D r (asym_tick e r v)" if "\<not> asym_wants e v"
    using asym_cell_laws(2)[OF i that] by simp
next
  fix r :: bool and v and e e' :: u8
  assume "asym_inv D r v" "unat D \<le> unat e" "unat D \<le> unat e'"
  then show "snd (asym_start D r (asym_tick e' r (asym_start D r (asym_tick e r v)))) = r"
    by (rule asym_cell_laws(5))
qed (auto simp: key_cells_eq key_of_bit asym_cell_laws(2), auto simp: asym_defs unat_eq_0_iff split: prod.splits)

end
