(* ===== verification/Debounce_Per_Row.thy ===== *)
theory Debounce_Per_Row
  imports Debounce_Per_Key
begin

text \<open>
  The debounce algorithms with a counter per row, quantum/debounce/sym_defer_pr.c and
  sym_eager_pr.c, whose cells are whole rows, and sym_defer_g.c, with one timer for the whole
  matrix. A row's counter makes the same steps as a key's in the algorithms per key, except that
  the deferring one starts it anew at every scan whose row differs, while the matrix changes.
\<close>

section \<open>Rows as cells\<close>

definition row_shape :: "nat \<Rightarrow> nat \<Rightarrow> u32 \<Rightarrow> (u8, 'r::len word) debounce_t \<Rightarrow> bool" where
  "row_shape R C t s \<longleftrightarrow> length (db_counters s) = R \<and> matrix_shape R C (db_cooked s)
     \<and> db_last_time s = t"

definition row_view :: "(u8, 'r::len word) debounce_t \<Rightarrow> nat \<Rightarrow> u8 \<times> 'r word" where
  "row_view s row = (db_counters s ! row, db_cooked s ! row)"

lemma row_cells_eq:
  "matrix_shape R C m \<Longrightarrow> matrix_shape R C m' \<Longrightarrow> m = m' \<longleftrightarrow> (\<forall>row \<in> {..<R}. m ! row = m' ! row)"
  by (auto simp: matrix_shape_def list_eq_iff_nth_eq)

lemma row_of_bit:
  "row < R \<Longrightarrow> \<exists>k \<in> {..<R}. \<forall>m m'. m ! k = m' ! k \<longrightarrow> bit (m ! row) col = bit (m' ! row :: 'r::len word) col"
  by (rule bexI[of _ row]) auto

lemma row_put:
  assumes "row_shape R C t s" "row < R" "\<And>k. bit w k \<Longrightarrow> k < C"
    and "db_counters s' = (db_counters s)[row := c]"
    and "db_cooked s' = (db_cooked s)[row := w]" "db_last_time s' = db_last_time s"
  shows "row_shape R C t s' \<and> row_view s' row = (c, w) \<and> (\<forall>y \<in> {..<R}. y \<noteq> row \<longrightarrow> row_view s' y = row_view s y)"
proof -
  have "length (db_cooked s) = R" "length (db_counters s) = R"
    using assms(1) by (auto simp: row_shape_def matrix_shape_def)
  then show ?thesis
    using assms matrix_shape_set[of R C "db_cooked s" w row] by (auto simp: row_shape_def row_view_def)
qed

lemma row_bits: "row_shape R C t s \<Longrightarrow> row < R \<Longrightarrow> bit (db_cooked s ! row) k \<Longrightarrow> k < C"
  by (auto simp: row_shape_def matrix_shape_def)

text \<open>A loop over the rows whose body touches one row.\<close>

lemma rows_loop:
  assumes body: "\<And>row s. row < R \<Longrightarrow> row_shape R C t s
      \<Longrightarrow> row_shape R C t (body row s) \<and> row_view (body row s) row = h row (row_view s row)
        \<and> (\<forall>y \<in> {..<R}. y \<noteq> row \<longrightarrow> row_view (body row s) y = row_view s y)
        \<and> (\<forall>f. flag_of (body row s) f \<longleftrightarrow> flag_of s f \<or> g f row (row_view s row))"
    and "row_shape R C t s"
  shows "row_shape R C t (for_rows R body s)
    \<and> (\<forall>row \<in> {..<R}. row_view (for_rows R body s) row = h row (row_view s row))
    \<and> (\<forall>f. flag_of (for_rows R body s) f \<longleftrightarrow> flag_of s f \<or> (\<exists>row \<in> {..<R}. g f row (row_view s row)))"
proof -
  have "row_shape R C t (fold body [0..<R] s) \<and> (\<forall>y \<in> {..<R}. row_view (fold body [0..<R] s) y
      = (if y \<in> set [0..<R] then h y (row_view s y) else row_view s y))"
    by (rule fold_cells[where K = "{..<R}"]) (use body assms(2) in auto)
  moreover have "flag_of (fold body [0..<R] s) f
      \<longleftrightarrow> flag_of s f \<or> (\<exists>row \<in> set [0..<R]. g f row (row_view s row))" for f
    by (rule fold_cells_flag[where I = "row_shape R C t" and K = "{..<R}" and h = h and get = row_view
          and fl = "\<lambda>s. flag_of s f"])
      (use body assms(2) in auto)
  ultimately show ?thesis by (simp add: for_rows_def atLeast0LessThan)
qed

section \<open>Symmetric, deferred, per row (sym_defer_pr.c)\<close>

definition defer_pr_update_row ::
    "'r::len word list \<Rightarrow> u8 \<Rightarrow> nat \<Rightarrow> (u8, 'r word) debounce_t \<Rightarrow> (u8, 'r word) debounce_t" where
  "defer_pr_update_row raw elapsed_time row s =
     (if db_counters s ! row \<noteq> 0 then
        if db_counters s ! row \<le> elapsed_time then
          s\<lparr>db_counters := (db_counters s)[row := 0],
            db_cooked_changed := db_cooked_changed s \<or> db_cooked s ! row XOR raw ! row \<noteq> 0,
            db_cooked := (db_cooked s)[row := raw ! row]\<rparr>
        else s\<lparr>db_counters := (db_counters s)[row := db_counters s ! row - elapsed_time],
               db_counters_need_update := True\<rparr>
      else s)"

definition defer_pr_update ::
    "nat \<Rightarrow> 'r::len word list \<Rightarrow> u8 \<Rightarrow> (u8, 'r word) debounce_t \<Rightarrow> (u8, 'r word) debounce_t" where
  "defer_pr_update R raw elapsed_time s =
     for_rows R (defer_pr_update_row raw elapsed_time) (s\<lparr>db_counters_need_update := False\<rparr>)"

definition defer_pr_start_row ::
    "u8 \<Rightarrow> 'r::len word list \<Rightarrow> nat \<Rightarrow> (u8, 'r word) debounce_t \<Rightarrow> (u8, 'r word) debounce_t" where
  "defer_pr_start_row D raw row s =
     (if raw ! row \<noteq> db_cooked s ! row then
        s\<lparr>db_counters := (db_counters s)[row := D], db_counters_need_update := True\<rparr>
      else s\<lparr>db_counters := (db_counters s)[row := 0]\<rparr>)"

definition defer_pr_start ::
    "nat \<Rightarrow> u8 \<Rightarrow> 'r::len word list \<Rightarrow> (u8, 'r word) debounce_t \<Rightarrow> (u8, 'r word) debounce_t" where
  "defer_pr_start R D raw s = for_rows R (defer_pr_start_row D raw) s"

definition defer_pr_debounce ::
    "nat \<Rightarrow> u8 \<Rightarrow> u32 \<Rightarrow> 'r::len word list \<Rightarrow> bool \<Rightarrow> (u8, 'r word) debounce_t
      \<Rightarrow> (u8, 'r word) debounce_t \<times> bool" where
  "defer_pr_debounce R D now raw changed s =
     debounce_call 255 (defer_pr_update R raw) (defer_pr_start R D raw) now changed s"

definition restart :: "u8 \<Rightarrow> 'v \<Rightarrow> u8 \<times> 'v \<Rightarrow> u8 \<times> 'v" where
  "restart D r v = (if r \<noteq> snd v then (D, snd v) else (0, snd v))"

lemma xor_neq_0: "(u XOR w \<noteq> (0 :: 'r::len word)) \<longleftrightarrow> u \<noteq> w"
  by (simp add: word_neq_bits bit_xor_iff word_neq_bits[of u])

lemma defer_pr_update_cells:
  assumes "length (db_counters s) = R" "matrix_shape R C (db_cooked s)" "matrix_shape R C raw"
    and t_def: "t = defer_pr_update R raw e s"
  shows "row_shape R C (db_last_time s) t
    \<and> (\<forall>row \<in> {..<R}. row_view t row = defer_tick e (raw ! row) (row_view s row))
    \<and> (\<forall>f. flag_of t f \<longleftrightarrow> flag_of (s\<lparr>db_counters_need_update := False\<rparr>) f \<or> (\<exists>row \<in> {..<R}.
        case f of
          Counters_need_update \<Rightarrow> fst (defer_tick e (raw ! row) (row_view s row)) \<noteq> 0
        | Cooked_changed \<Rightarrow> snd (defer_tick e (raw ! row) (row_view s row)) \<noteq> snd (row_view s row)
        | Matrix_need_update \<Rightarrow> False))"
proof -
  let ?s = "s\<lparr>db_counters_need_update := False\<rparr>"
  have v: "row_view ?s = row_view s" by (auto simp: row_view_def)
  have sh: "row_shape R C (db_last_time s) ?s" using assms by (simp add: row_shape_def)
  let ?h = "\<lambda>row. defer_tick e (raw ! row)"
  let ?g = "\<lambda>f row v. case f of Counters_need_update \<Rightarrow> fst (?h row v) \<noteq> 0
    | Cooked_changed \<Rightarrow> snd (?h row v) \<noteq> snd v | Matrix_need_update \<Rightarrow> False"
  have step: "row_shape R C T (defer_pr_update_row raw e row s)
      \<and> row_view (defer_pr_update_row raw e row s) row = ?h row (row_view s row)
      \<and> (\<forall>y \<in> {..<R}. y \<noteq> row \<longrightarrow> row_view (defer_pr_update_row raw e row s) y = row_view s y)
      \<and> (\<forall>f. flag_of (defer_pr_update_row raw e row s) f \<longleftrightarrow> flag_of s f \<or> ?g f row (row_view s row))"
    if row: "row < R" and s: "row_shape R C T s" for row T and s :: "(u8, 'a word) debounce_t"
  proof -
    let ?c = "db_counters s ! row" and ?s' = "defer_pr_update_row raw e row s"
    let ?w = "if ?c \<noteq> 0 \<and> ?c \<le> e then raw ! row else db_cooked s ! row"
    have "?c \<noteq> 0 \<Longrightarrow> \<not> ?c \<le> e \<Longrightarrow> ?c - e \<noteq> 0" using sub_running[of e ?c] by simp
    then have "flag_of ?s' f \<longleftrightarrow> flag_of s f \<or> ?g f row (row_view s row)" for f
      by (cases f) (auto simp: defer_pr_update_row_def row_view_def defer_tick_def xor_neq_0)
    moreover have "row_shape R C T ?s' \<and> row_view ?s' row = (fst (?h row (row_view s row)), ?w)
        \<and> (\<forall>y \<in> {..<R}. y \<noteq> row \<longrightarrow> row_view ?s' y = row_view s y)"
      by (rule row_put[OF s row])
        (use row_bits[OF s row] assms(3) row in \<open>auto simp: defer_pr_update_row_def row_view_def
          defer_tick_def matrix_shape_def list_update_same_value split: if_splits\<close>)
    ultimately show ?thesis by (simp add: row_view_def defer_tick_def)
  qed
  show ?thesis
    using rows_loop[of R C "db_last_time s" "defer_pr_update_row raw e" ?h ?g ?s, OF step sh]
    unfolding t_def defer_pr_update_def v .
qed

lemma defer_pr_start_cells:
  assumes "length (db_counters s) = R" "matrix_shape R C (db_cooked s)"
    and t_def: "t = defer_pr_start R D raw s"
  shows "row_shape R C (db_last_time s) t
    \<and> (\<forall>row \<in> {..<R}. row_view t row = restart D (raw ! row) (row_view s row))
    \<and> (\<forall>f. flag_of t f \<longleftrightarrow> flag_of s f \<or> (\<exists>row \<in> {..<R}.
        f = Counters_need_update \<and> raw ! row \<noteq> snd (row_view s row)))"
proof -
  have sh: "row_shape R C (db_last_time s) s" using assms by (simp add: row_shape_def)
  let ?h = "\<lambda>row. restart D (raw ! row)"
  let ?g = "\<lambda>f row (v :: u8 \<times> 'a word). f = Counters_need_update \<and> raw ! row \<noteq> snd v"
  have step: "row_shape R C T (defer_pr_start_row D raw row s)
      \<and> row_view (defer_pr_start_row D raw row s) row = ?h row (row_view s row)
      \<and> (\<forall>y \<in> {..<R}. y \<noteq> row \<longrightarrow> row_view (defer_pr_start_row D raw row s) y = row_view s y)
      \<and> (\<forall>f. flag_of (defer_pr_start_row D raw row s) f \<longleftrightarrow> flag_of s f \<or> ?g f row (row_view s row))"
    if row: "row < R" and s: "row_shape R C T s" for row T and s :: "(u8, 'a word) debounce_t"
  proof -
    let ?s' = "defer_pr_start_row D raw row s"
    have "flag_of ?s' f \<longleftrightarrow> flag_of s f \<or> ?g f row (row_view s row)" for f
      by (cases f) (auto simp: defer_pr_start_row_def row_view_def)
    moreover have "row_shape R C T ?s' \<and> row_view ?s' row = (fst (?h row (row_view s row)), db_cooked s ! row)
        \<and> (\<forall>y \<in> {..<R}. y \<noteq> row \<longrightarrow> row_view ?s' y = row_view s y)"
      by (rule row_put[OF s row]) (use row_bits[OF s row] in \<open>auto simp: defer_pr_start_row_def row_view_def restart_def\<close>)
    ultimately show ?thesis by (simp add: row_view_def restart_def)
  qed
  show ?thesis
    using rows_loop[of R C "db_last_time s" "defer_pr_start_row D raw" ?h ?g s, OF step sh]
    by (simp add: t_def defer_pr_start_def)
qed

text \<open>The row versions of the forms in which the loops meet the contract of cells.\<close>

lemma row_update_form:
  assumes "row_shape R C (db_last_time s) t
      \<and> (\<forall>k \<in> {..<R}. row_view t k = h k (row_view s k))
      \<and> (\<forall>f. flag_of t f \<longleftrightarrow> flag_of s0 f \<or> (\<exists>k \<in> {..<R}. g f k (row_view s k)))"
    and "\<not> db_counters_need_update s0" "\<not> db_matrix_need_update s0" "db_cooked_changed s0 = db_cooked_changed s"
    and "\<And>k v. g Counters_need_update k v \<longleftrightarrow> fst (h k v) \<noteq> 0"
    and "\<And>k v. g Matrix_need_update k v \<longleftrightarrow> wants v"
    and "\<And>k v. g Cooked_changed k v \<longleftrightarrow> snd (h k v) \<noteq> snd v"
  shows "length (db_counters t) = R \<and> matrix_shape R C (db_cooked t)
      \<and> db_last_time t = db_last_time s
      \<and> (\<forall>k \<in> {..<R}. (db_counters t ! k, db_cooked t ! k) = h k (db_counters s ! k, db_cooked s ! k))
      \<and> (db_counters_need_update t \<longleftrightarrow> (\<exists>k \<in> {..<R}. db_counters t ! k \<noteq> 0))
      \<and> (db_matrix_need_update t \<longleftrightarrow> (\<exists>k \<in> {..<R}. wants (db_counters s ! k, db_cooked s ! k)))
      \<and> (db_cooked_changed t \<longleftrightarrow> db_cooked_changed s
          \<or> (\<exists>k \<in> {..<R}. db_cooked t ! k \<noteq> db_cooked s ! k))"
proof -
  have v: "\<forall>k \<in> {..<R}. (db_counters t ! k, db_cooked t ! k) = h k (db_counters s ! k, db_cooked s ! k)"
    using assms(1) by (simp add: row_view_def)
  then have v': "\<forall>k \<in> {..<R}. fst (h k (row_view s k)) = db_counters t ! k
      \<and> snd (h k (row_view s k)) = db_cooked t ! k"
    by (metis fst_conv snd_conv row_view_def)
  note f = assms(1)[THEN conjunct2, THEN conjunct2, rule_format]
  have "(\<exists>k \<in> {..<R}. fst (h k (row_view s k)) \<noteq> 0) \<longleftrightarrow> (\<exists>k \<in> {..<R}. db_counters t ! k \<noteq> 0)"
    "(\<exists>k \<in> {..<R}. snd (h k (row_view s k)) \<noteq> snd (row_view s k)) \<longleftrightarrow> (\<exists>k \<in> {..<R}. db_cooked t ! k \<noteq> db_cooked s ! k)"
    using v' by (auto simp: row_view_def)
  then show ?thesis
    using assms(1) v assms(2-4) f[of Matrix_need_update] f[of Cooked_changed] f[of Counters_need_update]
    unfolding assms(5-7) by (simp add: row_shape_def row_view_def)
qed

lemma row_transfer_form:
  assumes "row_shape R C (db_last_time s) t
      \<and> (\<forall>k \<in> {..<R}. row_view t k = h k (row_view s k))
      \<and> (\<forall>f. flag_of t f \<longleftrightarrow> flag_of s0 f \<or> (\<exists>k \<in> {..<R}. g f k (row_view s k)))"
    and "db_counters_need_update s0 = db_counters_need_update s"
    and "db_matrix_need_update s0 \<longrightarrow> db_matrix_need_update s \<and> nowants"
    and "db_cooked_changed s0 = db_cooked_changed s"
    and "\<And>k v. fst (h k v) \<noteq> 0 \<Longrightarrow> g Counters_need_update k v \<or> fst v \<noteq> 0"
    and "\<And>k v. \<not> g Matrix_need_update k v"
    and "\<And>k v. g Cooked_changed k v \<longleftrightarrow> snd (h k v) \<noteq> snd v"
  shows "length (db_counters t) = R \<and> matrix_shape R C (db_cooked t)
      \<and> db_last_time t = db_last_time s
      \<and> (\<forall>k \<in> {..<R}. (db_counters t ! k, db_cooked t ! k) = h k (db_counters s ! k, db_cooked s ! k))
      \<and> (db_counters_need_update s \<longrightarrow> db_counters_need_update t)
      \<and> (\<forall>k \<in> {..<R}. db_counters t ! k \<noteq> 0 \<longrightarrow> db_counters_need_update t \<or> db_counters s ! k \<noteq> 0)
      \<and> (db_matrix_need_update t \<longrightarrow> db_matrix_need_update s \<and> nowants)
      \<and> (db_cooked_changed t \<longleftrightarrow> db_cooked_changed s
          \<or> (\<exists>k \<in> {..<R}. db_cooked t ! k \<noteq> db_cooked s ! k))"
proof -
  have v: "\<forall>k \<in> {..<R}. (db_counters t ! k, db_cooked t ! k) = h k (db_counters s ! k, db_cooked s ! k)"
    using assms(1) by (simp add: row_view_def)
  then have v': "\<forall>k \<in> {..<R}. fst (h k (row_view s k)) = db_counters t ! k
      \<and> snd (h k (row_view s k)) = db_cooked t ! k"
    by (metis fst_conv snd_conv row_view_def)
  note f = assms(1)[THEN conjunct2, THEN conjunct2, rule_format]
  have c: "db_counters_need_update t \<or> db_counters s ! k \<noteq> 0"
    if "k \<in> {..<R}" "db_counters t ! k \<noteq> 0" for k
    using v' that assms(5)[of k "row_view s k"] f[of Counters_need_update] by (auto simp: row_view_def)
  have "(\<exists>k \<in> {..<R}. snd (h k (row_view s k)) \<noteq> snd (row_view s k)) \<longleftrightarrow> (\<exists>k \<in> {..<R}. db_cooked t ! k \<noteq> db_cooked s ! k)"
    using v' by (auto simp: row_view_def)
  with c show ?thesis
    using assms(1) v assms(2-4,6) f[of Matrix_need_update] f[of Cooked_changed] f[of Counters_need_update]
    unfolding assms(7) by (simp add: row_shape_def row_view_def)
qed

lemma restart_laws:
  "defer_inv D r0 v \<Longrightarrow> defer_inv D r (restart D r (defer_tick e r v))"
  "snd (restart D r w) = snd w"
  "defer_inv D r v \<Longrightarrow> defer_inv D r (defer_tick e r v)"
proof -
  show "defer_inv D r (defer_tick e r v)" if "defer_inv D r v"
    using defer_cell_laws(1,2)[OF that] by metis
  have "fst (defer_tick e r v) \<le> D" if "defer_inv D r0 v"
    using that sub_running[of e "fst v"] order.trans[of "fst v - e" "fst v" D]
    by (cases v) (auto simp: defer_defs)
  then show "defer_inv D r (restart D r (defer_tick e r v))" if "defer_inv D r0 v"
    using that by (auto simp: restart_def defer_inv_def)
qed (simp add: restart_def)

interpretation defer_pr: cellwise 255 "defer_pr_update R" "defer_pr_start R D" R C "{..<R}" nth
  "\<lambda>cs. length cs = R" nth "\<lambda>c. c \<noteq> 0" defer_tick "\<lambda>_ _. False"
  "restart D" defer_tick "defer_inv D" "\<lambda>e. D \<le> e"
proof
  fix s :: "(u8, 'a word) debounce_t" and raw :: "'a word list" and e
  assume s: "length (db_counters s) = R" "matrix_shape R C (db_cooked s)" "matrix_shape R C raw"
  let ?t = "defer_pr_start R D raw s" and ?u = "defer_pr_update R raw e s"
  show "length (db_counters ?t) = R \<and> matrix_shape R C (db_cooked ?t)
      \<and> db_last_time ?t = db_last_time s
      \<and> (\<forall>k \<in> {..<R}. (db_counters ?t ! k, db_cooked ?t ! k)
          = restart D (raw ! k) (db_counters s ! k, db_cooked s ! k))
      \<and> (db_counters_need_update s \<longrightarrow> db_counters_need_update ?t)
      \<and> (\<forall>k \<in> {..<R}. db_counters ?t ! k \<noteq> 0 \<longrightarrow> db_counters_need_update ?t \<or> db_counters s ! k \<noteq> 0)
      \<and> (db_matrix_need_update ?t \<longrightarrow> db_matrix_need_update s \<and> (\<forall>e v. \<not> False))
      \<and> (db_cooked_changed ?t \<longleftrightarrow> db_cooked_changed s
          \<or> (\<exists>k \<in> {..<R}. db_cooked ?t ! k \<noteq> db_cooked s ! k))"
    by (rule row_transfer_form[where s = s and h = "\<lambda>k. restart D (raw ! k)"
          and g = "\<lambda>f k v. f = Counters_need_update \<and> raw ! k \<noteq> snd v", OF defer_pr_start_cells[OF s(1,2) refl]])
      (auto simp: restart_def split: if_splits)
  show "length (db_counters ?u) = R \<and> matrix_shape R C (db_cooked ?u)
      \<and> db_last_time ?u = db_last_time s
      \<and> (\<forall>k \<in> {..<R}. (db_counters ?u ! k, db_cooked ?u ! k)
          = defer_tick e (raw ! k) (db_counters s ! k, db_cooked s ! k))
      \<and> (db_counters_need_update ?u \<longleftrightarrow> (\<exists>k \<in> {..<R}. db_counters ?u ! k \<noteq> 0))
      \<and> (db_matrix_need_update ?u \<longleftrightarrow> (\<exists>k \<in> {..<R}. False))
      \<and> (db_cooked_changed ?u \<longleftrightarrow> db_cooked_changed s
          \<or> (\<exists>k \<in> {..<R}. db_cooked ?u ! k \<noteq> db_cooked s ! k))"
    if "\<not> db_matrix_need_update s"
    using that by (intro row_update_form[where s = s and h = "\<lambda>k. defer_tick e (raw ! k)"
          and g = "\<lambda>f k v. case f of
            Counters_need_update \<Rightarrow> fst (defer_tick e (raw ! k) v) \<noteq> 0
          | Cooked_changed \<Rightarrow> snd (defer_tick e (raw ! k) v) \<noteq> snd v
          | Matrix_need_update \<Rightarrow> False"
          and wants = "\<lambda>_. False", OF defer_pr_update_cells[OF s refl]]) simp_all
next
  fix r r0 :: "'a word" and v e
  assume i: "defer_inv D r0 v"
  show "defer_inv D r (restart D r (defer_tick e r v))" using i by (rule restart_laws)
  show "snd (restart D r (defer_tick e r v)) \<noteq> snd v
      \<longleftrightarrow> snd (defer_tick e r v) \<noteq> snd v
        \<or> snd (restart D r (defer_tick e r v)) \<noteq> snd (defer_tick e r v)"
    by (simp add: restart_laws(2))
  show "snd (restart D r (defer_tick e r v)) \<in> {snd v, r}"
    unfolding restart_laws(2) by (rule defer_cell_laws)
next
  fix r :: "'a word" and v e
  assume "defer_inv D r v"
  then show "defer_inv D r (defer_tick e r v)" by (rule restart_laws)
  show "snd (defer_tick e r v) \<in> {snd v, r}" by (rule defer_cell_laws)
next
  fix r :: "'a word" and v and e e' :: u8
  assume i: "defer_inv D r v" "D \<le> e" "D \<le> e'"
  show "snd (defer_tick e' r (defer_tick e r v)) = r"
    by (intro defer_cell_laws(5)[OF restart_laws(3)[OF i(1)] i(3)])
qed (auto simp: row_cells_eq row_of_bit, auto simp: defer_defs split: prod.splits)

section \<open>Symmetric, eager, per row (sym_eager_pr.c)\<close>

definition eager_pr_update_row :: "u8 \<Rightarrow> nat \<Rightarrow> (u8, 'r::len word) debounce_t \<Rightarrow> (u8, 'r word) debounce_t" where
  "eager_pr_update_row elapsed_time row s =
     (if db_counters s ! row \<noteq> 0 then
        if db_counters s ! row \<le> elapsed_time then
          s\<lparr>db_counters := (db_counters s)[row := 0], db_matrix_need_update := True\<rparr>
        else s\<lparr>db_counters := (db_counters s)[row := db_counters s ! row - elapsed_time],
               db_counters_need_update := True\<rparr>
      else s)"

definition eager_pr_update :: "nat \<Rightarrow> u8 \<Rightarrow> (u8, 'r::len word) debounce_t \<Rightarrow> (u8, 'r word) debounce_t" where
  "eager_pr_update R elapsed_time s =
     for_rows R (eager_pr_update_row elapsed_time)
       (s\<lparr>db_counters_need_update := False, db_matrix_need_update := False\<rparr>)"

definition eager_pr_transfer_row ::
    "u8 \<Rightarrow> 'r::len word list \<Rightarrow> nat \<Rightarrow> (u8, 'r word) debounce_t \<Rightarrow> (u8, 'r word) debounce_t" where
  "eager_pr_transfer_row D raw row s =
     (let existing_row = db_cooked s ! row; raw_row = raw ! row
      in if existing_row \<noteq> raw_row then
           if db_counters s ! row = 0 then
             s\<lparr>db_counters := (db_counters s)[row := D],
               db_cooked_changed := db_cooked_changed s \<or> db_cooked s ! row XOR raw_row \<noteq> 0,
               db_cooked := (db_cooked s)[row := raw_row], db_counters_need_update := True\<rparr>
           else s
         else s)"

definition eager_pr_transfer ::
    "nat \<Rightarrow> u8 \<Rightarrow> 'r::len word list \<Rightarrow> (u8, 'r word) debounce_t \<Rightarrow> (u8, 'r word) debounce_t" where
  "eager_pr_transfer R D raw s =
     for_rows R (eager_pr_transfer_row D raw) (s\<lparr>db_matrix_need_update := False\<rparr>)"

definition eager_pr_debounce ::
    "nat \<Rightarrow> u8 \<Rightarrow> u32 \<Rightarrow> 'r::len word list \<Rightarrow> bool \<Rightarrow> (u8, 'r word) debounce_t
      \<Rightarrow> (u8, 'r word) debounce_t \<times> bool" where
  "eager_pr_debounce R D now raw changed s =
     debounce_call 255 (eager_pr_update R) (eager_pr_transfer R D raw) now changed s"

lemma eager_pr_update_cells:
  assumes "length (db_counters s) = R" "matrix_shape R C (db_cooked s)"
    and t_def: "t = eager_pr_update R e s"
  shows "row_shape R C (db_last_time s) t
    \<and> (\<forall>row \<in> {..<R}. row_view t row = eager_tick e (raw ! row) (row_view s row))
    \<and> (\<forall>f. flag_of t f \<longleftrightarrow> flag_of (s\<lparr>db_counters_need_update := False, db_matrix_need_update := False\<rparr>) f
      \<or> (\<exists>row \<in> {..<R}. case f of
          Counters_need_update \<Rightarrow> fst (eager_tick e (raw ! row) (row_view s row)) \<noteq> 0
        | Cooked_changed \<Rightarrow> False
        | Matrix_need_update \<Rightarrow> eager_wants e (row_view s row)))"
proof -
  let ?s = "s\<lparr>db_counters_need_update := False, db_matrix_need_update := False\<rparr>"
  have v: "row_view ?s = row_view s" by (auto simp: row_view_def)
  have sh: "row_shape R C (db_last_time s) ?s" using assms by (simp add: row_shape_def)
  let ?h = "\<lambda>row. eager_tick e (raw ! row)"
  let ?g = "\<lambda>f row v. case f of Counters_need_update \<Rightarrow> fst (?h row v) \<noteq> 0
    | Cooked_changed \<Rightarrow> False | Matrix_need_update \<Rightarrow> eager_wants e v"
  have step: "row_shape R C T (eager_pr_update_row e row s)
      \<and> row_view (eager_pr_update_row e row s) row = ?h row (row_view s row)
      \<and> (\<forall>y \<in> {..<R}. y \<noteq> row \<longrightarrow> row_view (eager_pr_update_row e row s) y = row_view s y)
      \<and> (\<forall>f. flag_of (eager_pr_update_row e row s) f \<longleftrightarrow> flag_of s f \<or> ?g f row (row_view s row))"
    if row: "row < R" and s: "row_shape R C T s" for row T and s :: "(u8, 'a word) debounce_t"
  proof -
    let ?c = "db_counters s ! row" and ?s' = "eager_pr_update_row e row s"
    have "?c \<noteq> 0 \<Longrightarrow> \<not> ?c \<le> e \<Longrightarrow> ?c - e \<noteq> 0" using sub_running[of e ?c] by simp
    then have "flag_of ?s' f \<longleftrightarrow> flag_of s f \<or> ?g f row (row_view s row)" for f
      by (cases f) (auto simp: eager_pr_update_row_def row_view_def eager_tick_def eager_wants_def)
    moreover have "row_shape R C T ?s' \<and> row_view ?s' row = (fst (?h row (row_view s row)), db_cooked s ! row)
        \<and> (\<forall>y \<in> {..<R}. y \<noteq> row \<longrightarrow> row_view ?s' y = row_view s y)"
      by (rule row_put[OF s row])
        (use row_bits[OF s row] in \<open>auto simp: eager_pr_update_row_def row_view_def
          eager_tick_def list_update_same_value\<close>)
    ultimately show ?thesis by (simp add: row_view_def eager_tick_def)
  qed
  show ?thesis
    using rows_loop[of R C "db_last_time s" "eager_pr_update_row e" ?h ?g ?s, OF step sh]
    unfolding t_def eager_pr_update_def v .
qed

lemma eager_pr_transfer_cells:
  assumes "length (db_counters s) = R" "matrix_shape R C (db_cooked s)" "matrix_shape R C raw"
    and t_def: "t = eager_pr_transfer R D raw s"
  shows "row_shape R C (db_last_time s) t
    \<and> (\<forall>row \<in> {..<R}. row_view t row = eager_start D (raw ! row) (row_view s row))
    \<and> (\<forall>f. flag_of t f \<longleftrightarrow> flag_of (s\<lparr>db_matrix_need_update := False\<rparr>) f \<or> (\<exists>row \<in> {..<R}.
        f \<noteq> Matrix_need_update \<and> raw ! row \<noteq> snd (row_view s row) \<and> fst (row_view s row) = 0))"
proof -
  let ?s = "s\<lparr>db_matrix_need_update := False\<rparr>"
  have v: "row_view ?s = row_view s" by (auto simp: row_view_def)
  have sh: "row_shape R C (db_last_time s) ?s" using assms by (simp add: row_shape_def)
  let ?h = "\<lambda>row. eager_start D (raw ! row)"
  let ?g = "\<lambda>f row (v :: u8 \<times> 'a word). f \<noteq> Matrix_need_update \<and> raw ! row \<noteq> snd v \<and> fst v = 0"
  have step: "row_shape R C T (eager_pr_transfer_row D raw row s)
      \<and> row_view (eager_pr_transfer_row D raw row s) row = ?h row (row_view s row)
      \<and> (\<forall>y \<in> {..<R}. y \<noteq> row \<longrightarrow> row_view (eager_pr_transfer_row D raw row s) y = row_view s y)
      \<and> (\<forall>f. flag_of (eager_pr_transfer_row D raw row s) f \<longleftrightarrow> flag_of s f \<or> ?g f row (row_view s row))"
    if row: "row < R" and s: "row_shape R C T s" for row T and s :: "(u8, 'a word) debounce_t"
  proof -
    let ?s' = "eager_pr_transfer_row D raw row s"
    let ?flip = "raw ! row \<noteq> db_cooked s ! row \<and> db_counters s ! row = 0"
    have "flag_of ?s' f \<longleftrightarrow> flag_of s f \<or> ?g f row (row_view s row)" for f
      by (cases f) (auto simp: eager_pr_transfer_row_def row_view_def Let_def xor_neq_0)
    moreover have "row_shape R C T ?s' \<and> row_view ?s' row = (if ?flip then D else db_counters s ! row,
          if ?flip then raw ! row else db_cooked s ! row)
        \<and> (\<forall>y \<in> {..<R}. y \<noteq> row \<longrightarrow> row_view ?s' y = row_view s y)"
      by (rule row_put[OF s row])
        (use row_bits[OF s row] assms(3) row in \<open>auto simp: eager_pr_transfer_row_def Let_def matrix_shape_def
          split: if_splits\<close>)
    ultimately show ?thesis by (auto simp: row_view_def eager_start_def)
  qed
  show ?thesis
    using rows_loop[of R C "db_last_time s" "eager_pr_transfer_row D raw" ?h ?g ?s, OF step sh]
    unfolding t_def eager_pr_transfer_def v .
qed

interpretation eager_pr: cellwise 255 "\<lambda>_. eager_pr_update R" "eager_pr_transfer R D" R C "{..<R}" nth
  "\<lambda>cs. length cs = R" nth "\<lambda>c. c \<noteq> 0" eager_tick eager_wants
  "eager_start D" "\<lambda>e r v. eager_start D r (eager_tick e r v)" "eager_inv D" "\<lambda>e. D \<le> e"
proof
  fix s :: "(u8, 'a word) debounce_t" and raw :: "'a word list" and e
  assume s: "length (db_counters s) = R" "matrix_shape R C (db_cooked s)" "matrix_shape R C raw"
  let ?t = "eager_pr_transfer R D raw s" and ?u = "eager_pr_update R e s"
  show "length (db_counters ?t) = R \<and> matrix_shape R C (db_cooked ?t)
      \<and> db_last_time ?t = db_last_time s
      \<and> (\<forall>k \<in> {..<R}. (db_counters ?t ! k, db_cooked ?t ! k)
          = eager_start D (raw ! k) (db_counters s ! k, db_cooked s ! k))
      \<and> (db_counters_need_update s \<longrightarrow> db_counters_need_update ?t)
      \<and> (\<forall>k \<in> {..<R}. db_counters ?t ! k \<noteq> 0 \<longrightarrow> db_counters_need_update ?t \<or> db_counters s ! k \<noteq> 0)
      \<and> (db_matrix_need_update ?t
          \<longrightarrow> db_matrix_need_update s \<and> (\<forall>e v. \<not> eager_wants e (v :: u8 \<times> 'a word)))
      \<and> (db_cooked_changed ?t \<longleftrightarrow> db_cooked_changed s
          \<or> (\<exists>k \<in> {..<R}. db_cooked ?t ! k \<noteq> db_cooked s ! k))"
    by (rule row_transfer_form[where s = s and h = "\<lambda>k. eager_start D (raw ! k)"
          and g = "\<lambda>f k v. f \<noteq> Matrix_need_update \<and> raw ! k \<noteq> snd v \<and> fst v = 0",
          OF eager_pr_transfer_cells[OF s refl]])
      (auto simp: eager_start_def split: if_splits)
  show "length (db_counters ?u) = R \<and> matrix_shape R C (db_cooked ?u)
      \<and> db_last_time ?u = db_last_time s
      \<and> (\<forall>k \<in> {..<R}. (db_counters ?u ! k, db_cooked ?u ! k)
          = eager_tick e (raw ! k) (db_counters s ! k, db_cooked s ! k))
      \<and> (db_counters_need_update ?u \<longleftrightarrow> (\<exists>k \<in> {..<R}. db_counters ?u ! k \<noteq> 0))
      \<and> (db_matrix_need_update ?u \<longleftrightarrow> (\<exists>k \<in> {..<R}. eager_wants e (db_counters s ! k, db_cooked s ! k)))
      \<and> (db_cooked_changed ?u \<longleftrightarrow> db_cooked_changed s
          \<or> (\<exists>k \<in> {..<R}. db_cooked ?u ! k \<noteq> db_cooked s ! k))"
    by (intro row_update_form[where s = s and h = "\<lambda>k. eager_tick e (raw ! k)"
          and g = "\<lambda>f k v. case f of
            Counters_need_update \<Rightarrow> fst (eager_tick e (raw ! k) v) \<noteq> 0
          | Cooked_changed \<Rightarrow> False
          | Matrix_need_update \<Rightarrow> eager_wants e v"
          and wants = "eager_wants e", OF eager_pr_update_cells[OF s(1,2) refl]])
      (simp_all add: eager_cell_laws(3))
next
  fix r r0 :: "'a word" and v e
  assume i: "eager_inv D r0 v"
  show "eager_inv D r (eager_start D r (eager_tick e r v))" using i by (rule eager_cell_laws)
  show "snd (eager_start D r (eager_tick e r v)) \<noteq> snd v
      \<longleftrightarrow> snd (eager_tick e r v) \<noteq> snd v
        \<or> snd (eager_start D r (eager_tick e r v)) \<noteq> snd (eager_tick e r v)"
    by (simp add: eager_cell_laws(3))
  show "snd (eager_start D r (eager_tick e r v)) \<in> {snd v, r}"
    using eager_cell_laws(4)[of D r "eager_tick e r v"] by (simp add: eager_cell_laws(3))
next
  fix r :: "'a word" and v e
  assume i: "eager_inv D r v"
  show "eager_inv D r (eager_start D r (eager_tick e r v))" using i by (rule eager_cell_laws)
  show "snd (eager_start D r (eager_tick e r v)) \<in> {snd v, r}"
    using eager_cell_laws(4)[of D r "eager_tick e r v"] by (simp add: eager_cell_laws(3))
  show "eager_tick e r v = eager_start D r (eager_tick e r v)" if "\<not> eager_wants e v"
    using eager_cell_laws(2)[OF i that] by simp
next
  fix r :: "'a word" and v and e e' :: u8
  assume i: "eager_inv D r v" "D \<le> e" "D \<le> e'"
  show "snd (eager_start D r (eager_tick e' r (eager_start D r (eager_tick e r v)))) = r"
    by (intro eager_cell_laws(5)[OF eager_cell_laws(1)[OF i(1)] i(3)])
qed (auto simp: row_cells_eq row_of_bit, auto simp: eager_defs split: prod.splits)

section \<open>Symmetric, deferred, one timer (sym_defer_g.c)\<close>

record 'w debounce_g = "'w debounce_io" +
  dg_debouncing_time :: u32
  dg_debouncing :: bool

definition defer_g_debounce ::
    "u8 \<Rightarrow> u32 \<Rightarrow> 'r::len word list \<Rightarrow> bool \<Rightarrow> 'r word debounce_g \<Rightarrow> 'r word debounce_g \<times> bool" where
  "defer_g_debounce D now raw changed s =
     (if changed then (s\<lparr>dg_debouncing := True, dg_debouncing_time := now\<rparr>, False)
      else if dg_debouncing s \<and> unat (now - dg_debouncing_time s) \<ge> unat D then
        if db_cooked s \<noteq> raw then (s\<lparr>db_cooked := raw, dg_debouncing := False\<rparr>, True)
        else (s\<lparr>dg_debouncing := False\<rparr>, False)
      else (s, False))"

definition defer_g_inv :: "nat \<Rightarrow> nat \<Rightarrow> 'r::len word debounce_g \<Rightarrow> 'r word list \<Rightarrow> bool" where
  "defer_g_inv R C s raw \<longleftrightarrow> matrix_shape R C (db_cooked s) \<and> matrix_shape R C raw
     \<and> (\<not> dg_debouncing s \<longrightarrow> db_cooked s = raw)"

interpretation defer_g: debouncer "defer_g_debounce D" db_cooked R C "defer_g_inv R C" "\<lambda>s. \<not> dg_debouncing s"
  "\<lambda>s now. unat (now - dg_debouncing_time s) \<ge> unat D"
  by unfold_locales (auto simp: defer_g_inv_def defer_g_debounce_def split: if_splits)

end
