(* ===== verification/Debounce_Timing.thy ===== *)
theory Debounce_Timing
  imports Debounce_Asym Debounce_Per_Row
begin

text \<open>
  What the per-key algorithms promise in time. Scans are given with their times in milliseconds
  as natural numbers; the firmware reads them modulo 2^32 and two scans are less than that apart.
\<close>

section \<open>Runs of scans\<close>

definition scan :: "(u32 \<Rightarrow> 'w list \<Rightarrow> bool \<Rightarrow> 's \<Rightarrow> 's \<times> bool) \<Rightarrow> nat \<times> 'w list \<Rightarrow> 's \<times> 'w list \<Rightarrow> 's \<times> 'w list" where
  "scan deb x y = (fst (deb (of_nat (fst x)) (snd x) (snd x \<noteq> snd y) (fst y)), snd x)"

definition scan_run ::
    "(u32 \<Rightarrow> 'w list \<Rightarrow> bool \<Rightarrow> 's \<Rightarrow> 's \<times> bool) \<Rightarrow> (nat \<times> 'w list) list \<Rightarrow> 's \<times> 'w list \<Rightarrow> 's \<times> 'w list" where
  "scan_run deb xs y = fold (scan deb) xs y"

text \<open>Times do not go back, and no two neighbours are 2^32 milliseconds apart.\<close>

fun timed :: "nat list \<Rightarrow> bool" where
  "timed (t # u # ts) \<longleftrightarrow> t \<le> u \<and> u - t < 2 ^ 32 \<and> timed (u # ts)"
| "timed _ \<longleftrightarrow> True"

lemma timed_snoc: "timed (ts @ [t, u]) \<longleftrightarrow> timed (ts @ [t]) \<and> t \<le> u \<and> u - t < 2 ^ 32"
  by (induction ts rule: timed.induct) auto

lemma timed_last:
  "timed (t1 # ts @ [t]) \<longleftrightarrow> timed (t1 # ts) \<and> last (t1 # ts) \<le> t \<and> t - last (t1 # ts) < 2 ^ 32"
proof (cases ts rule: rev_cases)
  case (snoc ys y)
  then show ?thesis using timed_snoc[of "t1 # ys" y t] by simp
qed simp

lemma timed_snoc_last:
  assumes "timed (map fst (xs @ [x]))" "xs \<noteq> []"
  shows "fst (last xs) \<le> fst x \<and> fst x - fst (last xs) < 2 ^ 32"
proof -
  obtain ys y where "xs = ys @ [y]" using assms(2) by (cases xs rule: rev_cases) auto
  then show ?thesis using assms(1) by (simp add: timed_snoc)
qed

lemma timed_sorted: "timed ts \<Longrightarrow> sorted ts"
  by (induction ts rule: timed.induct) auto

lemma timed_hd_last:
  assumes "timed (map fst xs)" "xs = ys @ zs" "zs \<noteq> []"
  shows "fst (hd zs) \<le> fst (last xs)"
proof -
  have "sorted (map fst zs)" using timed_sorted[OF assms(1)] by (simp add: assms(2) sorted_append)
  moreover have "last zs \<in> set zs" using assms(3) by simp
  ultimately show ?thesis using assms(2,3) by (cases zs) auto
qed

lemma elapsed_nat:
  assumes "T \<le> t" "t - T < 2 ^ 32" "n \<le> 255"
  shows "unat (clamp_elapsed n (of_nat t - of_nat T)) = min (t - T) n"
proof -
  have "(of_nat t - of_nat T :: u32) = of_nat (t - T)" using assms(1) by (simp add: of_nat_diff)
  moreover have "unat (of_nat (t - T) :: u32) = t - T" using assms(2) by (intro unat_of_nat_mod) simp
  moreover have "unat (of_nat (min (t - T) n) :: u8) = min (t - T) n"
    using assms(3) by (intro unat_of_nat_mod) simp
  ultimately show ?thesis by (simp add: clamp_elapsed_def)
qed

lemma unat_running_sub: "\<not> c \<le> (e :: 'a::len word) \<Longrightarrow> unat (c - e) = unat c - unat e"
  by (simp add: unat_sub)

section \<open>Deferral filters bounces\<close>

definition defer_pk_ready :: "nat \<Rightarrow> nat \<Rightarrow> u8 \<Rightarrow> (u8, 'r::len word) debounce_t \<Rightarrow> 'r word list \<Rightarrow> bool" where
  "defer_pk_ready R C D s raw \<longleftrightarrow> 0 < D \<and> db_counters s = replicate (R * C) 0 \<and> matrix_shape R C raw
     \<and> db_cooked s = raw \<and> \<not> db_matrix_need_update s"

lemma defer_pk_ready_inv:
  "defer_pk_ready R C D s raw \<Longrightarrow> defer_pk.inv R C D s raw"
  unfolding defer_pk.inv_def
  by (auto simp: defer_pk_ready_def defer_inv_def key_counter_def keys_def index_lt)

text \<open>A running counter began when the key last left its cooked value, and has not run out.\<close>

definition deferring :: "nat \<Rightarrow> u8 \<Rightarrow> nat \<times> nat \<Rightarrow> (nat \<times> 'r::len word list) list \<Rightarrow> (u8, 'r word) debounce_t \<Rightarrow> bool" where
  "deferring C D k xs s \<longleftrightarrow> fst (key_view C s k) \<noteq> 0 \<longrightarrow>
     (\<exists>ys zs. xs = ys @ zs \<and> zs \<noteq> [] \<and> (\<forall>x \<in> set zs. key_val (snd x) k \<noteq> snd (key_view C s k))
       \<and> unat D \<le> unat (fst (key_view C s k)) + (fst (last zs) - fst (hd zs)))"

lemma deferringD:
  assumes "deferring C D k xs s" "key_view C s k = (c, b)" "c \<noteq> 0"
  shows "\<exists>ys zs. xs = ys @ zs \<and> zs \<noteq> [] \<and> (\<forall>x \<in> set zs. key_val (snd x) k \<noteq> b)
    \<and> unat D \<le> unat c + (fst (last zs) - fst (hd zs))"
  using assms unfolding deferring_def by simp

lemma defer_tick_flips:
  "snd (defer_tick e r (c, b)) \<noteq> b \<Longrightarrow> c \<noteq> 0 \<and> c \<le> e \<and> r \<noteq> b \<and> snd (defer_tick e r (c, b)) = r"
  by (simp add: defer_tick_def split: if_splits)

lemma defer_pk_call: "defer_pk_debounce R C D = (\<lambda>now raw. defer_pk.call R C D now raw)"
  by (intro ext) (simp add: defer_pk_debounce_def)

lemma defer_pk_step: "defer_pk.step D ch e r v = defer_start D r (defer_tick e r v)"
  by (simp add: defer_pk.step_def)

lemma defer_pk_key:
  assumes "defer_pk.inv R C D s raw" "k \<in> keys R C"
  shows "defer_inv D (key_val raw k) (key_view C s k)"
    and "fst (key_view C s k) \<noteq> 0 \<Longrightarrow> db_counters_need_update s"
proof -
  show "defer_inv D (key_val raw k) (key_view C s k)"
    using assms unfolding defer_pk.inv_def key_view_def by blast
  show "fst (key_view C s k) \<noteq> 0 \<Longrightarrow> db_counters_need_update s"
    using assms unfolding defer_pk.inv_def key_view_def fst_conv by blast
qed

lemma defer_pk_run:
  assumes "defer_pk_ready R C D s0 raw0" "\<forall>x \<in> set xs. matrix_shape R C (snd x)"
    and "timed (map fst xs)" and "scan_run (defer_pk_debounce R C D) xs (s0, raw0) = (s, raw)"
  shows "defer_pk.inv R C D s raw \<and> (\<forall>k \<in> keys R C. deferring C D k xs s)
    \<and> (db_counters_need_update s \<longrightarrow> xs \<noteq> [] \<longrightarrow> db_last_time s = of_nat (fst (last xs)))"
  using assms
proof (induction xs arbitrary: s raw rule: rev_induct)
  case Nil
  then have [simp]: "s = s0" "raw = raw0" by (simp_all add: scan_run_def)
  have "\<forall>k \<in> keys R C. fst (key_view C s0 k) = 0"
    using assms(1) by (auto simp: key_view_def key_counter_def defer_pk_ready_def keys_def index_lt)
  then show ?case using defer_pk_ready_inv[OF assms(1)] by (simp add: deferring_def)
next
  case (snoc x xs)
  obtain t m where x: "x = (t, m)" by force
  obtain s1 raw1 where 1: "scan_run (defer_pk_debounce R C D) xs (s0, raw0) = (s1, raw1)" by force
  have tm: "timed (map fst xs)"
    using snoc.prems(3) by (cases xs rule: rev_cases) (auto simp: timed_snoc)
  have IH: "defer_pk.inv R C D s1 raw1" "\<forall>k \<in> keys R C. deferring C D k xs s1"
    "db_counters_need_update s1 \<longrightarrow> xs \<noteq> [] \<longrightarrow> db_last_time s1 = of_nat (fst (last xs))"
    using snoc.IH[OF snoc.prems(1) _ tm 1] snoc.prems(2) by simp_all
  have m: "matrix_shape R C m" using snoc.prems(2) x by simp
  have s: "s = fst (defer_pk.call R C D (of_nat t) m (m \<noteq> raw1) s1)" and raw: "raw = m"
    using snoc.prems(4) 1 x by (auto simp: scan_run_def scan_def defer_pk_call)
  let ?e = "defer_pk.elapsed (of_nat t) s1"
  have "deferring C D k (xs @ [x]) s" if k: "k \<in> keys R C" for k
  proof -
    obtain c b where v: "key_view C s1 k = (c, b)" by force
    have sv: "key_view C s k = defer_pk.step D (m \<noteq> raw1) ?e (key_val m k) (c, b)"
      using defer_pk.call_step[OF IH(1) m k, of "of_nat t"] v unfolding s key_view_def by simp
    have i: "defer_inv D (key_val raw1 k) (c, b)"
      using defer_pk_key(1)[OF IH(1) k] v by simp
    have st: "key_view C s k = defer_start D (key_val m k) (defer_tick ?e (key_val m k) (c, b))"
      using sv by (simp only: defer_pk_step)
    show ?thesis
    proof (cases "c \<noteq> 0 \<and> \<not> c \<le> ?e \<and> key_val m k \<noteq> b")
      case True
      have d: "deferring C D k xs s1" using IH(2) k by blast
      obtain ys zs where z: "xs = ys @ zs" "zs \<noteq> []" "\<forall>x \<in> set zs. key_val (snd x) k \<noteq> b"
        "unat D \<le> unat c + (fst (last zs) - fst (hd zs))"
        using deferringD[OF d v conjunct1[OF True]] by (elim exE conjE)
      have n: "db_counters_need_update s1"
        using defer_pk_key(2)[OF IH(1) k] v True by simp
      let ?T = "fst (last xs)"
      have lt: "db_last_time s1 = of_nat ?T" using IH(3) n z by simp
      have T: "?T \<le> t" "t - ?T < 2 ^ 32"
        using timed_snoc_last[OF snoc.prems(3)] z(1,2) x by simp_all
      have e: "unat ?e = min (t - ?T) 255" unfolding lt by (rule elapsed_nat[OF T]) simp
      have "unat c < 256" by (rule unat_lt_256)
      with True e have et: "unat ?e = t - ?T" by (simp add: word_le_nat_alt min_def split: if_splits)
      have hz: "fst (hd zs) \<le> ?T" by (rule timed_hd_last[OF tm z(1,2)])
      have "key_view C s k = (c - ?e, b)" using True st by (auto simp: defer_defs)
      moreover have "unat D \<le> unat (c - ?e) + (fst (last (zs @ [x])) - fst (hd (zs @ [x])))"
        using z T et hz x True unat_running_sub[of c ?e] by (simp add: word_le_nat_alt)
      ultimately show ?thesis
        unfolding deferring_def using z True x
        by (intro impI exI[of _ ys] exI[of _ "zs @ [x]"]) auto
    next
      case False
      with i st have "fst (key_view C s k) = 0 \<or> key_view C s k = (D, b) \<and> key_val m k \<noteq> b"
        by (auto simp: defer_defs split: if_splits)
      then show ?thesis unfolding deferring_def using x by (intro impI exI[of _ xs] exI[of _ "[x]"]) auto
    qed
  qed
  moreover have "defer_pk.inv R C D s raw"
    unfolding s raw using defer_pk.call_inv[OF IH(1) m] .
  moreover have "db_counters_need_update s \<Longrightarrow> db_last_time s = of_nat t"
    using defer_pk.call_last_time[OF IH(1) m s] .
  ultimately show ?case using x by simp
qed

text \<open>
  C8. sym_defer_pk passes no bounce: when a key changes in the cooked matrix, the raw matrix has
  shown its new value in every scan of a stretch that began at least \<open>DEBOUNCE\<close> milliseconds
  before, whatever the other keys did and whether or not the clock wrapped.
\<close>

theorem defer_pk_no_bounce:
  assumes "defer_pk_ready R C D s0 raw0" "\<forall>x \<in> set (xs @ [(t, m)]). matrix_shape R C (snd x)"
    and "timed (map fst (xs @ [(t, m)]))"
    and "scan_run (defer_pk_debounce R C D) xs (s0, raw0) = (s, raw)"
    and "row < R" "col < C"
    and "bit (db_cooked (fst (defer_pk_debounce R C D (of_nat t) m (m \<noteq> raw) s)) ! row) col
      \<noteq> bit (db_cooked s ! row) col"
  shows "\<exists>ys zs. xs = ys @ zs \<and> zs \<noteq> [] \<and> unat D \<le> t - fst (hd zs)
    \<and> (\<forall>x \<in> set (zs @ [(t, m)]). bit (snd x ! row) col
        = bit (db_cooked (fst (defer_pk_debounce R C D (of_nat t) m (m \<noteq> raw) s)) ! row) col)"
proof -
  let ?k = "(row, col)" and ?s = "fst (defer_pk.call R C D (of_nat t) m (m \<noteq> raw) s)"
  let ?e = "defer_pk.elapsed (of_nat t) s"
  have k: "?k \<in> keys R C" using assms(5,6) by simp
  have tm: "timed (map fst xs)"
    using assms(3) by (cases xs rule: rev_cases) (auto simp: timed_snoc)
  have R: "defer_pk.inv R C D s raw" "\<forall>k \<in> keys R C. deferring C D k xs s"
    "db_counters_need_update s \<longrightarrow> xs \<noteq> [] \<longrightarrow> db_last_time s = of_nat (fst (last xs))"
    using defer_pk_run[OF assms(1) _ tm assms(4)] assms(2) by simp_all
  have m: "matrix_shape R C m" using assms(2) by simp
  obtain c b where v: "key_view C s ?k = (c, b)" by force
  have b: "b = bit (db_cooked s ! row) col" using v by (simp add: key_view_def key_val_def)
  define nb where "nb = bit (db_cooked ?s ! row) col"
  have st: "snd (defer_start D (key_val m ?k) (defer_tick ?e (key_val m ?k) (c, b))) = nb"
    using defer_pk.val_step[OF R(1) m k, of "of_nat t"] v
    unfolding defer_pk_step key_view_def nb_def by (simp add: key_val_def)
  have nb: "nb \<noteq> b" using b assms(7) unfolding defer_pk_call nb_def by simp
  have i: "defer_inv D (key_val raw ?k) (c, b)"
    using defer_pk_key(1)[OF R(1) k] v by simp
  have c: "c \<noteq> 0" "c \<le> ?e" "key_val m ?k \<noteq> b" "key_val m ?k = nb"
    using defer_tick_flips[of ?e "key_val m ?k" c b] nb st unfolding defer_cell_laws(3) by blast+
  have d: "deferring C D ?k xs s" using R(2) k by blast
  obtain ys zs where z: "xs = ys @ zs" "zs \<noteq> []" "\<forall>x \<in> set zs. key_val (snd x) ?k \<noteq> b"
    "unat D \<le> unat c + (fst (last zs) - fst (hd zs))"
    using deferringD[OF d v c(1)] by (elim exE conjE)
  have n: "db_counters_need_update s"
    using defer_pk_key(2)[OF R(1) k] v c(1) by simp
  let ?T = "fst (last xs)"
  have lt: "db_last_time s = of_nat ?T" using R(3) n z by simp
  have T: "?T \<le> t" "t - ?T < 2 ^ 32"
    using timed_snoc_last[OF assms(3)] z(1,2) by simp_all
  have "unat ?e = min (t - ?T) 255" unfolding lt by (rule elapsed_nat[OF T]) simp
  then have "unat c \<le> t - ?T" using c(2) by (simp add: word_le_nat_alt)
  moreover have "fst (last zs) = ?T" using z by simp
  moreover have "fst (hd zs) \<le> ?T" by (rule timed_hd_last[OF tm z(1,2)])
  ultimately have "unat D \<le> t - fst (hd zs)" using z(4) T by linarith
  moreover have "\<forall>x \<in> set (zs @ [(t, m)]). bit (snd x ! row) col = nb"
    using z(3) c(3,4) by (simp add: key_val_def)
  ultimately have "xs = ys @ zs \<and> zs \<noteq> [] \<and> unat D \<le> t - fst (hd zs)
      \<and> (\<forall>x \<in> set (zs @ [(t, m)]). bit (snd x ! row) col = nb)"
    using z(1,2) by blast
  then show ?thesis unfolding defer_pk_call nb_def by (intro exI)
qed

section \<open>Eagerness\<close>

lemma eager_pk_call: "eager_pk_debounce R C D = (\<lambda>now raw. eager_pk.call R C D now raw)"
  by (intro ext) (simp add: eager_pk_debounce_def)

definition eager_pk_ready :: "nat \<Rightarrow> nat \<Rightarrow> u8 \<Rightarrow> (u8, 'r::len word) debounce_t \<Rightarrow> 'r word list \<Rightarrow> bool" where
  "eager_pk_ready R C D s raw \<longleftrightarrow> 0 < D \<and> length (db_counters s) = R * C \<and> matrix_shape R C raw
     \<and> matrix_shape R C (db_cooked s) \<and> \<not> db_matrix_need_update s
     \<and> (\<forall>c \<in> set (db_counters s). c \<le> D)
     \<and> (\<forall>row < R. \<forall>col < C. db_counters s ! (row * C + col) = 0
         \<longrightarrow> bit (db_cooked s ! row) col = bit (raw ! row) col)
     \<and> (\<forall>row < R. \<forall>col < C. db_counters s ! (row * C + col) \<noteq> 0 \<longrightarrow> db_counters_need_update s)"

lemma eager_pk_step: "eager_pk.step D ch e r v = eager_start D r (eager_tick e r v)"
  by (simp add: eager_pk.step_def)

lemma eager_pk_running:
  "eager_pk.inv R C D s raw \<Longrightarrow> k \<in> keys R C \<Longrightarrow> fst (key_view C s k) \<noteq> 0 \<Longrightarrow> db_counters_need_update s"
  unfolding eager_pk.inv_def key_view_def fst_conv by blast

lemma eager_pk_ready_inv: "eager_pk_ready R C D s raw \<Longrightarrow> eager_pk.inv R C D s raw"
  unfolding eager_pk.inv_def
  by (auto simp: eager_pk_ready_def eager_inv_def key_counter_def key_val_def keys_def index_lt)

text \<open>
  C31. sym_eager_pk delays nothing when it is at rest: with no counter running, the cooked matrix
  is the raw one already after the scan that read it, and the call reports whether that is new.
\<close>

theorem eager_pk_immediate:
  assumes "eager_pk_ready R C D s raw0" "\<forall>c \<in> set (db_counters s). c = 0" "matrix_shape R C raw"
  shows "db_cooked (fst (eager_pk_debounce R C D now raw (raw \<noteq> raw0) s)) = raw
    \<and> (snd (eager_pk_debounce R C D now raw (raw \<noteq> raw0) s) \<longleftrightarrow> raw \<noteq> db_cooked s)"
proof -
  have i: "eager_pk.inv R C D s raw0" using assms(1) by (rule eager_pk_ready_inv)
  let ?s = "fst (eager_pk.call R C D now raw (raw \<noteq> raw0) s)"
  have "key_val (db_cooked ?s) k = key_val raw k" if k: "k \<in> keys R C" for k
  proof -
    have "key_counter C (db_counters s) k \<in> set (db_counters s)"
      using k assms(1) by (auto simp: key_counter_def keys_def eager_pk_ready_def index_lt)
    then have "key_counter C (db_counters s) k = 0" using assms(2) by blast
    then show ?thesis
      using eager_pk.val_step[OF i assms(3) k, of now] unfolding eager_pk_step
      by (simp add: eager_tick_def eager_start_def)
  qed
  then have "db_cooked ?s = raw"
    using key_cells_eq[of R C "db_cooked ?s" raw] assms(3) eager_pk.inv_shapes[OF eager_pk.call_inv[OF i assms(3), of now]]
    by blast
  then show ?thesis using eager_pk.reports[OF i assms(3), of now] unfolding eager_pk_call by metis
qed

text \<open>Time left on the counter plus time since t1 is at least \<open>DEBOUNCE\<close>.\<close>

definition holding :: "nat \<Rightarrow> u8 \<Rightarrow> nat \<times> nat \<Rightarrow> nat \<Rightarrow> nat \<Rightarrow> (u8, 'r::len word) debounce_t \<Rightarrow> bool" where
  "holding C D k t1 t s \<longleftrightarrow> unat D \<le> unat (fst (key_view C s k)) + (t - t1)"

lemma eager_pk_hold_step:
  assumes "eager_pk.inv R C D s raw" "matrix_shape R C m" "k \<in> keys R C"
    and "db_counters_need_update s \<longrightarrow> db_last_time s = of_nat T"
    and "T \<le> t" "t - T < 2 ^ 32" "t1 \<le> T" "holding C D k t1 T s"
    and "s' = fst (eager_pk.call R C D (of_nat t) m (m \<noteq> raw) s)"
  shows "key_val (db_cooked s') k = key_val (db_cooked s) k \<Longrightarrow> holding C D k t1 t s'"
    and "key_val (db_cooked s') k \<noteq> key_val (db_cooked s) k \<Longrightarrow> unat D \<le> t - t1 \<and> fst (key_view C s' k) = D"
proof -
  let ?e = "eager_pk.elapsed (of_nat t) s"
  obtain c b where v: "key_view C s k = (c, b)" by force
  have sv: "key_view C s' k = eager_start D (key_val m k) (eager_tick ?e (key_val m k) (c, b))"
    using eager_pk.call_step[OF assms(1,2,3), of "of_nat t"] v unfolding assms(9) key_view_def eager_pk_step
    by simp
  have kb: "key_val (db_cooked s) k = b" "key_val (db_cooked s') k = snd (key_view C s' k)"
    using v by (auto simp: key_view_def)
  have h: "unat D \<le> unat c + (T - t1)" using assms(8) v by (simp add: holding_def)
  have e: "c \<noteq> 0 \<Longrightarrow> unat ?e = min (t - T) 255"
  proof -
    assume "c \<noteq> 0"
    then have "db_counters_need_update s" using eager_pk_running[OF assms(1,3)] v by simp
    then have "db_last_time s = of_nat T" using assms(4) by simp
    then show ?thesis using elapsed_nat[OF assms(5,6), of 255] by simp
  qed
  consider "c = 0" | "c \<noteq> 0" "c \<le> ?e" | "c \<noteq> 0" "\<not> c \<le> ?e" by blast
  then have "(c = 0 \<or> c \<le> ?e) \<and> unat D \<le> t - t1 \<or> \<not> (c = 0 \<or> c \<le> ?e) \<and> unat D \<le> unat (c - ?e) + (t - t1)"
  proof cases
    case 1
    then show ?thesis using h assms(5,7) by simp
  next
    case 2
    then have "unat c \<le> t - T" using e by (simp add: word_le_nat_alt)
    then show ?thesis using h 2 assms(5,7) by simp
  next
    case 3
    have "unat c < 256" by (rule unat_lt_256)
    with 3 e have "unat ?e = t - T" by (simp add: word_le_nat_alt min_def split: if_splits)
    with 3 h assms(5,7) show ?thesis by (simp add: unat_running_sub word_le_nat_alt)
  qed
  then show "key_val (db_cooked s') k = key_val (db_cooked s) k \<Longrightarrow> holding C D k t1 t s'"
    "key_val (db_cooked s') k \<noteq> key_val (db_cooked s) k \<Longrightarrow> unat D \<le> t - t1 \<and> fst (key_view C s' k) = D"
    using sub_running[of ?e c] unfolding kb holding_def sv eager_defs by (auto split: if_splits)
qed

text \<open>
  C7. sym_eager_pk holds a key for at least \<open>DEBOUNCE\<close> milliseconds: once a scan at time t1 has
  flipped it, no later scan flips it again before t1 plus \<open>DEBOUNCE\<close>, however the contact bounces
  and whatever the other keys do.
\<close>

theorem eager_pk_holds:
  assumes "eager_pk_ready R C D s0 raw0" "\<forall>x \<in> set (xs @ [(t2, m2)]). matrix_shape R C (snd x)"
    and "matrix_shape R C m1" "timed (t1 # map fst (xs @ [(t2, m2)]))" "row < R" "col < C"
    and "scan (eager_pk_debounce R C D) (t1, m1) (s0, raw0) = (s1, m1)"
    and "scan_run (eager_pk_debounce R C D) xs (s1, m1) = (s, raw)"
    and "bit (db_cooked s1 ! row) col \<noteq> bit (db_cooked s0 ! row) col"
    and "\<forall>ys zs. xs = ys @ zs \<longrightarrow> bit (db_cooked (fst (scan_run (eager_pk_debounce R C D) ys (s1, m1))) ! row) col
      = bit (db_cooked s1 ! row) col"
    and "bit (db_cooked (fst (scan (eager_pk_debounce R C D) (t2, m2) (s, raw))) ! row) col
      \<noteq> bit (db_cooked s ! row) col"
  shows "unat D \<le> t2 - t1"
proof -
  let ?k = "(row, col)" and ?deb = "eager_pk_debounce R C D"
  have k: "?k \<in> keys R C" using assms(5,6) by simp
  have i0: "eager_pk.inv R C D s0 raw0" using assms(1) by (rule eager_pk_ready_inv)
  have s1: "s1 = fst (eager_pk.call R C D (of_nat t1) m1 (m1 \<noteq> raw0) s0)"
    using assms(7) by (simp add: scan_def eager_pk_call)
  have flip: "fst (key_view C s1 ?k) = D"
  proof -
    have "key_view C s1 ?k = eager_start D (key_val m1 ?k)
        (eager_tick (eager_pk.elapsed (of_nat t1) s0) (key_val m1 ?k) (key_view C s0 ?k))"
      using eager_pk.call_step[OF i0 assms(3) k, of "of_nat t1"] unfolding s1 key_view_def eager_pk_step .
    moreover have "snd (key_view C s1 ?k) \<noteq> snd (key_view C s0 ?k)"
      using assms(9) by (simp add: key_view_def key_val_def)
    ultimately show ?thesis by (auto simp: eager_tick_def eager_start_def split: prod.splits if_splits)
  qed
  have "eager_pk.inv R C D s raw \<and> holding C D ?k t1 (last (t1 # map fst xs)) s
      \<and> (db_counters_need_update s \<longrightarrow> db_last_time s = of_nat (last (t1 # map fst xs)))
      \<and> t1 \<le> last (t1 # map fst xs)"
    using assms(2,4,8,10)
  proof (induction xs arbitrary: s raw t2 m2 rule: rev_induct)
    case Nil
    then show ?case
      using eager_pk.call_inv[OF i0 assms(3), of "of_nat t1"] flip
        eager_pk.call_last_time[OF i0 assms(3) s1] s1
      by (auto simp: scan_run_def holding_def)
  next
    case (snoc x xs)
    obtain t m where x: "x = (t, m)" by force
    obtain s' raw' where r: "scan_run ?deb xs (s1, m1) = (s', raw')" by force
    let ?T = "last (t1 # map fst xs)"
    have tm: "timed (t1 # map fst xs @ [t])" "?T \<le> t" "t - ?T < 2 ^ 32"
      using snoc.prems(2) x timed_last[of t1 "map fst xs @ [t]" t2] timed_last[of t1 "map fst xs" t]
      by simp_all
    have IH: "eager_pk.inv R C D s' raw'" "holding C D ?k t1 ?T s'"
      "db_counters_need_update s' \<longrightarrow> db_last_time s' = of_nat ?T" "t1 \<le> ?T"
      using snoc.IH[of t m s' raw'] snoc.prems(1,4) tm(1) r x by auto
    have m: "matrix_shape R C m" using snoc.prems(1) x by simp
    have s: "s = fst (eager_pk.call R C D (of_nat t) m (m \<noteq> raw') s')" "raw = m"
      using snoc.prems(3) r x by (auto simp: scan_run_def scan_def eager_pk_call)
    have "bit (db_cooked s ! row) col = bit (db_cooked s' ! row) col"
      using snoc.prems(4)[rule_format, of "xs @ [x]" "[]"] snoc.prems(4)[rule_format, of xs "[x]"]
        snoc.prems(3) r by simp
    then have "holding C D ?k t1 t s"
      using eager_pk_hold_step(1)[OF IH(1) m k IH(3) tm(2,3) IH(4,2) s(1)] by (simp add: key_val_def)
    then show ?case
      using eager_pk.call_inv[OF IH(1) m, of "of_nat t"] eager_pk.call_last_time[OF IH(1) m s(1)] s x IH(4) tm(2)
      by simp
  qed
  note S = this
  let ?T = "last (t1 # map fst xs)"
  have T: "?T \<le> t2" "t2 - ?T < 2 ^ 32"
    using assms(4) timed_last[of t1 "map fst xs" t2] by simp_all
  have m2: "matrix_shape R C m2" using assms(2) by simp
  show ?thesis
    using eager_pk_hold_step(2)[OF _ m2 k _ T _ _ refl, of D s raw t1] S assms(11)
    by (simp add: scan_def eager_pk_call key_val_def)
qed

section \<open>Witnesses\<close>

definition pk_rest :: "(u8, 8 word) debounce_t" where
  "pk_rest = \<lparr>db_cooked = [0], db_counters = [0], db_counters_need_update = False,
     db_matrix_need_update = False, db_cooked_changed = False, db_last_time = 0\<rparr>"

text \<open>One key, \<open>DEBOUNCE\<close> 5: pressed at 10 ms, taken at 15 ms.\<close>

definition pk_waiting :: "(u8, 8 word) debounce_t" where
  "pk_waiting = pk_rest\<lparr>db_counters := [5], db_counters_need_update := True, db_last_time := 10\<rparr>"

lemma matrix_shape_11: "matrix_shape (Suc 0) (Suc 0) [w :: 8 word] \<longleftrightarrow> w = 0 \<or> w = 1"
proof
  assume "matrix_shape (Suc 0) (Suc 0) [w]"
  then have "\<forall>k. bit w k \<longrightarrow> k = 0" by (simp add: matrix_shape_def)
  then have "w = (if bit w 0 then 1 else 0)" by (auto intro!: bit_word_eqI simp: bit_1_iff)
  then show "w = 0 \<or> w = 1" by presburger
qed (auto simp: matrix_shape_def bit_1_iff)

lemma pk_press: "scan_run (defer_pk_debounce 1 1 5) [(10, [1])] (pk_rest, [0]) = (pk_waiting, [1])"
  by (simp add: scan_run_def scan_def defer_pk_debounce_def debounce_call_def Let_def pk_rest_def
      pk_waiting_def defer_pk_start_def for_rows_def defer_pk_start_key_def BIT_def)

lemma pk_take:
  "db_cooked (fst (defer_pk_debounce 1 1 5 15 [1] False pk_waiting)) = [1]"
  by (simp add: defer_pk_debounce_def debounce_call_def Let_def pk_rest_def
      pk_waiting_def defer_pk_update_def for_keys_def for_rows_def defer_pk_update_key_def BIT_def clamp_elapsed_def)

theorem defer_pk_no_bounce_witness:
  "\<exists>ys zs. [(10, [1 :: 8 word])] = ys @ zs \<and> zs \<noteq> [] \<and> unat (5 :: u8) \<le> 15 - fst (hd zs)"
proof -
  have "defer_pk_ready 1 1 5 pk_rest [0]"
    by (simp add: defer_pk_ready_def pk_rest_def matrix_shape_11)
  from defer_pk_no_bounce[OF this, of "[(10, [1])]" 15 "[1]" pk_waiting "[1]" 0 0]
  show ?thesis using pk_press pk_take by (auto simp: matrix_shape_11 pk_waiting_def pk_rest_def)
qed

theorem eager_pk_immediate_witness:
  "db_cooked (fst (eager_pk_debounce 1 1 5 10 [1] True pk_rest)) = [1]"
proof -
  have "eager_pk_ready 1 1 5 pk_rest [0]"
    by (simp add: eager_pk_ready_def pk_rest_def matrix_shape_11)
  from eager_pk_immediate[OF this, of "[1]" 10] show ?thesis by (simp add: pk_rest_def matrix_shape_11)
qed

text \<open>Pressed at 10 ms, open again from 11 ms on: the release shows at 16 ms.\<close>

definition pk_held :: "(u8, 8 word) debounce_t" where
  "pk_held = pk_rest\<lparr>db_cooked := [1], db_counters := [5], db_counters_need_update := True,
     db_cooked_changed := True, db_last_time := 10\<rparr>"

definition pk_open :: "(u8, 8 word) debounce_t" where
  "pk_open = pk_held\<lparr>db_counters := [4], db_cooked_changed := False, db_last_time := 11\<rparr>"

lemmas eager_eval = scan_def eager_pk_debounce_def debounce_call_def Let_def pk_rest_def pk_held_def
  pk_open_def eager_pk_update_def eager_pk_transfer_def for_keys_def for_rows_def
  eager_pk_update_key_def eager_pk_transfer_key_def BIT_def clamp_elapsed_def

lemma pk_eager_run:
  "scan (eager_pk_debounce 1 1 5) (10, [1]) (pk_rest, [0]) = (pk_held, [1])"
  "scan (eager_pk_debounce 1 1 5) (11, [0]) (pk_held, [1]) = (pk_open, [0])"
  "db_cooked (fst (scan (eager_pk_debounce 1 1 5) (16, [0]) (pk_open, [0]))) = [0]"
  by (simp_all add: eager_eval word_le_nat_alt)

theorem eager_pk_holds_witness: "unat (5 :: u8) \<le> 16 - 10"
proof -
  have r: "eager_pk_ready 1 1 5 pk_rest [0]"
    by (simp add: eager_pk_ready_def pk_rest_def matrix_shape_11)
  have prefix: "bit (db_cooked (fst (scan_run (eager_pk_debounce 1 1 5) ys (pk_held, [1]))) ! 0) 0
      = bit (db_cooked pk_held ! 0) 0" if "[(11, [0])] = ys @ zs" for ys zs
  proof -
    have "ys = [] \<or> ys = [(11, [0])]" using that by (cases ys) auto
    then show ?thesis using pk_eager_run(2) by (auto simp: scan_run_def pk_open_def)
  qed
  show ?thesis
    using eager_pk_holds[OF r, of "[(11, [0])]" 16 "[0]" "[1]" 10 0 0 pk_held pk_open "[0]"]
      pk_eager_run prefix
    by simp
qed

end
