(* ===== verification/Matrix.thy ===== *)
theory Matrix
  imports Debounce_Per_Row Debounce_Asym Key_Event
begin

text \<open>
  The matrix scan (quantum/matrix.c, \<open>COL2ROW\<close>, not split; quantum/matrix_common.c) and the task
  that turns the debounced matrix into key events (quantum/keyboard.c), over any of the debounce
  algorithms, which it uses through the contract \<open>debouncer\<close>.

  The level of the column pins while a row is selected, the clocks, \<open>matrix_can_read\<close>,
  \<open>should_process_keypress\<close> and \<open>keypress_is_wakeup_key\<close> are arguments; the events passed to
  \<open>action_exec\<close> and the calls of \<open>switch_events\<close> are recorded in order. The cooked matrix is part
  of the debouncer's state.
\<close>

section \<open>Configuration and state\<close>

record 'w matrix_cfg =
  MATRIX_ROWS :: nat
  MATRIX_COLS :: nat
  row_pin :: "nat \<Rightarrow> bool"
  col_pin :: "nat \<Rightarrow> bool"
  matrix_mask :: "'w list option"
  MATRIX_HAS_GHOST :: bool
  keycode_at :: "nat \<Rightarrow> nat \<Rightarrow> bool"

record ('s, 'w) matrix_sys =
  mx_deb :: 's
  mx_raw :: "'w list"
  mx_previous :: "'w list"
  mx_last_tick :: u16
  mx_exec :: "keyevent_t list"
  mx_switch :: "(nat \<times> nat \<times> bool) list"

section \<open>Reading the pins\<close>

text \<open>\<open>readMatrixPin\<close>: 0 for a pressed key; \<open>level\<close> says whether the pin reads as pressed.\<close>

definition readMatrixPin :: "bool \<Rightarrow> bool \<Rightarrow> u8" where
  "readMatrixPin has_pin level = (if has_pin then (if level then 0 else 1) else 1)"

definition matrix_read_cols_on_row ::
    "'r::len word matrix_cfg \<Rightarrow> (nat \<Rightarrow> nat \<Rightarrow> bool) \<Rightarrow> nat \<Rightarrow> 'r word list \<Rightarrow> 'r word list" where
  "matrix_read_cols_on_row cfg level current_row current_matrix =
     (if \<not> row_pin cfg current_row then current_matrix
      else current_matrix[current_row :=
        fold (\<lambda>col_index current_row_value.
            let pin_state = readMatrixPin (col_pin cfg col_index) (level current_row col_index)
            in current_row_value OR (if pin_state \<noteq> 0 then 0 else BIT col_index))
          [0..<MATRIX_COLS cfg] 0])"

definition read_matrix :: "'r::len word matrix_cfg \<Rightarrow> (nat \<Rightarrow> nat \<Rightarrow> bool) \<Rightarrow> 'r word list" where
  "read_matrix cfg level = fold (matrix_read_cols_on_row cfg level) [0..<MATRIX_ROWS cfg]
     (replicate (MATRIX_ROWS cfg) 0)"

definition matrix_scan ::
    "(u32 \<Rightarrow> 'r::len word list \<Rightarrow> bool \<Rightarrow> 's \<Rightarrow> 's \<times> bool) \<Rightarrow> 'r word matrix_cfg \<Rightarrow> (nat \<Rightarrow> nat \<Rightarrow> bool) \<Rightarrow> u32
      \<Rightarrow> ('s, 'r word) matrix_sys \<Rightarrow> ('s, 'r word) matrix_sys \<times> bool" where
  "matrix_scan debounce cfg level now s =
     (let curr_matrix = read_matrix cfg level;
          changed = (mx_raw s \<noteq> curr_matrix);
          s = (if changed then s\<lparr>mx_raw := curr_matrix\<rparr> else s)
      in case debounce now (mx_raw s) changed (mx_deb s) of
           (d, changed) \<Rightarrow> (s\<lparr>mx_deb := d\<rparr>, changed))"

definition matrix_get_row :: "'r::len word matrix_cfg \<Rightarrow> 'r word list \<Rightarrow> nat \<Rightarrow> 'r word" where
  "matrix_get_row cfg matrix row =
     (case matrix_mask cfg of None \<Rightarrow> matrix ! row | Some row_mask \<Rightarrow> matrix ! row AND row_mask ! row)"

section \<open>Ghosts\<close>

definition get_real_keys :: "'r::len word matrix_cfg \<Rightarrow> nat \<Rightarrow> 'r word \<Rightarrow> 'r word" where
  "get_real_keys cfg row rowdata =
     fold (\<lambda>col out. if keycode_at cfg row col \<and> rowdata AND BIT col \<noteq> 0 then out OR BIT col else out)
       [0..<MATRIX_COLS cfg] 0"

definition popcount_more_than_one :: "'r::len word \<Rightarrow> bool" where
  "popcount_more_than_one rowdata \<longleftrightarrow> rowdata AND (rowdata - 1) \<noteq> 0"

definition has_ghost_in_row :: "'r::len word matrix_cfg \<Rightarrow> 'r word list \<Rightarrow> nat \<Rightarrow> 'r word \<Rightarrow> bool" where
  "has_ghost_in_row cfg matrix row rowdata =
     (if MATRIX_HAS_GHOST cfg then
        let rowdata = get_real_keys cfg row rowdata
        in popcount_more_than_one rowdata
           \<and> list_ex (\<lambda>i. i \<noteq> row
               \<and> popcount_more_than_one (get_real_keys cfg i (matrix_get_row cfg matrix i) AND rowdata))
             [0..<MATRIX_ROWS cfg]
      else False)"

section \<open>The task\<close>

definition matrix_exec :: "(nat \<Rightarrow> u16) \<Rightarrow> (u16 \<Rightarrow> keyevent_t) \<Rightarrow> ('s, 'r::len word) matrix_sys \<Rightarrow> ('s, 'r word) matrix_sys" where
  "matrix_exec clk event s = s\<lparr>mx_exec := mx_exec s @ [event (clk (length (mx_exec s)))]\<rparr>"

definition generate_tick_event :: "(nat \<Rightarrow> u16) \<Rightarrow> u16 \<Rightarrow> ('s, 'r::len word) matrix_sys \<Rightarrow> ('s, 'r word) matrix_sys" where
  "generate_tick_event clk now s =
     (if now - mx_last_tick s \<noteq> 0 then (matrix_exec clk MAKE_TICK_EVENT s)\<lparr>mx_last_tick := now\<rparr> else s)"

definition process_key ::
    "(nat \<Rightarrow> u16) \<Rightarrow> bool \<Rightarrow> (nat \<Rightarrow> nat \<Rightarrow> bool) \<Rightarrow> nat \<Rightarrow> 'r::len word \<Rightarrow> 'r word \<Rightarrow> nat
      \<Rightarrow> ('s, 'r word) matrix_sys \<Rightarrow> ('s, 'r word) matrix_sys" where
  "process_key clk process_keypress is_wakeup_key row current_row row_changes col s =
     (if row_changes AND BIT col \<noteq> 0 then
        let key_pressed = (current_row AND BIT col \<noteq> 0);
            s = (if process_keypress \<and> \<not> is_wakeup_key row col
                 then matrix_exec clk (\<lambda>now. MAKE_KEYEVENT now (of_nat row) (of_nat col) key_pressed) s
                 else s)
        in s\<lparr>mx_switch := mx_switch s @ [(row, col, key_pressed)]\<rparr>
      else s)"

definition process_row ::
    "('s \<Rightarrow> 'r::len word list) \<Rightarrow> 'r word matrix_cfg \<Rightarrow> (nat \<Rightarrow> u16) \<Rightarrow> bool \<Rightarrow> (nat \<Rightarrow> nat \<Rightarrow> bool) \<Rightarrow> nat
      \<Rightarrow> ('s, 'r word) matrix_sys \<Rightarrow> ('s, 'r word) matrix_sys" where
  "process_row cooked cfg clk process_keypress is_wakeup_key row s =
     (let matrix = cooked (mx_deb s);
          current_row = matrix_get_row cfg matrix row;
          row_changes = current_row XOR mx_previous s ! row
      in if row_changes = 0 \<or> has_ghost_in_row cfg matrix row current_row then s
         else let s = fold (process_key clk process_keypress is_wakeup_key row current_row row_changes)
                        [0..<MATRIX_COLS cfg] s
              in s\<lparr>mx_previous := (mx_previous s)[row := current_row]\<rparr>)"

definition matrix_task ::
    "(u32 \<Rightarrow> 'r::len word list \<Rightarrow> bool \<Rightarrow> 's \<Rightarrow> 's \<times> bool) \<Rightarrow> ('s \<Rightarrow> 'r word list) \<Rightarrow> 'r word matrix_cfg
      \<Rightarrow> bool \<Rightarrow> (nat \<Rightarrow> nat \<Rightarrow> bool) \<Rightarrow> u32 \<Rightarrow> (nat \<Rightarrow> u16) \<Rightarrow> u16 \<Rightarrow> bool \<Rightarrow> (nat \<Rightarrow> nat \<Rightarrow> bool)
      \<Rightarrow> ('s, 'r word) matrix_sys \<Rightarrow> ('s, 'r word) matrix_sys \<times> bool" where
  "matrix_task debounce cooked cfg can_read level now clk tick_now process_keypress is_wakeup_key s =
     (if \<not> can_read then (generate_tick_event clk tick_now s, False)
      else
        let s = fst (matrix_scan debounce cfg level now s);
            matrix_changed = list_ex (\<lambda>row.
              mx_previous s ! row XOR matrix_get_row cfg (cooked (mx_deb s)) row \<noteq> 0) [0..<MATRIX_ROWS cfg]
        in if \<not> matrix_changed then (generate_tick_event clk tick_now s, False)
           else (fold (process_row cooked cfg clk process_keypress is_wakeup_key) [0..<MATRIX_ROWS cfg] s,
                 True))"

section \<open>Reading\<close>

lemma bit_or_fold:
  "bit (fold (\<lambda>i w. w OR (if P i then 0 else BIT i)) [0..<n] (0 :: 'r::len word)) k
    \<longleftrightarrow> k < n \<and> k < LENGTH('r) \<and> \<not> P k"
proof (induction n)
  case (Suc n)
  then show ?case by (auto simp: bit_or_iff less_Suc_eq)
qed simp

lemma read_matrix_nth:
  fixes cfg :: "'r::len word matrix_cfg"
  assumes "row < MATRIX_ROWS cfg"
  shows "bit (read_matrix cfg level ! row) col \<longleftrightarrow> row_pin cfg row \<and> col_pin cfg col \<and> level row col
    \<and> col < MATRIX_COLS cfg \<and> col < LENGTH('r)"
proof -
  let ?f = "matrix_read_cols_on_row cfg level"
  have "read_matrix cfg level ! row = (if row_pin cfg row then
      fold (\<lambda>i w. w OR (if readMatrixPin (col_pin cfg i) (level row i) \<noteq> 0 then 0 else BIT i))
        [0..<MATRIX_COLS cfg] 0 else 0)"
    unfolding read_matrix_def
    by (rule nth_fold_update[where ys = "replicate (MATRIX_ROWS cfg) 0"])
      (use assms in \<open>auto simp: matrix_read_cols_on_row_def Let_def\<close>)
  then show ?thesis by (auto simp: bit_or_fold readMatrixPin_def)
qed

lemma length_read_matrix [simp]: "length (read_matrix cfg level) = MATRIX_ROWS cfg"
proof -
  have "length (fold (matrix_read_cols_on_row cfg level) rows m) = length m" for rows m
    by (rule fold_keeps) (simp add: matrix_read_cols_on_row_def)
  then show ?thesis by (simp add: read_matrix_def)
qed

lemma read_matrix_shape: "matrix_shape (MATRIX_ROWS cfg) (MATRIX_COLS cfg) (read_matrix cfg level)"
  by (auto simp: matrix_shape_def read_matrix_nth)

lemma matrix_scan_eq:
  "matrix_scan deb cfg level now s
    = (s\<lparr>mx_raw := read_matrix cfg level,
        mx_deb := fst (deb now (read_matrix cfg level) (read_matrix cfg level \<noteq> mx_raw s) (mx_deb s))\<rparr>,
       snd (deb now (read_matrix cfg level) (read_matrix cfg level \<noteq> mx_raw s) (mx_deb s)))"
  by (cases "mx_raw s = read_matrix cfg level") (auto simp: matrix_scan_def Let_def split: prod.splits)

section \<open>The history of a key\<close>

definition history :: "keyevent_t list \<Rightarrow> nat \<Rightarrow> nat \<Rightarrow> bool list" where
  "history es row col =
     map ev_pressed (filter (\<lambda>e. IS_KEYEVENT e \<and> KEYEQ (ev_key e) (MAKE_KEYPOS (of_nat row) (of_nat col))) es)"

text \<open>A press, then a release, and so on.\<close>

definition alternating :: "bool list \<Rightarrow> bool" where
  "alternating h \<longleftrightarrow> (\<forall>i < length h. h ! i = even i)"

definition cfg_ok :: "'r::len word matrix_cfg \<Rightarrow> bool" where
  "cfg_ok cfg \<longleftrightarrow> MATRIX_ROWS cfg \<le> 255 \<and> MATRIX_COLS cfg \<le> 255 \<and> MATRIX_COLS cfg \<le> LENGTH('r)"

definition tracks :: "'r::len word matrix_cfg \<Rightarrow> ('s, 'r word) matrix_sys \<Rightarrow> bool" where
  "tracks cfg s \<longleftrightarrow> length (mx_previous s) = MATRIX_ROWS cfg
     \<and> (\<forall>row < MATRIX_ROWS cfg. \<forall>col < MATRIX_COLS cfg. alternating (history (mx_exec s) row col)
          \<and> (bit (mx_previous s ! row) col \<longleftrightarrow> odd (length (history (mx_exec s) row col))))"

lemma history_append: "history (es @ fs) row col = history es row col @ history fs row col"
  by (simp add: history_def)

lemma u8_of_nat_inj: "i \<le> 255 \<Longrightarrow> j \<le> 255 \<Longrightarrow> (of_nat i :: u8) = of_nat j \<longleftrightarrow> i = j"
proof -
  assume ij: "i \<le> 255" "j \<le> 255"
  then have "unat (of_nat i :: u8) = i" "unat (of_nat j :: u8) = j"
    using unat_of_nat_mod[where 'a = 8, of i] unat_of_nat_mod[where 'a = 8, of j] by simp_all
  then show "(of_nat i :: u8) = of_nat j \<longleftrightarrow> i = j" by metis
qed

lemma history_key_event:
  assumes "row \<le> 255" "col \<le> 255" "row' \<le> 255" "col' \<le> 255"
  shows "history [MAKE_KEYEVENT now (of_nat row) (of_nat col) p] row' col'
    = (if row = row' \<and> col = col' then [p] else [])"
  using u8_of_nat_inj[OF assms(1,3)] u8_of_nat_inj[OF assms(2,4)]
  by (auto simp: history_def MAKE_KEYEVENT_def MAKE_EVENT_def IS_KEYEVENT_def KEYEQ_def MAKE_KEYPOS_def)

lemma history_tick: "history [MAKE_TICK_EVENT now] row col = []"
  by (simp add: history_def MAKE_TICK_EVENT_def MAKE_EVENT_def IS_KEYEVENT_def)

lemma tick_frame:
  "history (mx_exec (generate_tick_event clk now s)) row col = history (mx_exec s) row col"
  "mx_previous (generate_tick_event clk now s) = mx_previous s"
  "mx_deb (generate_tick_event clk now s) = mx_deb s" "mx_raw (generate_tick_event clk now s) = mx_raw s"
  by (simp_all add: generate_tick_event_def matrix_exec_def history_append history_tick)

lemma process_keys:
  assumes "row \<le> 255" "m \<le> 256" "i \<le> 255" "j \<le> 255"
  shows "history (mx_exec (fold (process_key clk True (\<lambda>_ _. False) row cur chg) [0..<m] s)) i j
      = history (mx_exec s) i j @ (if i = row \<and> j < m \<and> bit chg j then [bit cur j] else [])
    \<and> mx_previous (fold (process_key clk True (\<lambda>_ _. False) row cur chg) [0..<m] s) = mx_previous s
    \<and> mx_deb (fold (process_key clk True (\<lambda>_ _. False) row cur chg) [0..<m] s) = mx_deb s
    \<and> mx_raw (fold (process_key clk True (\<lambda>_ _. False) row cur chg) [0..<m] s) = mx_raw s"
  using assms(2)
proof (induction m)
  case (Suc m)
  then have m: "m \<le> 255" by simp
  show ?case
    using Suc.IH m history_key_event[OF assms(1) m assms(3,4)]
    by (auto simp: process_key_def matrix_exec_def history_append and_BIT_neq_0 and_BIT_eq_0 less_Suc_eq Let_def)
qed simp

text \<open>The row as the task sees it, and whether the task passes over it.\<close>

abbreviation row_seen :: "('s \<Rightarrow> 'r::len word list) \<Rightarrow> 'r word matrix_cfg \<Rightarrow> ('s, 'r word) matrix_sys \<Rightarrow> nat \<Rightarrow> 'r word" where
  "row_seen cooked cfg s row \<equiv> matrix_get_row cfg (cooked (mx_deb s)) row"

abbreviation ghost :: "('s \<Rightarrow> 'r::len word list) \<Rightarrow> 'r word matrix_cfg \<Rightarrow> ('s, 'r word) matrix_sys \<Rightarrow> nat \<Rightarrow> bool" where
  "ghost cooked cfg s row \<equiv> has_ghost_in_row cfg (cooked (mx_deb s)) row (row_seen cooked cfg s row)"

lemma process_row_effect:
  fixes s :: "('s, 'r::len word) matrix_sys"
  assumes "cfg_ok cfg" "row < MATRIX_ROWS cfg" "length (mx_previous s) = MATRIX_ROWS cfg"
    and "t = process_row cooked cfg clk True (\<lambda>_ _. False) row s"
  shows "(\<forall>i \<le> 255. \<forall>j < MATRIX_COLS cfg. history (mx_exec t) i j = history (mx_exec s) i j
        @ (if i = row \<and> bit (mx_previous s ! row) j \<noteq> bit (row_seen cooked cfg s row) j \<and> \<not> ghost cooked cfg s row
           then [bit (row_seen cooked cfg s row) j] else []))
    \<and> mx_previous t = (if ghost cooked cfg s row then mx_previous s
        else (mx_previous s)[row := row_seen cooked cfg s row])
    \<and> mx_deb t = mx_deb s \<and> mx_raw t = mx_raw s"
proof -
  let ?cur = "row_seen cooked cfg s row" and ?prev = "mx_previous s ! row"
  let ?u = "fold (process_key clk True (\<lambda>_ _. False) row ?cur (?cur XOR ?prev)) [0..<MATRIX_COLS cfg] s"
  have rc: "row \<le> 255" "MATRIX_COLS cfg \<le> 256" using assms(1,2) by (auto simp: cfg_ok_def)
  consider "ghost cooked cfg s row" | "\<not> ghost cooked cfg s row" "?cur = ?prev"
    | "\<not> ghost cooked cfg s row" "?cur \<noteq> ?prev" by blast
  then show ?thesis
  proof cases
    case 1
    then have "t = s" using assms(4) by (simp add: process_row_def Let_def)
    with 1 show ?thesis by simp
  next
    case 2
    then have "t = s" using assms(4) by (simp add: process_row_def Let_def)
    with 2 show ?thesis by (simp add: list_update_same_value)
  next
    case 3
    then have "?cur XOR ?prev \<noteq> 0" by (simp add: word_neq_bits bit_xor_iff)
    with 3 have t: "t = ?u\<lparr>mx_previous := (mx_previous ?u)[row := ?cur]\<rparr>"
      using assms(4) by (simp add: process_row_def Let_def)
    have "history (mx_exec ?u) i j = history (mx_exec s) i j
        @ (if i = row \<and> bit (?cur XOR ?prev) j then [bit ?cur j] else [])"
      if "i \<le> 255" "j < MATRIX_COLS cfg" for i j
      using process_keys[OF rc that(1), of j clk ?cur "?cur XOR ?prev" s] that rc(2) by (simp del: split_paired_All)
    moreover have "bit (?cur XOR ?prev) j \<longleftrightarrow> bit ?prev j \<noteq> bit ?cur j" for j
      by (auto simp: bit_xor_iff)
    moreover have "mx_previous ?u = mx_previous s" "mx_deb ?u = mx_deb s" "mx_raw ?u = mx_raw s"
      using process_keys[OF rc, of 0 0 clk ?cur "?cur XOR ?prev" s] by simp_all
    ultimately show ?thesis using 3 unfolding t by simp
  qed
qed

lemma process_rows_effect:
  fixes s :: "('s, 'r::len word) matrix_sys"
  assumes "cfg_ok cfg" "length (mx_previous s) = MATRIX_ROWS cfg"
    and "t = fold (process_row cooked cfg clk True (\<lambda>_ _. False)) [0..<MATRIX_ROWS cfg] s"
  shows "(\<forall>i < MATRIX_ROWS cfg. \<forall>j < MATRIX_COLS cfg. history (mx_exec t) i j = history (mx_exec s) i j
        @ (if bit (mx_previous s ! i) j \<noteq> bit (row_seen cooked cfg s i) j \<and> \<not> ghost cooked cfg s i
           then [bit (row_seen cooked cfg s i) j] else []))
    \<and> length (mx_previous t) = MATRIX_ROWS cfg
    \<and> (\<forall>i < MATRIX_ROWS cfg. mx_previous t ! i
        = (if ghost cooked cfg s i then mx_previous s ! i else row_seen cooked cfg s i))
    \<and> mx_deb t = mx_deb s \<and> mx_raw t = mx_raw s"
proof -
  let ?f = "process_row cooked cfg clk True (\<lambda>_ _. False)"
  define P where "P n t \<longleftrightarrow> (\<forall>i < MATRIX_ROWS cfg. \<forall>j < MATRIX_COLS cfg. history (mx_exec t) i j = history (mx_exec s) i j
        @ (if i < n \<and> bit (mx_previous s ! i) j \<noteq> bit (row_seen cooked cfg s i) j \<and> \<not> ghost cooked cfg s i
           then [bit (row_seen cooked cfg s i) j] else []))
    \<and> length (mx_previous t) = MATRIX_ROWS cfg
    \<and> (\<forall>i < MATRIX_ROWS cfg. mx_previous t ! i
        = (if i < n \<and> \<not> ghost cooked cfg s i then row_seen cooked cfg s i else mx_previous s ! i))
    \<and> mx_deb t = mx_deb s \<and> mx_raw t = mx_raw s" for n and t :: "('s, 'r word) matrix_sys"
  have "n \<le> MATRIX_ROWS cfg \<Longrightarrow> P n (fold ?f [0..<n] s)" for n
  proof (induction n)
    case 0
    then show ?case using assms(2) by (simp add: P_def)
  next
    case (Suc n)
    let ?t = "fold ?f [0..<n] s"
    have n: "n < MATRIX_ROWS cfg" and IH: "P n ?t" using Suc by simp_all
    have d: "mx_deb ?t = mx_deb s" "length (mx_previous ?t) = MATRIX_ROWS cfg" "mx_previous ?t ! n = mx_previous s ! n"
      using IH n unfolding P_def by auto
    note e = process_row_effect[OF assms(1) n d(2) refl, of cooked clk, unfolded d(1,3)]
    have le: "i < MATRIX_ROWS cfg \<Longrightarrow> i \<le> 255" for i using assms(1) by (simp add: cfg_ok_def)
    have "history (mx_exec (?f n ?t)) i j = history (mx_exec s) i j
        @ (if i < Suc n \<and> bit (mx_previous s ! i) j \<noteq> bit (row_seen cooked cfg s i) j \<and> \<not> ghost cooked cfg s i
           then [bit (row_seen cooked cfg s i) j] else [])"
      if "i < MATRIX_ROWS cfg" "j < MATRIX_COLS cfg" for i j
      using e le[OF that(1)] IH that unfolding P_def by (auto simp: less_Suc_eq)
    moreover have "mx_previous (?f n ?t) ! i
        = (if i < Suc n \<and> \<not> ghost cooked cfg s i then row_seen cooked cfg s i else mx_previous s ! i)"
      if "i < MATRIX_ROWS cfg" for i
    proof -
      have p: "mx_previous (?f n ?t) = (if ghost cooked cfg s n then mx_previous ?t
          else (mx_previous ?t)[n := row_seen cooked cfg s n])" using e by blast
      have q: "mx_previous ?t ! i
          = (if i < n \<and> \<not> ghost cooked cfg s i then row_seen cooked cfg s i else mx_previous s ! i)"
        using IH that unfolding P_def by blast
      show ?thesis unfolding p using q n that d(2) by (cases "i = n") (auto simp: less_Suc_eq)
    qed
    ultimately show ?case using e d IH unfolding P_def by simp
  qed
  from this[of "MATRIX_ROWS cfg"] have "P (MATRIX_ROWS cfg) t" using assms(3) by simp
  then show ?thesis unfolding P_def by simp
qed

section \<open>A pass of the task\<close>

lemma task_effect:
  fixes s :: "('s, 'r::len word) matrix_sys"
  assumes "cfg_ok cfg" "length (mx_previous s) = MATRIX_ROWS cfg"
    and t: "t = fst (matrix_task deb cooked cfg True level now clk tick True (\<lambda>_ _. False) s)"
    and d: "d = fst (deb now (read_matrix cfg level) (read_matrix cfg level \<noteq> mx_raw s) (mx_deb s))"
  shows "mx_deb t = d \<and> mx_raw t = read_matrix cfg level \<and> length (mx_previous t) = MATRIX_ROWS cfg
    \<and> (\<forall>i < MATRIX_ROWS cfg.
        let seen = matrix_get_row cfg (cooked d) i; gh = has_ghost_in_row cfg (cooked d) i seen
        in mx_previous t ! i = (if gh then mx_previous s ! i else seen)
          \<and> (\<forall>j < MATRIX_COLS cfg. history (mx_exec t) i j = history (mx_exec s) i j
              @ (if bit (mx_previous s ! i) j \<noteq> bit seen j \<and> \<not> gh then [bit seen j] else [])))"
proof -
  define u where "u = fst (matrix_scan deb cfg level now s)"
  have u: "mx_deb u = d" "mx_raw u = read_matrix cfg level" "mx_previous u = mx_previous s" "mx_exec u = mx_exec s"
    by (simp_all add: u_def matrix_scan_eq d)
  show ?thesis
  proof (cases "list_ex (\<lambda>row. mx_previous u ! row XOR row_seen cooked cfg u row \<noteq> 0) [0..<MATRIX_ROWS cfg]")
    case True
    then have tt: "t = fold (process_row cooked cfg clk True (\<lambda>_ _. False)) [0..<MATRIX_ROWS cfg] u"
      unfolding t matrix_task_def u_def[symmetric] by (simp add: Let_def)
    have "length (mx_previous u) = MATRIX_ROWS cfg" using assms(2) u(3) by simp
    from process_rows_effect[OF assms(1) this tt] show ?thesis unfolding Let_def u by blast
  next
    case False
    then have "mx_previous s ! i XOR row_seen cooked cfg u i = 0" if "i < MATRIX_ROWS cfg" for i
      using that by (auto simp: list_ex_iff u(3))
    then have eq: "mx_previous s ! i = row_seen cooked cfg u i" if "i < MATRIX_ROWS cfg" for i
      using that xor_neq_0 by blast
    from False have tt: "t = generate_tick_event clk tick u"
      unfolding t matrix_task_def u_def[symmetric] by (simp add: Let_def)
    show ?thesis unfolding tt using assms(2) eq by (auto simp: tick_frame u Let_def)
  qed
qed

lemma alternating_snoc: "alternating (h @ [p]) \<longleftrightarrow> alternating h \<and> p = even (length h)"
  by (auto simp: alternating_def nth_append less_Suc_eq)

lemma tracks_task:
  fixes s :: "('s, 'r::len word) matrix_sys"
  assumes "cfg_ok cfg" "tracks cfg s"
  shows "tracks cfg (fst (matrix_task deb cooked cfg can_read level now clk tick True (\<lambda>_ _. False) s))"
proof (cases can_read)
  case False
  with assms(2) show ?thesis by (simp add: matrix_task_def tracks_def tick_frame)
next
  case True
  let ?t = "fst (matrix_task deb cooked cfg True level now clk tick True (\<lambda>_ _. False) s)"
  have s: "length (mx_previous s) = MATRIX_ROWS cfg" using assms(2) by (simp add: tracks_def)
  note e = task_effect[OF assms(1) s refl refl, of deb cooked level now clk tick, unfolded Let_def]
  have "alternating (history (mx_exec ?t) i j)
      \<and> (bit (mx_previous ?t ! i) j \<longleftrightarrow> odd (length (history (mx_exec ?t) i j)))"
    if ij: "i < MATRIX_ROWS cfg" "j < MATRIX_COLS cfg" for i j
  proof -
    have "alternating (history (mx_exec s) i j)"
      "bit (mx_previous s ! i) j \<longleftrightarrow> odd (length (history (mx_exec s) i j))"
      using assms(2) ij by (auto simp: tracks_def)
    with e ij show ?thesis by (auto simp: alternating_snoc)
  qed
  with e True show ?thesis by (simp add: tracks_def)
qed


section \<open>With a debouncer\<close>

context debouncer
begin

abbreviation pass ::
    "'r word matrix_cfg \<Rightarrow> (nat \<Rightarrow> nat \<Rightarrow> bool) \<Rightarrow> u32 \<Rightarrow> (nat \<Rightarrow> u16) \<Rightarrow> u16
      \<Rightarrow> ('s, 'r word) matrix_sys \<Rightarrow> ('s, 'r word) matrix_sys" where
  "pass cfg level now clk tick s
    \<equiv> fst (matrix_task deb cooked cfg True level now clk tick True (\<lambda>_ _. False) s)"

lemma pass_debounces:
  assumes "cfg_ok cfg" "R = MATRIX_ROWS cfg" "C = MATRIX_COLS cfg" "length (mx_previous s) = MATRIX_ROWS cfg"
    and "inv (mx_deb s) (mx_raw s)" "t = pass cfg level now clk tick s"
  shows "inv (mx_deb t) (mx_raw t) \<and> mx_raw t = read_matrix cfg level"
proof -
  have "matrix_shape R C (read_matrix cfg level)" using read_matrix_shape[of cfg level] assms(2,3) by simp
  from inv_deb[OF assms(5) this, of now] task_effect[OF assms(1,4,6) refl] show ?thesis by simp
qed

text \<open>When the pass leaves nothing waiting, the keys sent as held are the closed contacts.\<close>

lemma pass_follows:
  assumes "cfg_ok cfg" "R = MATRIX_ROWS cfg" "C = MATRIX_COLS cfg" "tracks cfg s"
    and "\<not> MATRIX_HAS_GHOST cfg" "matrix_mask cfg = None"
    and t: "t = pass cfg level now clk tick s" and "cooked (mx_deb t) = mx_raw t"
    and "mx_raw t = read_matrix cfg level" "row < MATRIX_ROWS cfg" "col < MATRIX_COLS cfg"
  shows "odd (length (history (mx_exec t) row col)) \<longleftrightarrow> row_pin cfg row \<and> col_pin cfg col \<and> level row col"
proof -
  have len: "length (mx_previous s) = MATRIX_ROWS cfg" using assms(4) by (simp add: tracks_def)
  note e = task_effect[OF assms(1) len t refl]
  have "mx_previous t ! row = read_matrix cfg level ! row"
    using e assms(5,6,8-10) by (simp add: Let_def has_ghost_in_row_def matrix_get_row_def)
  moreover have "tracks cfg t" unfolding t using assms(1,4) by (rule tracks_task)
  then have "bit (mx_previous t ! row) col \<longleftrightarrow> odd (length (history (mx_exec t) row col))"
    using assms(10,11) unfolding tracks_def by blast
  moreover have "col < LENGTH('r)" using assms(1,11) by (simp add: cfg_ok_def)
  ultimately show ?thesis
    using assms(11) read_matrix_nth[OF assms(10), of level col] by metis
qed

lemma pass_follows_idle:
  assumes "cfg_ok cfg" "R = MATRIX_ROWS cfg" "C = MATRIX_COLS cfg" "tracks cfg s"
    and "inv (mx_deb s) (mx_raw s)" "\<not> MATRIX_HAS_GHOST cfg" "matrix_mask cfg = None"
    and t: "t = pass cfg level now clk tick s" and "idle (mx_deb t)"
    and "row < MATRIX_ROWS cfg" "col < MATRIX_COLS cfg"
  shows "odd (length (history (mx_exec t) row col)) \<longleftrightarrow> row_pin cfg row \<and> col_pin cfg col \<and> level row col"
proof -
  have len: "length (mx_previous s) = MATRIX_ROWS cfg" using assms(4) by (simp add: tracks_def)
  have "inv (mx_deb t) (mx_raw t)" "mx_raw t = read_matrix cfg level"
    using pass_debounces[OF assms(1-3) len assms(5) t] by auto
  then show ?thesis
    using pass_follows[OF assms(1-4,6,7) t _ _ assms(10,11)] idle_cooked[OF _ assms(9)] by blast
qed

text \<open>Contacts that rest for two waits are followed, whatever the scans before them saw.\<close>

lemma passes_follow:
  assumes "cfg_ok cfg" "R = MATRIX_ROWS cfg" "C = MATRIX_COLS cfg" "tracks cfg s"
    and "inv (mx_deb s) (mx_raw s)" "\<not> MATRIX_HAS_GHOST cfg" "matrix_mask cfg = None"
    and t1: "t1 = pass cfg level now1 clk1 tick1 s"
    and t2: "t2 = pass cfg level now2 clk2 tick2 t1" and "waited (mx_deb t1) now2"
    and t3: "t3 = pass cfg level now3 clk3 tick3 t2" and "waited (mx_deb t2) now3"
    and "row < MATRIX_ROWS cfg" "col < MATRIX_COLS cfg"
  shows "odd (length (history (mx_exec t3) row col)) \<longleftrightarrow> row_pin cfg row \<and> col_pin cfg col \<and> level row col"
proof -
  let ?m = "read_matrix cfg level"
  have len: "length (mx_previous s) = MATRIX_ROWS cfg" using assms(4) by (simp add: tracks_def)
  have 1: "inv (mx_deb t1) ?m" "mx_raw t1 = ?m" using pass_debounces[OF assms(1-3) len assms(5) t1] by auto
  have tr1: "tracks cfg t1" unfolding t1 using assms(1,4) by (rule tracks_task)
  have len1: "length (mx_previous t1) = MATRIX_ROWS cfg" using tr1 by (simp add: tracks_def)
  have 2: "mx_deb t2 = fst (deb now2 ?m False (mx_deb t1))" "mx_raw t2 = ?m"
    using task_effect[OF assms(1) len1 t2 refl] 1(2) by simp_all
  have tr2: "tracks cfg t2" unfolding t2 using assms(1) tr1 by (rule tracks_task)
  have len2: "length (mx_previous t2) = MATRIX_ROWS cfg" using tr2 by (simp add: tracks_def)
  have 3: "mx_deb t3 = fst (deb now3 ?m False (mx_deb t2))" "mx_raw t3 = ?m"
    using task_effect[OF assms(1) len2 t3 refl] 2(2) by simp_all
  have "cooked (mx_deb t3) = ?m"
    unfolding 3 2 using settles[OF 1(1) assms(10)] assms(12) unfolding 2 by blast
  then show ?thesis
    using pass_follows[OF assms(1-3) tr2 assms(6,7) t3 _ _ assms(13,14)] 3(2) by simp
qed

end


text \<open>The states of asym_eager_defer_pk that its runs stay in.\<close>

definition asym_ok :: "nat \<Rightarrow> nat \<Rightarrow> 7 word \<Rightarrow> (debounce_counter_t, 'r::len word) debounce_t \<Rightarrow> 'r word list \<Rightarrow> bool" where
  "asym_ok R C D s raw \<longleftrightarrow> length (db_counters s) = R * C \<and> matrix_shape R C (db_cooked s)
     \<and> matrix_shape R C raw \<and> \<not> db_matrix_need_update s
     \<and> (\<forall>row < R. \<forall>col < C. let c = db_counters s ! (row * C + col)
          in asym_inv D (bit (raw ! row) col) (c, bit (db_cooked s ! row) col)
             \<and> (dc_time c \<noteq> 0 \<longrightarrow> db_counters_need_update s))"

lemma asym_ok_inv: "asym_ok R C D s raw \<longleftrightarrow> asym_pk.inv R C D s raw"
  unfolding asym_pk.inv_def
  by (auto simp: asym_ok_def key_counter_def key_val_def keys_def Let_def Ball_def)


section \<open>Witnesses\<close>

definition one_key :: "8 word matrix_cfg" where
  "one_key = \<lparr>MATRIX_ROWS = 1, MATRIX_COLS = 1, row_pin = (\<lambda>_. True), col_pin = (\<lambda>_. True),
     matrix_mask = None, MATRIX_HAS_GHOST = False, keycode_at = (\<lambda>_ _. True)\<rparr>"

text \<open>The contact closed at 0 ms and the keyboard has not told yet.\<close>

definition g_pressed :: "(8 word debounce_g, 8 word) matrix_sys" where
  "g_pressed = \<lparr>mx_deb = \<lparr>db_cooked = [0], dg_debouncing_time = 0, dg_debouncing = True\<rparr>,
     mx_raw = [1], mx_previous = [0], mx_last_tick = 0, mx_exec = [], mx_switch = []\<rparr>"

definition asym_rest :: "((debounce_counter_t, 8 word) debounce_t, 8 word) matrix_sys" where
  "asym_rest = \<lparr>mx_deb = \<lparr>db_cooked = [0], db_counters = [\<lparr>dc_pressed = False, dc_time = 0\<rparr>],
       db_counters_need_update = False, db_matrix_need_update = False, db_cooked_changed = False,
       db_last_time = 0\<rparr>,
     mx_raw = [0], mx_previous = [0], mx_last_tick = 0, mx_exec = [], mx_switch = []\<rparr>"

lemma shape_one: "matrix_shape (Suc 0) (Suc 0) [w :: 8 word] \<longleftrightarrow> (\<forall>k. bit w k \<longrightarrow> k = 0)"
  by (simp add: matrix_shape_def)

lemma one_key_reads: "read_matrix one_key (\<lambda>_ _. True) = [1]"
  by (simp add: read_matrix_def matrix_read_cols_on_row_def one_key_def readMatrixPin_def BIT_def)

lemma one_key_ok: "cfg_ok one_key" by (simp add: cfg_ok_def one_key_def)

lemma one_key_tracks: "mx_previous s = [0] \<Longrightarrow> mx_exec s = [] \<Longrightarrow> tracks one_key s"
  by (simp add: tracks_def one_key_def history_def alternating_def)



definition asym_pass :: "u32 \<Rightarrow> ((debounce_counter_t, 8 word) debounce_t, 8 word) matrix_sys
    \<Rightarrow> ((debounce_counter_t, 8 word) debounce_t, 8 word) matrix_sys" where
  "asym_pass now s = fst (matrix_task (asym_debounce 1 1 5) db_cooked one_key True (\<lambda>_ _. True) now
     (\<lambda>_. 0) 0 True (\<lambda>_ _. False) s)"


end
