(* ===== verification/Wear_Log.thy ===== *)
theory Wear_Log
  imports Prelude
begin

text \<open>
  The entries of the wear-leveling write log (quantum/wear_leveling/wear_leveling_internal.h), the
  checksum (lib/fnv/hash_64a.c) and the log's units.

  The union \<open>write_log_entry_t\<close> is its eight bytes in memory; the members \<open>raw16\<close>, \<open>raw32\<close> and
  \<open>raw64\<close> are the runs of 2, 4 or 8 of them, and the units a backing store reads and writes
  (\<open>backing_store_int_t\<close>) are those runs.
\<close>

section \<open>Bytes in memory\<close>

text \<open>\<open>memcpy (&c[a], v, n)\<close>, with n the length of v.\<close>

definition memcpy_at :: "u8 list \<Rightarrow> nat \<Rightarrow> u8 list \<Rightarrow> u8 list" where
  "memcpy_at c a v = take a c @ v @ drop (a + length v) c"

lemma memcpy_at_length [simp]: "a + length v \<le> length c \<Longrightarrow> length (memcpy_at c a v) = length c"
  by (simp add: memcpy_at_def)

lemma memcpy_at_nil [simp]: "memcpy_at c a [] = c"
  by (simp add: memcpy_at_def)

lemma memcpy_at_append:
  "a + length u \<le> length c \<Longrightarrow> memcpy_at (memcpy_at c a u) (a + length u) v = memcpy_at c a (u @ v)"
  by (simp add: memcpy_at_def ac_simps)

lemma memcpy_at_skip:
  "a = length xs \<Longrightarrow> length v \<le> length ys \<Longrightarrow> memcpy_at (xs @ ys) a v = xs @ v @ drop (length v) ys"
  by (simp add: memcpy_at_def)

lemma nth_memcpy_at:
  "a + length v \<le> length c \<Longrightarrow> i < length c
    \<Longrightarrow> memcpy_at c a v ! i = (if a \<le> i \<and> i < a + length v then v ! (i - a) else c ! i)"
  by (auto simp: memcpy_at_def nth_append min_def)

lemma memcpy_at_same: "take (length v) (drop a c) = v \<Longrightarrow> a \<le> length c \<Longrightarrow> memcpy_at c a v = c"
  by (metis append.assoc append_take_drop_id drop_drop memcpy_at_def add.commute)

lemma memcpy_at_list_update: "a < length c \<Longrightarrow> c[a := x] = memcpy_at c a [x]"
  by (simp add: memcpy_at_def upd_conv_take_nth_drop)

text \<open>The units of w bytes of a run of memory, and the bytes of an unsigned 64-bit integer.\<close>

definition units :: "nat \<Rightarrow> u8 list \<Rightarrow> u8 list list" where
  "units w xs = map (\<lambda>i. take w (drop (i * w) xs)) [0..<length xs div w]"

definition raw64_bytes :: "u64 \<Rightarrow> u8 list" where
  "raw64_bytes x = map (\<lambda>i. ucast (drop_bit (8 * i) x)) [0..<8]"

lemma raw64_bytes_length [simp]: "length (raw64_bytes x) = 8"
  by (simp add: raw64_bytes_def)

lemma units_0 [simp]: "units w [] = []"
  by (simp add: units_def)

lemma units_step:
  assumes "0 < w" "length u = w"
  shows "units w (u @ xs) = u # units w xs"
proof -
  have "length (u @ xs) div w = Suc (length xs div w)" using assms by (simp add: div_add_self1)
  moreover have "map (\<lambda>i. take w (drop (i * w) (u @ xs))) [0..<Suc k]
      = u # map (\<lambda>i. take w (drop (i * w) xs)) [0..<k]" for k
    using assms by (simp add: upt_conv_Cons map_Suc_upt[symmetric] del: upt_Suc)
  ultimately show ?thesis by (simp only: units_def)
qed

lemma units_cases:
  assumes "0 < w" "w dvd length xs"
  obtains "xs = []" | u ys where "xs = u @ ys" "length u = w" "w dvd length ys"
proof (cases "xs = []")
  case False
  then have "w \<le> length xs" using assms by (simp add: dvd_imp_le)
  then have "xs = take w xs @ drop w xs" "length (take w xs) = w" by auto
  moreover have "w dvd length (drop w xs)" using assms(2) \<open>w \<le> length xs\<close> by (simp add: dvd_diff_nat)
  ultimately show thesis using that(2) by blast
qed blast

lemma units_induct [consumes 2, case_names nil unit]:
  assumes "0 < w" "w dvd length xs"
    and "P []"
    and "\<And>u ys. length u = w \<Longrightarrow> w dvd length ys \<Longrightarrow> P ys \<Longrightarrow> P (u @ ys)"
  shows "P xs"
  using assms(2)
proof (induction "length xs" arbitrary: xs rule: less_induct)
  case less
  show ?case
  proof (cases rule: units_cases[OF assms(1) less.prems])
    case 1
    then show ?thesis using assms(3) by simp
  next
    case (2 u ys)
    then show ?thesis using less.hyps[of ys] assms(1,4) by simp
  qed
qed

lemma concat_units:
  assumes "0 < w" "w dvd length xs"
  shows "concat (units w xs) = xs"
  using assms by (induction xs rule: units_induct) (simp_all add: units_step[OF assms(1)])

lemma units_lengths:
  assumes "0 < w" "w dvd length xs"
  shows "\<forall>u \<in> set (units w xs). length u = w"
  using assms by (induction xs rule: units_induct) (simp_all add: units_step[OF assms(1)])

section \<open>The checksum\<close>

definition FNV1A_64_INIT :: u64 where "FNV1A_64_INIT = 0xcbf29ce484222325"

text \<open>One round of the loop, with the multiplication by the prime written as shifts.\<close>

definition fnv_64a_step :: "u8 \<Rightarrow> u64 \<Rightarrow> u64" where
  "fnv_64a_step octet hval =
     (let hval = hval XOR ucast octet in
      hval + (push_bit 1 hval + push_bit 4 hval + push_bit 5 hval +
              push_bit 7 hval + push_bit 8 hval + push_bit 40 hval))"

definition fnv_64a_buf :: "u8 list \<Rightarrow> nat \<Rightarrow> u64 \<Rightarrow> u64" where
  "fnv_64a_buf buf len hval = fold fnv_64a_step (take len buf) hval"

lemma fnv_64a_step_prime: "fnv_64a_step octet hval = (hval XOR ucast octet) * 0x100000001b3"
  by (simp add: fnv_64a_step_def Let_def push_bit_eq_mult algebra_simps)

section \<open>Entry types\<close>

definition LOG_ENTRY_TYPE_MULTIBYTE :: u8 where "LOG_ENTRY_TYPE_MULTIBYTE = 0"
definition LOG_ENTRY_TYPE_OPTIMIZED_64 :: u8 where "LOG_ENTRY_TYPE_OPTIMIZED_64 = 1"
definition LOG_ENTRY_TYPE_WORD_01 :: u8 where "LOG_ENTRY_TYPE_WORD_01 = 2"

lemmas log_types = LOG_ENTRY_TYPE_MULTIBYTE_def LOG_ENTRY_TYPE_OPTIMIZED_64_def LOG_ENTRY_TYPE_WORD_01_def

definition BITMASK_FOR_BITCOUNT :: "nat \<Rightarrow> 'a::len word" where
  "BITMASK_FOR_BITCOUNT n = mask n"

definition LOG_ENTRY_GET_TYPE :: "u8 list \<Rightarrow> u8" where
  "LOG_ENTRY_GET_TYPE entry = drop_bit 6 (entry ! 0) AND BITMASK_FOR_BITCOUNT 2"

definition LOG_ENTRY_MULTIBYTE_MAX_BYTES :: nat where "LOG_ENTRY_MULTIBYTE_MAX_BYTES = 5"

definition LOG_ENTRY_MULTIBYTE_GET_ADDRESS :: "u8 list \<Rightarrow> u32" where
  "LOG_ENTRY_MULTIBYTE_GET_ADDRESS entry =
     push_bit 16 (ucast (entry ! 0) AND BITMASK_FOR_BITCOUNT 3) OR push_bit 8 (ucast (entry ! 1))
       OR ucast (entry ! 2)"

definition LOG_ENTRY_MULTIBYTE_GET_LENGTH :: "u8 list \<Rightarrow> u8" where
  "LOG_ENTRY_MULTIBYTE_GET_LENGTH entry = drop_bit 3 (entry ! 0) AND BITMASK_FOR_BITCOUNT 3"

definition LOG_ENTRY_MAKE_MULTIBYTE :: "u32 \<Rightarrow> nat \<Rightarrow> u8 list" where
  "LOG_ENTRY_MAKE_MULTIBYTE address len =
     [push_bit 6 (LOG_ENTRY_TYPE_MULTIBYTE AND BITMASK_FOR_BITCOUNT 2)
        OR push_bit 3 (of_nat len AND BITMASK_FOR_BITCOUNT 3)
        OR (ucast (drop_bit 16 address) AND BITMASK_FOR_BITCOUNT 3),
      ucast (drop_bit 8 address) AND BITMASK_FOR_BITCOUNT 8,
      ucast address AND BITMASK_FOR_BITCOUNT 8,
      0, 0, 0, 0, 0]"

definition LOG_ENTRY_OPTIMIZED_64_GET_ADDRESS :: "u8 list \<Rightarrow> u32" where
  "LOG_ENTRY_OPTIMIZED_64_GET_ADDRESS entry = ucast (entry ! 0 AND BITMASK_FOR_BITCOUNT 6)"

definition LOG_ENTRY_OPTIMIZED_64_GET_VALUE :: "u8 list \<Rightarrow> u8" where
  "LOG_ENTRY_OPTIMIZED_64_GET_VALUE entry = entry ! 1"

definition LOG_ENTRY_MAKE_OPTIMIZED_64 :: "u32 \<Rightarrow> u8 \<Rightarrow> u8 list" where
  "LOG_ENTRY_MAKE_OPTIMIZED_64 address value =
     [push_bit 6 (LOG_ENTRY_TYPE_OPTIMIZED_64 AND BITMASK_FOR_BITCOUNT 2)
        OR (ucast address AND BITMASK_FOR_BITCOUNT 6),
      value, 0, 0, 0, 0, 0, 0]"

definition LOG_ENTRY_WORD_01_GET_ADDRESS :: "u8 list \<Rightarrow> u32" where
  "LOG_ENTRY_WORD_01_GET_ADDRESS entry =
     push_bit 9 (ucast (entry ! 0 AND BITMASK_FOR_BITCOUNT 5)) OR push_bit 1 (ucast (entry ! 1))"

definition LOG_ENTRY_WORD_01_GET_VALUE :: "u8 list \<Rightarrow> u8" where
  "LOG_ENTRY_WORD_01_GET_VALUE entry = drop_bit 5 (entry ! 0) AND BITMASK_FOR_BITCOUNT 1"

definition LOG_ENTRY_MAKE_WORD_01 :: "u32 \<Rightarrow> u16 \<Rightarrow> u8 list" where
  "LOG_ENTRY_MAKE_WORD_01 address value =
     [push_bit 6 (LOG_ENTRY_TYPE_WORD_01 AND BITMASK_FOR_BITCOUNT 2)
        OR push_bit 5 ((if value \<noteq> 0 then 1 else 0) AND BITMASK_FOR_BITCOUNT 1)
        OR (ucast (drop_bit 9 address) AND BITMASK_FOR_BITCOUNT 5),
      ucast (drop_bit 1 address), 0, 0, 0, 0, 0, 0]"

section \<open>Round trips\<close>

lemmas log_macros = LOG_ENTRY_GET_TYPE_def LOG_ENTRY_MAKE_MULTIBYTE_def LOG_ENTRY_MULTIBYTE_GET_ADDRESS_def
  LOG_ENTRY_MULTIBYTE_GET_LENGTH_def LOG_ENTRY_MAKE_OPTIMIZED_64_def LOG_ENTRY_OPTIMIZED_64_GET_ADDRESS_def
  LOG_ENTRY_OPTIMIZED_64_GET_VALUE_def LOG_ENTRY_MAKE_WORD_01_def LOG_ENTRY_WORD_01_GET_ADDRESS_def
  LOG_ENTRY_WORD_01_GET_VALUE_def BITMASK_FOR_BITCOUNT_def

lemma bit_2: "bit (2 :: u8) k \<longleftrightarrow> k = 1"
proof -
  have "BIT 1 = (2 :: u8)" by (simp add: BIT_def)
  then show ?thesis using bit_BIT[of 1 k, where 'a = 8] by simp
qed

lemma bit_log_types:
  "\<not> bit LOG_ENTRY_TYPE_MULTIBYTE k"
  "bit LOG_ENTRY_TYPE_OPTIMIZED_64 k \<longleftrightarrow> k = 0"
  "bit LOG_ENTRY_TYPE_WORD_01 k \<longleftrightarrow> k = 1"
  by (simp_all only: log_types bit_1_iff bit_2 bit_0_eq bot_apply) auto

lemma bit_times_2: "bit (w * 2 :: u32) k \<longleftrightarrow> 0 < k \<and> k < 32 \<and> bit w (k - 1)"
proof -
  have "bit (push_bit 1 w) k \<longleftrightarrow> 0 < k \<and> k < 32 \<and> bit w (k - 1)" unfolding bit_push_bit_iff by auto
  then show ?thesis by (simp add: mult.commute)
qed

lemmas log_bits = log_macros bit_simps bit_log_types bit_times_2

lemma multibyte_type: "LOG_ENTRY_GET_TYPE (LOG_ENTRY_MAKE_MULTIBYTE address n) = 0"
  by (rule bit_word_eqI) (auto simp: log_bits bit_1_iff bit_2)

lemma optimized_64_type: "LOG_ENTRY_GET_TYPE (LOG_ENTRY_MAKE_OPTIMIZED_64 address v) = 1"
  by (rule bit_word_eqI) (auto simp: log_bits bit_1_iff bit_2)

lemma word_01_type: "LOG_ENTRY_GET_TYPE (LOG_ENTRY_MAKE_WORD_01 address v) = 2"
  by (rule bit_word_eqI) (auto simp: log_bits bit_1_iff bit_2)

lemma multibyte_address:
  assumes "unat address < 2 ^ 19"
  shows "LOG_ENTRY_MULTIBYTE_GET_ADDRESS (LOG_ENTRY_MAKE_MULTIBYTE address n) = address"
proof (rule bit_word_eqI)
  fix k assume "k < LENGTH(32)"
  then show "bit (LOG_ENTRY_MULTIBYTE_GET_ADDRESS (LOG_ENTRY_MAKE_MULTIBYTE address n)) k = bit address k"
    using bit_small[OF assms, of k] by (auto simp: log_bits)
qed

lemma multibyte_length:
  assumes "n < 8"
  shows "LOG_ENTRY_MULTIBYTE_GET_LENGTH (LOG_ENTRY_MAKE_MULTIBYTE address n) = of_nat n"
proof (rule bit_word_eqI)
  fix k assume "k < LENGTH(8)"
  then show "bit (LOG_ENTRY_MULTIBYTE_GET_LENGTH (LOG_ENTRY_MAKE_MULTIBYTE address n)) k = bit (of_nat n :: u8) k"
    using bit_of_small[of n 3 k, where 'a = 8] assms by (auto simp: log_bits)
qed

lemma optimized_64_address:
  assumes "unat address < 64"
  shows "LOG_ENTRY_OPTIMIZED_64_GET_ADDRESS (LOG_ENTRY_MAKE_OPTIMIZED_64 address v) = address"
proof (rule bit_word_eqI)
  fix k assume "k < LENGTH(32)"
  then show "bit (LOG_ENTRY_OPTIMIZED_64_GET_ADDRESS (LOG_ENTRY_MAKE_OPTIMIZED_64 address v)) k = bit address k"
    using bit_small[of address 6 k] assms by (auto simp: log_bits)
qed

lemma optimized_64_value: "LOG_ENTRY_OPTIMIZED_64_GET_VALUE (LOG_ENTRY_MAKE_OPTIMIZED_64 address v) = v"
  by (simp add: log_macros)

lemma word_01_address:
  assumes "unat address < 2 ^ 14" "even (unat address)"
  shows "LOG_ENTRY_WORD_01_GET_ADDRESS (LOG_ENTRY_MAKE_WORD_01 address v) = address"
proof (rule bit_word_eqI)
  fix k assume k: "k < LENGTH(32)"
  have "\<not> bit address 0" using assms(2) by (simp add: bit_word_iff_div)
  then show "bit (LOG_ENTRY_WORD_01_GET_ADDRESS (LOG_ENTRY_MAKE_WORD_01 address v)) k = bit address k"
    using bit_small[OF assms(1), of k] k by (cases "k = 0") (auto simp: log_bits)
qed

lemma word_01_value:
  assumes "v = 0 \<or> v = 1"
  shows "LOG_ENTRY_WORD_01_GET_VALUE (LOG_ENTRY_MAKE_WORD_01 address v) = ucast v"
proof (rule bit_word_eqI)
  fix k assume k: "k < LENGTH(8)"
  then show "bit (LOG_ENTRY_WORD_01_GET_VALUE (LOG_ENTRY_MAKE_WORD_01 address v)) k = bit (ucast v :: u8) k"
    using assms by (auto simp: log_bits bit_1_iff)
qed

end
