(* ===== verification/Wear_Leveling.thy ===== *)
theory Wear_Leveling
  imports Wear_Log
begin

text \<open>
  The wear-leveling algorithm (quantum/wear_leveling/wear_leveling.c): a cache of the logical
  data, the consolidated copy of it at the start of the backing store with its checksum, and a
  write log after them that is replayed at start-up.

  The backing store's functions are fields of a record of operations over its state \<open>'b\<close>; the
  interface they are expected to meet is the locale of theory Wear_Contract. Addresses of the
  store are \<open>nat\<close>: they stay below the configured backing size. The public functions return
  \<open>None\<close> where the code reads or writes past the end of the cache.
\<close>

section \<open>Configuration, backing store and state\<close>

datatype write_size = W2 | W4 | W8

fun bytes_of :: "write_size \<Rightarrow> nat" where
  "bytes_of W2 = 2"
| "bytes_of W4 = 4"
| "bytes_of W8 = 8"

record wear_leveling_cfg =
  BACKING_STORE_WRITE_SIZE :: write_size
  WEAR_LEVELING_BACKING_SIZE :: nat
  WEAR_LEVELING_LOGICAL_SIZE :: nat

abbreviation WS :: "wear_leveling_cfg \<Rightarrow> nat" where
  "WS cfg \<equiv> bytes_of (BACKING_STORE_WRITE_SIZE cfg)"

abbreviation log_start :: "wear_leveling_cfg \<Rightarrow> nat" where
  "log_start cfg \<equiv> WEAR_LEVELING_LOGICAL_SIZE cfg + 8"

record 'b backing_store_ops =
  backing_store_init :: "'b \<Rightarrow> 'b \<times> bool"
  backing_store_unlock :: "'b \<Rightarrow> 'b \<times> bool"
  backing_store_erase :: "'b \<Rightarrow> 'b \<times> bool"
  backing_store_write :: "nat \<Rightarrow> u8 list \<Rightarrow> 'b \<Rightarrow> 'b \<times> bool"
  backing_store_lock :: "'b \<Rightarrow> 'b \<times> bool"
  backing_store_read :: "nat \<Rightarrow> 'b \<Rightarrow> u8 list option"

record 'b wear_leveling =
  cache :: "u8 list"
  write_address :: nat
  unlocked :: bool
  store :: 'b

datatype wear_leveling_status_t =
  WEAR_LEVELING_FAILED | WEAR_LEVELING_SUCCESS | WEAR_LEVELING_CONSOLIDATED

datatype backing_store_lock_status_t = STATUS_FAILURE | STATUS_SUCCESS | STATUS_UNCHANGED

section \<open>Bulk reads and writes\<close>

text \<open>The weak implementations; a bulk read returns the units it read before it failed.\<close>

fun backing_store_read_bulk :: "'b backing_store_ops \<Rightarrow> nat \<Rightarrow> nat \<Rightarrow> nat \<Rightarrow> 'b \<Rightarrow> u8 list list \<times> bool" where
  "backing_store_read_bulk ops w address 0 b = ([], True)"
| "backing_store_read_bulk ops w address (Suc n) b =
     (case backing_store_read ops address b of
        None \<Rightarrow> ([], False)
      | Some u \<Rightarrow> (case backing_store_read_bulk ops w (address + w) n b of (us, ok) \<Rightarrow> (u # us, ok)))"

fun backing_store_write_bulk :: "'b backing_store_ops \<Rightarrow> nat \<Rightarrow> nat \<Rightarrow> u8 list list \<Rightarrow> 'b \<Rightarrow> 'b \<times> bool" where
  "backing_store_write_bulk ops w address [] b = (b, True)"
| "backing_store_write_bulk ops w address (u # us) b =
     (case backing_store_write ops address u b of (b', ok) \<Rightarrow>
        if \<not> ok then (b', False) else backing_store_write_bulk ops w (address + w) us b')"

section \<open>Locking\<close>

definition wear_leveling_unlock ::
  "'b backing_store_ops \<Rightarrow> 'b wear_leveling \<Rightarrow> 'b wear_leveling \<times> backing_store_lock_status_t" where
  "wear_leveling_unlock ops s =
     (if unlocked s then (s, STATUS_UNCHANGED)
      else case backing_store_unlock ops (store s) of (b, ok) \<Rightarrow>
        if \<not> ok then (s\<lparr>store := b\<rparr>, STATUS_FAILURE)
        else (s\<lparr>store := b, unlocked := True\<rparr>, STATUS_SUCCESS))"

definition wear_leveling_lock ::
  "'b backing_store_ops \<Rightarrow> 'b wear_leveling \<Rightarrow> 'b wear_leveling \<times> backing_store_lock_status_t" where
  "wear_leveling_lock ops s =
     (if \<not> unlocked s then (s, STATUS_UNCHANGED)
      else case backing_store_lock ops (store s) of (b, ok) \<Rightarrow>
        if \<not> ok then (s\<lparr>store := b\<rparr>, STATUS_FAILURE)
        else (s\<lparr>store := b, unlocked := False\<rparr>, STATUS_SUCCESS))"

section \<open>The consolidated data\<close>

definition wear_leveling_clear_cache :: "wear_leveling_cfg \<Rightarrow> 'b wear_leveling \<Rightarrow> 'b wear_leveling" where
  "wear_leveling_clear_cache cfg s =
     s\<lparr>cache := replicate (WEAR_LEVELING_LOGICAL_SIZE cfg) 0, write_address := log_start cfg\<rparr>"

text \<open>The number of units the checksum takes, and its computation over the cache.\<close>

fun checksum_units :: "write_size \<Rightarrow> nat" where
  "checksum_units W2 = 4"
| "checksum_units W4 = 2"
| "checksum_units W8 = 1"

definition checksum :: "wear_leveling_cfg \<Rightarrow> u8 list \<Rightarrow> u8 list" where
  "checksum cfg c = raw64_bytes (fnv_64a_buf c (WEAR_LEVELING_LOGICAL_SIZE cfg) FNV1A_64_INIT)"

text \<open>
  \<open>junk\<close> is what the uninitialised entry on the stack holds: the result of the second read is
  not checked, so a failed one leaves some of it in the entry.
\<close>

definition wear_leveling_read_consolidated ::
  "wear_leveling_cfg \<Rightarrow> 'b backing_store_ops \<Rightarrow> u8 list \<Rightarrow> 'b wear_leveling
    \<Rightarrow> 'b wear_leveling \<times> wear_leveling_status_t" where
  "wear_leveling_read_consolidated cfg ops junk s =
     (case backing_store_read_bulk ops (WS cfg) 0 (WEAR_LEVELING_LOGICAL_SIZE cfg div WS cfg) (store s) of
        (us, ok) \<Rightarrow>
          if \<not> ok then (wear_leveling_clear_cache cfg s, WEAR_LEVELING_FAILED)
          else
            let s = s\<lparr>cache := concat us\<rparr>;
                expected = checksum cfg (cache s);
                (vs, _) = backing_store_read_bulk ops (WS cfg) (WEAR_LEVELING_LOGICAL_SIZE cfg)
                            (checksum_units (BACKING_STORE_WRITE_SIZE cfg)) (store s);
                entry = memcpy_at (take 8 junk) 0 (concat vs)
            in if entry = expected then (s, WEAR_LEVELING_SUCCESS)
               else (wear_leveling_clear_cache cfg s, WEAR_LEVELING_SUCCESS))"

definition wear_leveling_write_consolidated ::
  "wear_leveling_cfg \<Rightarrow> 'b backing_store_ops \<Rightarrow> 'b wear_leveling
    \<Rightarrow> 'b wear_leveling \<times> wear_leveling_status_t" where
  "wear_leveling_write_consolidated cfg ops s =
     (case wear_leveling_unlock ops s of (s, lock_status) \<Rightarrow>
        let (b, ok) = backing_store_write_bulk ops (WS cfg) 0 (units (WS cfg) (cache s)) (store s);
            s = s\<lparr>store := b\<rparr>;
            (s, status) =
              (if \<not> ok then (s, WEAR_LEVELING_FAILED)
               else let (b, ok) = backing_store_write_bulk ops (WS cfg) (WEAR_LEVELING_LOGICAL_SIZE cfg)
                                    (units (WS cfg) (checksum cfg (cache s))) (store s)
                    in (s\<lparr>store := b\<rparr>, if ok then WEAR_LEVELING_CONSOLIDATED else WEAR_LEVELING_FAILED))
        in (if lock_status = STATUS_SUCCESS then fst (wear_leveling_lock ops s) else s, status))"

definition wear_leveling_consolidate_force ::
  "wear_leveling_cfg \<Rightarrow> 'b backing_store_ops \<Rightarrow> 'b wear_leveling
    \<Rightarrow> 'b wear_leveling \<times> wear_leveling_status_t" where
  "wear_leveling_consolidate_force cfg ops s =
     (case backing_store_erase ops (store s) of (b, ok) \<Rightarrow>
        if \<not> ok then (s\<lparr>store := b\<rparr>, WEAR_LEVELING_FAILED)
        else case wear_leveling_write_consolidated cfg ops (s\<lparr>store := b\<rparr>) of (s, status) \<Rightarrow>
          (s\<lparr>write_address := log_start cfg\<rparr>, status))"

definition wear_leveling_consolidate_if_needed ::
  "wear_leveling_cfg \<Rightarrow> 'b backing_store_ops \<Rightarrow> 'b wear_leveling
    \<Rightarrow> 'b wear_leveling \<times> wear_leveling_status_t" where
  "wear_leveling_consolidate_if_needed cfg ops s =
     (if WEAR_LEVELING_BACKING_SIZE cfg \<le> write_address s then wear_leveling_consolidate_force cfg ops s
      else (s, WEAR_LEVELING_SUCCESS))"

section \<open>Appending to the log\<close>

definition wear_leveling_append_raw ::
  "wear_leveling_cfg \<Rightarrow> 'b backing_store_ops \<Rightarrow> u8 list \<Rightarrow> 'b wear_leveling
    \<Rightarrow> 'b wear_leveling \<times> wear_leveling_status_t" where
  "wear_leveling_append_raw cfg ops u s =
     (case backing_store_write ops (write_address s) u (store s) of (b, ok) \<Rightarrow>
        if \<not> ok then (s\<lparr>store := b\<rparr>, WEAR_LEVELING_FAILED)
        else wear_leveling_consolidate_if_needed cfg ops
               (s\<lparr>store := b, write_address := write_address s + WS cfg\<rparr>))"

text \<open>Consecutive appends, each one made only when the one before it returned success.\<close>

fun append_each ::
  "wear_leveling_cfg \<Rightarrow> 'b backing_store_ops \<Rightarrow> u8 list list \<Rightarrow> 'b wear_leveling
    \<Rightarrow> 'b wear_leveling \<times> wear_leveling_status_t" where
  "append_each cfg ops [] s = (s, WEAR_LEVELING_SUCCESS)"
| "append_each cfg ops (u # us) s =
     (case wear_leveling_append_raw cfg ops u s of (s, status) \<Rightarrow>
        if status \<noteq> WEAR_LEVELING_SUCCESS then (s, status) else append_each cfg ops us s)"

text \<open>\<open>raw16[i]\<close>, \<open>raw32[i]\<close> or \<open>raw64\<close> of an entry.\<close>

definition raw :: "wear_leveling_cfg \<Rightarrow> u8 list \<Rightarrow> nat \<Rightarrow> u8 list" where
  "raw cfg log i = take (WS cfg) (drop (i * WS cfg) log)"

fun multibyte_units :: "wear_leveling_cfg \<Rightarrow> write_size \<Rightarrow> u8 list \<Rightarrow> nat \<Rightarrow> u8 list list" where
  "multibyte_units cfg W2 log len =
     [raw cfg log 0, raw cfg log 1] @ (if 1 < len then [raw cfg log 2] else [])
       @ (if 3 < len then [raw cfg log 3] else [])"
| "multibyte_units cfg W4 log len = [raw cfg log 0] @ (if 1 < len then [raw cfg log 1] else [])"
| "multibyte_units cfg W8 log len = [raw cfg log 0]"

definition wear_leveling_write_raw_multibyte ::
  "wear_leveling_cfg \<Rightarrow> 'b backing_store_ops \<Rightarrow> u32 \<Rightarrow> u8 list \<Rightarrow> 'b wear_leveling
    \<Rightarrow> 'b wear_leveling \<times> wear_leveling_status_t" where
  "wear_leveling_write_raw_multibyte cfg ops address p s =
     (let log = memcpy_at (LOG_ENTRY_MAKE_MULTIBYTE address (length p)) 3 p
      in append_each cfg ops (multibyte_units cfg (BACKING_STORE_WRITE_SIZE cfg) log (length p)) s)"

text \<open>\<open>p\<close> is what remains to be written.\<close>

function wear_leveling_write_raw ::
  "wear_leveling_cfg \<Rightarrow> 'b backing_store_ops \<Rightarrow> u32 \<Rightarrow> u8 list \<Rightarrow> 'b wear_leveling
    \<Rightarrow> 'b wear_leveling \<times> wear_leveling_status_t" where
  "wear_leveling_write_raw cfg ops address p s =
     (if p = [] then (s, WEAR_LEVELING_SUCCESS)
      else if BACKING_STORE_WRITE_SIZE cfg = W2 \<and> 2 \<le> length p \<and> address mod 2 = 0 \<and> address < 16384
           \<and> (push_bit 8 (ucast (p ! 1)) OR ucast (p ! 0) = (0 :: u16)
              \<or> push_bit 8 (ucast (p ! 1)) OR ucast (p ! 0) = (1 :: u16)) then
        (let v = push_bit 8 (ucast (p ! 1)) OR ucast (p ! 0) :: u16
         in case wear_leveling_append_raw cfg ops (raw cfg (LOG_ENTRY_MAKE_WORD_01 address v) 0) s of
           (s, status) \<Rightarrow> if status \<noteq> WEAR_LEVELING_SUCCESS then (s, status)
             else wear_leveling_write_raw cfg ops (address + 2) (drop 2 p) s)
      else if BACKING_STORE_WRITE_SIZE cfg = W2 \<and> address < 64 then
        (case wear_leveling_append_raw cfg ops (raw cfg (LOG_ENTRY_MAKE_OPTIMIZED_64 address (p ! 0)) 0) s of
           (s, status) \<Rightarrow> if status \<noteq> WEAR_LEVELING_SUCCESS then (s, status)
             else wear_leveling_write_raw cfg ops (address + 1) (drop 1 p) s)
      else
        (let this_length = (if LOG_ENTRY_MULTIBYTE_MAX_BYTES \<le> length p
                            then LOG_ENTRY_MULTIBYTE_MAX_BYTES else length p)
         in case wear_leveling_write_raw_multibyte cfg ops address (take this_length p) s of
           (s, status) \<Rightarrow> if status \<noteq> WEAR_LEVELING_SUCCESS then (s, status)
             else wear_leveling_write_raw cfg ops (address + of_nat this_length) (drop this_length p) s))"
  by pat_completeness auto
termination
  by (relation "measure (\<lambda>(cfg, ops, address, p, s). length p)")
    (auto simp: LOG_ENTRY_MULTIBYTE_MAX_BYTES_def)

declare wear_leveling_write_raw.simps [simp del]

section \<open>Playing the log back\<close>

text \<open>
  The body of one entry whose first unit is \<open>u\<close>, \<open>address\<close> being past that unit: the address
  after the entry, the cache, and whether playback goes on (every way it is cancelled here sets
  the status to failed). \<open>junk\<close> is what the entry on the stack, and what lies behind it, holds.
\<close>

definition read_units ::
  "wear_leveling_cfg \<Rightarrow> 'b backing_store_ops \<Rightarrow> 'b \<Rightarrow> nat \<Rightarrow> nat \<times> u8 list \<Rightarrow> (nat \<times> u8 list) option" where
  "read_units cfg ops b i al =
     (case al of (address, log) \<Rightarrow>
        (case backing_store_read ops address b of
           None \<Rightarrow> None
         | Some u \<Rightarrow> Some (address + WS cfg, memcpy_at log (i * WS cfg) u)))"

definition playback_multibyte_head ::
  "wear_leveling_cfg \<Rightarrow> 'b backing_store_ops \<Rightarrow> 'b \<Rightarrow> nat \<Rightarrow> u8 list \<Rightarrow> (nat \<times> u8 list) option" where
  "playback_multibyte_head cfg ops b address log =
     (if BACKING_STORE_WRITE_SIZE cfg = W2 then read_units cfg ops b 1 (address, log)
      else Some (address, log))"

definition playback_multibyte_tail ::
  "wear_leveling_cfg \<Rightarrow> 'b backing_store_ops \<Rightarrow> 'b \<Rightarrow> nat \<Rightarrow> u8 list \<Rightarrow> nat \<Rightarrow> (nat \<times> u8 list) option" where
  "playback_multibyte_tail cfg ops b address log l =
     (case BACKING_STORE_WRITE_SIZE cfg of
        W2 \<Rightarrow> (case (if 1 < l then read_units cfg ops b 2 (address, log) else Some (address, log)) of
                 None \<Rightarrow> None
               | Some al \<Rightarrow> (if 3 < l then read_units cfg ops b 3 al else Some al))
      | W4 \<Rightarrow> (if 1 < l then read_units cfg ops b 1 (address, log) else Some (address, log))
      | W8 \<Rightarrow> Some (address, log))"

definition playback_multibyte ::
  "wear_leveling_cfg \<Rightarrow> 'b backing_store_ops \<Rightarrow> 'b \<Rightarrow> nat \<Rightarrow> u8 list \<Rightarrow> u8 list \<Rightarrow> nat \<times> u8 list \<times> bool" where
  "playback_multibyte cfg ops b address log c =
     (case playback_multibyte_head cfg ops b address log of
        None \<Rightarrow> (address, c, False)
      | Some (address, log) \<Rightarrow>
          let a = unat (LOG_ENTRY_MULTIBYTE_GET_ADDRESS log);
              l = unat (LOG_ENTRY_MULTIBYTE_GET_LENGTH log)
          in if WEAR_LEVELING_LOGICAL_SIZE cfg < a + l then (address, c, False)
             else (case playback_multibyte_tail cfg ops b address log l of
                     None \<Rightarrow> (address, c, False)
                   | Some (address, log) \<Rightarrow> (address, memcpy_at c a (take l (drop 3 log)), True)))"

definition playback_entry ::
  "wear_leveling_cfg \<Rightarrow> 'b backing_store_ops \<Rightarrow> u8 list \<Rightarrow> 'b \<Rightarrow> u8 list \<Rightarrow> nat \<Rightarrow> u8 list
    \<Rightarrow> nat \<times> u8 list \<times> bool" where
  "playback_entry cfg ops junk b u address c =
     (let log = memcpy_at junk 0 u in
      if LOG_ENTRY_GET_TYPE log = LOG_ENTRY_TYPE_MULTIBYTE then playback_multibyte cfg ops b address log c
      else if BACKING_STORE_WRITE_SIZE cfg = W2 \<and> LOG_ENTRY_GET_TYPE log = LOG_ENTRY_TYPE_OPTIMIZED_64 then
        (let a = unat (LOG_ENTRY_OPTIMIZED_64_GET_ADDRESS log); v = LOG_ENTRY_OPTIMIZED_64_GET_VALUE log in
         if WEAR_LEVELING_LOGICAL_SIZE cfg \<le> a then (address, c, False) else (address, c[a := v], True))
      else if BACKING_STORE_WRITE_SIZE cfg = W2 \<and> LOG_ENTRY_GET_TYPE log = LOG_ENTRY_TYPE_WORD_01 then
        (let a = unat (LOG_ENTRY_WORD_01_GET_ADDRESS log); v = LOG_ENTRY_WORD_01_GET_VALUE log in
         if WEAR_LEVELING_LOGICAL_SIZE cfg \<le> a + 1 then (address, c, False)
         else (address, c[a := v, a + 1 := 0], True))
      else (address, c, False))"

lemma read_units_address: "read_units cfg ops b i al = Some (n, log) \<Longrightarrow> fst al \<le> n"
  by (cases al) (auto simp: read_units_def split: option.splits)

lemma playback_multibyte_tail_address:
  assumes "playback_multibyte_tail cfg ops b address log l = Some (n, log')"
  shows "address \<le> n"
proof -
  have step: "address \<le> fst al'" if "address \<le> fst al" "(if c then read_units cfg ops b i al else Some al) = Some al'" for c i al al'
    using that read_units_address[of cfg ops b i al "fst al'" "snd al'"] by (auto split: if_splits)
  from assms show ?thesis
    using step[of "(address, log)"] step
    by (auto simp: playback_multibyte_tail_def split: write_size.splits option.splits) (metis fst_conv order.refl)+
qed

lemma playback_multibyte_address:
  assumes "playback_multibyte cfg ops b address log c = (n, c', ok)"
  shows "address \<le> n"
proof (cases "playback_multibyte_head cfg ops b address log")
  case (Some al)
  obtain a1 log1 where al: "al = (a1, log1)" by (cases al)
  have a1: "address \<le> a1"
    using Some read_units_address[of cfg ops b 1 "(address, log)" a1 log1]
    by (auto simp: playback_multibyte_head_def al split: if_splits)
  have tail: "a1 \<le> a2" if "playback_multibyte_tail cfg ops b a1 log1 l = Some (a2, log2)" for l a2 log2
    using that by (rule playback_multibyte_tail_address)
  from assms a1 show ?thesis
    by (auto simp: playback_multibyte_def Some al Let_def split: if_splits option.splits dest!: tail)
qed (use assms in \<open>simp add: playback_multibyte_def\<close>)

lemma playback_entry_address:
  assumes "playback_entry cfg ops junk b u address c = (n, c', ok)"
  shows "address \<le> n"
  using assms by (auto simp: playback_entry_def Let_def split: if_splits dest: playback_multibyte_address)

lemma WS_pos [simp]: "0 < WS cfg"
  by (cases "BACKING_STORE_WRITE_SIZE cfg") auto

text \<open>The loop over the log: the address it ends at, the cache, and whether it failed.\<close>

function playback_loop ::
  "wear_leveling_cfg \<Rightarrow> 'b backing_store_ops \<Rightarrow> u8 list \<Rightarrow> 'b \<Rightarrow> nat \<Rightarrow> u8 list
    \<Rightarrow> nat \<times> u8 list \<times> wear_leveling_status_t" where
  "playback_loop cfg ops junk b address c =
     (if WEAR_LEVELING_BACKING_SIZE cfg \<le> address then (address, c, WEAR_LEVELING_SUCCESS)
      else case backing_store_read ops address b of
        None \<Rightarrow> (address, c, WEAR_LEVELING_FAILED)
      | Some u \<Rightarrow>
          if (\<forall>x \<in> set u. x = 0) then (address, c, WEAR_LEVELING_SUCCESS)
          else case playback_entry cfg ops junk b u (address + WS cfg) c of
            (address', c', ok) \<Rightarrow>
              if ok then playback_loop cfg ops junk b address' c' else (address', c', WEAR_LEVELING_FAILED))"
  by pat_completeness auto
termination
proof (relation "measure (\<lambda>(cfg, ops, junk, b, address, c). WEAR_LEVELING_BACKING_SIZE cfg - address)", goal_cases)
  case (2 cfg ops junk b address c u address' q c' ok)
  then have "playback_entry cfg ops junk b u (address + WS cfg) c = (address', c', ok)" by simp
  then have "address + WS cfg \<le> address'" by (rule playback_entry_address)
  with 2(1) show ?case using WS_pos[of cfg] by (simp add: diff_less_mono2 del: WS_pos)
qed simp

declare playback_loop.simps [simp del]

definition wear_leveling_playback_log ::
  "wear_leveling_cfg \<Rightarrow> 'b backing_store_ops \<Rightarrow> u8 list \<Rightarrow> 'b wear_leveling
    \<Rightarrow> 'b wear_leveling \<times> wear_leveling_status_t" where
  "wear_leveling_playback_log cfg ops junk s =
     (case playback_loop cfg ops junk (store s) (log_start cfg) (cache s) of (address, c, status) \<Rightarrow>
        let s = s\<lparr>cache := c, write_address := address\<rparr>
        in if status = WEAR_LEVELING_FAILED then wear_leveling_consolidate_force cfg ops s
           else wear_leveling_consolidate_if_needed cfg ops s)"

section \<open>The public functions\<close>

definition wear_leveling_init ::
  "wear_leveling_cfg \<Rightarrow> 'b backing_store_ops \<Rightarrow> u8 list \<Rightarrow> 'b wear_leveling
    \<Rightarrow> 'b wear_leveling \<times> wear_leveling_status_t" where
  "wear_leveling_init cfg ops junk s =
     (let s = wear_leveling_clear_cache cfg s;
          (b, ok) = backing_store_init ops (store s);
          s = s\<lparr>store := b\<rparr>
      in if \<not> ok then (wear_leveling_clear_cache cfg s, WEAR_LEVELING_FAILED)
         else case wear_leveling_read_consolidated cfg ops junk s of (s, status) \<Rightarrow>
           if status = WEAR_LEVELING_FAILED then (wear_leveling_clear_cache cfg s, status)
           else case wear_leveling_playback_log cfg ops junk s of (s, status) \<Rightarrow>
             if status = WEAR_LEVELING_FAILED then (wear_leveling_clear_cache cfg s, status)
             else (s, status))"

definition wear_leveling_erase ::
  "wear_leveling_cfg \<Rightarrow> 'b backing_store_ops \<Rightarrow> 'b wear_leveling
    \<Rightarrow> 'b wear_leveling \<times> wear_leveling_status_t" where
  "wear_leveling_erase cfg ops s =
     (case wear_leveling_unlock ops s of (s, lock_status) \<Rightarrow>
        if lock_status = STATUS_FAILURE then (fst (wear_leveling_lock ops s), WEAR_LEVELING_FAILED)
        else
          let (b, ret) = backing_store_erase ops (store s);
              s = wear_leveling_clear_cache cfg (s\<lparr>store := b\<rparr>);
              (s, ret) =
                (if lock_status = STATUS_SUCCESS
                 then (case wear_leveling_lock ops s of (s, st) \<Rightarrow> (s, ret \<and> st \<noteq> STATUS_FAILURE))
                 else (s, ret))
          in (s, if ret then WEAR_LEVELING_SUCCESS else WEAR_LEVELING_FAILED))"

text \<open>
  The check \<open>address + length > WEAR_LEVELING_LOGICAL_SIZE\<close> adds two unsigned integers of 32 bits;
  the accesses after it run from \<open>address\<close> over \<open>length\<close> bytes of the cache.
\<close>

definition out_of_range :: "wear_leveling_cfg \<Rightarrow> u32 \<Rightarrow> nat \<Rightarrow> bool" where
  "out_of_range cfg address len \<longleftrightarrow> WEAR_LEVELING_LOGICAL_SIZE cfg < unat (address + of_nat len)"

definition wear_leveling_write ::
  "wear_leveling_cfg \<Rightarrow> 'b backing_store_ops \<Rightarrow> u32 \<Rightarrow> u8 list \<Rightarrow> 'b wear_leveling
    \<Rightarrow> ('b wear_leveling \<times> wear_leveling_status_t) option" where
  "wear_leveling_write cfg ops address v s =
     (if out_of_range cfg address (length v) then Some (s, WEAR_LEVELING_FAILED)
      else if length (cache s) < unat address + length v then None
      else if take (length v) (drop (unat address) (cache s)) = v then Some (s, WEAR_LEVELING_SUCCESS)
      else
        let s = s\<lparr>cache := memcpy_at (cache s) (unat address) v\<rparr>
        in case wear_leveling_unlock ops s of (s, lock_status) \<Rightarrow>
          if lock_status = STATUS_FAILURE then Some (fst (wear_leveling_lock ops s), WEAR_LEVELING_FAILED)
          else
            let (s, status) = wear_leveling_write_raw cfg ops address v s;
                (s, status) =
                  (case status of
                     WEAR_LEVELING_CONSOLIDATED \<Rightarrow> (s, status)
                   | WEAR_LEVELING_FAILED \<Rightarrow> (s, status)
                   | WEAR_LEVELING_SUCCESS \<Rightarrow> wear_leveling_consolidate_if_needed cfg ops s);
                (s, status) =
                  (if lock_status = STATUS_SUCCESS
                   then (case wear_leveling_lock ops s of (s, st) \<Rightarrow>
                           (s, if st = STATUS_FAILURE then WEAR_LEVELING_FAILED else status))
                   else (s, status))
            in Some (s, status))"

definition wear_leveling_read ::
  "wear_leveling_cfg \<Rightarrow> u32 \<Rightarrow> nat \<Rightarrow> 'b wear_leveling
    \<Rightarrow> (u8 list option \<times> wear_leveling_status_t) option" where
  "wear_leveling_read cfg address len s =
     (if out_of_range cfg address len then Some (None, WEAR_LEVELING_FAILED)
      else if length (cache s) < unat address + len then None
      else Some (Some (take len (drop (unat address) (cache s))), WEAR_LEVELING_SUCCESS))"

end
