(* ===== verification/Wear_Contract.thy ===== *)
theory Wear_Contract
  imports Wear_Leveling
begin

text \<open>
  What the wear-leveling algorithm expects of a backing store, as a locale, and what it gives in
  return: the cache is the memory of the writes made, and a start-up from the bytes left in the
  store restores it.

  \<open>data\<close> are the bytes a store holds as the algorithm sees them (erased is 0), \<open>opened\<close> tells
  whether it is unlocked.
\<close>

section \<open>The contract\<close>

text \<open>The static assertions, and what the log format and the first append need beyond them.\<close>

definition wear_leveling_cfg_ok :: "wear_leveling_cfg \<Rightarrow> bool" where
  "wear_leveling_cfg_ok cfg \<longleftrightarrow>
     WS cfg dvd WEAR_LEVELING_LOGICAL_SIZE cfg \<and> WS cfg dvd WEAR_LEVELING_BACKING_SIZE cfg
     \<and> log_start cfg < WEAR_LEVELING_BACKING_SIZE cfg \<and> WEAR_LEVELING_LOGICAL_SIZE cfg \<le> 2 ^ 19"

locale backing_store =
  fixes cfg :: wear_leveling_cfg
    and ops :: "'b backing_store_ops"
    and valid :: "'b \<Rightarrow> bool"
    and data :: "'b \<Rightarrow> u8 list"
    and opened :: "'b \<Rightarrow> bool"
  assumes cfg_ok: "wear_leveling_cfg_ok cfg"
    and data_length: "valid b \<Longrightarrow> length (data b) = WEAR_LEVELING_BACKING_SIZE cfg"
    and init_law: "valid b \<Longrightarrow> \<exists>b'. backing_store_init ops b = (b', True)
      \<and> valid b' \<and> data b' = data b \<and> opened b' = opened b"
    and unlock_law: "valid b \<Longrightarrow> \<exists>b'. backing_store_unlock ops b = (b', True)
      \<and> valid b' \<and> data b' = data b \<and> opened b'"
    and lock_law: "valid b \<Longrightarrow> \<exists>b'. backing_store_lock ops b = (b', True)
      \<and> valid b' \<and> data b' = data b \<and> \<not> opened b'"
    and erase_law: "valid b \<Longrightarrow> opened b \<Longrightarrow> \<exists>b'. backing_store_erase ops b = (b', True)
      \<and> valid b' \<and> data b' = replicate (WEAR_LEVELING_BACKING_SIZE cfg) 0 \<and> opened b'"
    and write_law: "valid b \<Longrightarrow> opened b \<Longrightarrow> WS cfg dvd length xs \<Longrightarrow> length u = WS cfg
      \<Longrightarrow> data b = xs @ replicate (WS cfg) 0 @ ys
      \<Longrightarrow> \<exists>b'. backing_store_write ops (length xs) u b = (b', True)
        \<and> valid b' \<and> data b' = xs @ u @ ys \<and> opened b'"
    and read_law: "valid b \<Longrightarrow> WS cfg dvd length xs \<Longrightarrow> length u = WS cfg
      \<Longrightarrow> data b = xs @ u @ ys \<Longrightarrow> backing_store_read ops (length xs) b = Some u"

section \<open>Entries of the log\<close>

datatype log_entry = Multibyte u32 "u8 list" | Optimized_64 u32 u8 | Word_01 u32 u16

fun entry_units :: "wear_leveling_cfg \<Rightarrow> log_entry \<Rightarrow> u8 list list" where
  "entry_units cfg (Multibyte a p) = multibyte_units cfg (BACKING_STORE_WRITE_SIZE cfg)
     (memcpy_at (LOG_ENTRY_MAKE_MULTIBYTE a (length p)) 3 p) (length p)"
| "entry_units cfg (Optimized_64 a v) = [raw cfg (LOG_ENTRY_MAKE_OPTIMIZED_64 a v) 0]"
| "entry_units cfg (Word_01 a v) = [raw cfg (LOG_ENTRY_MAKE_WORD_01 a v) 0]"

fun entry_ok :: "wear_leveling_cfg \<Rightarrow> log_entry \<Rightarrow> bool" where
  "entry_ok cfg (Multibyte a p) \<longleftrightarrow>
     0 < length p \<and> length p \<le> 5 \<and> unat a + length p \<le> WEAR_LEVELING_LOGICAL_SIZE cfg"
| "entry_ok cfg (Optimized_64 a v) \<longleftrightarrow>
     BACKING_STORE_WRITE_SIZE cfg = W2 \<and> unat a < 64 \<and> unat a < WEAR_LEVELING_LOGICAL_SIZE cfg"
| "entry_ok cfg (Word_01 a v) \<longleftrightarrow>
     BACKING_STORE_WRITE_SIZE cfg = W2 \<and> unat a < 2 ^ 14 \<and> even (unat a) \<and> (v = 0 \<or> v = 1)
     \<and> unat a + 1 < WEAR_LEVELING_LOGICAL_SIZE cfg"

fun apply_entry :: "log_entry \<Rightarrow> u8 list \<Rightarrow> u8 list" where
  "apply_entry (Multibyte a p) c = memcpy_at c (unat a) p"
| "apply_entry (Optimized_64 a v) c = memcpy_at c (unat a) [v]"
| "apply_entry (Word_01 a v) c = memcpy_at c (unat a) [ucast v, 0]"

definition log_bytes :: "wear_leveling_cfg \<Rightarrow> log_entry list \<Rightarrow> u8 list" where
  "log_bytes cfg es = concat (concat (map (entry_units cfg) es))"

lemma log_bytes_simps [simp]:
  "log_bytes cfg [] = []"
  "log_bytes cfg (e # es) = concat (entry_units cfg e) @ log_bytes cfg es"
  by (simp_all add: log_bytes_def)

lemma make_lengths:
  "length (LOG_ENTRY_MAKE_MULTIBYTE a n) = 8"
  "length (LOG_ENTRY_MAKE_OPTIMIZED_64 a v) = 8"
  "length (LOG_ENTRY_MAKE_WORD_01 a w) = 8"
  by (simp_all add: log_macros)

lemma entry_units_length: "entry_ok cfg e \<Longrightarrow> \<forall>u \<in> set (entry_units cfg e). length u = WS cfg"
  by (cases "BACKING_STORE_WRITE_SIZE cfg"; cases e)
    (auto simp: raw_def make_lengths)

lemma concat_length_dvd: "(\<forall>u \<in> set us. length u = w) \<Longrightarrow> w dvd length (concat us)"
  by (induction us) auto

lemma entry_dvd: "entry_ok cfg e \<Longrightarrow> WS cfg dvd length (concat (entry_units cfg e))"
  by (rule concat_length_dvd) (rule entry_units_length)

lemma log_bytes_dvd: "\<forall>e \<in> set es. entry_ok cfg e \<Longrightarrow> WS cfg dvd length (log_bytes cfg es)"
  by (induction es) (auto simp: entry_dvd)

lemma apply_entry_length [simp]:
  "entry_ok cfg e \<Longrightarrow> length c = WEAR_LEVELING_LOGICAL_SIZE cfg
    \<Longrightarrow> length (apply_entry e c) = WEAR_LEVELING_LOGICAL_SIZE cfg"
  by (cases e) auto

lemma fold_apply_length:
  "\<forall>e \<in> set es. entry_ok cfg e \<Longrightarrow> length c = WEAR_LEVELING_LOGICAL_SIZE cfg
    \<Longrightarrow> length (fold apply_entry es c) = WEAR_LEVELING_LOGICAL_SIZE cfg"
  by (induction es arbitrary: c) auto

lemma log_start_dvd: "wear_leveling_cfg_ok cfg \<Longrightarrow> WS cfg dvd log_start cfg"
  by (cases "BACKING_STORE_WRITE_SIZE cfg") (auto simp: wear_leveling_cfg_ok_def)

lemma checksum_length [simp]: "length (checksum cfg c) = 8"
  by (simp add: checksum_def)

section \<open>Writing under the contract\<close>

context backing_store
begin

abbreviation "B \<equiv> WEAR_LEVELING_BACKING_SIZE cfg"
abbreviation "L \<equiv> WEAR_LEVELING_LOGICAL_SIZE cfg"

definition written :: "'b \<Rightarrow> u8 list \<Rightarrow> bool" where
  "written b xs \<longleftrightarrow> valid b \<and> length xs \<le> B \<and> data b = xs @ replicate (B - length xs) 0"

definition log_state :: "'b wear_leveling \<Rightarrow> u8 list \<Rightarrow> bool" where
  "log_state s xs \<longleftrightarrow> unlocked s \<and> opened (store s) \<and> written (store s) xs
     \<and> write_address s = length xs \<and> WS cfg dvd length xs \<and> length xs < B \<and> length (cache s) = L"

text \<open>The outcome of appending: the bytes \<open>xs\<close> are in the log, or the cache was consolidated.\<close>

definition appended :: "'b wear_leveling \<Rightarrow> u8 list \<Rightarrow> 'b wear_leveling \<times> wear_leveling_status_t \<Rightarrow> bool" where
  "appended s xs r \<longleftrightarrow> cache (fst r) = cache s
     \<and> (snd r = WEAR_LEVELING_SUCCESS \<and> log_state (fst r) xs
        \<or> snd r = WEAR_LEVELING_CONSOLIDATED \<and> log_state (fst r) (cache s @ checksum cfg (cache s)))"

lemma dvd_sizes: "WS cfg dvd L" "WS cfg dvd B" "WS cfg dvd log_start cfg" "log_start cfg < B" "L \<le> 2 ^ 19"
  using cfg_ok log_start_dvd[OF cfg_ok] by (simp_all add: wear_leveling_cfg_ok_def)

lemma unit_fits: "WS cfg dvd n \<Longrightarrow> n < B \<Longrightarrow> n + WS cfg \<le> B"
  using dvd_sizes(2) by (metis add_diff_inverse_nat dvd_diff_nat dvd_imp_le less_or_eq_imp_le nat_add_left_cancel_le
      not_less zero_less_diff)

lemma write_unit:
  assumes "written b xs" "opened b" "WS cfg dvd length xs" "length xs < B" "length u = WS cfg"
  shows "\<exists>b'. backing_store_write ops (length xs) u b = (b', True) \<and> written b' (xs @ u) \<and> opened b'"
proof -
  have fits: "length xs + WS cfg \<le> B" using assms(3,4) by (rule unit_fits)
  then have "replicate (B - length xs) 0 = replicate (WS cfg) 0 @ replicate (B - (length xs + WS cfg)) (0 :: u8)"
    by (simp add: replicate_add[symmetric])
  with assms write_law[of b xs u "replicate (B - (length xs + WS cfg)) 0"] fits
  show ?thesis by (auto simp: written_def)
qed

lemma write_bulk:
  assumes "written b xs" "opened b" "WS cfg dvd length xs" "\<forall>u \<in> set us. length u = WS cfg"
    and "length xs + length (concat us) \<le> B"
  shows "\<exists>b'. backing_store_write_bulk ops (WS cfg) (length xs) us b = (b', True)
    \<and> written b' (xs @ concat us) \<and> opened b'"
  using assms
proof (induction us arbitrary: xs b)
  case (Cons u us)
  have "length xs < B" using Cons.prems(4,5) WS_pos[of cfg] by (simp del: WS_pos)
  then obtain b' where b': "backing_store_write ops (length xs) u b = (b', True)" "written b' (xs @ u)" "opened b'"
    using write_unit[of b xs u] Cons.prems by auto
  have "\<exists>b2. backing_store_write_bulk ops (WS cfg) (length (xs @ u)) us b' = (b2, True)
      \<and> written b2 ((xs @ u) @ concat us) \<and> opened b2"
    using Cons.prems b' by (intro Cons.IH) auto
  then show ?case using b'(1) Cons.prems(4) by auto
qed auto

lemma write_bulk_units:
  assumes "written b xs" "opened b" "WS cfg dvd length xs" "WS cfg dvd length ys" "length xs + length ys \<le> B"
  shows "\<exists>b'. backing_store_write_bulk ops (WS cfg) (length xs) (units (WS cfg) ys) b = (b', True)
    \<and> written b' (xs @ ys) \<and> opened b'"
  using write_bulk[OF assms(1-3), of "units (WS cfg) ys"] assms(4,5)
  by (simp add: concat_units units_lengths)

lemma consolidate_force:
  assumes "unlocked s" "opened (store s)" "valid (store s)" "length (cache s) = L"
  shows "\<exists>b. wear_leveling_consolidate_force cfg ops s
      = (s\<lparr>store := b, write_address := log_start cfg\<rparr>, WEAR_LEVELING_CONSOLIDATED)
    \<and> written b (cache s @ checksum cfg (cache s)) \<and> opened b"
proof -
  obtain b1 where b1: "backing_store_erase ops (store s) = (b1, True)" "written b1 []" "opened b1"
    using erase_law[OF assms(3,2)] by (auto simp: written_def)
  have "\<exists>b2. backing_store_write_bulk ops (WS cfg) (length ([] :: u8 list)) (units (WS cfg) (cache s)) b1 = (b2, True)
      \<and> written b2 ([] @ cache s) \<and> opened b2"
    using b1 dvd_sizes assms(4) by (intro write_bulk_units) auto
  then obtain b2 where b2: "backing_store_write_bulk ops (WS cfg) 0 (units (WS cfg) (cache s)) b1 = (b2, True)"
      "written b2 (cache s)" "opened b2" by auto
  have "WS cfg dvd 8" by (cases "BACKING_STORE_WRITE_SIZE cfg") auto
  then have "\<exists>b3. backing_store_write_bulk ops (WS cfg) (length (cache s))
      (units (WS cfg) (checksum cfg (cache s))) b2 = (b3, True)
      \<and> written b3 (cache s @ checksum cfg (cache s)) \<and> opened b3"
    using b2 dvd_sizes assms(4) by (intro write_bulk_units) auto
  then obtain b3 where b3: "backing_store_write_bulk ops (WS cfg) L
      (units (WS cfg) (checksum cfg (cache s))) b2 = (b3, True)"
      "written b3 (cache s @ checksum cfg (cache s))" "opened b3" using assms(4) by auto
  have "wear_leveling_write_consolidated cfg ops (s\<lparr>store := b1\<rparr>) = (s\<lparr>store := b3\<rparr>, WEAR_LEVELING_CONSOLIDATED)"
    using assms(1) b2(1) b3(1) by (simp add: wear_leveling_write_consolidated_def wear_leveling_unlock_def)
  then show ?thesis using b1(1) b3 by (intro exI[of _ b3]) (simp add: wear_leveling_consolidate_force_def)
qed

lemma consolidated_state:
  assumes "written b (c @ checksum cfg c)" "opened b" "unlocked s" "cache s = c" "length c = L"
  shows "log_state (s\<lparr>store := b, write_address := log_start cfg\<rparr>) (c @ checksum cfg c)"
  using assms dvd_sizes by (simp add: log_state_def)

lemma append_raw:
  assumes "log_state s xs" "length u = WS cfg"
  shows "appended s (xs @ u) (wear_leveling_append_raw cfg ops u s)"
proof -
  note s = assms(1)[unfolded log_state_def]
  obtain b where b: "backing_store_write ops (length xs) u (store s) = (b, True)" "written b (xs @ u)" "opened b"
    using write_unit[of "store s" xs u] s assms(2) by auto
  let ?s = "s\<lparr>store := b, write_address := length xs + WS cfg\<rparr>"
  have r: "wear_leveling_append_raw cfg ops u s = wear_leveling_consolidate_if_needed cfg ops ?s"
    using b(1) s by (simp add: wear_leveling_append_raw_def)
  show ?thesis
  proof (cases "B \<le> length xs + WS cfg")
    case False
    then show ?thesis using s b assms(2)
      by (simp add: r wear_leveling_consolidate_if_needed_def appended_def log_state_def)
  next
    case True
    have "valid b" using b(2) by (simp add: written_def)
    then obtain b' where b': "wear_leveling_consolidate_force cfg ops ?s
        = (?s\<lparr>store := b', write_address := log_start cfg\<rparr>, WEAR_LEVELING_CONSOLIDATED)"
      "written b' (cache s @ checksum cfg (cache s))" "opened b'"
      using consolidate_force[of ?s] s b(3) by auto
    then show ?thesis using True s consolidated_state[OF b'(2,3), of ?s]
      by (simp add: r wear_leveling_consolidate_if_needed_def appended_def)
  qed
qed

lemma append_each:
  assumes "log_state s xs" "\<forall>u \<in> set us. length u = WS cfg"
  shows "appended s (xs @ concat us) (append_each cfg ops us s)"
  using assms
proof (induction us arbitrary: s xs)
  case Nil
  then show ?case by (simp add: appended_def)
next
  case (Cons u us)
  obtain s1 st where r: "wear_leveling_append_raw cfg ops u s = (s1, st)" by (cases "wear_leveling_append_raw cfg ops u s")
  have a: "appended s (xs @ u) (s1, st)" using append_raw[of s xs u] Cons.prems r by simp
  show ?case
  proof (cases "st = WEAR_LEVELING_SUCCESS")
    case True
    with a have s1: "log_state s1 (xs @ u)" "cache s1 = cache s" by (auto simp: appended_def)
    then have "appended s1 ((xs @ u) @ concat us) (append_each cfg ops us s1)"
      using Cons.prems by (intro Cons.IH) auto
    then show ?thesis using True r s1(2) by (simp add: appended_def)
  next
    case False
    then show ?thesis using a r by (simp add: appended_def)
  qed
qed

lemma append_entry:
  assumes "log_state s xs" "entry_ok cfg e"
  shows "appended s (xs @ concat (entry_units cfg e)) (append_each cfg ops (entry_units cfg e) s)"
  using assms by (intro append_each entry_units_length)

end

end
