(* ===== verification/Wear_Recovery.thy ===== *)
theory Wear_Recovery
  imports Wear_Contract
begin

text \<open>
  The write log read back: what \<open>wear_leveling_write_raw\<close> appends is a run of entries whose
  replay is the write, the playback of a run of entries applies them in order, and so a start-up
  restores the cache.
\<close>

section \<open>The entries a write appends\<close>

lemma word_halves:
  fixes x y :: u8
  defines "v \<equiv> push_bit 8 (ucast y) OR ucast x :: u16"
  shows "ucast (drop_bit 8 v) = y" and "ucast v = x"
  unfolding v_def by (rule bit_word_eqI, use bit_imp_le_length[of x] in \<open>auto simp: bit_simps\<close>)+

lemma word_01_halves:
  fixes x y :: u8
  assumes "v = 0 \<or> v = 1" "v = (push_bit 8 (ucast y) OR ucast x :: u16)"
  shows "[x, y] = [ucast v, 0]"
proof -
  have "ucast (drop_bit 8 v) = y" "ucast v = x" unfolding assms(2) by (rule word_halves)+
  moreover have "drop_bit 8 v = 0" using assms(1) by (auto simp: drop_bit_eq_div)
  ultimately show ?thesis by simp
qed

lemma append_each_one: "append_each cfg ops [u] s = wear_leveling_append_raw cfg ops u s"
  by (auto split: prod.split)

lemma even_u32: "(address :: u32) mod 2 = 0 \<longleftrightarrow> even (unat address)"
proof -
  have "unat (address mod 2) = unat address mod 2" by (simp add: unat_mod)
  then show ?thesis by (metis even_iff_mod_2_eq_zero unat_eq_0_iff)
qed

definition writes_first :: "wear_leveling_cfg \<Rightarrow> u32 \<Rightarrow> u8 list \<Rightarrow> log_entry \<Rightarrow> nat \<Rightarrow> bool" where
  "writes_first cfg address p e k \<longleftrightarrow>
     0 < k \<and> k \<le> length p \<and> entry_ok cfg e
     \<and> (\<forall>c. apply_entry e c = memcpy_at c (unat address) (take k p))"

lemma write_raw_first:
  assumes "p \<noteq> []" "unat address + length p \<le> WEAR_LEVELING_LOGICAL_SIZE cfg"
  shows "\<exists>e k. writes_first cfg address p e k
    \<and> (\<forall>s. wear_leveling_write_raw cfg ops address p s =
          (case append_each cfg ops (entry_units cfg e) s of (s, status) \<Rightarrow>
             if status \<noteq> WEAR_LEVELING_SUCCESS then (s, status)
             else wear_leveling_write_raw cfg ops (address + of_nat k) (drop k p) s))"
proof -
  let ?v = "push_bit 8 (ucast (p ! 1)) OR ucast (p ! 0) :: u16"
  let ?word = "BACKING_STORE_WRITE_SIZE cfg = W2 \<and> 2 \<le> length p \<and> address mod 2 = 0
      \<and> address < 16384 \<and> (?v = 0 \<or> ?v = 1)"
  let ?opt = "BACKING_STORE_WRITE_SIZE cfg = W2 \<and> address < 64"
  consider (word) ?word | (opt) "\<not> ?word" ?opt | (multi) "\<not> ?word" "\<not> ?opt" by blast
  then show ?thesis
  proof cases
    case word
    have "take 2 p = [p ! 0, p ! 1]"
      using word by (cases p rule: remdups_adj.cases) auto
    also have "\<dots> = [ucast ?v, 0]" using word by (intro word_01_halves) auto
    finally have "take 2 p = [ucast ?v, 0]" .
    then have "writes_first cfg address p (Word_01 address ?v) 2"
      using word assms(2) by (auto simp: writes_first_def even_u32 word_less_nat_alt)
    moreover have "wear_leveling_write_raw cfg ops address p s =
        (case append_each cfg ops (entry_units cfg (Word_01 address ?v)) s of (s, status) \<Rightarrow>
           if status \<noteq> WEAR_LEVELING_SUCCESS then (s, status)
           else wear_leveling_write_raw cfg ops (address + of_nat 2) (drop 2 p) s)" for s
      unfolding entry_units.simps append_each_one
      by (subst wear_leveling_write_raw.simps) (simp only: word assms(1) simp_thms if_True if_False Let_def of_nat_numeral)
    ultimately show ?thesis by blast
  next
    case opt
    have "unat address < WEAR_LEVELING_LOGICAL_SIZE cfg" "take 1 p = [p ! 0]" "1 \<le> length p"
      using assms by (cases p; simp)+
    then have "writes_first cfg address p (Optimized_64 address (p ! 0)) 1"
      using opt(2) by (simp add: writes_first_def word_less_nat_alt)
    moreover have "wear_leveling_write_raw cfg ops address p s =
        (case append_each cfg ops (entry_units cfg (Optimized_64 address (p ! 0))) s of (s, status) \<Rightarrow>
           if status \<noteq> WEAR_LEVELING_SUCCESS then (s, status)
           else wear_leveling_write_raw cfg ops (address + of_nat 1) (drop 1 p) s)" for s
      unfolding entry_units.simps append_each_one
      by (subst wear_leveling_write_raw.simps) (simp only: if_not_P[OF assms(1)] if_not_P[OF opt(1)] if_P[OF opt(2)] of_nat_1)
    ultimately show ?thesis by blast
  next
    case multi
    define k where "k = (if LOG_ENTRY_MULTIBYTE_MAX_BYTES \<le> length p then LOG_ENTRY_MULTIBYTE_MAX_BYTES else length p)"
    have k: "0 < k" "k \<le> length p" "k \<le> 5"
      using assms(1) by (auto simp: k_def LOG_ENTRY_MULTIBYTE_MAX_BYTES_def)
    then have "writes_first cfg address p (Multibyte address (take k p)) k"
      using assms(2) by (auto simp: writes_first_def)
    moreover have "wear_leveling_write_raw cfg ops address p s =
        (case append_each cfg ops (entry_units cfg (Multibyte address (take k p))) s of (s, status) \<Rightarrow>
           if status \<noteq> WEAR_LEVELING_SUCCESS then (s, status)
           else wear_leveling_write_raw cfg ops (address + of_nat k) (drop k p) s)" for s
      unfolding entry_units.simps wear_leveling_write_raw_multibyte_def[unfolded Let_def, symmetric]
      by (subst wear_leveling_write_raw.simps) (simp only: multi assms(1) k_def[symmetric] if_False Let_def)
    ultimately show ?thesis by blast
  qed
qed

lemma u32_add: "unat (address :: u32) + k \<le> n \<Longrightarrow> n \<le> 2 ^ 19 \<Longrightarrow> unat (address + of_nat k) = unat address + k"
  by (simp add: unat_word_ariths unat_of_nat_mod)

context backing_store
begin

definition write_entries :: "u32 \<Rightarrow> u8 list \<Rightarrow> log_entry list \<Rightarrow> bool" where
  "write_entries address p es \<longleftrightarrow> (\<forall>e \<in> set es. entry_ok cfg e)
    \<and> (\<forall>c. length c = L \<longrightarrow> fold apply_entry es c = memcpy_at c (unat address) p)
    \<and> (\<forall>s xs. log_state s xs \<longrightarrow> appended s (xs @ log_bytes cfg es) (wear_leveling_write_raw cfg ops address p s))"

lemma write_raw:
  assumes "unat address + length p \<le> L"
  shows "\<exists>es. write_entries address p es"
  using assms
proof (induction "length p" arbitrary: address p rule: less_induct)
  case less
  show ?case
  proof (cases "p = []")
    case True
    then show ?thesis
      by (intro exI[of _ "[]"]) (simp add: write_entries_def appended_def wear_leveling_write_raw.simps)
  next
    case False
    obtain e k where first: "writes_first cfg address p e k"
      and step: "\<And>s. wear_leveling_write_raw cfg ops address p s =
          (case append_each cfg ops (entry_units cfg e) s of (s, status) \<Rightarrow>
             if status \<noteq> WEAR_LEVELING_SUCCESS then (s, status)
             else wear_leveling_write_raw cfg ops (address + of_nat k) (drop k p) s)"
      using write_raw_first[OF False less.prems, of ops] by blast
    have k: "0 < k" "k \<le> length p" "entry_ok cfg e"
      and e: "\<And>c. apply_entry e c = memcpy_at c (unat address) (take k p)"
      using first by (auto simp: writes_first_def)
    have a: "unat (address + of_nat k) = unat address + k"
      by (rule u32_add[of _ _ L]) (use less.prems k(2) dvd_sizes in auto)
    have "length (drop k p) < length p" using k by simp
    moreover have "unat (address + of_nat k) + length (drop k p) \<le> L" using a k less.prems by simp
    ultimately obtain es where es: "\<forall>e \<in> set es. entry_ok cfg e"
      and replay: "\<And>c. length c = L \<Longrightarrow> fold apply_entry es c = memcpy_at c (unat address + k) (drop k p)"
      and rest: "\<And>s xs. log_state s xs \<Longrightarrow> appended s (xs @ log_bytes cfg es)
          (wear_leveling_write_raw cfg ops (address + of_nat k) (drop k p) s)"
      using less.hyps[of "drop k p" "address + of_nat k"] a by (auto simp: write_entries_def)
    have all: "fold apply_entry (e # es) c = memcpy_at c (unat address) p" if c: "length c = L" for c
    proof -
      have "fold apply_entry (e # es) c = memcpy_at (memcpy_at c (unat address) (take k p)) (unat address + k) (drop k p)"
        using replay[OF apply_entry_length[OF k(3) c]] by (simp add: e)
      also have "\<dots> = memcpy_at c (unat address) p"
        using memcpy_at_append[of "unat address" "take k p" c "drop k p"] k less.prems c by simp
      finally show ?thesis .
    qed
    have app: "appended s (xs @ log_bytes cfg (e # es)) (wear_leveling_write_raw cfg ops address p s)"
      if s: "log_state s xs" for s xs
    proof -
      obtain s1 st where r: "append_each cfg ops (entry_units cfg e) s = (s1, st)"
        by (cases "append_each cfg ops (entry_units cfg e) s")
      have app: "appended s (xs @ concat (entry_units cfg e)) (s1, st)"
        using append_entry[OF s k(3)] r by simp
      show ?thesis
      proof (cases "st = WEAR_LEVELING_SUCCESS")
        case True
        with app have "log_state s1 (xs @ concat (entry_units cfg e))" "cache s1 = cache s"
          by (auto simp: appended_def)
        then show ?thesis using rest[of s1 "xs @ concat (entry_units cfg e)"] True
          by (simp add: step r appended_def)
      next
        case False
        then show ?thesis using app by (simp add: step r appended_def)
      qed
    qed
    have "\<forall>e \<in> set (e # es). entry_ok cfg e" using es k(3) by simp
    with all app have "write_entries address p (e # es)" unfolding write_entries_def by blast
    then show ?thesis by (rule exI)
  qed
qed

end

section \<open>Playback\<close>

lemma get_type_first: "LOG_ENTRY_GET_TYPE (x # xs) = LOG_ENTRY_GET_TYPE (x # ys)"
  by (simp add: LOG_ENTRY_GET_TYPE_def)

lemma get_length_first: "LOG_ENTRY_MULTIBYTE_GET_LENGTH (x # xs) = LOG_ENTRY_MULTIBYTE_GET_LENGTH (x # ys)"
  by (simp add: LOG_ENTRY_MULTIBYTE_GET_LENGTH_def)

lemma get_address_first:
  "LOG_ENTRY_MULTIBYTE_GET_ADDRESS (x # y # z # xs) = LOG_ENTRY_MULTIBYTE_GET_ADDRESS (x # y # z # ys)"
  by (simp add: LOG_ENTRY_MULTIBYTE_GET_ADDRESS_def)

lemma multibyte_header:
  assumes "0 < n" "n < 8" "unat a < 2 ^ 19"
  obtains h0 h1 h2 where "LOG_ENTRY_MAKE_MULTIBYTE a n = [h0, h1, h2, 0, 0, 0, 0, 0]" "h0 \<noteq> 0"
    "\<And>r. LOG_ENTRY_GET_TYPE (h0 # r) = LOG_ENTRY_TYPE_MULTIBYTE"
    "\<And>r. LOG_ENTRY_MULTIBYTE_GET_LENGTH (h0 # r) = of_nat n"
    "\<And>r. LOG_ENTRY_MULTIBYTE_GET_ADDRESS (h0 # h1 # h2 # r) = a"
proof -
  obtain h0 h1 h2 where h: "LOG_ENTRY_MAKE_MULTIBYTE a n = [h0, h1, h2, 0, 0, 0, 0, 0]"
    by (simp add: LOG_ENTRY_MAKE_MULTIBYTE_def)
  have len: "LOG_ENTRY_MULTIBYTE_GET_LENGTH (h0 # r) = of_nat n" for r
    using multibyte_length[of n a] assms(2) h get_length_first[of h0 r] by metis
  have "LOG_ENTRY_GET_TYPE (h0 # r) = LOG_ENTRY_TYPE_MULTIBYTE" for r
    using multibyte_type[of a n] h get_type_first[of h0 r] by (metis LOG_ENTRY_TYPE_MULTIBYTE_def)
  moreover have "LOG_ENTRY_MULTIBYTE_GET_ADDRESS (h0 # h1 # h2 # r) = a" for r
    using multibyte_address[of a n] assms(3) h get_address_first[of h0 h1 h2 r] by metis
  moreover have "h0 \<noteq> 0"
  proof
    assume "h0 = 0"
    then have "(of_nat n :: u8) = 0"
      using len[of "[]"] by (simp add: LOG_ENTRY_MULTIBYTE_GET_LENGTH_def)
    then have "unat (of_nat n :: u8) = 0" by simp
    then show False using assms(1,2) by (simp add: unat_of_nat_mod)
  qed
  ultimately show thesis using that h len by blast
qed

lemma list_1_to_5:
  assumes "0 < length p" "length p \<le> 5"
  obtains (1) v0 where "p = [v0]" | (2) v0 v1 where "p = [v0, v1]" | (3) v0 v1 v2 where "p = [v0, v1, v2]"
    | (4) v0 v1 v2 v3 where "p = [v0, v1, v2, v3]" | (5) v0 v1 v2 v3 v4 where "p = [v0, v1, v2, v3, v4]"
proof -
  have "length p = 1 \<or> length p = 2 \<or> length p = 3 \<or> length p = 4 \<or> length p = 5" using assms by linarith
  then show thesis
    using that by (auto simp: length_Suc_conv eval_nat_numeral)
qed

context backing_store
begin

lemma read_units_at:
  assumes "valid b" "WS cfg dvd length xs" "length u = WS cfg" "data b = xs @ u @ ys"
  shows "read_units cfg ops b i (length xs, log) = Some (length (xs @ u), memcpy_at log (i * WS cfg) u)"
  using read_law[OF assms] assms(3) by (simp add: read_units_def)

lemma playback_multibyte:
  assumes "valid b" "WS cfg dvd length xs" "entry_ok cfg (Multibyte a p)" "length c = L"
    and "data b = xs @ concat (entry_units cfg (Multibyte a p)) @ ys"
  shows "\<exists>u us. entry_units cfg (Multibyte a p) = u # us \<and> length u = WS cfg \<and> (\<exists>x \<in> set u. x \<noteq> 0)
    \<and> playback_entry cfg ops junk b u (length (xs @ u)) c
      = (length (xs @ concat (u # us)), apply_entry (Multibyte a p) c, True)"
proof -
  have p: "0 < length p" "length p \<le> 5" and ap: "unat a + length p \<le> L" using assms(3) by auto
  have a19: "unat a < 2 ^ 19" using p(1) ap dvd_sizes(5) by linarith
  have p8: "length p < 8" using p(2) by simp
  obtain h0 h1 h2 where h: "LOG_ENTRY_MAKE_MULTIBYTE a (length p) = [h0, h1, h2, 0, 0, 0, 0, 0]" "h0 \<noteq> 0"
    and ty: "\<And>r. LOG_ENTRY_GET_TYPE (h0 # r) = LOG_ENTRY_TYPE_MULTIBYTE"
    and len: "\<And>r. LOG_ENTRY_MULTIBYTE_GET_LENGTH (h0 # r) = of_nat (length p)"
    and adr: "\<And>r. LOG_ENTRY_MULTIBYTE_GET_ADDRESS (h0 # h1 # h2 # r) = a"
    using multibyte_header[OF p(1) p8 a19] by metis
  have unat_len: "unat (of_nat (length p) :: u8) = length p"
    using p by (intro unat_of_nat_mod) simp
  have fits: "\<not> L < unat a + length p" using ap by simp
  have d: "data b = xs @ concat (entry_units cfg (Multibyte a p)) @ ys" by (rule assms(5))
  note unfolds = playback_entry_def playback_multibyte_def playback_multibyte_head_def
    playback_multibyte_tail_def memcpy_at_def raw_def Let_def
  have r: "read_units cfg ops b i (length xs + n, log) = Some (length xs + (n + WS cfg), memcpy_at log (i * WS cfg) u)"
    if "data b = xs @ zs @ u @ vs" "length zs = n" "WS cfg dvd n" "length u = WS cfg" for zs u vs n i log
    using read_units_at[of b "xs @ zs" u vs i log] assms(1,2) that by simp
  show ?thesis
  proof (cases "BACKING_STORE_WRITE_SIZE cfg")
    case W2
    have r1: "data b = xs @ y0 # y1 # y2 # y3 # vs
        \<Longrightarrow> read_units cfg ops b (Suc 0) (length xs + 2, log) = Some (length xs + 4, memcpy_at log 2 [y2, y3])"
      for y0 y1 y2 y3 vs log using r[of "[y0, y1]" "[y2, y3]" vs 2 1 log] W2 by simp
    have r2: "data b = xs @ y0 # y1 # y2 # y3 # y4 # y5 # vs
        \<Longrightarrow> read_units cfg ops b 2 (length xs + 4, log) = Some (length xs + 6, memcpy_at log 4 [y4, y5])"
      for y0 y1 y2 y3 y4 y5 vs log using r[of "[y0, y1, y2, y3]" "[y4, y5]" vs 4 2 log] W2 by simp
    have r3: "data b = xs @ y0 # y1 # y2 # y3 # y4 # y5 # y6 # y7 # vs
        \<Longrightarrow> read_units cfg ops b 3 (length xs + 6, log) = Some (length xs + 8, memcpy_at log 6 [y6, y7])"
      for y0 y1 y2 y3 y4 y5 y6 y7 vs log using r[of "[y0, y1, y2, y3, y4, y5]" "[y6, y7]" vs 6 3 log] W2 by simp
    from p show ?thesis
    proof (cases rule: list_1_to_5)
      case (1 v0)
      have d1: "data b = xs @ h0 # h1 # h2 # v0 # ys" using d h(1) 1 W2 by (simp add: memcpy_at_def raw_def)
      show ?thesis using r1[OF d1] 1 W2 h(1,2) ty len adr unat_len fits by (simp add: unfolds)
    next
      case (2 v0 v1)
      have d2: "data b = xs @ h0 # h1 # h2 # v0 # v1 # 0 # ys" using d h(1) 2 W2 by (simp add: memcpy_at_def raw_def)
      show ?thesis using r1[OF d2] r2[OF d2] 2 W2 h(1,2) ty len adr unat_len fits by (simp add: unfolds)
    next
      case (3 v0 v1 v2)
      have d3: "data b = xs @ h0 # h1 # h2 # v0 # v1 # v2 # ys" using d h(1) 3 W2 by (simp add: memcpy_at_def raw_def)
      show ?thesis using r1[OF d3] r2[OF d3] 3 W2 h(1,2) ty len adr unat_len fits by (simp add: unfolds)
    next
      case (4 v0 v1 v2 v3)
      have d4: "data b = xs @ h0 # h1 # h2 # v0 # v1 # v2 # v3 # 0 # ys" using d h(1) 4 W2 by (simp add: memcpy_at_def raw_def)
      show ?thesis using r1[OF d4] r2[OF d4] r3[OF d4] 4 W2 h(1,2) ty len adr unat_len fits by (simp add: unfolds)
    next
      case (5 v0 v1 v2 v3 v4)
      have d5: "data b = xs @ h0 # h1 # h2 # v0 # v1 # v2 # v3 # v4 # ys" using d h(1) 5 W2 by (simp add: memcpy_at_def raw_def)
      show ?thesis using r1[OF d5] r2[OF d5] r3[OF d5] 5 W2 h(1,2) ty len adr unat_len fits by (simp add: unfolds)
    qed
  next
    case W4
    have r1: "data b = xs @ y0 # y1 # y2 # y3 # y4 # y5 # y6 # y7 # vs
        \<Longrightarrow> read_units cfg ops b (Suc 0) (Suc (Suc (Suc (Suc (length xs)))), log)
          = Some (Suc (Suc (Suc (Suc (length xs)))) + 4, memcpy_at log 4 [y4, y5, y6, y7])"
      for y0 y1 y2 y3 y4 y5 y6 y7 vs log
      using r[of "[y0, y1, y2, y3]" "[y4, y5, y6, y7]" vs 4 1 log] W4 by (simp add: numeral_eq_Suc)
    from p show ?thesis
    proof (cases rule: list_1_to_5)
      case (1 v0)
      have d1: "data b = xs @ h0 # h1 # h2 # v0 # ys" using d h(1) 1 W4 by (simp add: memcpy_at_def raw_def)
      show ?thesis using  1 W4 h(1,2) ty len adr unat_len fits by (simp add: unfolds)
    next
      case (2 v0 v1)
      have d2: "data b = xs @ h0 # h1 # h2 # v0 # v1 # 0 # 0 # 0 # ys" using d h(1) 2 W4 by (simp add: memcpy_at_def raw_def)
      show ?thesis using r1[OF d2] 2 W4 h(1,2) ty len adr unat_len fits by (simp add: unfolds)
    next
      case (3 v0 v1 v2)
      have d3: "data b = xs @ h0 # h1 # h2 # v0 # v1 # v2 # 0 # 0 # ys" using d h(1) 3 W4 by (simp add: memcpy_at_def raw_def)
      show ?thesis using r1[OF d3] 3 W4 h(1,2) ty len adr unat_len fits by (simp add: unfolds)
    next
      case (4 v0 v1 v2 v3)
      have d4: "data b = xs @ h0 # h1 # h2 # v0 # v1 # v2 # v3 # 0 # ys" using d h(1) 4 W4 by (simp add: memcpy_at_def raw_def)
      show ?thesis using r1[OF d4] 4 W4 h(1,2) ty len adr unat_len fits by (simp add: unfolds)
    next
      case (5 v0 v1 v2 v3 v4)
      have d5: "data b = xs @ h0 # h1 # h2 # v0 # v1 # v2 # v3 # v4 # ys" using d h(1) 5 W4 by (simp add: memcpy_at_def raw_def)
      show ?thesis using r1[OF d5] 5 W4 h(1,2) ty len adr unat_len fits by (simp add: unfolds)
    qed
  next
    case W8
    from p show ?thesis
    proof (cases rule: list_1_to_5)
      case (1 v0)
      have d1: "data b = xs @ h0 # h1 # h2 # v0 # 0 # 0 # 0 # 0 # ys" using d h(1) 1 W8 by (simp add: memcpy_at_def raw_def)
      show ?thesis using  1 W8 h(1,2) ty len adr unat_len fits by (simp add: unfolds)
    next
      case (2 v0 v1)
      have d2: "data b = xs @ h0 # h1 # h2 # v0 # v1 # 0 # 0 # 0 # ys" using d h(1) 2 W8 by (simp add: memcpy_at_def raw_def)
      show ?thesis using  2 W8 h(1,2) ty len adr unat_len fits by (simp add: unfolds)
    next
      case (3 v0 v1 v2)
      have d3: "data b = xs @ h0 # h1 # h2 # v0 # v1 # v2 # 0 # 0 # ys" using d h(1) 3 W8 by (simp add: memcpy_at_def raw_def)
      show ?thesis using  3 W8 h(1,2) ty len adr unat_len fits by (simp add: unfolds)
    next
      case (4 v0 v1 v2 v3)
      have d4: "data b = xs @ h0 # h1 # h2 # v0 # v1 # v2 # v3 # 0 # ys" using d h(1) 4 W8 by (simp add: memcpy_at_def raw_def)
      show ?thesis using  4 W8 h(1,2) ty len adr unat_len fits by (simp add: unfolds)
    next
      case (5 v0 v1 v2 v3 v4)
      have d5: "data b = xs @ h0 # h1 # h2 # v0 # v1 # v2 # v3 # v4 # ys" using d h(1) 5 W8 by (simp add: memcpy_at_def raw_def)
      show ?thesis using  5 W8 h(1,2) ty len adr unat_len fits by (simp add: unfolds)
    qed
  qed
qed

lemma playback_optimized_64:
  assumes "entry_ok cfg (Optimized_64 a v)" "length c = L"
  shows "\<exists>u us. entry_units cfg (Optimized_64 a v) = u # us \<and> length u = WS cfg \<and> (\<exists>x \<in> set u. x \<noteq> 0)
    \<and> playback_entry cfg ops junk b u (length (xs @ u)) c
      = (length (xs @ concat (u # us)), apply_entry (Optimized_64 a v) c, True)"
proof -
  obtain e where e: "LOG_ENTRY_MAKE_OPTIMIZED_64 a v = [e, v, 0, 0, 0, 0, 0, 0]"
    by (simp add: LOG_ENTRY_MAKE_OPTIMIZED_64_def)
  have ty: "LOG_ENTRY_GET_TYPE (e # r) = 1" for r
    using optimized_64_type[of a v] e get_type_first by metis
  have adr: "LOG_ENTRY_OPTIMIZED_64_GET_ADDRESS (e # r) = a" for r
    using optimized_64_address[of a v] assms(1) e by (simp add: LOG_ENTRY_OPTIMIZED_64_GET_ADDRESS_def)
  have "e \<noteq> 0" using ty[of "[]"] by (auto simp: LOG_ENTRY_GET_TYPE_def)
  moreover have "c[unat a := v] = memcpy_at c (unat a) [v]"
    using assms by (intro memcpy_at_list_update) auto
  ultimately show ?thesis using assms e ty adr
    by (simp add: raw_def playback_entry_def memcpy_at_def log_types LOG_ENTRY_OPTIMIZED_64_GET_VALUE_def Let_def)
qed

lemma playback_word_01:
  assumes "entry_ok cfg (Word_01 a v)" "length c = L"
  shows "\<exists>u us. entry_units cfg (Word_01 a v) = u # us \<and> length u = WS cfg \<and> (\<exists>x \<in> set u. x \<noteq> 0)
    \<and> playback_entry cfg ops junk b u (length (xs @ u)) c
      = (length (xs @ concat (u # us)), apply_entry (Word_01 a v) c, True)"
proof -
  obtain e f where e: "LOG_ENTRY_MAKE_WORD_01 a v = [e, f, 0, 0, 0, 0, 0, 0]"
    by (simp add: LOG_ENTRY_MAKE_WORD_01_def)
  have ty: "LOG_ENTRY_GET_TYPE (e # r) = 2" for r
    using word_01_type[of a v] e get_type_first by metis
  have adr: "LOG_ENTRY_WORD_01_GET_ADDRESS (e # f # r) = a" for r
    using word_01_address[of a v] assms(1) e by (simp add: LOG_ENTRY_WORD_01_GET_ADDRESS_def)
  have val: "LOG_ENTRY_WORD_01_GET_VALUE (e # r) = ucast v" for r
    using word_01_value[of v a] assms(1) e by (simp add: LOG_ENTRY_WORD_01_GET_VALUE_def)
  have "e \<noteq> 0" using ty[of "[]"] by (auto simp: LOG_ENTRY_GET_TYPE_def)
  moreover have "c[unat a := ucast v, unat a + 1 := 0] = memcpy_at c (unat a) [ucast v, 0]"
    using assms by (intro nth_equalityI) (auto simp: nth_list_update nth_memcpy_at nth_Cons' le_Suc_eq)
  ultimately show ?thesis using assms e ty adr val
    by (simp add: raw_def playback_entry_def memcpy_at_def[of junk] log_types)
qed

lemma playback_one:
  assumes "valid b" "WS cfg dvd length xs" "entry_ok cfg e" "length c = L"
    and "data b = xs @ concat (entry_units cfg e) @ ys"
  shows "\<exists>u us. entry_units cfg e = u # us \<and> length u = WS cfg \<and> (\<exists>x \<in> set u. x \<noteq> 0)
    \<and> playback_entry cfg ops junk b u (length (xs @ u)) c
      = (length (xs @ concat (u # us)), apply_entry e c, True)"
proof (cases e)
  case (Multibyte a p)
  then show ?thesis using playback_multibyte[of b xs a p c ys junk] assms by blast
next
  case (Optimized_64 a v)
  then show ?thesis using playback_optimized_64[of a v c junk b xs] assms by blast
next
  case (Word_01 a v)
  then show ?thesis using playback_word_01[of a v c junk b xs] assms by blast
qed

lemma playback_end:
  assumes "written b xs" "WS cfg dvd length xs"
  shows "playback_loop cfg ops junk b (length xs) c = (length xs, c, WEAR_LEVELING_SUCCESS)"
proof (cases "B \<le> length xs")
  case False
  then have fits: "length xs + WS cfg \<le> B" using assms(2) by (intro unit_fits) auto
  then have "replicate (B - length xs) 0 = replicate (WS cfg) 0 @ replicate (B - (length xs + WS cfg)) (0 :: u8)"
    by (simp add: replicate_add[symmetric])
  then have "backing_store_read ops (length xs) b = Some (replicate (WS cfg) 0)"
    using assms by (intro read_law) (auto simp: written_def)
  then show ?thesis by (subst playback_loop.simps) simp
qed (simp add: playback_loop.simps)

lemma playback_step:
  assumes "valid b" "WS cfg dvd length xs" "entry_ok cfg e" "length c = L"
    and "data b = xs @ concat (entry_units cfg e) @ ys"
  shows "playback_loop cfg ops junk b (length xs) c
    = playback_loop cfg ops junk b (length (xs @ concat (entry_units cfg e))) (apply_entry e c)"
proof -
  obtain u us where u: "entry_units cfg e = u # us" "length u = WS cfg" "\<exists>x \<in> set u. x \<noteq> 0"
    and p: "playback_entry cfg ops junk b u (length (xs @ u)) c = (length (xs @ concat (u # us)), apply_entry e c, True)"
    using playback_one[OF assms] by blast
  have d: "data b = xs @ u @ (concat us @ ys)" using assms(5) u(1) by simp
  have r: "backing_store_read ops (length xs) b = Some u"
    using assms(1,2) u(2) d by (rule read_law)
  have "length xs < B" using data_length[OF assms(1)] d u(2) WS_pos[of cfg] by (simp del: WS_pos)
  then have "\<not> B \<le> length xs" by simp
  moreover have "\<not> (\<forall>x \<in> set u. x = 0)" using u(3) by blast
  moreover have "length xs + WS cfg = length (xs @ u)" using u(2) by simp
  ultimately show ?thesis
    by (subst playback_loop.simps) (simp only: r p u(1) if_False option.case prod.case if_True)
qed

lemma playback_entries:
  assumes "written b (xs @ log_bytes cfg es)" "WS cfg dvd length xs"
    and "\<forall>e \<in> set es. entry_ok cfg e" "length c = L"
  shows "playback_loop cfg ops junk b (length xs) c
    = (length (xs @ log_bytes cfg es), fold apply_entry es c, WEAR_LEVELING_SUCCESS)"
  using assms
proof (induction es arbitrary: xs c)
  case Nil
  then show ?case using playback_end[of b xs] by simp
next
  case (Cons e es)
  have e: "entry_ok cfg e" using Cons.prems(3) by simp
  have v: "valid b" using Cons.prems(1) by (simp add: written_def)
  have "data b = xs @ concat (entry_units cfg e)
      @ (log_bytes cfg es @ replicate (B - length (xs @ log_bytes cfg (e # es))) 0)"
    using Cons.prems(1) by (simp add: written_def)
  then have "playback_loop cfg ops junk b (length xs) c
      = playback_loop cfg ops junk b (length (xs @ concat (entry_units cfg e))) (apply_entry e c)"
    by (rule playback_step[OF v Cons.prems(2) e Cons.prems(4)])
  also have "\<dots> = (length ((xs @ concat (entry_units cfg e)) @ log_bytes cfg es),
      fold apply_entry es (apply_entry e c), WEAR_LEVELING_SUCCESS)"
    using Cons.prems e entry_dvd[OF e] by (intro Cons.IH) auto
  finally show ?case by simp
qed

end

section \<open>The cache is the memory of the writes\<close>

context backing_store
begin

text \<open>The cache a start-up begins from: the consolidated data, when its checksum matches.\<close>

definition base :: "u8 list \<Rightarrow> u8 list" where
  "base img = (if drop L img = checksum cfg (take L img) then take L img else replicate L 0)"

definition image :: "'b \<Rightarrow> nat \<Rightarrow> u8 list \<Rightarrow> bool" where
  "image b n c \<longleftrightarrow> (\<exists>img es. written b (img @ log_bytes cfg es) \<and> length img = log_start cfg
     \<and> (\<forall>e \<in> set es. entry_ok cfg e) \<and> n = length (img @ log_bytes cfg es) \<and> n < B
     \<and> c = fold apply_entry es (base img))"

text \<open>The state between two calls of the interface.\<close>

definition live :: "'b wear_leveling \<Rightarrow> bool" where
  "live s \<longleftrightarrow> \<not> unlocked s \<and> \<not> opened (store s) \<and> image (store s) (write_address s) (cache s)"

lemma base_length: "length img = log_start cfg \<Longrightarrow> length (base img) = L"
  by (simp add: base_def)

lemma image_cache: "image b n c \<Longrightarrow> length c = L \<and> valid b"
  unfolding image_def written_def using base_length fold_apply_length by blast

lemma live_cache: "live s \<Longrightarrow> length (cache s) = L"
  using image_cache by (auto simp: live_def)

lemma image_same_data: "image b n c \<Longrightarrow> valid b' \<Longrightarrow> data b' = data b \<Longrightarrow> image b' n c"
  unfolding image_def written_def by metis

lemma base_consolidated:
  assumes "length c = L"
  shows "base (c @ checksum cfg c) = c"
  using assms by (simp add: base_def)

lemma image_consolidated:
  assumes "written b (c @ checksum cfg c)" "length c = L"
  shows "image b (log_start cfg) c"
  unfolding image_def using assms dvd_sizes base_consolidated[OF assms(2)]
  by (intro exI[of _ "c @ checksum cfg c"] exI[of _ "[]"]) simp

lemma written_zeros: "valid b \<Longrightarrow> data b = replicate B 0 \<Longrightarrow> n \<le> B \<Longrightarrow> written b (replicate n 0)"
  by (simp add: written_def replicate_add[symmetric])

lemma base_zeros: "base (replicate (log_start cfg) 0) = replicate L 0"
  by (simp add: base_def)

lemma image_erased:
  assumes "valid b" "data b = replicate B 0"
  shows "image b (log_start cfg) (replicate L 0)"
proof -
  have "written b (replicate (log_start cfg) 0)"
    using assms dvd_sizes(4) by (intro written_zeros) auto
  then show ?thesis
    unfolding image_def using dvd_sizes(4) base_zeros
    by (intro exI[of _ "replicate (log_start cfg) 0"] exI[of _ "[]"]) simp
qed

subsection \<open>Start-up\<close>

lemma read_bulk:
  assumes "valid b" "WS cfg dvd length xs" "data b = xs @ zs @ ys" "WS cfg dvd length zs"
  shows "backing_store_read_bulk ops (WS cfg) (length xs) (length zs div WS cfg) b = (units (WS cfg) zs, True)"
  using WS_pos assms(4,2,3)
proof (induction zs arbitrary: xs rule: units_induct[where w = "WS cfg"])
  case nil
  then show ?case by simp
next
  case (unit u zs)
  have n: "length (u @ zs) div WS cfg = Suc (length zs div WS cfg)" using unit.hyps(1) by (simp add: div_add_self1)
  have "backing_store_read ops (length xs) b = Some u"
    using assms(1) unit by (intro read_law[of b xs u "zs @ ys"]) auto
  moreover have "backing_store_read_bulk ops (WS cfg) (length (xs @ u)) (length zs div WS cfg) b = (units (WS cfg) zs, True)"
    using unit by (intro unit.IH) auto
  ultimately show ?case using unit.hyps(1) by (simp add: n units_step del: length_append) simp
qed

lemma checksum_units_8: "8 div WS cfg = checksum_units (BACKING_STORE_WRITE_SIZE cfg)"
  by (cases "BACKING_STORE_WRITE_SIZE cfg") auto

lemma read_consolidated:
  assumes "valid (store s)" "data (store s) = img @ ys" "length img = log_start cfg"
    and "write_address s = log_start cfg"
  shows "wear_leveling_read_consolidated cfg ops junk s = (s\<lparr>cache := base img\<rparr>, WEAR_LEVELING_SUCCESS)"
proof -
  have img: "img = take L img @ drop L img" "length (take L img) = L" "length (drop L img) = 8" using assms(3) by auto
  have w8: "WS cfg dvd 8" by (cases "BACKING_STORE_WRITE_SIZE cfg") auto
  have r1: "backing_store_read_bulk ops (WS cfg) 0 (L div WS cfg) (store s) = (units (WS cfg) (take L img), True)"
    using read_bulk[of "store s" "[]" "take L img" "drop L img @ ys"] assms(1,2) img dvd_sizes(1) by simp
  have "data (store s) = take L img @ drop L img @ ys" using assms(2) by simp
  then have r2: "backing_store_read_bulk ops (WS cfg) L (checksum_units (BACKING_STORE_WRITE_SIZE cfg)) (store s)
      = (units (WS cfg) (drop L img), True)"
    using read_bulk[of "store s" "take L img" "drop L img" ys] assms(1) img(2,3) dvd_sizes(1) w8
    by (simp add: checksum_units_8)
  have c: "concat (units (WS cfg) (take L img)) = take L img" "concat (units (WS cfg) (drop L img)) = drop L img"
    using img dvd_sizes(1) w8 by (simp_all add: concat_units)
  have e: "memcpy_at (take 8 junk) 0 (drop L img) = drop L img" using img(3) by (simp add: memcpy_at_def)
  show ?thesis
    using assms(4) by (simp add: wear_leveling_read_consolidated_def r1 r2 c e base_def wear_leveling_clear_cache_def)
qed

lemma init_restores:
  assumes "image (store r) n c" "\<not> unlocked r" "\<not> opened (store r)"
  shows "\<exists>s. wear_leveling_init cfg ops junk r = (s, WEAR_LEVELING_SUCCESS) \<and> live s \<and> cache s = c"
proof -
  obtain img es where i: "written (store r) (img @ log_bytes cfg es)" "length img = log_start cfg"
      "\<forall>e \<in> set es. entry_ok cfg e" "n = length (img @ log_bytes cfg es)" "n < B" "c = fold apply_entry es (base img)"
    using assms(1) unfolding image_def by blast
  obtain b where b: "backing_store_init ops (store r) = (b, True)" "valid b" "data b = data (store r)" "\<not> opened b"
    using init_law[of "store r"] i(1) assms(3) by (auto simp: written_def)
  have w: "written b (img @ log_bytes cfg es)" using i(1) b(2,3) by (simp add: written_def)
  define s where "s = (wear_leveling_clear_cache cfg r)\<lparr>store := b\<rparr>"
  have "data (store s) = img @ (log_bytes cfg es @ replicate (B - length (img @ log_bytes cfg es)) 0)"
    using w by (simp add: written_def s_def)
  then have rc: "wear_leveling_read_consolidated cfg ops junk s = (s\<lparr>cache := base img\<rparr>, WEAR_LEVELING_SUCCESS)"
    using b(2) i(2) by (intro read_consolidated) (auto simp: s_def wear_leveling_clear_cache_def)
  have pl: "playback_loop cfg ops junk b (log_start cfg) (base img) = (n, c, WEAR_LEVELING_SUCCESS)"
    using playback_entries[OF w _ i(3) base_length[OF i(2)], of junk] i(2,4,6) dvd_sizes(3) by simp
  have "wear_leveling_playback_log cfg ops junk (s\<lparr>cache := base img\<rparr>)
      = (s\<lparr>cache := c, write_address := n\<rparr>, WEAR_LEVELING_SUCCESS)"
    using pl i(5) by (simp add: wear_leveling_playback_log_def s_def wear_leveling_consolidate_if_needed_def)
  moreover have "store (wear_leveling_clear_cache cfg r) = store r" by (simp add: wear_leveling_clear_cache_def)
  ultimately have "wear_leveling_init cfg ops junk r = (s\<lparr>cache := c, write_address := n\<rparr>, WEAR_LEVELING_SUCCESS)"
    using b(1) rc by (simp add: wear_leveling_init_def s_def[symmetric] Let_def)
  moreover have "image b n c" by (rule image_same_data[OF assms(1) b(2,3)])
  ultimately show ?thesis using b(4) assms(2)
    by (auto simp: live_def s_def wear_leveling_clear_cache_def)
qed

subsection \<open>Writes and erasure\<close>

lemma wear_leveling_unlock_ok:
  assumes "\<not> unlocked s" "valid (store s)"
  shows "\<exists>b. wear_leveling_unlock ops s = (s\<lparr>store := b, unlocked := True\<rparr>, STATUS_SUCCESS)
    \<and> valid b \<and> data b = data (store s) \<and> opened b"
  using unlock_law[OF assms(2)] assms(1) by (auto simp: wear_leveling_unlock_def)

lemma wear_leveling_lock_ok:
  assumes "unlocked s" "valid (store s)"
  shows "\<exists>b. wear_leveling_lock ops s = (s\<lparr>store := b, unlocked := False\<rparr>, STATUS_SUCCESS)
    \<and> valid b \<and> data b = data (store s) \<and> \<not> opened b"
  using lock_law[OF assms(2)] assms(1) by (auto simp: wear_leveling_lock_def)

text \<open>Locking the store after a write leaves a state between calls.\<close>

lemma log_state_image:
  assumes "log_state s (img @ log_bytes cfg es)" "length img = log_start cfg"
    and "\<forall>e \<in> set es. entry_ok cfg e" "fold apply_entry es (base img) = cache s"
  shows "image (store s) (write_address s) (cache s)"
  using assms unfolding image_def log_state_def by metis

lemma write_raw_image:
  assumes "image b n c" "opened b" "unlocked s" "store s = b" "write_address s = n"
    and "unat address + length v \<le> L" "cache s = memcpy_at c (unat address) v"
    and "wear_leveling_write_raw cfg ops address v s = (s', status)"
  shows "status \<noteq> WEAR_LEVELING_FAILED" "cache s' = cache s" "unlocked s'" "valid (store s')"
    "image (store s') (write_address s') (cache s')"
proof -
  obtain img es where i: "written b (img @ log_bytes cfg es)" "length img = log_start cfg"
      "\<forall>e \<in> set es. entry_ok cfg e" "n = length (img @ log_bytes cfg es)" "n < B" "c = fold apply_entry es (base img)"
    using assms(1) unfolding image_def by blast
  obtain fs where fs: "write_entries address v fs" using write_raw[OF assms(6)] by blast
  have c: "length c = L" using image_cache[OF assms(1)] by blast
  then have cs: "length (cache s) = L" using assms(6,7) by simp
  have "log_state s (img @ log_bytes cfg es)"
    using i assms(2-5) cs log_bytes_dvd[OF i(3)] dvd_sizes(3) by (simp add: log_state_def)
  then have app: "appended s ((img @ log_bytes cfg es) @ log_bytes cfg fs) (s', status)"
    using fs assms(8) by (metis write_entries_def)
  then show "cache s' = cache s" "status \<noteq> WEAR_LEVELING_FAILED" "unlocked s'" "valid (store s')"
    by (auto simp: appended_def log_state_def written_def)
  have ok: "\<forall>e \<in> set (es @ fs). entry_ok cfg e" using i(3) fs by (auto simp: write_entries_def)
  have "fold apply_entry fs c = memcpy_at c (unat address) v" using fs c by (simp add: write_entries_def)
  then have replay: "fold apply_entry (es @ fs) (base img) = cache s" using i(6) assms(7) by simp
  from app consider "log_state s' (img @ log_bytes cfg (es @ fs))"
    | "log_state s' (cache s @ checksum cfg (cache s))"
    by (auto simp: appended_def log_bytes_def)
  then show "image (store s') (write_address s') (cache s')"
  proof cases
    case 1
    then show ?thesis using i(2) ok replay \<open>cache s' = cache s\<close> by (intro log_state_image) auto
  next
    case 2
    then show ?thesis using image_consolidated[of "store s'" "cache s"] cs \<open>cache s' = cache s\<close>
      by (simp add: log_state_def)
  qed
qed

lemma image_write_address: "image b n c \<Longrightarrow> n < B"
  by (auto simp: image_def)

lemma relocked:
  assumes "image (store s) (write_address s) (cache s)" "unlocked s"
  shows "\<exists>s'. wear_leveling_lock ops s = (s', STATUS_SUCCESS) \<and> live s' \<and> cache s' = cache s"
proof -
  obtain b where b: "wear_leveling_lock ops s = (s\<lparr>store := b, unlocked := False\<rparr>, STATUS_SUCCESS)"
      "valid b" "data b = data (store s)" "\<not> opened b"
    using wear_leveling_lock_ok[OF assms(2)] image_cache[OF assms(1)] by blast
  then show ?thesis using image_same_data[OF assms(1) b(2,3)] by (simp add: live_def)
qed

lemma in_range: "unat address + len \<le> L \<Longrightarrow> \<not> out_of_range cfg address len"
  using u32_add[of address len L] dvd_sizes(5) by (simp add: out_of_range_def)

lemma write_live:
  assumes "live s" "unat address + length v \<le> L"
  shows "\<exists>s' status. wear_leveling_write cfg ops address v s = Some (s', status)
    \<and> status \<noteq> WEAR_LEVELING_FAILED \<and> live s' \<and> cache s' = memcpy_at (cache s) (unat address) v"
proof (cases "take (length v) (drop (unat address) (cache s)) = v")
  case True
  then have "memcpy_at (cache s) (unat address) v = cache s"
    using assms live_cache[OF assms(1)] by (intro memcpy_at_same) auto
  then show ?thesis using True assms in_range[OF assms(2)] live_cache[OF assms(1)]
    by (simp add: wear_leveling_write_def)
next
  case False
  have cl: "length (cache s) = L" by (rule live_cache[OF assms(1)])
  define t where "t = s\<lparr>cache := memcpy_at (cache s) (unat address) v\<rparr>"
  have im: "image (store s) (write_address s) (cache s)" and u: "\<not> unlocked t" and vs: "valid (store t)"
    using assms(1) image_cache by (auto simp: live_def t_def)
  obtain b where b: "wear_leveling_unlock ops t = (t\<lparr>store := b, unlocked := True\<rparr>, STATUS_SUCCESS)"
      "valid b" "data b = data (store t)" "opened b"
    using wear_leveling_unlock_ok[OF u vs] by blast
  define t1 where "t1 = t\<lparr>store := b, unlocked := True\<rparr>"
  obtain t2 status where w: "wear_leveling_write_raw cfg ops address v t1 = (t2, status)"
    by (cases "wear_leveling_write_raw cfg ops address v t1")
  have ib: "image b (write_address s) (cache s)"
    by (rule image_same_data[OF im b(2)]) (use b(3) in \<open>simp add: t_def\<close>)
  have t1: "unlocked t1" "store t1 = b" "write_address t1 = write_address s"
      "cache t1 = memcpy_at (cache s) (unat address) v" by (simp_all add: t1_def t_def)
  note r = write_raw_image[OF ib b(4) t1(1-3) assms(2) t1(4) w]
  have st: "(case status of WEAR_LEVELING_CONSOLIDATED \<Rightarrow> (t2, status) | WEAR_LEVELING_FAILED \<Rightarrow> (t2, status)
      | WEAR_LEVELING_SUCCESS \<Rightarrow> wear_leveling_consolidate_if_needed cfg ops t2) = (t2, status)"
    using image_write_address[OF r(5)] r(1)
    by (cases status) (simp_all add: wear_leveling_consolidate_if_needed_def)
  obtain s' where s': "wear_leveling_lock ops t2 = (s', STATUS_SUCCESS)" "live s'" "cache s' = cache t2"
    using relocked[OF r(5,3)] by blast
  have "wear_leveling_write cfg ops address v s = Some (s', status)"
    using False assms(2) in_range[OF assms(2)] cl s'(1)
    by (simp add: wear_leveling_write_def Let_def t_def[symmetric] b(1) t1_def[symmetric] w st)
  then show ?thesis using r(1,2) s'(2,3) t1(4) by simp
qed

lemma erase_live:
  assumes "live s"
  shows "\<exists>s'. wear_leveling_erase cfg ops s = (s', WEAR_LEVELING_SUCCESS) \<and> live s' \<and> cache s' = replicate L 0"
proof -
  have u: "\<not> unlocked s" and vs: "valid (store s)" using assms image_cache by (auto simp: live_def)
  obtain b where b: "wear_leveling_unlock ops s = (s\<lparr>store := b, unlocked := True\<rparr>, STATUS_SUCCESS)"
      "valid b" "opened b"
    using wear_leveling_unlock_ok[OF u vs] by blast
  obtain b1 where b1: "backing_store_erase ops b = (b1, True)" "valid b1" "data b1 = replicate B 0" "opened b1"
    using erase_law[OF b(2,3)] by blast
  define t where "t = wear_leveling_clear_cache cfg (s\<lparr>unlocked := True, store := b1\<rparr>)"
  have t: "image (store t) (write_address t) (cache t)" "unlocked t" "cache t = replicate L 0"
    using image_erased[OF b1(2,3)] by (simp_all add: t_def wear_leveling_clear_cache_def)
  obtain s' where s': "wear_leveling_lock ops t = (s', STATUS_SUCCESS)" "live s'" "cache s' = cache t"
    using relocked[OF t(1,2)] by blast
  have "wear_leveling_erase cfg ops s = (s', WEAR_LEVELING_SUCCESS)"
    using b(1) b1(1) s'(1) by (simp add: wear_leveling_erase_def t_def)
  then show ?thesis using s'(2,3) t(3) by simp
qed

end

end
