(* ===== verification/Wear_Flash.thy ===== *)
theory Wear_Flash
  imports Wear_Recovery
begin

text \<open>
  A backing store: the driver for the on-chip flash of some STM32 microcontrollers
  (platforms/chibios/drivers/wear_leveling/wear_leveling_legacy.c) over the flash operations of
  legacy_flash_ops.h, and the repository's own stand-in for the flash
  (platforms/test/legacy_flash_ops_mock.c).

  The locale \<open>legacy_flash\<close> is the interface of the flash; it gives the contract of theory
  Wear_Contract, and the stand-in meets it.
\<close>

section \<open>The driver\<close>

datatype FLASH_Status = FLASH_BUSY | FLASH_ERROR_PG | FLASH_ERROR_WRP | FLASH_ERROR_OPT
  | FLASH_COMPLETE | FLASH_TIMEOUT | FLASH_BAD_ADDRESS

text \<open>\<open>flash_read\<close> is the read of two bytes through a pointer into the flash.\<close>

record 'f flash_ops =
  FLASH_ErasePage :: "u32 \<Rightarrow> 'f \<Rightarrow> 'f \<times> FLASH_Status"
  FLASH_ProgramHalfWord :: "u32 \<Rightarrow> u8 list \<Rightarrow> 'f \<Rightarrow> 'f \<times> FLASH_Status"
  FLASH_Unlock :: "'f \<Rightarrow> 'f"
  FLASH_Lock :: "'f \<Rightarrow> 'f"
  flash_read :: "u32 \<Rightarrow> 'f \<Rightarrow> u8 list"

record legacy_cfg =
  EMULATION_BASE_PAGE_ADDRESS :: "32 word"
  EMULATION_PAGE_COUNT :: nat
  EMULATION_PAGE_SIZE :: nat

definition complement :: "u8 list \<Rightarrow> u8 list" where
  "complement u = map NOT u"

definition legacy_init :: "'f \<Rightarrow> 'f \<times> bool" where
  "legacy_init f = (f, True)"

definition legacy_unlock :: "'f flash_ops \<Rightarrow> 'f \<Rightarrow> 'f \<times> bool" where
  "legacy_unlock fops f = (FLASH_Unlock fops f, True)"

definition legacy_erase_page :: "legacy_cfg \<Rightarrow> 'f flash_ops \<Rightarrow> nat \<Rightarrow> 'f \<times> bool \<Rightarrow> 'f \<times> bool" where
  "legacy_erase_page lc fops i r =
     (case r of (f, ret) \<Rightarrow>
        case FLASH_ErasePage fops (EMULATION_BASE_PAGE_ADDRESS lc + of_nat (i * EMULATION_PAGE_SIZE lc)) f of
          (f, status) \<Rightarrow> (f, if status \<noteq> FLASH_COMPLETE then False else ret))"

definition legacy_erase :: "legacy_cfg \<Rightarrow> 'f flash_ops \<Rightarrow> 'f \<Rightarrow> 'f \<times> bool" where
  "legacy_erase lc fops f = fold (legacy_erase_page lc fops) [0..<EMULATION_PAGE_COUNT lc] (f, True)"

definition legacy_write :: "legacy_cfg \<Rightarrow> 'f flash_ops \<Rightarrow> nat \<Rightarrow> u8 list \<Rightarrow> 'f \<Rightarrow> 'f \<times> bool" where
  "legacy_write lc fops address u f =
     (case FLASH_ProgramHalfWord fops (EMULATION_BASE_PAGE_ADDRESS lc + of_nat address) (complement u) f of
        (f, status) \<Rightarrow> (f, status = FLASH_COMPLETE))"

definition legacy_lock :: "'f flash_ops \<Rightarrow> 'f \<Rightarrow> 'f \<times> bool" where
  "legacy_lock fops f = (FLASH_Lock fops f, True)"

definition legacy_read :: "legacy_cfg \<Rightarrow> 'f flash_ops \<Rightarrow> nat \<Rightarrow> 'f \<Rightarrow> u8 list option" where
  "legacy_read lc fops address f =
     Some (complement (flash_read fops (EMULATION_BASE_PAGE_ADDRESS lc + of_nat address) f))"

definition legacy_backing :: "legacy_cfg \<Rightarrow> 'f flash_ops \<Rightarrow> 'f backing_store_ops" where
  "legacy_backing lc fops =
     \<lparr>backing_store_init = legacy_init, backing_store_unlock = legacy_unlock fops,
      backing_store_erase = legacy_erase lc fops, backing_store_write = legacy_write lc fops,
      backing_store_lock = legacy_lock fops, backing_store_read = legacy_read lc fops\<rparr>"

lemma legacy_backing_simps [simp]:
  "backing_store_init (legacy_backing lc fops) = legacy_init"
  "backing_store_unlock (legacy_backing lc fops) = legacy_unlock fops"
  "backing_store_erase (legacy_backing lc fops) = legacy_erase lc fops"
  "backing_store_write (legacy_backing lc fops) = legacy_write lc fops"
  "backing_store_lock (legacy_backing lc fops) = legacy_lock fops"
  "backing_store_read (legacy_backing lc fops) = legacy_read lc fops"
  by (simp_all add: legacy_backing_def)

lemma complement_simps [simp]:
  "length (complement u) = length u"
  "complement (xs @ ys) = complement xs @ complement ys"
  "complement (complement u) = u"
  "complement (replicate n 0xFF) = replicate n 0"
  "complement (replicate n 0) = replicate n 0xFF"
  by (simp_all add: complement_def comp_def)

lemma complement_eq_iff: "complement xs = ys \<longleftrightarrow> xs = complement ys"
  by (metis complement_simps(3))

section \<open>The interface of the flash\<close>

text \<open>\<open>cells f\<close> are the bytes of the emulation pages; an erased byte is 0xFF.\<close>

locale legacy_flash =
  fixes cfg :: wear_leveling_cfg
    and lc :: legacy_cfg
    and fops :: "'f flash_ops"
    and fvalid :: "'f \<Rightarrow> bool"
    and cells :: "'f \<Rightarrow> u8 list"
    and fopened :: "'f \<Rightarrow> bool"
  assumes cfg_ok: "wear_leveling_cfg_ok cfg"
    and half_words: "BACKING_STORE_WRITE_SIZE cfg = W2"
    and pages: "EMULATION_PAGE_COUNT lc * EMULATION_PAGE_SIZE lc = WEAR_LEVELING_BACKING_SIZE cfg"
    and cells_length: "fvalid f \<Longrightarrow> length (cells f) = WEAR_LEVELING_BACKING_SIZE cfg"
    and unlock_flash: "fvalid f \<Longrightarrow> fvalid (FLASH_Unlock fops f)
      \<and> cells (FLASH_Unlock fops f) = cells f \<and> fopened (FLASH_Unlock fops f)"
    and lock_flash: "fvalid f \<Longrightarrow> fvalid (FLASH_Lock fops f)
      \<and> cells (FLASH_Lock fops f) = cells f \<and> \<not> fopened (FLASH_Lock fops f)"
    and erase_page: "fvalid f \<Longrightarrow> fopened f \<Longrightarrow> i < EMULATION_PAGE_COUNT lc
      \<Longrightarrow> \<exists>f'. FLASH_ErasePage fops (EMULATION_BASE_PAGE_ADDRESS lc + of_nat (i * EMULATION_PAGE_SIZE lc)) f
            = (f', FLASH_COMPLETE) \<and> fvalid f' \<and> fopened f'
          \<and> cells f' = memcpy_at (cells f) (i * EMULATION_PAGE_SIZE lc) (replicate (EMULATION_PAGE_SIZE lc) 0xFF)"
    and program: "fvalid f \<Longrightarrow> fopened f \<Longrightarrow> even (length xs) \<Longrightarrow> length u = 2
      \<Longrightarrow> cells f = xs @ replicate 2 0xFF @ ys
      \<Longrightarrow> \<exists>f'. FLASH_ProgramHalfWord fops (EMULATION_BASE_PAGE_ADDRESS lc + of_nat (length xs)) u f
            = (f', FLASH_COMPLETE) \<and> fvalid f' \<and> fopened f' \<and> cells f' = xs @ u @ ys"
    and flash_read: "fvalid f \<Longrightarrow> even (length xs) \<Longrightarrow> length u = 2 \<Longrightarrow> cells f = xs @ u @ ys
      \<Longrightarrow> flash_read fops (EMULATION_BASE_PAGE_ADDRESS lc + of_nat (length xs)) f = u"
begin

lemma erase_pages:
  assumes "fvalid f" "fopened f" "n \<le> EMULATION_PAGE_COUNT lc"
  shows "\<exists>f'. fold (legacy_erase_page lc fops) [0..<n] (f, True) = (f', True) \<and> fvalid f' \<and> fopened f'
    \<and> cells f' = replicate (n * EMULATION_PAGE_SIZE lc) 0xFF @ drop (n * EMULATION_PAGE_SIZE lc) (cells f)"
  using assms(3)
proof (induction n)
  case 0
  then show ?case using assms by simp
next
  case (Suc n)
  let ?p = "EMULATION_PAGE_SIZE lc"
  obtain f1 where f1: "fold (legacy_erase_page lc fops) [0..<n] (f, True) = (f1, True)" "fvalid f1" "fopened f1"
      "cells f1 = replicate (n * ?p) 0xFF @ drop (n * ?p) (cells f)"
    using Suc by auto
  obtain f2 where f2: "FLASH_ErasePage fops (EMULATION_BASE_PAGE_ADDRESS lc + of_nat (n * ?p)) f1 = (f2, FLASH_COMPLETE)"
      "fvalid f2" "fopened f2" "cells f2 = memcpy_at (cells f1) (n * ?p) (replicate ?p 0xFF)"
    using erase_page[OF f1(2,3), of n] Suc.prems by auto
  have "cells f2 = replicate (Suc n * ?p) 0xFF @ drop (Suc n * ?p) (cells f)"
    unfolding f2(4) f1(4) memcpy_at_def by (simp add: replicate_add[symmetric] add.commute)
  moreover have "fold (legacy_erase_page lc fops) [0..<Suc n] (f, True) = (f2, True)"
    unfolding fold_upt_Suc f1(1) by (simp add: legacy_erase_page_def f2(1) del: of_nat_mult)
  ultimately show ?case using f2(2,3) by blast
qed

end

sublocale legacy_flash \<subseteq> wl: backing_store cfg "legacy_backing lc fops" fvalid "\<lambda>f. complement (cells f)" fopened
proof (unfold_locales, goal_cases)
  case 1
  show ?case by (rule cfg_ok)
next
  case (2 b)
  then show ?case by (simp add: cells_length)
next
  case (3 b)
  then show ?case by (simp add: legacy_init_def)
next
  case (4 b)
  then show ?case using unlock_flash[of b] by (simp add: legacy_unlock_def)
next
  case (5 b)
  then show ?case using lock_flash[of b] by (simp add: legacy_lock_def)
next
  case (6 b)
  then show ?case
    using erase_pages[of b "EMULATION_PAGE_COUNT lc"] cells_length[of b]
    by (auto simp: legacy_erase_def pages)
next
  case (7 b xs u ys)
  have "cells b = complement xs @ replicate 2 0xFF @ complement ys"
    using 7(5) half_words by (simp add: complement_eq_iff)
  then show ?case using program[of b "complement xs" "complement u" "complement ys"] 7 half_words
    by (auto simp: legacy_write_def)
next
  case (8 b xs u ys)
  have "cells b = complement xs @ complement u @ complement ys"
    using 8(4) by (simp add: complement_eq_iff)
  then show ?case using flash_read[of b "complement xs" "complement u" "complement ys"] 8 half_words
    by (simp add: legacy_read_def)
qed

section \<open>The flash of the test platform\<close>

record mock_flash_cfg =
  FlashBuf_address :: "32 word"
  MOCK_FLASH_SIZE :: nat
  FEE_PAGE_SIZE :: nat

record mock_flash =
  FlashBuf :: "u8 list"
  flash_locked :: bool

definition mock_ErasePage :: "mock_flash_cfg \<Rightarrow> u32 \<Rightarrow> mock_flash \<Rightarrow> mock_flash \<times> FLASH_Status" where
  "mock_ErasePage mc Page_Address f =
     (if flash_locked f then (f, FLASH_ERROR_WRP)
      else
        let page = unat (Page_Address - FlashBuf_address mc);
            page = page - page mod FEE_PAGE_SIZE mc
        in if MOCK_FLASH_SIZE mc \<le> page then (f, FLASH_BAD_ADDRESS)
           else (f\<lparr>FlashBuf := memcpy_at (FlashBuf f) page (replicate (FEE_PAGE_SIZE mc) 0xFF)\<rparr>, FLASH_COMPLETE))"

definition mock_ProgramHalfWord :: "mock_flash_cfg \<Rightarrow> u32 \<Rightarrow> u8 list \<Rightarrow> mock_flash \<Rightarrow> mock_flash \<times> FLASH_Status" where
  "mock_ProgramHalfWord mc Address Data f =
     (if flash_locked f then (f, FLASH_ERROR_WRP)
      else
        let a = unat (Address - FlashBuf_address mc)
        in if MOCK_FLASH_SIZE mc \<le> a then (f, FLASH_BAD_ADDRESS)
           else if take 2 (drop a (FlashBuf f)) = [0xFF, 0xFF] \<or> Data = [0, 0]
           then (f\<lparr>FlashBuf := memcpy_at (FlashBuf f) a Data\<rparr>, FLASH_COMPLETE)
           else (f, FLASH_ERROR_PG))"

definition mock_Unlock :: "mock_flash \<Rightarrow> mock_flash" where
  "mock_Unlock f = f\<lparr>flash_locked := False\<rparr>"

definition mock_Lock :: "mock_flash \<Rightarrow> mock_flash" where
  "mock_Lock f = f\<lparr>flash_locked := True\<rparr>"

definition mock_flash_ops :: "mock_flash_cfg \<Rightarrow> mock_flash flash_ops" where
  "mock_flash_ops mc =
     \<lparr>FLASH_ErasePage = mock_ErasePage mc, FLASH_ProgramHalfWord = mock_ProgramHalfWord mc,
      FLASH_Unlock = mock_Unlock, FLASH_Lock = mock_Lock,
      flash_read = (\<lambda>Address f. take 2 (drop (unat (Address - FlashBuf_address mc)) (FlashBuf f)))\<rparr>"

lemma mock_flash_ops_simps [simp]:
  "FLASH_ErasePage (mock_flash_ops mc) = mock_ErasePage mc"
  "FLASH_ProgramHalfWord (mock_flash_ops mc) = mock_ProgramHalfWord mc"
  "FLASH_Unlock (mock_flash_ops mc) = mock_Unlock"
  "FLASH_Lock (mock_flash_ops mc) = mock_Lock"
  "flash_read (mock_flash_ops mc) Address f = take 2 (drop (unat (Address - FlashBuf_address mc)) (FlashBuf f))"
  by (simp_all add: mock_flash_ops_def)

section \<open>The supported microcontrollers\<close>

text \<open>
  The sizes of wear_leveling_legacy_config.h per microcontroller (STM32F070 has those of the
  STM32F072, STM32F411 those of the STM32F401, whose base page depends on the bootloader).
\<close>

datatype mcu = STM32F042 | STM32F072 | STM32F401_STM32_DFU | STM32F401_TINYUF2

fun page_size :: "mcu \<Rightarrow> nat" where
  "page_size STM32F042 = 1024"
| "page_size STM32F072 = 2048"
| "page_size STM32F401_STM32_DFU = 16384"
| "page_size STM32F401_TINYUF2 = 16384"

fun page_count :: "mcu \<Rightarrow> nat" where
  "page_count STM32F042 = 2"
| "page_count STM32F072 = 1"
| "page_count STM32F401_STM32_DFU = 1"
| "page_count STM32F401_TINYUF2 = 1"

text \<open>The offset of the base page from the start of a flash of kb kilobytes.\<close>

fun base_page_offset :: "mcu \<Rightarrow> nat \<Rightarrow> nat" where
  "base_page_offset STM32F401_STM32_DFU kb = 1 * 16384"
| "base_page_offset STM32F401_TINYUF2 kb = 3 * 16384"
| "base_page_offset m kb = kb * 1024 - page_count m * page_size m"

fun legacy_backing_size :: "mcu \<Rightarrow> nat" where
  "legacy_backing_size STM32F042 = 2048"
| "legacy_backing_size STM32F072 = 2048"
| "legacy_backing_size STM32F401_STM32_DFU = 16384"
| "legacy_backing_size STM32F401_TINYUF2 = 16384"

definition legacy_wear_cfg :: "mcu \<Rightarrow> wear_leveling_cfg" where
  "legacy_wear_cfg m = \<lparr>BACKING_STORE_WRITE_SIZE = W2, WEAR_LEVELING_BACKING_SIZE = legacy_backing_size m,
     WEAR_LEVELING_LOGICAL_SIZE = 1024\<rparr>"

definition legacy_driver_cfg :: "mcu \<Rightarrow> u32 \<Rightarrow> nat \<Rightarrow> legacy_cfg" where
  "legacy_driver_cfg m flash_base kb = \<lparr>EMULATION_BASE_PAGE_ADDRESS = flash_base + of_nat (base_page_offset m kb),
     EMULATION_PAGE_COUNT = page_count m, EMULATION_PAGE_SIZE = page_size m\<rparr>"

definition mock_cfg :: "mcu \<Rightarrow> u32 \<Rightarrow> nat \<Rightarrow> mock_flash_cfg" where
  "mock_cfg m flash_base kb = \<lparr>FlashBuf_address = flash_base, MOCK_FLASH_SIZE = kb * 1024, FEE_PAGE_SIZE = page_size m\<rparr>"

lemmas mcu_cfgs = legacy_wear_cfg_def legacy_driver_cfg_def mock_cfg_def

text \<open>A flash of an even number of kilobytes, from 64 to 4096.\<close>

definition mock_valid :: "nat \<Rightarrow> mock_flash \<Rightarrow> bool" where
  "mock_valid kb f \<longleftrightarrow> length (FlashBuf f) = kb * 1024 \<and> even kb \<and> 64 \<le> kb \<and> kb \<le> 4096"

definition emulation_cells :: "mcu \<Rightarrow> nat \<Rightarrow> mock_flash \<Rightarrow> u8 list" where
  "emulation_cells m kb f = take (legacy_backing_size m) (drop (base_page_offset m kb) (FlashBuf f))"

lemma region_fits:
  "64 \<le> kb \<Longrightarrow> base_page_offset m kb + legacy_backing_size m \<le> kb * 1024"
  by (cases m) auto

lemma region_pages: "page_count m * page_size m = legacy_backing_size m"
  by (cases m) auto

lemma base_page_aligned: "even kb \<Longrightarrow> page_size m dvd base_page_offset m kb"
  by (cases m) (auto elim!: evenE simp: dvd_diff_nat)

lemma unat_offset:
  assumes "n + k < 2 ^ 32"
  shows "unat (of_nat n + of_nat k :: u32) = n + k"
  using assms by (simp add: unat_of_nat_mod flip: of_nat_add)

lemma mock_split:
  assumes "mock_valid kb f" "emulation_cells m kb f = xs"
  obtains p s where "FlashBuf f = p @ xs @ s" "length p = base_page_offset m kb"
    "length xs = legacy_backing_size m"
proof -
  let ?o = "base_page_offset m kb"
  have "FlashBuf f = take ?o (FlashBuf f) @ xs @ drop (legacy_backing_size m) (drop ?o (FlashBuf f))"
    unfolding assms(2)[symmetric] emulation_cells_def by (simp only: append_take_drop_id)
  moreover have "length (take ?o (FlashBuf f)) = ?o" "length xs = legacy_backing_size m"
    using assms region_fits[of kb m] by (auto simp: mock_valid_def emulation_cells_def)
  ultimately show thesis using that by blast
qed

definition mock_opened :: "mock_flash \<Rightarrow> bool" where
  "mock_opened f \<longleftrightarrow> \<not> flash_locked f"

lemma emulation_cells_update:
  assumes "FlashBuf f = p @ xs @ s" "length p = base_page_offset m kb" "length xs = legacy_backing_size m"
    and "a + length u \<le> length xs" "mock_valid kb f"
  defines "f' \<equiv> f\<lparr>FlashBuf := memcpy_at (FlashBuf f) (base_page_offset m kb + a) u\<rparr>"
  shows "mock_valid kb f'" "emulation_cells m kb f' = memcpy_at xs a u"
proof -
  have buf: "FlashBuf f' = p @ memcpy_at xs a u @ s"
    using assms(1-4) by (simp add: f'_def memcpy_at_def)
  then show "mock_valid kb f'" using assms(1,4,5) by (simp add: mock_valid_def)
  show "emulation_cells m kb f' = memcpy_at xs a u"
    using buf assms(2-4) by (simp add: emulation_cells_def)
qed

lemma mock_erase_page:
  assumes "mock_valid kb f" "mock_opened f" "i < page_count m"
  shows "\<exists>f'. mock_ErasePage (mock_cfg m flash_base kb)
      (flash_base + of_nat (base_page_offset m kb) + of_nat (i * page_size m)) f = (f', FLASH_COMPLETE)
    \<and> mock_valid kb f' \<and> mock_opened f'
    \<and> emulation_cells m kb f' = memcpy_at (emulation_cells m kb f) (i * page_size m) (replicate (page_size m) 0xFF)"
proof -
  let ?o = "base_page_offset m kb" and ?p = "page_size m"
  have kb: "even kb" "64 \<le> kb" "kb \<le> 4096" using assms(1) by (auto simp: mock_valid_def)
  have "(i + 1) * ?p \<le> page_count m * ?p" using assms(3) by (intro mult_le_mono1) simp
  then have i: "i * ?p + ?p \<le> legacy_backing_size m" by (simp add: region_pages algebra_simps)
  then have fit: "?o + i * ?p + ?p \<le> kb * 1024" using region_fits[OF kb(2), of m] by linarith
  have pos: "0 < ?p" by (cases m) auto
  have "?o + i * ?p < 2 ^ 32" using fit pos kb(3) by simp
  then have off: "unat (of_nat ?o + of_nat (i * ?p) :: u32) = ?o + i * ?p"
    by (rule unat_offset)
  have al: "(?o + i * ?p) mod ?p = 0" using base_page_aligned[OF kb(1), of m] by (simp add: dvd_imp_mod_0)
  obtain p s where sp: "FlashBuf f = p @ emulation_cells m kb f @ s" "length p = ?o"
      "length (emulation_cells m kb f) = legacy_backing_size m"
    using mock_split[OF assms(1) refl] by blast
  have "mock_ErasePage (mock_cfg m flash_base kb) (flash_base + of_nat ?o + of_nat (i * ?p)) f
      = (f\<lparr>FlashBuf := memcpy_at (FlashBuf f) (?o + i * ?p) (replicate ?p 0xFF)\<rparr>, FLASH_COMPLETE)"
    using assms(2) fit pos al unfolding mock_ErasePage_def mock_cfg_def
    by (simp add: off mock_opened_def Let_def del: of_nat_mult)
  then show ?thesis
    using emulation_cells_update[OF sp _ assms(1), of "i * ?p" "replicate ?p 0xFF"] i sp(3) assms(2)
    by (simp add: mock_opened_def)
qed

lemma mock_program:
  assumes "mock_valid kb f" "mock_opened f" "length u = 2" "emulation_cells m kb f = xs @ replicate 2 0xFF @ ys"
  shows "\<exists>f'. mock_ProgramHalfWord (mock_cfg m flash_base kb)
      (flash_base + of_nat (base_page_offset m kb) + of_nat (length xs)) u f = (f', FLASH_COMPLETE)
    \<and> mock_valid kb f' \<and> mock_opened f' \<and> emulation_cells m kb f' = xs @ u @ ys"
proof -
  let ?o = "base_page_offset m kb"
  have kb: "64 \<le> kb" "kb \<le> 4096" using assms(1) by (auto simp: mock_valid_def)
  obtain p s where sp: "FlashBuf f = p @ (xs @ replicate 2 0xFF @ ys) @ s" "length p = ?o"
      "length (xs @ replicate 2 (0xFF :: u8) @ ys) = legacy_backing_size m"
    using mock_split[OF assms(1,4)] by blast
  have fit: "?o + length xs + 2 \<le> kb * 1024" using region_fits[OF kb(1), of m] sp(3) by simp
  then have "?o + length xs < 2 ^ 32" using kb(2) by simp
  then have off: "unat (of_nat ?o + of_nat (length xs) :: u32) = ?o + length xs"
    by (rule unat_offset)
  have "take 2 (drop (?o + length xs) (FlashBuf f)) = [0xFF, 0xFF]"
    using sp(2) by (simp add: sp(1) numeral_2_eq_2)
  then have "mock_ProgramHalfWord (mock_cfg m flash_base kb) (flash_base + of_nat ?o + of_nat (length xs)) u f
      = (f\<lparr>FlashBuf := memcpy_at (FlashBuf f) (?o + length xs) u\<rparr>, FLASH_COMPLETE)"
    using assms(2) fit unfolding mock_ProgramHalfWord_def mock_cfg_def
    by (simp add: off mock_opened_def Let_def)
  moreover have "memcpy_at (xs @ replicate 2 0xFF @ ys) (length xs) u = xs @ u @ ys"
    using assms(3) by (simp add: memcpy_at_def)
  ultimately show ?thesis
    using emulation_cells_update[OF sp _ assms(1), of "length xs" u] assms(2,3)
    by (simp add: mock_opened_def)
qed

lemma mock_read:
  assumes "mock_valid kb f" "length u = 2" "emulation_cells m kb f = xs @ u @ ys"
  shows "flash_read (mock_flash_ops (mock_cfg m flash_base kb))
    (flash_base + of_nat (base_page_offset m kb) + of_nat (length xs)) f = u"
proof -
  let ?o = "base_page_offset m kb"
  have kb: "64 \<le> kb" "kb \<le> 4096" using assms(1) by (auto simp: mock_valid_def)
  obtain p s where sp: "FlashBuf f = p @ (xs @ u @ ys) @ s" "length p = ?o"
      "length (xs @ u @ ys) = legacy_backing_size m"
    using mock_split[OF assms(1,3)] by blast
  have "?o + length xs < 2 ^ 32" using region_fits[OF kb(1), of m] sp(3) kb(2) assms(2) by simp
  then have off: "unat (of_nat ?o + of_nat (length xs) :: u32) = ?o + length xs"
    by (rule unat_offset)
  then show ?thesis using sp(2) assms(2) by (simp add: mock_cfg_def sp(1))
qed

interpretation mock: legacy_flash "legacy_wear_cfg m" "legacy_driver_cfg m flash_base kb"
  "mock_flash_ops (mock_cfg m flash_base kb)" "mock_valid kb" "emulation_cells m kb" mock_opened
  for m flash_base kb
proof (unfold_locales, goal_cases)
  case 1
  show ?case by (cases m) (simp_all add: wear_leveling_cfg_ok_def legacy_wear_cfg_def)
next
  case 2
  show ?case by (simp add: legacy_wear_cfg_def)
next
  case 3
  show ?case by (simp add: mcu_cfgs region_pages)
next
  case (4 f)
  then show ?case using mock_split[OF 4 refl, of m] by (auto simp: mcu_cfgs)
next
  case (5 f)
  then show ?case by (simp add: mock_Unlock_def mock_valid_def mock_opened_def emulation_cells_def)
next
  case (6 f)
  then show ?case by (simp add: mock_Lock_def mock_valid_def mock_opened_def emulation_cells_def)
next
  case (7 f i)
  then show ?case using mock_erase_page[of kb f i m flash_base] by (simp add: legacy_driver_cfg_def)
next
  case (8 f xs u ys)
  then show ?case using mock_program[of kb f u m xs ys flash_base] by (simp add: legacy_driver_cfg_def)
next
  case (9 f xs u ys)
  then show ?case using mock_read[of kb f u m xs ys flash_base] by (simp add: legacy_driver_cfg_def)
qed

end
