(* ===== verification/Eeprom.thy ===== *)
theory Eeprom
  imports Wear_Flash
begin

text \<open>
  The emulated EEPROM: drivers/eeprom/eeprom_driver.c over drivers/eeprom/eeprom_wear_leveling.c.
  A function returns \<open>None\<close> where the code would leave the cache of the wear leveling.

  The state survives resets: the main property runs any sequence of writes, updates, formats and
  resets on the flash of theory Wear_Flash and compares what is read with a plain byte array.
\<close>

section \<open>Little-endian integers in memory\<close>

definition le_bytes :: "nat \<Rightarrow> 'a::len word \<Rightarrow> u8 list" where
  "le_bytes n w = map (\<lambda>i. ucast (drop_bit (8 * i) w)) [0..<n]"

definition of_le_bytes :: "u8 list \<Rightarrow> 'a::len word" where
  "of_le_bytes bs = fold (\<lambda>i w. w OR push_bit (8 * i) (ucast (bs ! i))) [0..<length bs] 0"

lemma le_bytes_length [simp]: "length (le_bytes n w) = n"
  by (simp add: le_bytes_def)

lemma bit_fold_or:
  "bit (fold (\<lambda>i w. w OR f i) [0..<n] (0 :: 'a::len word)) k \<longleftrightarrow> (\<exists>i < n. bit (f i) k)"
  by (induction n) (auto simp: bit_or_iff less_Suc_eq)

lemma of_le_bytes_le_bytes:
  fixes w :: "'a::len word"
  assumes "LENGTH('a) \<le> 8 * n"
  shows "of_le_bytes (le_bytes n w) = w"
proof (rule bit_word_eqI)
  fix k assume k: "k < LENGTH('a)"
  have "bit (of_le_bytes (le_bytes n w) :: 'a word) k
      \<longleftrightarrow> (\<exists>i < n. bit (push_bit (8 * i) (ucast (le_bytes n w ! i)) :: 'a word) k)"
    by (simp add: of_le_bytes_def bit_fold_or)
  also have "\<dots> \<longleftrightarrow> (\<exists>i < n. 8 * i \<le> k \<and> k - 8 * i < 8 \<and> bit w k)"
    using k by (auto simp: le_bytes_def bit_simps)
  also have "\<dots> \<longleftrightarrow> bit w k"
    using k assms by (auto intro!: exI[of _ "k div 8"] simp: div_less_iff_less_mult minus_mult_div_eq_mod)
  finally show "bit (of_le_bytes (le_bytes n w) :: 'a word) k = bit w k" .
qed

lemma le_bytes_of_le_bytes:
  assumes "length bs = n" "8 * n \<le> LENGTH('a::len)"
  shows "le_bytes n (of_le_bytes bs :: 'a word) = bs"
proof (rule nth_equalityI)
  fix i assume "i < length (le_bytes n (of_le_bytes bs :: 'a word))"
  then have i: "i < n" by simp
  show "le_bytes n (of_le_bytes bs :: 'a word) ! i = bs ! i"
  proof (rule bit_word_eqI)
    fix k assume "k < LENGTH(8)"
    then have k: "k < 8" by simp
    have "8 * i + k < 8 * Suc i" using k by simp
    also have "\<dots> \<le> 8 * n" using i by simp
    finally have w: "8 * i + k < LENGTH('a)" using assms(2) by linarith
    have "bit (le_bytes n (of_le_bytes bs :: 'a word) ! i) k \<longleftrightarrow> bit (of_le_bytes bs :: 'a word) (8 * i + k)"
      using i k by (simp add: le_bytes_def bit_simps)
    also have "\<dots> \<longleftrightarrow> (\<exists>j < n. 8 * j \<le> 8 * i + k \<and> bit (bs ! j) (8 * i + k - 8 * j))"
      using w assms(1) by (auto simp: of_le_bytes_def bit_fold_or bit_simps)
    also have "\<dots> \<longleftrightarrow> bit (bs ! i) k"
    proof
      assume "\<exists>j < n. 8 * j \<le> 8 * i + k \<and> bit (bs ! j) (8 * i + k - 8 * j)"
      then obtain j where j: "8 * j \<le> 8 * i + k" "bit (bs ! j) (8 * i + k - 8 * j)" by blast
      then have "8 * i + k - 8 * j < 8" using bit_imp_le_length[OF j(2)] by simp
      then have "j = i" using j(1) k by linarith
      then show "bit (bs ! i) k" using j(2) by simp
    qed (use i in \<open>auto intro!: exI[of _ i]\<close>)
    finally show "bit (le_bytes n (of_le_bytes bs :: 'a word) ! i) k = bit (bs ! i) k" .
  qed
qed (use assms in simp)

section \<open>The driver\<close>

definition eeprom_driver_init ::
  "wear_leveling_cfg \<Rightarrow> 'b backing_store_ops \<Rightarrow> u8 list \<Rightarrow> 'b wear_leveling \<Rightarrow> 'b wear_leveling" where
  "eeprom_driver_init cfg ops junk s = fst (wear_leveling_init cfg ops junk s)"

definition eeprom_driver_erase ::
  "wear_leveling_cfg \<Rightarrow> 'b backing_store_ops \<Rightarrow> 'b wear_leveling \<Rightarrow> 'b wear_leveling" where
  "eeprom_driver_erase cfg ops s = fst (wear_leveling_erase cfg ops s)"

definition eeprom_driver_format ::
  "wear_leveling_cfg \<Rightarrow> 'b backing_store_ops \<Rightarrow> bool \<Rightarrow> 'b wear_leveling \<Rightarrow> 'b wear_leveling" where
  "eeprom_driver_format cfg ops erase s = eeprom_driver_erase cfg ops s"

text \<open>The buffer is left as it was when the read is refused.\<close>

definition eeprom_read_block ::
  "wear_leveling_cfg \<Rightarrow> u8 list \<Rightarrow> u32 \<Rightarrow> 'b wear_leveling \<Rightarrow> u8 list option" where
  "eeprom_read_block cfg buf addr s =
     (case wear_leveling_read cfg addr (length buf) s of
        None \<Rightarrow> None
      | Some (None, _) \<Rightarrow> Some buf
      | Some (Some bytes, _) \<Rightarrow> Some bytes)"

definition eeprom_write_block ::
  "wear_leveling_cfg \<Rightarrow> 'b backing_store_ops \<Rightarrow> u8 list \<Rightarrow> u32 \<Rightarrow> 'b wear_leveling \<Rightarrow> 'b wear_leveling option" where
  "eeprom_write_block cfg ops buf addr s = map_option fst (wear_leveling_write cfg ops addr buf s)"

definition eeprom_read_byte :: "wear_leveling_cfg \<Rightarrow> u32 \<Rightarrow> 'b wear_leveling \<Rightarrow> u8 option" where
  "eeprom_read_byte cfg addr s = map_option (\<lambda>bs. bs ! 0) (eeprom_read_block cfg [0] addr s)"

definition eeprom_read_word :: "wear_leveling_cfg \<Rightarrow> u32 \<Rightarrow> 'b wear_leveling \<Rightarrow> u16 option" where
  "eeprom_read_word cfg addr s = map_option of_le_bytes (eeprom_read_block cfg (le_bytes 2 (0 :: u16)) addr s)"

definition eeprom_read_dword :: "wear_leveling_cfg \<Rightarrow> u32 \<Rightarrow> 'b wear_leveling \<Rightarrow> u32 option" where
  "eeprom_read_dword cfg addr s = map_option of_le_bytes (eeprom_read_block cfg (le_bytes 4 (0 :: u32)) addr s)"

definition eeprom_write_byte ::
  "wear_leveling_cfg \<Rightarrow> 'b backing_store_ops \<Rightarrow> u32 \<Rightarrow> u8 \<Rightarrow> 'b wear_leveling \<Rightarrow> 'b wear_leveling option" where
  "eeprom_write_byte cfg ops addr v s = eeprom_write_block cfg ops [v] addr s"

definition eeprom_write_word ::
  "wear_leveling_cfg \<Rightarrow> 'b backing_store_ops \<Rightarrow> u32 \<Rightarrow> u16 \<Rightarrow> 'b wear_leveling \<Rightarrow> 'b wear_leveling option" where
  "eeprom_write_word cfg ops addr v s = eeprom_write_block cfg ops (le_bytes 2 v) addr s"

definition eeprom_write_dword ::
  "wear_leveling_cfg \<Rightarrow> 'b backing_store_ops \<Rightarrow> u32 \<Rightarrow> u32 \<Rightarrow> 'b wear_leveling \<Rightarrow> 'b wear_leveling option" where
  "eeprom_write_dword cfg ops addr v s = eeprom_write_block cfg ops (le_bytes 4 v) addr s"

text \<open>\<open>read_buf\<close> is the array on the stack, of the length of the block, before it is read into.\<close>

definition eeprom_update_block ::
  "wear_leveling_cfg \<Rightarrow> 'b backing_store_ops \<Rightarrow> u8 list \<Rightarrow> u8 list \<Rightarrow> u32 \<Rightarrow> 'b wear_leveling
    \<Rightarrow> 'b wear_leveling option" where
  "eeprom_update_block cfg ops read_buf buf addr s =
     (case eeprom_read_block cfg read_buf addr s of
        None \<Rightarrow> None
      | Some read_buf \<Rightarrow> if buf \<noteq> read_buf then eeprom_write_block cfg ops buf addr s else Some s)"

definition eeprom_update_byte ::
  "wear_leveling_cfg \<Rightarrow> 'b backing_store_ops \<Rightarrow> u32 \<Rightarrow> u8 \<Rightarrow> 'b wear_leveling \<Rightarrow> 'b wear_leveling option" where
  "eeprom_update_byte cfg ops addr v s =
     (case eeprom_read_byte cfg addr s of
        None \<Rightarrow> None
      | Some orig \<Rightarrow> if orig \<noteq> v then eeprom_write_byte cfg ops addr v s else Some s)"

definition eeprom_update_word ::
  "wear_leveling_cfg \<Rightarrow> 'b backing_store_ops \<Rightarrow> u32 \<Rightarrow> u16 \<Rightarrow> 'b wear_leveling \<Rightarrow> 'b wear_leveling option" where
  "eeprom_update_word cfg ops addr v s =
     (case eeprom_read_word cfg addr s of
        None \<Rightarrow> None
      | Some orig \<Rightarrow> if orig \<noteq> v then eeprom_write_word cfg ops addr v s else Some s)"

definition eeprom_update_dword ::
  "wear_leveling_cfg \<Rightarrow> 'b backing_store_ops \<Rightarrow> u32 \<Rightarrow> u32 \<Rightarrow> 'b wear_leveling \<Rightarrow> 'b wear_leveling option" where
  "eeprom_update_dword cfg ops addr v s =
     (case eeprom_read_dword cfg addr s of
        None \<Rightarrow> None
      | Some orig \<Rightarrow> if orig \<noteq> v then eeprom_write_dword cfg ops addr v s else Some s)"

section \<open>Histories\<close>

text \<open>
  A reset loses the static variables, which start as zeros, and resets the flash controller; the
  start-up then calls \<open>eeprom_driver_init\<close>. \<open>stack\<close> is what uninitialised memory on the stack holds.
\<close>

datatype eeprom_event =
  Write_Block u32 "u8 list" | Update_Block u32 "u8 list" | Update_Byte u32 u8 | Update_Word u32 u16
  | Update_Dword u32 u32 | Format bool | Reset

definition power_up ::
  "wear_leveling_cfg \<Rightarrow> 'b backing_store_ops \<Rightarrow> u8 list \<Rightarrow> 'b \<Rightarrow> 'b wear_leveling" where
  "power_up cfg ops junk b = eeprom_driver_init cfg ops junk
     \<lparr>cache = replicate (WEAR_LEVELING_LOGICAL_SIZE cfg) 0, write_address = 0, unlocked = False, store = b\<rparr>"

fun eeprom_step ::
  "wear_leveling_cfg \<Rightarrow> 'b backing_store_ops \<Rightarrow> ('b \<Rightarrow> 'b) \<Rightarrow> (nat \<Rightarrow> u8) \<Rightarrow> eeprom_event
    \<Rightarrow> 'b wear_leveling \<Rightarrow> 'b wear_leveling option" where
  "eeprom_step cfg ops reset stack (Write_Block a v) s = eeprom_write_block cfg ops v a s"
| "eeprom_step cfg ops reset stack (Update_Block a v) s =
     eeprom_update_block cfg ops (map stack [0..<length v]) v a s"
| "eeprom_step cfg ops reset stack (Update_Byte a v) s = eeprom_update_byte cfg ops a v s"
| "eeprom_step cfg ops reset stack (Update_Word a v) s = eeprom_update_word cfg ops a v s"
| "eeprom_step cfg ops reset stack (Update_Dword a v) s = eeprom_update_dword cfg ops a v s"
| "eeprom_step cfg ops reset stack (Format e) s = Some (eeprom_driver_format cfg ops e s)"
| "eeprom_step cfg ops reset stack Reset s = Some (power_up cfg ops (map stack [0..<16]) (reset (store s)))"

fun eeprom_run ::
  "wear_leveling_cfg \<Rightarrow> 'b backing_store_ops \<Rightarrow> ('b \<Rightarrow> 'b) \<Rightarrow> (nat \<Rightarrow> u8) \<Rightarrow> eeprom_event list
    \<Rightarrow> 'b wear_leveling \<Rightarrow> 'b wear_leveling option" where
  "eeprom_run cfg ops reset stack [] s = Some s"
| "eeprom_run cfg ops reset stack (e # es) s =
     (case eeprom_step cfg ops reset stack e s of
        None \<Rightarrow> None
      | Some s \<Rightarrow> eeprom_run cfg ops reset stack es s)"

text \<open>The specification: an array of bytes; a block that does not fit is refused.\<close>

definition store_block :: "u32 \<Rightarrow> u8 list \<Rightarrow> u8 list \<Rightarrow> u8 list" where
  "store_block a v mem = (if unat a + length v \<le> length mem then memcpy_at mem (unat a) v else mem)"

fun memory_step :: "eeprom_event \<Rightarrow> u8 list \<Rightarrow> u8 list" where
  "memory_step (Write_Block a v) mem = store_block a v mem"
| "memory_step (Update_Block a v) mem = store_block a v mem"
| "memory_step (Update_Byte a v) mem = store_block a [v] mem"
| "memory_step (Update_Word a v) mem = store_block a (le_bytes 2 v) mem"
| "memory_step (Update_Dword a v) mem = store_block a (le_bytes 4 v) mem"
| "memory_step (Format e) mem = replicate (length mem) 0"
| "memory_step Reset mem = mem"

fun event_span :: "eeprom_event \<Rightarrow> nat" where
  "event_span (Write_Block a v) = unat a + length v"
| "event_span (Update_Block a v) = unat a + length v"
| "event_span (Update_Byte a v) = unat a + 1"
| "event_span (Update_Word a v) = unat a + 2"
| "event_span (Update_Dword a v) = unat a + 4"
| "event_span (Format e) = 0"
| "event_span Reset = 0"

lemma memory_step_length [simp]: "length (memory_step e mem) = length mem"
  by (cases e) (auto simp: store_block_def)

section \<open>The emulated EEPROM is a byte array that survives resets\<close>

locale resettable_store = backing_store cfg ops valid data opened
  for cfg :: wear_leveling_cfg and ops :: "'b backing_store_ops" and valid data opened +
  fixes reset :: "'b \<Rightarrow> 'b"
  assumes reset_law: "valid b \<Longrightarrow> valid (reset b) \<and> data (reset b) = data b \<and> \<not> opened (reset b)"
begin

lemma out_of_range_iff:
  assumes "unat a + n < 2 ^ 32"
  shows "out_of_range cfg a n \<longleftrightarrow> WEAR_LEVELING_LOGICAL_SIZE cfg < unat a + n"
  using assms by (simp add: out_of_range_def unat_word_ariths unat_of_nat_mod)

lemma write_block_live:
  assumes "live s" "unat a + length v < 2 ^ 32"
  shows "\<exists>s'. eeprom_write_block cfg ops v a s = Some s' \<and> live s' \<and> cache s' = store_block a v (cache s)"
proof (cases "unat a + length v \<le> WEAR_LEVELING_LOGICAL_SIZE cfg")
  case True
  then show ?thesis using write_live[OF assms(1) True] live_cache[OF assms(1)]
    by (auto simp: eeprom_write_block_def store_block_def)
next
  case False
  then show ?thesis using assms live_cache[OF assms(1)]
    by (simp add: eeprom_write_block_def wear_leveling_write_def out_of_range_iff store_block_def)
qed

lemma read_block_live:
  assumes "live s" "unat a + length buf < 2 ^ 32"
  shows "eeprom_read_block cfg buf a s =
    Some (if unat a + length buf \<le> WEAR_LEVELING_LOGICAL_SIZE cfg
          then take (length buf) (drop (unat a) (cache s)) else buf)"
  using assms live_cache[OF assms(1)]
  by (simp add: eeprom_read_block_def wear_leveling_read_def out_of_range_iff)

lemma store_block_same:
  assumes "live s" "unat a + length v \<le> WEAR_LEVELING_LOGICAL_SIZE cfg"
    and "take (length v) (drop (unat a) (cache s)) = v"
  shows "store_block a v (cache s) = cache s"
  using assms live_cache[OF assms(1)] by (simp add: store_block_def memcpy_at_same)

text \<open>An update is a write: when it is skipped, the memory holds the bytes already.\<close>

lemma update_live:
  assumes "live s" "unat a + length v < 2 ^ 32" "length buf = length v"
    and "r = (case eeprom_read_block cfg buf a s of
                None \<Rightarrow> None
              | Some bs \<Rightarrow> if d bs \<noteq> d v then eeprom_write_block cfg ops v a s else Some s)"
    and "\<And>bs. length bs = length v \<Longrightarrow> d bs = d v \<Longrightarrow> bs = v"
  shows "\<exists>s'. r = Some s' \<and> live s' \<and> cache s' = store_block a v (cache s)"
proof (cases "unat a + length v \<le> WEAR_LEVELING_LOGICAL_SIZE cfg")
  case fits: True
  define bs where "bs = take (length v) (drop (unat a) (cache s))"
  have bs: "eeprom_read_block cfg buf a s = Some bs" "length bs = length v"
    using read_block_live[of s a buf] assms(1-3) fits live_cache[OF assms(1)] by (auto simp: bs_def)
  show ?thesis
  proof (cases "d bs = d v")
    case True
    then have "bs = v" using assms(5) bs(2) by blast
    then show ?thesis using True assms(1,4) bs(1) store_block_same[OF assms(1) fits] by (simp add: bs_def)
  next
    case False
    then show ?thesis using assms(4) bs(1) write_block_live[OF assms(1,2)] by simp
  qed
next
  case False
  then have rd: "eeprom_read_block cfg buf a s = Some buf"
    using read_block_live[of s a buf] assms(1-3) by simp
  have same: "store_block a v (cache s) = cache s"
    using False live_cache[OF assms(1)] by (simp add: store_block_def)
  show ?thesis
  proof (cases "d buf = d v")
    case True
    then show ?thesis using assms(1,4) rd same by simp
  next
    case False
    then show ?thesis using assms(4) rd write_block_live[OF assms(1,2)] by simp
  qed
qed

lemma step_live:
  assumes "live s" "event_span e < 2 ^ 32"
  shows "\<exists>s'. eeprom_step cfg ops reset stack e s = Some s' \<and> live s' \<and> cache s' = memory_step e (cache s)"
proof (cases e)
  case (Write_Block a v)
  then show ?thesis using write_block_live[of s a v] assms by simp
next
  case (Update_Block a v)
  show ?thesis unfolding Update_Block eeprom_step.simps memory_step.simps
    by (rule update_live[of _ _ _ "map stack [0..<length v]" _ "\<lambda>bs. bs"])
      (use assms Update_Block in \<open>auto simp: eeprom_update_block_def split: option.splits\<close>)
next
  case (Update_Byte a v)
  show ?thesis unfolding Update_Byte eeprom_step.simps memory_step.simps
    by (rule update_live[of _ _ _ "[0]" _ "\<lambda>bs. bs ! 0"])
      (use assms Update_Byte in \<open>auto simp: eeprom_update_byte_def eeprom_read_byte_def eeprom_write_byte_def
         length_Suc_conv split: option.splits\<close>)
next
  case (Update_Word a v)
  show ?thesis unfolding Update_Word eeprom_step.simps memory_step.simps
    by (rule update_live[of _ _ _ "le_bytes 2 (0 :: u16)" _ "of_le_bytes :: u8 list \<Rightarrow> u16"])
      (use assms Update_Word le_bytes_of_le_bytes[of _ 2, where 'a = 16] in \<open>auto simp: eeprom_update_word_def
         eeprom_read_word_def eeprom_write_word_def of_le_bytes_le_bytes split: option.splits\<close>)
next
  case (Update_Dword a v)
  show ?thesis unfolding Update_Dword eeprom_step.simps memory_step.simps
    by (rule update_live[of _ _ _ "le_bytes 4 (0 :: u32)" _ "of_le_bytes :: u8 list \<Rightarrow> u32"])
      (use assms Update_Dword le_bytes_of_le_bytes[of _ 4, where 'a = 32] in \<open>auto simp: eeprom_update_dword_def
         eeprom_read_dword_def eeprom_write_dword_def of_le_bytes_le_bytes split: option.splits\<close>)
next
  case (Format x)
  then show ?thesis using erase_live[OF assms(1)] live_cache[OF assms(1)]
    by (auto simp: eeprom_driver_format_def eeprom_driver_erase_def)
next
  case Reset
  have im: "image (store s) (write_address s) (cache s)" using assms(1) by (simp add: live_def)
  then have r: "valid (reset (store s))" "data (reset (store s)) = data (store s)" "\<not> opened (reset (store s))"
    using reset_law image_cache by blast+
  let ?r = "\<lparr>cache = replicate (WEAR_LEVELING_LOGICAL_SIZE cfg) 0, write_address = 0, unlocked = False,
    store = reset (store s)\<rparr>"
  have "image (store ?r) (write_address s) (cache s)" using image_same_data[OF im r(1,2)] by simp
  then obtain s' where "wear_leveling_init cfg ops (map stack [0..<16]) ?r = (s', WEAR_LEVELING_SUCCESS)"
      "live s'" "cache s' = cache s"
    using init_restores[of ?r "write_address s" "cache s" "map stack [0..<16]"] r(3) by auto
  then show ?thesis unfolding Reset eeprom_step.simps power_up_def eeprom_driver_init_def by simp
qed

lemma run_live:
  assumes "live s" "\<forall>e \<in> set es. event_span e < 2 ^ 32"
  shows "\<exists>s'. eeprom_run cfg ops reset stack es s = Some s' \<and> live s' \<and> cache s' = fold memory_step es (cache s)"
  using assms
proof (induction es arbitrary: s)
  case (Cons e es)
  obtain s1 where s1: "eeprom_step cfg ops reset stack e s = Some s1" "live s1" "cache s1 = memory_step e (cache s)"
    using step_live[OF Cons.prems(1), of e stack] Cons.prems(2) by auto
  then show ?case using Cons.IH[OF s1(2)] Cons.prems(2) by simp
qed simp

lemma power_up_erased:
  assumes "valid b" "data b = replicate (WEAR_LEVELING_BACKING_SIZE cfg) 0" "\<not> opened b"
  shows "live (power_up cfg ops junk b) \<and> cache (power_up cfg ops junk b) = replicate (WEAR_LEVELING_LOGICAL_SIZE cfg) 0"
proof -
  let ?r = "\<lparr>cache = replicate (WEAR_LEVELING_LOGICAL_SIZE cfg) 0, write_address = 0, unlocked = False, store = b\<rparr>"
  have "image (store ?r) (log_start cfg) (replicate (WEAR_LEVELING_LOGICAL_SIZE cfg) 0)"
    using image_erased[OF assms(1,2)] by simp
  then obtain s where "wear_leveling_init cfg ops junk ?r = (s, WEAR_LEVELING_SUCCESS)" "live s"
      "cache s = replicate (WEAR_LEVELING_LOGICAL_SIZE cfg) 0"
    using init_restores[of ?r "log_start cfg" "replicate (WEAR_LEVELING_LOGICAL_SIZE cfg) 0" junk] assms(3) by auto
  then show ?thesis by (simp add: power_up_def eeprom_driver_init_def)
qed

lemma run_from_erased:
  assumes "valid b" "data b = replicate (WEAR_LEVELING_BACKING_SIZE cfg) 0" "\<not> opened b"
    and "\<forall>e \<in> set es. event_span e < 2 ^ 32"
  shows "\<exists>s. eeprom_run cfg ops reset stack es (power_up cfg ops junk b) = Some s \<and> live s
    \<and> cache s = fold memory_step es (replicate (WEAR_LEVELING_LOGICAL_SIZE cfg) 0)"
  using run_live[OF _ assms(4)] power_up_erased[OF assms(1-3)] by metis

lemma read_after_run:
  assumes "valid b" "data b = replicate (WEAR_LEVELING_BACKING_SIZE cfg) 0" "\<not> opened b"
    and "\<forall>e \<in> set es. event_span e < 2 ^ 32"
    and "unat a + length buf \<le> WEAR_LEVELING_LOGICAL_SIZE cfg"
  shows "\<exists>s. eeprom_run cfg ops reset stack es (power_up cfg ops junk b) = Some s
    \<and> eeprom_read_block cfg buf a s = Some (take (length buf)
        (drop (unat a) (fold memory_step es (replicate (WEAR_LEVELING_LOGICAL_SIZE cfg) 0))))"
proof -
  obtain s where s: "eeprom_run cfg ops reset stack es (power_up cfg ops junk b) = Some s" "live s"
      "cache s = fold memory_step es (replicate (WEAR_LEVELING_LOGICAL_SIZE cfg) 0)"
    using run_from_erased[OF assms(1-4)] by blast
  have "unat a + length buf < 2 ^ 32" using assms(5) dvd_sizes(5) by simp
  then show ?thesis using s read_block_live[OF s(2), of a buf] assms(5) by simp
qed

end

interpretation mock_eeprom: resettable_store "legacy_wear_cfg m"
  "legacy_backing (legacy_driver_cfg m flash_base kb) (mock_flash_ops (mock_cfg m flash_base kb))"
  "mock_valid kb" "\<lambda>f. complement (emulation_cells m kb f)" mock_opened mock_Lock
  for m flash_base kb
  by unfold_locales (simp add: mock_Lock_def mock_valid_def mock_opened_def emulation_cells_def)

section \<open>Properties\<close>

abbreviation eeprom_on :: "mcu \<Rightarrow> u32 \<Rightarrow> nat \<Rightarrow> mock_flash backing_store_ops" where
  "eeprom_on m flash_base kb \<equiv>
     legacy_backing (legacy_driver_cfg m flash_base kb) (mock_flash_ops (mock_cfg m flash_base kb))"

text \<open>A flash with its emulation pages erased, and the controller as it is after a reset.\<close>

definition erased_flash :: "mcu \<Rightarrow> nat \<Rightarrow> mock_flash \<Rightarrow> bool" where
  "erased_flash m kb f \<longleftrightarrow>
     mock_valid kb f \<and> emulation_cells m kb f = replicate (legacy_backing_size m) 0xFF \<and> flash_locked f"

text \<open>
  C3. On every supported microcontroller, starting with erased emulation pages, any sequence of
  writes, updates, formats and resets runs through, and every block then read is the one the same
  sequence leaves in an array of 1024 bytes: what was written survives the resets, whatever the
  write log and its consolidation did meanwhile. (Only an event whose address and length overflow
  32 bits is excluded.)
\<close>

theorem eeprom_survives_resets:
  assumes "erased_flash m kb f"
    and "\<forall>e \<in> set es. event_span e < 2 ^ 32"
    and "unat a + length buf \<le> 1024"
  shows "\<exists>s. eeprom_run (legacy_wear_cfg m) (eeprom_on m flash_base kb) mock_Lock stack es
        (power_up (legacy_wear_cfg m) (eeprom_on m flash_base kb) junk f) = Some s
      \<and> eeprom_read_block (legacy_wear_cfg m) buf a s
        = Some (take (length buf) (drop (unat a) (fold memory_step es (replicate 1024 0))))"
  using mock_eeprom.read_after_run[where kb = kb and m = m and flash_base = flash_base and b = f and es = es
      and a = a and buf = buf and stack = stack and junk = junk] assms
  by (simp add: erased_flash_def legacy_wear_cfg_def mock_opened_def)

text \<open>A flash of 64 kilobytes, all erased.\<close>

definition blank_flash :: mock_flash where
  "blank_flash = \<lparr>FlashBuf = replicate 65536 0xFF, flash_locked = True\<rparr>"

lemma blank_flash_erased: "erased_flash m 64 blank_flash"
  using region_fits[of 64 m]
  by (simp add: erased_flash_def mock_valid_def emulation_cells_def blank_flash_def min_def)

theorem eeprom_survives_resets_witness:
  "\<exists>s. eeprom_run (legacy_wear_cfg STM32F042) (eeprom_on STM32F042 0x08000000 64) mock_Lock (\<lambda>_. 0)
        [Write_Block 0 [1, 2], Reset, Update_Byte 1 9, Reset]
        (power_up (legacy_wear_cfg STM32F042) (eeprom_on STM32F042 0x08000000 64) [] blank_flash) = Some s
      \<and> eeprom_read_block (legacy_wear_cfg STM32F042) [0, 0] 0 s = Some [1, 9]"
  using eeprom_survives_resets[OF blank_flash_erased, where es = "[Write_Block 0 [1, 2], Reset, Update_Byte 1 9, Reset]"
      and a = 0 and buf = "[0, 0]" and m = STM32F042 and flash_base = "0x08000000" and stack = "\<lambda>_. 0" and junk = "[]"]
  by (simp add: store_block_def memcpy_at_def del: eeprom_run.simps)

lemma take_drop_memcpy_at:
  "a + length v \<le> length c \<Longrightarrow> take (length v) (drop a (memcpy_at c a v)) = v"
  by (simp add: memcpy_at_def)

lemma fold_memory_length [simp]: "length (fold memory_step es mem) = length mem"
  by (induction es arbitrary: mem) simp_all

text \<open>
  C27. A word updated after any such history and read back after another reset has its value.
\<close>

theorem eeprom_word_roundtrip:
  assumes "erased_flash m kb f"
    and "\<forall>e \<in> set es. event_span e < 2 ^ 32"
    and "unat a + 2 \<le> 1024"
  shows "\<exists>s. eeprom_run (legacy_wear_cfg m) (eeprom_on m flash_base kb) mock_Lock stack
        (es @ [Update_Word a v, Reset]) (power_up (legacy_wear_cfg m) (eeprom_on m flash_base kb) junk f) = Some s
      \<and> eeprom_read_word (legacy_wear_cfg m) a s = Some v"
proof -
  define mem where "mem = fold memory_step es (replicate 1024 0)"
  have len: "length mem = 1024" by (simp add: mem_def)
  have "take 2 (drop (unat a) (store_block a (le_bytes 2 v) mem)) = le_bytes 2 v"
    using assms(3) len take_drop_memcpy_at[of "unat a" "le_bytes 2 v" mem] by (simp add: store_block_def)
  then have "of_le_bytes (take 2 (drop (unat a) (fold memory_step (es @ [Update_Word a v, Reset]) (replicate 1024 0)))) = v"
    by (simp add: mem_def[symmetric] of_le_bytes_le_bytes)
  moreover have "\<forall>e \<in> set (es @ [Update_Word a v, Reset]). event_span e < 2 ^ 32"
    using assms(2,3) by auto
  ultimately show ?thesis
    using mock_eeprom.read_after_run[where kb = kb and m = m and flash_base = flash_base and b = f
        and es = "es @ [Update_Word a v, Reset]" and a = a and buf = "le_bytes 2 (0 :: u16)"
        and stack = stack and junk = junk] assms(1,3)
    by (auto simp: erased_flash_def legacy_wear_cfg_def mock_opened_def eeprom_read_word_def)
qed

theorem eeprom_word_roundtrip_witness:
  "\<exists>s. eeprom_run (legacy_wear_cfg STM32F072) (eeprom_on STM32F072 0 64) mock_Lock (\<lambda>_. 7)
        ([Write_Block 10 [1, 2, 3, 4, 5, 6]] @ [Update_Word 12 0xBEEF, Reset])
        (power_up (legacy_wear_cfg STM32F072) (eeprom_on STM32F072 0 64) [] blank_flash) = Some s
      \<and> eeprom_read_word (legacy_wear_cfg STM32F072) 12 s = Some 0xBEEF"
  by (rule eeprom_word_roundtrip[OF blank_flash_erased]) simp_all

text \<open>
  The bounds check of a read adds address and length in 32 bits: the read leaves the cache
  exactly when the addition wraps around to a sum within the logical size.
\<close>

theorem wear_leveling_read_overflow:
  assumes "length (cache s) = WEAR_LEVELING_LOGICAL_SIZE cfg" "len < 2 ^ 32"
    and "WEAR_LEVELING_LOGICAL_SIZE cfg < 2 ^ 32"
  shows "wear_leveling_read cfg address len s = None
    \<longleftrightarrow> 2 ^ 32 \<le> unat address + len \<and> unat address + len - 2 ^ 32 \<le> WEAR_LEVELING_LOGICAL_SIZE cfg"
proof -
  have "unat address < 2 ^ 32" using unsigned_less[of address] by simp
  then have "unat (address + of_nat len)
      = (if unat address + len < 2 ^ 32 then unat address + len else unat address + len - 2 ^ 32)"
    using assms(2) by (simp add: unat_word_ariths unat_of_nat_mod le_mod_geq)
  then show ?thesis
    using assms by (auto simp: wear_leveling_read_def out_of_range_def)
qed

theorem wear_leveling_read_overflow_witness:
  "wear_leveling_read (legacy_wear_cfg STM32F042) 0xFFFFFFFF 2
     \<lparr>cache = replicate 1024 0, write_address = 1032, unlocked = False, store = ()\<rparr> = None"
  by (subst wear_leveling_read_overflow) (simp_all add: legacy_wear_cfg_def)

text \<open>
  C28. A log whose playback fails at start-up is not repaired: the forced consolidation erases a
  flash that is still locked, which fails, so the initialisation fails, on every start.
\<close>

theorem corrupt_log_not_repaired:
  assumes "flash_locked (store s)"
    and "playback_loop (legacy_wear_cfg m) (eeprom_on m flash_base kb) junk (store s)
           (log_start (legacy_wear_cfg m)) (cache s) = (address, c, WEAR_LEVELING_FAILED)"
  shows "wear_leveling_playback_log (legacy_wear_cfg m) (eeprom_on m flash_base kb) junk s
    = (s\<lparr>cache := c, write_address := address\<rparr>, WEAR_LEVELING_FAILED)"
proof -
  have "fold (legacy_erase_page (legacy_driver_cfg m flash_base kb) (mock_flash_ops (mock_cfg m flash_base kb)))
      [0..<n] (store s, True) = (store s, n = 0)" for n
    using assms(1) by (induction n) (auto simp: legacy_erase_page_def mock_ErasePage_def)
  moreover have "EMULATION_PAGE_COUNT (legacy_driver_cfg m flash_base kb) \<noteq> 0"
    by (cases m) (simp_all add: legacy_driver_cfg_def)
  ultimately have "legacy_erase (legacy_driver_cfg m flash_base kb) (mock_flash_ops (mock_cfg m flash_base kb)) (store s)
      = (store s, False)"
    by (simp add: legacy_erase_def)
  then show ?thesis using assms(2)
    by (simp add: wear_leveling_playback_log_def wear_leveling_consolidate_force_def)
qed

definition corrupt_flash :: mock_flash where
  "corrupt_flash = \<lparr>FlashBuf = replicate 64520 0xFF @ 0x3F # replicate 1015 0xFF, flash_locked = True\<rparr>"

theorem corrupt_log_not_repaired_witness:
  "snd (wear_leveling_playback_log (legacy_wear_cfg STM32F042) (eeprom_on STM32F042 0 64) (replicate 10 0)
     \<lparr>cache = replicate 1024 0, write_address = 1032, unlocked = False, store = corrupt_flash\<rparr>)
   = WEAR_LEVELING_FAILED"
proof -
  have cell: "take 2 (drop 64520 (FlashBuf corrupt_flash)) = [0x3F, 0xFF]"
    by (simp add: corrupt_flash_def numeral_2_eq_2)
  have rd: "backing_store_read (eeprom_on STM32F042 0 64) 1032 corrupt_flash = Some [0xC0, 0]"
    using cell by (simp add: legacy_read_def complement_def mcu_cfgs)
  have "LOG_ENTRY_GET_TYPE (0xC0 # r) = 3" for r
    by (simp add: LOG_ENTRY_GET_TYPE_def BITMASK_FOR_BITCOUNT_def mask_eq_exp_minus_1)
  then have "playback_entry (legacy_wear_cfg STM32F042) (eeprom_on STM32F042 0 64) (replicate 10 0) corrupt_flash
      [0xC0, 0] 1034 c = (1034, c, False)" for c
    by (simp add: playback_entry_def memcpy_at_def log_types)
  then have "playback_loop (legacy_wear_cfg STM32F042) (eeprom_on STM32F042 0 64) (replicate 10 0) corrupt_flash
      (log_start (legacy_wear_cfg STM32F042)) c = (1034, c, WEAR_LEVELING_FAILED)" for c
    using rd by (subst playback_loop.simps) (simp add: legacy_wear_cfg_def del: legacy_backing_simps)
  then show ?thesis
    using corrupt_log_not_repaired[where m = STM32F042 and flash_base = 0 and kb = 64 and junk = "replicate 10 0"
        and s = "\<lparr>cache = replicate 1024 0, write_address = 1032, unlocked = False, store = corrupt_flash\<rparr>"]
    by (simp add: corrupt_flash_def)
qed

end
