(* ===== verification/Bitwise.thy ===== *)
theory Bitwise
  imports Prelude
begin

text \<open>
  Bit population, highest bit and bit reversal (quantum/bitwise.c), with what each computes: the
  number of set bits, the position of the highest one, and the bits in the opposite order.
\<close>

section \<open>Population\<close>

text \<open>The set bits of a natural number, counted from the lowest.\<close>

fun pop :: "nat \<Rightarrow> nat" where
  "pop n = (if n = 0 then 0 else n mod 2 + pop (n div 2))"

declare pop.simps [simp del]

lemma pop_0 [simp]: "pop 0 = 0"
  by (simp add: pop.simps)

lemma pop_double [simp]: "pop (2 * n) = pop n"
  by (cases "n = 0") (simp_all add: pop.simps[of "2 * n"])

lemma pop_double_Suc [simp]: "pop (Suc (2 * n)) = Suc (pop n)"
  by (simp add: pop.simps[of "Suc (2 * n)"])

lemma and_pred_even: "0 < n \<Longrightarrow> (2 * n) AND (2 * n - 1) = 2 * (n AND (n - 1) :: nat)"
  by (subst and_rec) (cases n; simp)

lemma and_pred_odd: "Suc (2 * n) AND (2 * n) = 2 * n" for n :: nat
  by (subst and_rec) simp

lemma pop_and_pred: "0 < n \<Longrightarrow> Suc (pop (n AND (n - 1))) = pop n"
proof (induction n rule: less_induct)
  case (less n)
  show ?case
  proof (cases "even n")
    case True
    then obtain m where m: "n = 2 * m" by blast
    then have "0 < m" "m < n" using less.prems by auto
    then show ?thesis using less.IH[of m] and_pred_even[of m] m by simp
  next
    case False
    then obtain m where "n = Suc (2 * m)" by (metis oddE Suc_eq_plus1)
    then show ?thesis by (simp add: and_pred_odd)
  qed
qed

lemma and_pred_less: "0 < n \<Longrightarrow> n AND (n - 1) < n" for n :: nat
proof -
  assume n: "0 < n"
  have "int (n AND (n - 1)) \<le> int (n - 1)"
    unfolding of_nat_and_eq by (rule AND_upper2) simp
  then show ?thesis using n by linarith
qed

lemma bit_imp_less: "bit n k \<Longrightarrow> k < n" for n :: nat
proof -
  assume "bit n k"
  then have "n div 2 ^ k \<noteq> 0" by (metis bit_iff_odd even_zero)
  then have "2 ^ k \<le> n" by (simp add: div_eq_0_iff)
  then show "k < n" using less_exp[of k] by linarith
qed

lemma pop_card: "pop n = card {k. bit n k}"
proof (induction n rule: less_induct)
  case (less n)
  have fin: "finite {k. bit m k}" for m :: nat
    by (rule finite_subset[of _ "{..<m}"]) (auto dest: bit_imp_less)
  show ?case
  proof (cases "n = 0")
    case False
    have "{k. bit n k} = (if odd n then {0} else {}) \<union> Suc ` {k. bit (n div 2) k}"
    proof (rule set_eqI)
      fix k show "k \<in> {k. bit n k} \<longleftrightarrow> k \<in> (if odd n then {0} else {}) \<union> Suc ` {k. bit (n div 2) k}"
        by (cases k) (auto simp: bit_0 bit_Suc)
    qed
    then have "card {k. bit n k} = n mod 2 + card {k. bit (n div 2) k}"
      using fin[of "n div 2"] by (auto simp: card_insert_if card_image odd_iff_mod_2_eq_one)
    then show ?thesis using less.IH[of "n div 2"] False by (simp add: pop.simps[of n])
  qed simp
qed

text \<open>The loop: the lowest set bit is cleared until none is left. The counter has 8 bits.\<close>

function bitpop_loop :: "'a::len word \<Rightarrow> u8 \<Rightarrow> u8" where
  "bitpop_loop bits c = (if bits = 0 then c else bitpop_loop (bits AND (bits - 1)) (c + 1))"
  by pat_completeness auto

lemma unat_clear_lowest:
  assumes "bits \<noteq> (0 :: 'a::len word)"
  shows "unat (bits AND (bits - 1)) = unat bits AND (unat bits - 1)"
  using assms by (simp add: unsigned_and_eq unat_minus_one)

termination bitpop_loop
proof (relation "measure (\<lambda>(bits, c). unat bits)")
  fix bits :: "'a word" and c :: u8
  assume "bits \<noteq> 0"
  then have "0 < unat bits" by (simp add: unat_gt_0)
  then show "((bits AND (bits - 1), c + 1), (bits, c)) \<in> measure (\<lambda>(bits, c). unat bits)"
    using and_pred_less[of "unat bits"] \<open>bits \<noteq> 0\<close> by (simp add: unat_clear_lowest)
qed simp

declare bitpop_loop.simps [simp del]

definition bitpop :: "u8 \<Rightarrow> u8" where "bitpop bits = bitpop_loop bits 0"
definition bitpop16 :: "u16 \<Rightarrow> u8" where "bitpop16 bits = bitpop_loop bits 0"
definition bitpop32 :: "u32 \<Rightarrow> u8" where "bitpop32 bits = bitpop_loop bits 0"

lemma bitpop_loop_pop: "bitpop_loop bits c = c + of_nat (pop (unat bits))"
proof (induction bits c rule: bitpop_loop.induct)
  case (1 bits c)
  show ?case
  proof (cases "bits = 0")
    case False
    then have "0 < unat bits" by (simp add: unat_gt_0)
    then have "pop (unat bits) = Suc (pop (unat (bits AND (bits - 1))))"
      using pop_and_pred[of "unat bits"] False by (simp add: unat_clear_lowest)
    then show ?thesis using 1 False by (simp add: bitpop_loop.simps[of bits])
  qed (simp add: bitpop_loop.simps)
qed

lemma unat_bitpop_loop:
  fixes v :: "'a::len word"
  assumes "LENGTH('a) < 256"
  shows "unat (bitpop_loop v 0) = card {k. bit v k}"
proof -
  have "{k. bit v k} \<subseteq> {..<LENGTH('a)}" by (auto dest: bit_imp_le_length)
  then have "card {k. bit v k} \<le> LENGTH('a)" using card_mono[of "{..<LENGTH('a)}"] by simp
  then have "pop (unat v) < 2 ^ 8" using assms by (simp add: pop_card bit_unat)
  then show ?thesis by (simp add: bitpop_loop_pop pop_card bit_unat unat_of_nat_mod)
qed

text \<open>
  The three populations are the number of set bits of their argument, for every argument.
\<close>

theorem bitpop_counts_bits:
  "unat (bitpop b) = card {k. bit b k} \<and> unat (bitpop16 w) = card {k. bit w k}
   \<and> unat (bitpop32 d) = card {k. bit d k}"
  by (simp add: bitpop_def bitpop16_def bitpop32_def unat_bitpop_loop)

section \<open>The highest set bit\<close>

text \<open>\<open>if (bits >> k) { bits >>= k; n += k; }\<close>\<close>

definition biton_step :: "nat \<Rightarrow> 'a::len word \<times> u8 \<Rightarrow> 'a word \<times> u8" where
  "biton_step k s = (case s of (bits, n) \<Rightarrow>
     if drop_bit k bits \<noteq> 0 then (drop_bit k bits, n + of_nat k) else (bits, n))"

definition biton :: "u8 \<Rightarrow> u8" where
  "biton bits = snd (fold biton_step [4, 2, 1] (bits, 0))"
definition biton16 :: "u16 \<Rightarrow> u8" where
  "biton16 bits = snd (fold biton_step [8, 4, 2, 1] (bits, 0))"
definition biton32 :: "u32 \<Rightarrow> u8" where
  "biton32 bits = snd (fold biton_step [16, 8, 4, 2, 1] (bits, 0))"

text \<open>
  A step keeps the position of the highest bit as \<open>n\<close> plus its position in \<open>bits\<close>, and halves
  the width that \<open>bits\<close> needs.
\<close>

definition highest :: "'a::len word \<Rightarrow> nat \<Rightarrow> 'a word \<times> u8 \<Rightarrow> nat \<Rightarrow> bool" where
  "highest w lim s k \<longleftrightarrow> (case s of (bits, n) \<Rightarrow>
     bits = drop_bit (unat n) w \<and> bits \<noteq> 0 \<and> unat bits < 2 ^ k \<and> unat n + k \<le> lim)"

lemma biton_step_highest:
  assumes "highest w lim s (2 * k)" "lim < 256"
  shows "highest w lim (biton_step k s) k"
proof -
  obtain bits n where s: "s = (bits, n)" by (cases s)
  have h: "bits = drop_bit (unat n) w" "bits \<noteq> 0" "unat bits < 2 ^ (2 * k)" "unat n + 2 * k \<le> lim"
    using assms(1) by (auto simp: highest_def s)
  have n: "unat (n + of_nat k) = unat n + k"
    using h(4) assms(2) by (simp add: unat_word_ariths unat_of_nat_mod)
  have div: "unat (drop_bit k bits) = unat bits div 2 ^ k"
    by (metis drop_bit_eq_div unat_drop_bit_eq)
  show ?thesis
  proof (cases "drop_bit k bits = 0")
    case True
    then have "unat bits div 2 ^ k = 0" using div by simp
    then have "unat bits < 2 ^ k" by (simp add: div_eq_0_iff)
    then show ?thesis using True h by (simp add: biton_step_def highest_def s)
  next
    case False
    have "unat (drop_bit k bits) < 2 ^ k"
      using h(3) by (simp add: div less_mult_imp_div_less flip: power_add mult_2)
    then show ?thesis using False h n
      by (simp add: biton_step_def highest_def s add.commute)
  qed
qed

lemma highest_found:
  assumes "highest w lim s 1"
  shows "bit w (unat (snd s)) \<and> (\<forall>j > unat (snd s). \<not> bit w j)"
proof -
  obtain bits n where s: "s = (bits, n)" by (cases s)
  have h: "bits = drop_bit (unat n) w" "bits \<noteq> 0" "unat bits < 2"
    using assms by (auto simp: highest_def s)
  then have "unat bits \<noteq> 0" by (simp add: unat_eq_zero)
  then have "unat bits = 1" using h(3) by linarith
  then have one: "drop_bit (unat n) w = 1" using h(1) by (metis unat_1 word_unat_eq_iff)
  have b: "bit (drop_bit (unat n) w) j \<longleftrightarrow> bit w (unat n + j)" for j by (simp add: bit_drop_bit_eq)
  have "bit w (unat n)" using b[of 0] one by simp
  moreover have "\<not> bit w j" if "unat n < j" for j
    using b[of "j - unat n"] one that by (simp add: bit_1_iff)
  ultimately show ?thesis by (simp add: s)
qed

text \<open>
  On an argument with a set bit the three functions return the position of the highest one.
\<close>

theorem biton_highest:
  assumes "b \<noteq> 0" "w \<noteq> 0" "d \<noteq> 0"
  shows "bit b (unat (biton b)) \<and> (\<forall>j > unat (biton b). \<not> bit b j)
    \<and> bit w (unat (biton16 w)) \<and> (\<forall>j > unat (biton16 w). \<not> bit w j)
    \<and> bit d (unat (biton32 d)) \<and> (\<forall>j > unat (biton32 d). \<not> bit d j)"
proof -
  have s: "highest b 8 (b, 0) 8" "highest w 16 (w, 0) 16" "highest d 32 (d, 0) 32"
    using assms unsigned_less[of b] unsigned_less[of w] unsigned_less[of d] by (simp_all add: highest_def)
  have 1: "highest b 8 (fold biton_step [4, 2, 1] (b, 0)) 1"
    using s(1) by (auto intro!: biton_step_highest)
  have 2: "highest w 16 (fold biton_step [8, 4, 2, 1] (w, 0)) 1"
    using s(2) by (auto intro!: biton_step_highest)
  have 3: "highest d 32 (fold biton_step [16, 8, 4, 2, 1] (d, 0)) 1"
    using s(3) by (auto intro!: biton_step_highest)
  show ?thesis
    unfolding biton_def biton16_def biton32_def
    using highest_found[OF 1] highest_found[OF 2] highest_found[OF 3] by blast
qed

theorem biton_highest_witness:
  "bit (0x90 :: u8) (unat (biton 0x90)) \<and> biton 0x90 = 7"
  using biton_highest[where b = "0x90" and w = 1 and d = 1] by (simp add: biton_def biton_step_def)

section \<open>Reversal\<close>

definition bitrev :: "u8 \<Rightarrow> u8" where
  "bitrev bits =
     (let bits = push_bit 4 (bits AND 0x0F) OR drop_bit 4 (bits AND 0xF0);
          bits = push_bit 2 (bits AND 0b00110011) OR drop_bit 2 (bits AND 0b11001100)
      in push_bit 1 (bits AND 0b01010101) OR drop_bit 1 (bits AND 0b10101010))"

definition bitrev16 :: "u16 \<Rightarrow> u16" where
  "bitrev16 bits = push_bit 8 (ucast (bitrev (ucast (bits AND 0x00FF))))
     OR ucast (bitrev (ucast (drop_bit 8 (bits AND 0xFF00))))"

definition bitrev32 :: "u32 \<Rightarrow> u32" where
  "bitrev32 bits = push_bit 16 (ucast (bitrev16 (ucast (bits AND 0x0000FFFF))))
     OR ucast (bitrev16 (ucast (drop_bit 16 (bits AND 0xFFFF0000))))"

lemma less_8_cases: "k < 8 \<Longrightarrow> k = 0 \<or> k = 1 \<or> k = 2 \<or> k = 3 \<or> k = 4 \<or> k = 5 \<or> k = 6 \<or> k = (7 :: nat)"
  by linarith

lemma swap_nibbles:
  "k < 8 \<Longrightarrow> bit (push_bit 4 (b AND 0x0F) OR drop_bit 4 (b AND 0xF0) :: u8) k = bit b (if k < 4 then k + 4 else k - 4)"
  unfolding bit_or_iff bit_push_bit_iff bit_drop_bit_eq bit_and_iff o_def
  by (drule less_8_cases) (elim disjE; simp; simp add: eval_nat_numeral)

lemma swap_pairs:
  "k < 8 \<Longrightarrow> bit (push_bit 2 (b AND 0b00110011) OR drop_bit 2 (b AND 0b11001100) :: u8) k
    = bit b (if k mod 4 < 2 then k + 2 else k - 2)"
  unfolding bit_or_iff bit_push_bit_iff bit_drop_bit_eq bit_and_iff o_def
  by (drule less_8_cases) (elim disjE; simp; simp add: eval_nat_numeral)

lemma swap_single:
  "k < 8 \<Longrightarrow> bit (push_bit 1 (b AND 0b01010101) OR drop_bit 1 (b AND 0b10101010) :: u8) k
    = bit b (if even k then k + 1 else k - 1)"
  unfolding bit_or_iff bit_push_bit_iff bit_drop_bit_eq bit_and_iff o_def
  by (drule less_8_cases) (elim disjE; simp; simp add: eval_nat_numeral)

lemma bit_bitrev:
  assumes "k < 8"
  shows "bit (bitrev b) k = bit b (7 - k)"
proof -
  define s1 where "s1 = push_bit 4 (b AND 0x0F) OR drop_bit 4 (b AND 0xF0)"
  define s2 where "s2 = push_bit 2 (s1 AND 0b00110011) OR drop_bit 2 (s1 AND 0b11001100)"
  define k1 where "k1 = (if even k then k + 1 else k - 1)"
  define k2 where "k2 = (if k1 mod 4 < 2 then k1 + 2 else k1 - 2)"
  have k: "k1 < 8" "k2 < 8" "(if k2 < 4 then k2 + 4 else k2 - 4) = 7 - k"
    using less_8_cases[OF assms] by (auto simp: k1_def k2_def)
  have "bit (bitrev b) k = bit s2 k1"
    unfolding bitrev_def Let_def s1_def[symmetric] s2_def[symmetric] k1_def by (rule swap_single[OF assms])
  also have "\<dots> = bit s1 k2" unfolding s2_def k2_def by (rule swap_pairs[OF k(1)])
  also have "\<dots> = bit b (if k2 < 4 then k2 + 4 else k2 - 4)" unfolding s1_def by (rule swap_nibbles[OF k(2)])
  finally show ?thesis by (simp only: k(3))
qed

lemma bit_low_mask: "bit (0xFF :: u16) k \<longleftrightarrow> k < 8" "bit (0xFFFF :: u32) k \<longleftrightarrow> k < 16"
  "bit (0xFF00 :: u16) k \<longleftrightarrow> 8 \<le> k \<and> k < 16" "bit (0xFFFF0000 :: u32) k \<longleftrightarrow> 16 \<le> k \<and> k < 32"
proof -
  have "(0xFF :: u16) = mask 8" "(0xFFFF :: u32) = mask 16" "(0xFF00 :: u16) = push_bit 8 (mask 8)"
    "(0xFFFF0000 :: u32) = push_bit 16 (mask 16)" by (simp_all add: mask_eq_exp_minus_1 push_bit_eq_mult)
  then show "bit (0xFF :: u16) k \<longleftrightarrow> k < 8" "bit (0xFFFF :: u32) k \<longleftrightarrow> k < 16"
    "bit (0xFF00 :: u16) k \<longleftrightarrow> 8 \<le> k \<and> k < 16" "bit (0xFFFF0000 :: u32) k \<longleftrightarrow> 16 \<le> k \<and> k < 32"
    by (simp_all only: bit_push_bit_iff bit_mask_iff) auto
qed

lemma bit_bitrev16:
  assumes "k < 16"
  shows "bit (bitrev16 w) k = bit w (15 - k)"
proof (cases "k < 8")
  case True
  then have "bit (bitrev16 w) k = bit (bitrev (ucast (drop_bit 8 (w AND 0xFF00)))) k"
    using assms by (auto simp: bitrev16_def bit_or_iff bit_push_bit_iff bit_ucast_iff)
  also have "\<dots> = bit w (15 - k)"
    unfolding bit_bitrev[OF True] bit_ucast_iff bit_drop_bit_eq o_def bit_and_iff bit_low_mask
    using True by auto
  finally show ?thesis .
next
  case False
  then have "bit (bitrev16 w) k = bit (bitrev (ucast (w AND 0x00FF))) (k - 8)"
    using assms by (auto simp: bitrev16_def bit_or_iff bit_push_bit_iff bit_ucast_iff dest: bit_imp_le_length)
  moreover have "k - 8 < 8" using False assms by simp
  ultimately have "bit (bitrev16 w) k = bit (ucast (w AND 0x00FF) :: u8) (7 - (k - 8))" by (simp only: bit_bitrev)
  also have "\<dots> = bit w (15 - k)"
    unfolding bit_ucast_iff bit_and_iff bit_low_mask using False assms by (auto simp: le_imp_diff_is_add)
  finally show ?thesis .
qed

lemma bit_bitrev32:
  assumes "k < 32"
  shows "bit (bitrev32 d) k = bit d (31 - k)"
proof (cases "k < 16")
  case True
  then have "bit (bitrev32 d) k = bit (bitrev16 (ucast (drop_bit 16 (d AND 0xFFFF0000)))) k"
    using assms by (auto simp: bitrev32_def bit_or_iff bit_push_bit_iff bit_ucast_iff)
  also have "\<dots> = bit d (31 - k)"
    unfolding bit_bitrev16[OF True] bit_ucast_iff bit_drop_bit_eq o_def bit_and_iff bit_low_mask
    using True by auto
  finally show ?thesis .
next
  case False
  then have "bit (bitrev32 d) k = bit (bitrev16 (ucast (d AND 0x0000FFFF))) (k - 16)"
    using assms by (auto simp: bitrev32_def bit_or_iff bit_push_bit_iff bit_ucast_iff dest: bit_imp_le_length)
  moreover have "k - 16 < 16" using False assms by simp
  ultimately have "bit (bitrev32 d) k = bit (ucast (d AND 0x0000FFFF) :: u16) (15 - (k - 16))" by (simp only: bit_bitrev16)
  also have "\<dots> = bit d (31 - k)"
    unfolding bit_ucast_iff bit_and_iff bit_low_mask using False assms by auto
  finally show ?thesis .
qed

text \<open>
  The three reversals put bit k of a word of n bits at position n - 1 - k, for every bit.
\<close>

theorem bitrev_reverses:
  "(k < 8 \<longrightarrow> bit (bitrev b) k = bit b (7 - k)) \<and> (k < 16 \<longrightarrow> bit (bitrev16 w) k = bit w (15 - k))
   \<and> (k < 32 \<longrightarrow> bit (bitrev32 d) k = bit d (31 - k))"
  by (simp add: bit_bitrev bit_bitrev16 bit_bitrev32)

theorem bitrev_reverses_witness: "bit (bitrev 0x01) 7 \<and> bit (bitrev16 0x0001) 15 \<and> bit (bitrev32 1) 31"
  using bitrev_reverses[where k = 7 and b = 1 and w = 1 and d = 1]
    bitrev_reverses[where k = 15 and b = 1 and w = 1 and d = 1]
    bitrev_reverses[where k = 31 and b = 1 and w = 1 and d = 1] by simp

end
