(* ===== verification/Report.thy ===== *)
theory Report
  imports Bitwise
begin

text \<open>
  The keyboard report (tmk_core/protocol/report.c): six key slots, or one bit per key when the
  host takes n-key rollover. Both are sets of held keys; the locale \<open>key_set\<close> is what they
  promise, and each of them meets it within its capacity.
\<close>

definition KEYBOARD_REPORT_KEYS :: nat where "KEYBOARD_REPORT_KEYS = 6"
definition NKRO_REPORT_BITS :: nat where "NKRO_REPORT_BITS = 30"
definition KC_NO :: u8 where "KC_NO = 0"

text \<open>
  \<open>keys\<close> are \<open>keyboard_report->keys\<close>, \<open>bits\<close> are \<open>nkro_report->bits\<close>, and \<open>use_nkro\<close> is
  \<open>host_can_send_nkro() && keymap_config.nkro\<close>.
\<close>

record report_state =
  keys :: "u8 list"
  bits :: "u8 list"
  use_nkro :: bool

section \<open>Operations\<close>

definition has_anykey :: "'a report_state_scheme \<Rightarrow> nat" where
  "has_anykey r = fold (\<lambda>p cnt. if p \<noteq> 0 then cnt + 1 else cnt) (if use_nkro r then bits r else keys r) 0"

text \<open>The search for the first byte in use; \<open>None\<close> when the read after it is past the array.\<close>

definition get_first_key :: "'a report_state_scheme \<Rightarrow> u8 option" where
  "get_first_key r =
     (if use_nkro r then
        let i = length (takeWhile (\<lambda>b. b = 0) (take NKRO_REPORT_BITS (bits r)))
        in if i < length (bits r) then Some (push_bit 3 (of_nat i) OR biton (bits r ! i)) else None
      else Some (keys r ! 0))"

definition is_key_pressed :: "u8 \<Rightarrow> 'a report_state_scheme \<Rightarrow> bool" where
  "is_key_pressed key r =
     (if key = KC_NO then False
      else if use_nkro r then
        (if unat (drop_bit 3 key) < NKRO_REPORT_BITS
         then bits r ! unat (drop_bit 3 key) AND BIT (unat (key AND 7)) \<noteq> 0
         else False)
      else \<exists>i \<in> set [0..<KEYBOARD_REPORT_KEYS]. keys r ! i = key)"

text \<open>The loop of \<open>add_key_byte\<close>: where it stopped, and the first empty slot it passed.\<close>

fun add_key_scan :: "u8 \<Rightarrow> u8 list \<Rightarrow> nat \<Rightarrow> nat option \<Rightarrow> nat \<times> nat option" where
  "add_key_scan code [] i vacant = (i, vacant)"
| "add_key_scan code (k # ks) i vacant =
     (if k = code then (i, vacant)
      else add_key_scan code ks (i + 1) (if vacant = None \<and> k = 0 then Some i else vacant))"

definition add_key_byte :: "u8 \<Rightarrow> u8 list \<Rightarrow> u8 list" where
  "add_key_byte code ks =
     (case add_key_scan code ks 0 None of (i, vacant) \<Rightarrow>
        if i = KEYBOARD_REPORT_KEYS then (case vacant of Some e \<Rightarrow> ks[e := code] | None \<Rightarrow> ks)
        else ks)"

definition del_key_byte :: "u8 \<Rightarrow> u8 list \<Rightarrow> u8 list" where
  "del_key_byte code ks = map (\<lambda>k. if k = code then 0 else k) ks"

definition add_key_bit :: "u8 \<Rightarrow> u8 list \<Rightarrow> u8 list" where
  "add_key_bit code bs =
     (if unat (drop_bit 3 code) < NKRO_REPORT_BITS
      then bs[unat (drop_bit 3 code) := bs ! unat (drop_bit 3 code) OR BIT (unat (code AND 7))]
      else bs)"

definition del_key_bit :: "u8 \<Rightarrow> u8 list \<Rightarrow> u8 list" where
  "del_key_bit code bs =
     (if unat (drop_bit 3 code) < NKRO_REPORT_BITS
      then bs[unat (drop_bit 3 code) := bs ! unat (drop_bit 3 code) AND NOT (BIT (unat (code AND 7)))]
      else bs)"

definition add_key_to_report :: "u8 \<Rightarrow> 'a report_state_scheme \<Rightarrow> 'a report_state_scheme" where
  "add_key_to_report key r =
     (if use_nkro r then r\<lparr>bits := add_key_bit key (bits r)\<rparr> else r\<lparr>keys := add_key_byte key (keys r)\<rparr>)"

definition del_key_from_report :: "u8 \<Rightarrow> 'a report_state_scheme \<Rightarrow> 'a report_state_scheme" where
  "del_key_from_report key r =
     (if use_nkro r then r\<lparr>bits := del_key_bit key (bits r)\<rparr> else r\<lparr>keys := del_key_byte key (keys r)\<rparr>)"

definition clear_keys_from_report :: "'a report_state_scheme \<Rightarrow> 'a report_state_scheme" where
  "clear_keys_from_report r =
     (if use_nkro r then r\<lparr>bits := replicate (length (bits r)) 0\<rparr>
      else r\<lparr>keys := replicate (length (keys r)) 0\<rparr>)"

text \<open>Mouse reports; \<open>extended\<close> is \<open>MOUSE_EXTENDED_REPORT\<close>.\<close>

record report_mouse_t =
  buttons :: u8
  boot_x :: int
  boot_y :: int
  mouse_x :: int
  mouse_y :: int
  mouse_v :: int
  mouse_h :: int

definition has_mouse_report_changed :: "bool \<Rightarrow> report_mouse_t \<Rightarrow> report_mouse_t \<Rightarrow> bool" where
  "has_mouse_report_changed extended new_report old_report \<longleftrightarrow>
     buttons new_report \<noteq> buttons old_report
     \<or> extended \<and> (boot_x new_report \<noteq> 0 \<and> boot_x new_report \<noteq> boot_x old_report
                 \<or> boot_y new_report \<noteq> 0 \<and> boot_y new_report \<noteq> boot_y old_report)
     \<or> mouse_x new_report \<noteq> 0 \<and> mouse_x new_report \<noteq> mouse_x old_report
     \<or> mouse_y new_report \<noteq> 0 \<and> mouse_y new_report \<noteq> mouse_y old_report
     \<or> mouse_h new_report \<noteq> 0 \<and> mouse_h new_report \<noteq> mouse_h old_report
     \<or> mouse_v new_report \<noteq> 0 \<and> mouse_v new_report \<noteq> mouse_v old_report"

section \<open>The interface: a set of held keys\<close>

text \<open>
  Key events, given as pairs of key and pressed, and the set they leave held; the report is that
  set as long as every press finds room.
\<close>

definition press_set :: "u8 \<times> bool \<Rightarrow> u8 set \<Rightarrow> u8 set" where
  "press_set e K = (case e of (k, p) \<Rightarrow> if p then insert k K else K - {k})"

fun roomy :: "(u8 set \<Rightarrow> u8 \<Rightarrow> bool) \<Rightarrow> u8 set \<Rightarrow> (u8 \<times> bool) list \<Rightarrow> bool" where
  "roomy fits K [] \<longleftrightarrow> True"
| "roomy fits K (e # es) \<longleftrightarrow>
     fst e \<noteq> 0 \<and> (snd e \<longrightarrow> fits K (fst e)) \<and> roomy fits (press_set e K) es"

text \<open>\<open>fits K k\<close>: the report has room for k beside the keys K it holds.\<close>

locale key_set =
  fixes valid :: "'r \<Rightarrow> bool"
    and held :: "'r \<Rightarrow> u8 set"
    and add :: "u8 \<Rightarrow> 'r \<Rightarrow> 'r"
    and del :: "u8 \<Rightarrow> 'r \<Rightarrow> 'r"
    and fits :: "u8 set \<Rightarrow> u8 \<Rightarrow> bool"
  assumes add_valid: "valid r \<Longrightarrow> valid (add k r)"
    and del_valid: "valid r \<Longrightarrow> valid (del k r)"
    and add_held: "valid r \<Longrightarrow> k \<noteq> 0 \<Longrightarrow> held (add k r) = (if fits (held r) k then insert k (held r) else held r)"
    and del_held: "valid r \<Longrightarrow> k \<noteq> 0 \<Longrightarrow> held (del k r) = held r - {k}"
begin

definition press :: "u8 \<times> bool \<Rightarrow> 'r \<Rightarrow> 'r" where
  "press e r = (case e of (k, p) \<Rightarrow> if p then add k r else del k r)"

lemma presses_held:
  assumes "valid r" "roomy fits (held r) es"
  shows "valid (fold press es r) \<and> held (fold press es r) = fold press_set es (held r)"
  using assms
proof (induction es arbitrary: r)
  case (Cons e es)
  obtain k p where e: "e = (k, p)" by (cases e)
  have v: "valid (press e r)" using Cons.prems(1) add_valid del_valid by (simp add: press_def e)
  have h: "held (press e r) = press_set e (held r)"
    using Cons.prems add_held del_held by (auto simp: press_def press_set_def e)
  show ?case using Cons.IH[OF v] Cons.prems(2) h by simp
qed simp

end

section \<open>Six keys\<close>

definition slots_valid :: "u8 list \<Rightarrow> bool" where
  "slots_valid ks \<longleftrightarrow> length ks = KEYBOARD_REPORT_KEYS
     \<and> (\<forall>i j. i < length ks \<longrightarrow> j < length ks \<longrightarrow> ks ! i = ks ! j \<longrightarrow> ks ! i \<noteq> 0 \<longrightarrow> i = j)"

definition slots_held :: "u8 list \<Rightarrow> u8 set" where
  "slots_held ks = set ks - {0}"

definition slots_fit :: "u8 set \<Rightarrow> u8 \<Rightarrow> bool" where
  "slots_fit K k \<longleftrightarrow> k \<in> K \<or> card K < KEYBOARD_REPORT_KEYS"

lemma add_key_scan_found: "k \<in> set ks \<Longrightarrow> fst (add_key_scan k ks i e) < i + length ks"
proof (induction ks arbitrary: i e)
  case (Cons x ks)
  then show ?case using Cons.IH[of "i + 1"] by auto
qed simp

lemma add_key_scan_missing:
  "k \<notin> set ks \<Longrightarrow> add_key_scan k ks i e =
     (i + length ks, if e = None \<and> 0 \<in> set ks then Some (i + length (takeWhile (\<lambda>x. x \<noteq> 0) ks)) else e)"
  by (induction ks arbitrary: i e) auto

lemma takeWhile_vacant:
  assumes "0 \<in> set ks"
  shows "length (takeWhile (\<lambda>x. x \<noteq> 0) ks) < length ks"
    and "ks ! length (takeWhile (\<lambda>x. x \<noteq> 0) ks) = (0 :: u8)"
  using assms by (induction ks) auto

lemma add_key_byte_eq:
  assumes "length ks = KEYBOARD_REPORT_KEYS"
  shows "add_key_byte k ks = (if k \<notin> set ks \<and> 0 \<in> set ks
    then ks[length (takeWhile (\<lambda>x. x \<noteq> 0) ks) := k] else ks)"
proof (cases "k \<in> set ks")
  case True
  then have "fst (add_key_scan k ks 0 None) \<noteq> KEYBOARD_REPORT_KEYS"
    using add_key_scan_found[of k ks 0 None] assms by simp
  then show ?thesis using True by (simp add: add_key_byte_def case_prod_beta)
next
  case False
  then show ?thesis using assms by (simp add: add_key_byte_def add_key_scan_missing)
qed

lemma slots_full_iff:
  assumes "slots_valid ks"
  shows "card (slots_held ks) < KEYBOARD_REPORT_KEYS \<longleftrightarrow> 0 \<in> set ks"
proof
  assume 0: "0 \<in> set ks"
  then obtain e where e: "e < length ks" "ks ! e = 0" by (metis in_set_conv_nth)
  have "slots_held ks \<subseteq> (!) ks ` ({..<length ks} - {e})"
    using e by (auto simp: slots_held_def in_set_conv_nth)
  then have "card (slots_held ks) \<le> card ((!) ks ` ({..<length ks} - {e}))" by (intro card_mono) auto
  also have "\<dots> \<le> card ({..<length ks} - {e})" by (intro card_image_le) auto
  also have "\<dots> < length ks" using e by simp
  finally show "card (slots_held ks) < KEYBOARD_REPORT_KEYS" using assms by (simp add: slots_valid_def)
next
  assume c: "card (slots_held ks) < KEYBOARD_REPORT_KEYS"
  show "0 \<in> set ks"
  proof (rule ccontr)
    assume n: "0 \<notin> set ks"
    then have nz: "ks ! i \<noteq> 0" if "i < length ks" for i using that nth_mem by metis
    have "distinct ks"
      unfolding distinct_conv_nth using assms nz by (auto simp: slots_valid_def)
    then have "card (set ks) = KEYBOARD_REPORT_KEYS" using assms by (simp add: distinct_card slots_valid_def)
    then show False using c n by (simp add: slots_held_def)
  qed
qed

lemma slots_replace:
  assumes "slots_valid ks" "i < length ks" "ks ! i = 0" "k \<notin> set ks" "k \<noteq> 0"
  shows "slots_valid (ks[i := k])" "slots_held (ks[i := k]) = insert k (slots_held ks)"
proof -
  have nk: "ks ! j \<noteq> k" if "j < length ks" for j using that assms(4) nth_mem by metis
  show "slots_valid (ks[i := k])"
    using assms(1,2) nk by (auto simp: slots_valid_def nth_list_update split: if_splits)
  have "set (ks[i := k]) - {0} = insert k (set ks - {0})"
  proof (rule set_eqI)
    fix x show "x \<in> set (ks[i := k]) - {0} \<longleftrightarrow> x \<in> insert k (set ks - {0})"
      using assms(2,3,5) by (auto simp: in_set_conv_nth nth_list_update)
  qed
  then show "slots_held (ks[i := k]) = insert k (slots_held ks)" by (simp add: slots_held_def)
qed

interpretation slots: key_set slots_valid slots_held add_key_byte del_key_byte slots_fit
proof (unfold_locales, goal_cases)
  case (1 r k)
  then show ?case
  proof (cases "k \<noteq> 0 \<and> k \<notin> set r \<and> 0 \<in> set r")
    case True
    then show ?thesis using 1 slots_replace(1)[of r] takeWhile_vacant[of r]
      by (auto simp: add_key_byte_eq slots_valid_def)
  next
    case False
    then show ?thesis using 1 by (auto simp: add_key_byte_eq slots_valid_def)
  qed
next
  case (2 r k)
  then show ?case by (auto simp: slots_valid_def del_key_byte_def)
next
  case (3 r k)
  have len: "length r = KEYBOARD_REPORT_KEYS" using 3(1) by (simp add: slots_valid_def)
  have fit: "slots_fit (slots_held r) k \<longleftrightarrow> k \<in> set r \<or> 0 \<in> set r"
    using slots_full_iff[OF 3(1)] 3(2) by (auto simp: slots_fit_def slots_held_def)
  show ?case
  proof (cases "k \<notin> set r \<and> 0 \<in> set r")
    case True
    then show ?thesis using slots_replace(2)[OF 3(1) _ _ _ 3(2)] takeWhile_vacant[of r] fit len
      by (simp add: add_key_byte_eq)
  next
    case False
    then show ?thesis using fit 3(2) len by (auto simp: add_key_byte_eq slots_held_def)
  qed
next
  case (4 r k)
  then show ?case by (auto simp: slots_held_def del_key_byte_def)
qed

section \<open>One bit per key\<close>

definition bits_valid :: "u8 list \<Rightarrow> bool" where
  "bits_valid bs \<longleftrightarrow> length bs = NKRO_REPORT_BITS"

definition bits_held :: "u8 list \<Rightarrow> u8 set" where
  "bits_held bs = {k. k \<noteq> 0 \<and> unat k div 8 < NKRO_REPORT_BITS \<and> bit (bs ! (unat k div 8)) (unat k mod 8)}"

definition bits_fit :: "u8 set \<Rightarrow> u8 \<Rightarrow> bool" where
  "bits_fit K k \<longleftrightarrow> unat k < 8 * NKRO_REPORT_BITS"

lemma code_byte: "unat (drop_bit 3 (code :: u8)) = unat code div 8"
  by (subst unat_drop_bit_eq) (simp add: drop_bit_eq_div)

lemma code_bit: "unat ((code :: u8) AND 7) = unat code mod 8"
proof -
  have "code AND 7 = take_bit 3 code" by (simp add: take_bit_eq_mask mask_eq_exp_minus_1)
  then show ?thesis by (simp only: unsigned_take_bit_eq) (simp add: take_bit_eq_mod)
qed

lemma code_fits: "unat code div 8 < NKRO_REPORT_BITS \<longleftrightarrow> unat (code :: u8) < 8 * NKRO_REPORT_BITS"
  by (simp add: NKRO_REPORT_BITS_def div_less_iff_less_mult)

lemma code_eqI: "unat (a :: u8) div 8 = unat b div 8 \<Longrightarrow> unat a mod 8 = unat b mod 8 \<Longrightarrow> a = b"
  by (metis div_mod_decomp word_unat_eq_iff)

interpretation bitmap: key_set bits_valid bits_held add_key_bit del_key_bit bits_fit
proof (unfold_locales, goal_cases)
  case (1 r k)
  then show ?case by (simp add: bits_valid_def add_key_bit_def)
next
  case (2 r k)
  then show ?case by (simp add: bits_valid_def del_key_bit_def)
next
  case (3 r k)
  show ?case
  proof (cases "unat k div 8 < NKRO_REPORT_BITS")
    case True
    have "x \<in> bits_held (add_key_bit k r) \<longleftrightarrow> x = k \<or> x \<in> bits_held r" for x
    proof (cases "x = k")
      case True
      then show ?thesis using 3 \<open>unat k div 8 < NKRO_REPORT_BITS\<close>
        by (simp add: bits_held_def add_key_bit_def code_byte code_bit bits_valid_def bit_or_iff)
    next
      case False
      then show ?thesis using 3(1) code_eqI[of x k]
        by (auto simp: bits_held_def add_key_bit_def code_byte code_bit bits_valid_def bit_or_iff nth_list_update)
    qed
    then show ?thesis using True by (auto simp: bits_fit_def code_fits)
  next
    case False
    then show ?thesis by (simp add: add_key_bit_def code_byte bits_fit_def code_fits)
  qed
next
  case (4 r k)
  have "x \<in> bits_held (del_key_bit k r) \<longleftrightarrow> x \<noteq> k \<and> x \<in> bits_held r" for x
  proof (cases "x = k")
    case True
    then show ?thesis using 4
      by (auto simp: bits_held_def del_key_bit_def code_byte code_bit bits_valid_def bit_and_iff bit_not_iff)
  next
    case False
    then show ?thesis using 4(1) code_eqI[of x k]
      by (auto simp: bits_held_def del_key_bit_def code_byte code_bit bits_valid_def bit_and_iff bit_not_iff
          nth_list_update)
  qed
  then show ?case by auto
qed

section \<open>The report is the set of held keys\<close>

definition report_ok :: "'a report_state_scheme \<Rightarrow> bool" where
  "report_ok r \<longleftrightarrow> slots_valid (keys r) \<and> bits_valid (bits r)"

definition report_held :: "'a report_state_scheme \<Rightarrow> u8 set" where
  "report_held r = (if use_nkro r then bits_held (bits r) else slots_held (keys r))"

definition report_fits :: "bool \<Rightarrow> u8 set \<Rightarrow> u8 \<Rightarrow> bool" where
  "report_fits nkro = (if nkro then bits_fit else slots_fit)"

definition key_event :: "u8 \<times> bool \<Rightarrow> 'a report_state_scheme \<Rightarrow> 'a report_state_scheme" where
  "key_event e r = (case e of (k, p) \<Rightarrow> if p then add_key_to_report k r else del_key_from_report k r)"

lemma key_event_parts:
  "use_nkro (key_event e r) = use_nkro r"
  "keys (key_event e r) = (if use_nkro r then keys r else slots.press e (keys r))"
  "bits (key_event e r) = (if use_nkro r then bitmap.press e (bits r) else bits r)"
  by (cases e; simp add: key_event_def add_key_to_report_def del_key_from_report_def slots.press_def bitmap.press_def)+

lemma key_events_parts:
  "use_nkro (fold key_event es r) = use_nkro r"
  "keys (fold key_event es r) = (if use_nkro r then keys r else fold slots.press es (keys r))"
  "bits (fold key_event es r) = (if use_nkro r then fold bitmap.press es (bits r) else bits r)"
  by (induction es arbitrary: r) (auto simp: key_event_parts)

lemma report_events:
  assumes "report_ok r" "roomy (report_fits (use_nkro r)) (report_held r) es"
  shows "report_ok (fold key_event es r)" "report_held (fold key_event es r) = fold press_set es (report_held r)"
  using assms slots.presses_held[of "keys r" es] bitmap.presses_held[of "bits r" es]
  by (auto simp: report_ok_def report_held_def report_fits_def key_events_parts)

lemma is_key_pressed_held:
  assumes "report_ok r"
  shows "is_key_pressed k r \<longleftrightarrow> k \<in> report_held r"
proof (cases "use_nkro r")
  case True
  then show ?thesis
    by (simp add: is_key_pressed_def report_held_def bits_held_def code_byte code_bit KC_NO_def and_BIT_neq_0)
next
  case False
  then show ?thesis using assms
    by (auto simp: is_key_pressed_def report_held_def slots_held_def KC_NO_def report_ok_def slots_valid_def
        in_set_conv_nth)
qed

text \<open>
  C9. In both kinds of report, after any sequence of presses and releases that start with no key
  held and never run out of room (six keys at once, or key codes below 240), the keys reported
  are exactly those pressed and not released since.
\<close>

theorem report_is_key_set:
  assumes "report_ok r" "report_held r = {}" "roomy (report_fits (use_nkro r)) {} es"
  shows "is_key_pressed k (fold key_event es r) \<longleftrightarrow> k \<in> fold press_set es {}"
  using report_events[OF assms(1)] assms(2,3) by (simp add: is_key_pressed_held)

definition no_keys :: "bool \<Rightarrow> report_state" where
  "no_keys nkro = \<lparr>keys = [0, 0, 0, 0, 0, 0], bits = replicate 30 0, use_nkro = nkro\<rparr>"

lemma no_keys_ok: "report_ok (no_keys nkro)" "report_held (no_keys nkro) = {}" "use_nkro (no_keys nkro) = nkro"
  by (auto simp: no_keys_def report_ok_def slots_valid_def bits_valid_def report_held_def slots_held_def bits_held_def
      KEYBOARD_REPORT_KEYS_def NKRO_REPORT_BITS_def nth_Cons')

theorem report_is_key_set_witness:
  "\<not> is_key_pressed 4 (fold key_event [(4, True), (5, True), (4, False)] (no_keys False))
   \<and> is_key_pressed 5 (fold key_event [(4, True), (5, True), (4, False)] (no_keys False))"
  using report_is_key_set[OF no_keys_ok(1,2)[of False], where es = "[(4, True), (5, True), (4, False)]" and k = 4]
    report_is_key_set[OF no_keys_ok(1,2)[of False], where es = "[(4, True), (5, True), (4, False)]" and k = 5]
  by (simp add: no_keys_ok report_fits_def slots_fit_def press_set_def KEYBOARD_REPORT_KEYS_def)

section \<open>The first key\<close>

lemma biton_set_bit: "b \<noteq> 0 \<Longrightarrow> bit b (unat (biton b)) \<and> unat (biton b) < 8"
proof -
  assume "b \<noteq> 0"
  then have "highest b 8 (b, 0) 8" using unsigned_less[of b] by (simp add: highest_def)
  then have "highest b 8 (fold biton_step [4, 2, 1] (b, 0)) 1" by (auto intro!: biton_step_highest)
  from highest_found[OF this] have "bit b (unat (biton b))" unfolding biton_def by blast
  then show ?thesis using bit_imp_le_length[of b "unat (biton b)"] by simp
qed

text \<open>
  With n-key rollover and no key held, \<open>get_first_key\<close> reads past the end of the bits; in
  every other case the key it returns, when it is not 0, is one that is held.
\<close>

theorem get_first_key_held:
  assumes "report_ok r"
  shows "(get_first_key r = None \<longleftrightarrow> use_nkro r \<and> set (bits r) \<subseteq> {0})
    \<and> (\<forall>k. get_first_key r = Some k \<longrightarrow> k \<noteq> 0 \<longrightarrow> is_key_pressed k r)"
proof (cases "use_nkro r")
  case False
  have "keys r ! 0 \<in> set (keys r)" using assms by (simp add: report_ok_def slots_valid_def KEYBOARD_REPORT_KEYS_def)
  then show ?thesis using False is_key_pressed_held[OF assms]
    by (auto simp: get_first_key_def report_held_def slots_held_def)
next
  case True
  define i where "i = length (takeWhile (\<lambda>b. b = 0) (bits r))"
  have len: "length (bits r) = NKRO_REPORT_BITS" using assms by (simp add: report_ok_def bits_valid_def)
  have get: "get_first_key r = (if i < length (bits r) then Some (push_bit 3 (of_nat i) OR biton (bits r ! i)) else None)"
    using True len by (simp add: get_first_key_def i_def Let_def)
  have none: "i < length (bits r) \<longleftrightarrow> \<not> set (bits r) \<subseteq> {0}"
    unfolding i_def using takeWhile_eq_all_conv[of "\<lambda>b. b = 0" "bits r"] length_takeWhile_le[of "\<lambda>b. b = 0" "bits r"]
    by (metis (mono_tags, lifting) insert_iff le_neq_implies_less less_irrefl singletonD subset_iff
        takeWhile_eq_take take_all_iff singletonI order.refl)
  have "is_key_pressed (push_bit 3 (of_nat i) OR biton (bits r ! i)) r"
    if i: "i < length (bits r)" and k: "push_bit 3 (of_nat i) OR biton (bits r ! i) \<noteq> 0"
  proof -
    let ?n = "biton (bits r ! i)"
    have "bits r ! i \<noteq> 0" using i unfolding i_def by (rule nth_length_takeWhile)
    then have n: "bit (bits r ! i) (unat ?n)" "unat ?n < 8" using biton_set_bit by blast+
    have "i < 30" using i len by (simp add: NKRO_REPORT_BITS_def)
    have "\<not> bit ?n j" if "3 \<le> j" for j
      using bit_small[of ?n 3 j] n(2) that by auto
    then have "push_bit 3 (of_nat i) AND ?n = 0" by (intro bit_word_eqI) (auto simp: bit_simps)
    then have "push_bit 3 (of_nat i) OR ?n = push_bit 3 (of_nat i) + ?n" by (simp add: disjunctive_add_eq_or)
    also have "\<dots> = of_nat (8 * i + unat ?n)" by (simp add: push_bit_eq_mult)
    finally have "push_bit 3 (of_nat i) OR ?n = of_nat (8 * i + unat ?n)" .
    moreover have "8 * i + unat ?n < 2 ^ LENGTH(8)" using \<open>i < 30\<close> n(2) by simp
    ultimately have "unat (push_bit 3 (of_nat i) OR ?n) = 8 * i + unat ?n"
      by (simp only: unat_of_nat_mod)
    then show ?thesis using True k n \<open>i < 30\<close>
      by (simp add: is_key_pressed_held[OF assms] report_held_def bits_held_def NKRO_REPORT_BITS_def)
  qed
  then show ?thesis using True none get by auto
qed

theorem get_first_key_held_witness: "get_first_key (no_keys True) = None"
  using get_first_key_held[OF no_keys_ok(1), of True] by (simp add: no_keys_def)

end
