(* ===== verification/Layers.thy ===== *)
theory Layers
  imports Key_Event
begin

text \<open>
  Layers (quantum/action_layer.c): the default layers and the layer state, the search for the
  layer a key takes its action from, and the cache of the layer each held key was pressed on.

  The configuration is the default one: a layer state of 16 bits (\<open>MAX_LAYER\<close> 16,
  \<open>MAX_LAYER_BITS\<close> 4), layers enabled, \<open>STRICT_LAYER_RELEASE\<close> off, encoder maps enabled. The
  hooks for keyboard and user code, and the keymap (\<open>action_for_key\<close>), are parameters.
\<close>

section \<open>State\<close>

definition MAX_LAYER :: nat where "MAX_LAYER = 16"
definition MAX_LAYER_BITS :: nat where "MAX_LAYER_BITS = 4"
definition ACTION_TRANSPARENT :: u16 where "ACTION_TRANSPARENT = 1"

record layer_cfg =
  LC_ROWS :: nat
  LC_COLS :: nat
  LC_ENCODERS :: nat
  layer_state_set_modules :: "16 word \<Rightarrow> 16 word"
  layer_state_set_kb :: "16 word \<Rightarrow> 16 word"
  default_layer_state_set_modules :: "16 word \<Rightarrow> 16 word"
  default_layer_state_set_kb :: "16 word \<Rightarrow> 16 word"
  action_for_key :: "nat \<Rightarrow> keypos_t \<Rightarrow> 16 word"

record layers =
  default_layer_state :: "16 word"
  layer_state :: "16 word"
  source_layers_cache :: "u8 list list"
  encoder_source_layers_cache :: "u8 list list"
  disable_action_cache :: bool

section \<open>Default layers\<close>

definition default_layer_state_set :: "layer_cfg \<Rightarrow> u16 \<Rightarrow> layers \<Rightarrow> layers" where
  "default_layer_state_set cfg state s =
     s\<lparr>default_layer_state := default_layer_state_set_kb cfg (default_layer_state_set_modules cfg state)\<rparr>"

definition default_layer_set :: "layer_cfg \<Rightarrow> u16 \<Rightarrow> layers \<Rightarrow> layers" where
  "default_layer_set cfg state s = default_layer_state_set cfg state s"

definition default_layer_or :: "layer_cfg \<Rightarrow> u16 \<Rightarrow> layers \<Rightarrow> layers" where
  "default_layer_or cfg state s = default_layer_state_set cfg (default_layer_state s OR state) s"

definition default_layer_and :: "layer_cfg \<Rightarrow> u16 \<Rightarrow> layers \<Rightarrow> layers" where
  "default_layer_and cfg state s = default_layer_state_set cfg (default_layer_state s AND state) s"

definition default_layer_xor :: "layer_cfg \<Rightarrow> u16 \<Rightarrow> layers \<Rightarrow> layers" where
  "default_layer_xor cfg state s = default_layer_state_set cfg (default_layer_state s XOR state) s"

section \<open>The layer state\<close>

definition layer_state_set :: "layer_cfg \<Rightarrow> u16 \<Rightarrow> layers \<Rightarrow> layers" where
  "layer_state_set cfg state s =
     s\<lparr>layer_state := layer_state_set_kb cfg (layer_state_set_modules cfg state)\<rparr>"

definition layer_clear :: "layer_cfg \<Rightarrow> layers \<Rightarrow> layers" where
  "layer_clear cfg s = layer_state_set cfg 0 s"

definition layer_state_cmp :: "u16 \<Rightarrow> u8 \<Rightarrow> bool" where
  "layer_state_cmp cmp_layer_state layer =
     (if cmp_layer_state = 0 then layer = 0 else cmp_layer_state AND BIT (unat layer) \<noteq> 0)"

definition layer_state_is :: "u8 \<Rightarrow> layers \<Rightarrow> bool" where
  "layer_state_is layer s = layer_state_cmp (layer_state s) layer"

definition layer_move :: "layer_cfg \<Rightarrow> u8 \<Rightarrow> layers \<Rightarrow> layers" where
  "layer_move cfg layer s = layer_state_set cfg (BIT (unat layer)) s"

definition layer_on :: "layer_cfg \<Rightarrow> u8 \<Rightarrow> layers \<Rightarrow> layers" where
  "layer_on cfg layer s = layer_state_set cfg (layer_state s OR BIT (unat layer)) s"

definition layer_off :: "layer_cfg \<Rightarrow> u8 \<Rightarrow> layers \<Rightarrow> layers" where
  "layer_off cfg layer s = layer_state_set cfg (layer_state s AND NOT (BIT (unat layer))) s"

definition layer_invert :: "layer_cfg \<Rightarrow> u8 \<Rightarrow> layers \<Rightarrow> layers" where
  "layer_invert cfg layer s = layer_state_set cfg (layer_state s XOR BIT (unat layer)) s"

definition layer_or :: "layer_cfg \<Rightarrow> u16 \<Rightarrow> layers \<Rightarrow> layers" where
  "layer_or cfg state s = layer_state_set cfg (layer_state s OR state) s"

definition layer_and :: "layer_cfg \<Rightarrow> u16 \<Rightarrow> layers \<Rightarrow> layers" where
  "layer_and cfg state s = layer_state_set cfg (layer_state s AND state) s"

definition layer_xor :: "layer_cfg \<Rightarrow> u16 \<Rightarrow> layers \<Rightarrow> layers" where
  "layer_xor cfg state s = layer_state_set cfg (layer_state s XOR state) s"

definition update_tri_layer_state :: "u16 \<Rightarrow> u8 \<Rightarrow> u8 \<Rightarrow> u8 \<Rightarrow> u16" where
  "update_tri_layer_state state layer1 layer2 layer3 =
     (let mask12 = BIT (unat layer1) OR BIT (unat layer2);
          mask3 = BIT (unat layer3)
      in if state AND mask12 = mask12 then state OR mask3 else state AND NOT mask3)"

definition update_tri_layer :: "layer_cfg \<Rightarrow> u8 \<Rightarrow> u8 \<Rightarrow> u8 \<Rightarrow> layers \<Rightarrow> layers" where
  "update_tri_layer cfg layer1 layer2 layer3 s =
     layer_state_set cfg (update_tri_layer_state (layer_state s) layer1 layer2 layer3) s"

section \<open>The source layer cache\<close>

definition update_source_layers_cache_impl :: "nat \<Rightarrow> nat \<Rightarrow> u8 list list \<Rightarrow> u8 list list" where
  "update_source_layers_cache_impl layer entry_number cache =
     (let storage_idx = entry_number div 8; storage_bit = entry_number mod 8 in
      fold (\<lambda>bit_number cache.
        let old = cache ! storage_idx ! bit_number;
            new = old XOR (((if (of_nat layer :: u32) AND BIT bit_number \<noteq> 0 then - 1 else 0) XOR old) AND BIT storage_bit)
        in cache[storage_idx := (cache ! storage_idx)[bit_number := new]]) [0..<MAX_LAYER_BITS] cache)"

definition read_source_layers_cache_impl :: "nat \<Rightarrow> u8 list list \<Rightarrow> u8" where
  "read_source_layers_cache_impl entry_number cache =
     (let storage_idx = entry_number div 8; storage_bit = entry_number mod 8 in
      fold (\<lambda>bit_number layer. layer OR push_bit bit_number
        (if cache ! storage_idx ! bit_number AND BIT storage_bit \<noteq> 0 then 1 else 0)) [0..<MAX_LAYER_BITS] 0)"

definition key_in_matrix :: "layer_cfg \<Rightarrow> keypos_t \<Rightarrow> bool" where
  "key_in_matrix cfg key \<longleftrightarrow> unat (kp_row key) < LC_ROWS cfg \<and> unat (kp_col key) < LC_COLS cfg"

definition key_is_encoder :: "keypos_t \<Rightarrow> bool" where
  "key_is_encoder key \<longleftrightarrow> kp_row key = KEYLOC_ENCODER_CW \<or> kp_row key = KEYLOC_ENCODER_CCW"

text \<open>\<open>(uint16_t)(key.row * MATRIX_COLS) + key.col\<close>, stored in 16 bits\<close>

definition matrix_entry :: "layer_cfg \<Rightarrow> keypos_t \<Rightarrow> nat" where
  "matrix_entry cfg key =
     (unat (kp_row key) * LC_COLS cfg mod 2 ^ 16 + unat (kp_col key)) mod 2 ^ 16"

definition update_source_layers_cache :: "layer_cfg \<Rightarrow> keypos_t \<Rightarrow> nat \<Rightarrow> layers \<Rightarrow> layers" where
  "update_source_layers_cache cfg key layer s =
     (if key_in_matrix cfg key then
        s\<lparr>source_layers_cache := update_source_layers_cache_impl layer (matrix_entry cfg key) (source_layers_cache s)\<rparr>
      else if key_is_encoder key then
        s\<lparr>encoder_source_layers_cache :=
            update_source_layers_cache_impl layer (unat (kp_col key)) (encoder_source_layers_cache s)\<rparr>
      else s)"

definition read_source_layers_cache :: "layer_cfg \<Rightarrow> keypos_t \<Rightarrow> layers \<Rightarrow> u8" where
  "read_source_layers_cache cfg key s =
     (if key_in_matrix cfg key then read_source_layers_cache_impl (matrix_entry cfg key) (source_layers_cache s)
      else if key_is_encoder key then
        read_source_layers_cache_impl (unat (kp_col key)) (encoder_source_layers_cache s)
      else 0)"

section \<open>The action of a key\<close>

definition layer_switch_get_layer :: "layer_cfg \<Rightarrow> keypos_t \<Rightarrow> layers \<Rightarrow> nat" where
  "layer_switch_get_layer cfg key s =
     (let layers = layer_state s OR default_layer_state s in
      case find (\<lambda>i. layers AND BIT i \<noteq> 0 \<and> action_for_key cfg i key \<noteq> ACTION_TRANSPARENT)
                (rev [0..<MAX_LAYER]) of
        Some i \<Rightarrow> i
      | None \<Rightarrow> 0)"

definition layer_switch_get_action :: "layer_cfg \<Rightarrow> keypos_t \<Rightarrow> layers \<Rightarrow> u16" where
  "layer_switch_get_action cfg key s = action_for_key cfg (layer_switch_get_layer cfg key s) key"

definition store_or_get_action :: "layer_cfg \<Rightarrow> bool \<Rightarrow> keypos_t \<Rightarrow> layers \<Rightarrow> layers \<times> u16" where
  "store_or_get_action cfg pressed key s =
     (if disable_action_cache s then (s, layer_switch_get_action cfg key s)
      else if pressed then
        let layer = layer_switch_get_layer cfg key s
        in (update_source_layers_cache cfg key layer s, action_for_key cfg layer key)
      else (s, action_for_key cfg (unat (read_source_layers_cache cfg key s)) key))"

section \<open>The cache as an array of layers\<close>

text \<open>What the cache owes its client: entries that are read back, and that do not disturb each other.\<close>

locale layer_array =
  fixes ok :: "'c \<Rightarrow> bool"
    and entry :: "nat \<Rightarrow> bool"
    and upd :: "nat \<Rightarrow> nat \<Rightarrow> 'c \<Rightarrow> 'c"
    and rd :: "nat \<Rightarrow> 'c \<Rightarrow> u8"
  assumes upd_ok: "ok c \<Longrightarrow> entry e \<Longrightarrow> ok (upd l e c)"
    and rd_upd: "ok c \<Longrightarrow> entry e \<Longrightarrow> l < MAX_LAYER \<Longrightarrow> rd e (upd l e c) = of_nat l"
    and rd_other: "ok c \<Longrightarrow> entry e \<Longrightarrow> entry e' \<Longrightarrow> e \<noteq> e' \<Longrightarrow> rd e' (upd l e c) = rd e' c"
begin

text \<open>An entry keeps its layer when another one is written.\<close>

lemma kept:
  assumes "ok c \<and> rd e c = v" "entry e" "entry e'" "e' \<noteq> e"
  shows "ok (upd l e' c) \<and> rd e (upd l e' c) = v"
  using assms upd_ok rd_other by metis

lemma stored:
  assumes "ok c" "entry e" "l < MAX_LAYER"
  shows "ok (upd l e c) \<and> rd e (upd l e c) = of_nat l"
  using assms upd_ok rd_upd by blast

end

definition cache_ok :: "nat \<Rightarrow> u8 list list \<Rightarrow> bool" where
  "cache_ok n cache \<longleftrightarrow> length cache = (n + 7) div 8 \<and> (\<forall>row \<in> set cache. length row = MAX_LAYER_BITS)"

definition cell :: "u8 list list \<Rightarrow> nat \<Rightarrow> nat \<Rightarrow> bool" where
  "cell cache e b \<longleftrightarrow> bit (cache ! (e div 8) ! b) (e mod 8)"

lemma set_one_bit:
  "j < 8 \<Longrightarrow> bit (old XOR (((if v then - 1 else 0) XOR old) AND BIT j) :: u8) k = (if k = j then v else bit old k)"
  by (auto simp: bit_xor_iff bit_and_iff dest: bit_imp_le_length)

lemma entry_row: "e < n \<Longrightarrow> e div 8 < (n + 7) div 8" for e n :: nat
  using div_le_mono[of "e + 8" "n + 7" 8] by simp

lemma cache_row: "cache_ok n cache \<Longrightarrow> e < n \<Longrightarrow> length (cache ! (e div 8)) = MAX_LAYER_BITS"
  using entry_row[of e n] by (simp add: cache_ok_def)

lemma update_cell:
  assumes "cache_ok n cache" "e < n"
  shows "cache_ok n (update_source_layers_cache_impl l e cache)"
    and "e' < n \<Longrightarrow> b < MAX_LAYER_BITS \<Longrightarrow> cell (update_source_layers_cache_impl l e cache) e' b
      = (if e' = e then bit (of_nat l :: u32) b else cell cache e' b)"
proof -
  define body where "body = (\<lambda>bit_number cache.
        let old = cache ! (e div 8) ! bit_number;
            new = old XOR (((if (of_nat l :: u32) AND BIT bit_number \<noteq> 0 then - 1 else 0) XOR old) AND BIT (e mod 8))
        in cache[e div 8 := (cache ! (e div 8))[bit_number := new]] :: u8 list list)"
  have step: "cache_ok n (body k c) \<and> (\<forall>e' < n. \<forall>b < MAX_LAYER_BITS. cell (body k c) e' b
      = (if e' = e \<and> b = k then bit (of_nat l :: u32) b else cell c e' b))"
    if c: "cache_ok n c" and k: "k < MAX_LAYER_BITS" for c k
  proof -
    have row: "e div 8 < length c" "length (c ! (e div 8)) = MAX_LAYER_BITS"
      using c assms(2) entry_row cache_row by (auto simp: cache_ok_def)
    have "cache_ok n (body k c)"
      using c row by (auto simp: body_def cache_ok_def Let_def dest!: set_update_subset_insert[THEN subsetD])
    moreover have "cell (body k c) e' b = (if e' = e \<and> b = k then bit (of_nat l :: u32) b else cell c e' b)"
      if "e' < n" "b < MAX_LAYER_BITS" for e' b
    proof (cases "e' div 8 = e div 8 \<and> b = k")
      case True
      then have "cell (body k c) e' b = (if e' mod 8 = e mod 8 then bit (of_nat l :: u32) b else cell c e' b)"
        using row k by (simp add: cell_def body_def Let_def set_one_bit and_BIT_neq_0)
      moreover have "e' mod 8 = e mod 8 \<longleftrightarrow> e' = e" using True by (metis div_mod_decomp)
      ultimately show ?thesis using True by auto
    next
      case False
      then have "body k c ! (e' div 8) ! b = c ! (e' div 8) ! b"
        using row k by (cases "e' div 8 = e div 8") (auto simp: body_def Let_def)
      then show ?thesis using False by (auto simp: cell_def)
    qed
    ultimately show ?thesis by blast
  qed
  have "m \<le> MAX_LAYER_BITS \<Longrightarrow> cache_ok n (fold body [0..<m] cache) \<and>
      (\<forall>e' < n. \<forall>b < MAX_LAYER_BITS. cell (fold body [0..<m] cache) e' b
        = (if e' = e \<and> b < m then bit (of_nat l :: u32) b else cell cache e' b))" for m
  proof (induction m)
    case (Suc m)
    then show ?case using step[of "fold body [0..<m] cache" m] by (auto simp: fold_upt_Suc less_Suc_eq)
  qed (use assms in simp)
  from this[of MAX_LAYER_BITS]
  show "cache_ok n (update_source_layers_cache_impl l e cache)"
    and "e' < n \<Longrightarrow> b < MAX_LAYER_BITS \<Longrightarrow> cell (update_source_layers_cache_impl l e cache) e' b
      = (if e' = e then bit (of_nat l :: u32) b else cell cache e' b)"
    by (simp_all add: update_source_layers_cache_impl_def Let_def body_def)
qed

lemma bit_read: "bit (read_source_layers_cache_impl e cache) b \<longleftrightarrow> b < MAX_LAYER_BITS \<and> cell cache e b"
proof -
  have "bit (fold (\<lambda>k layer. layer OR push_bit k (if v k then 1 else 0)) [0..<m] (0 :: u8)) b \<longleftrightarrow> b < m \<and> v b"
    if "m \<le> 8" for m v
    using that by (induction m) (auto simp: fold_upt_Suc bit_or_iff bit_push_bit_iff bit_1_iff less_Suc_eq split: if_splits)
  from this[of MAX_LAYER_BITS "\<lambda>k. cache ! (e div 8) ! k AND BIT (e mod 8) \<noteq> 0"]
  show ?thesis
    by (simp add: read_source_layers_cache_impl_def Let_def cell_def and_BIT_neq_0 MAX_LAYER_BITS_def)
qed

interpretation cache: layer_array "cache_ok n" "\<lambda>e. e < n" update_source_layers_cache_impl read_source_layers_cache_impl
  for n
proof (unfold_locales, goal_cases)
  case (1 c e l)
  then show ?case by (rule update_cell(1))
next
  case (2 c e l)
  have "bit l b \<Longrightarrow> b < MAX_LAYER_BITS" for b
  proof -
    assume "bit l b"
    moreover have "take_bit 4 l = l" using 2(3) by (simp add: take_bit_nat_eq_self_iff MAX_LAYER_def)
    ultimately show "b < MAX_LAYER_BITS" by (metis bit_take_bit_iff MAX_LAYER_BITS_def)
  qed
  then show ?case
    using update_cell(2)[OF 2(1,2,2)] by (intro bit_word_eqI) (auto simp: bit_read bit_of_nat_iff MAX_LAYER_BITS_def)
next
  case (3 c e e' l)
  then show ?case
    using update_cell(2)[OF 3(1,2,3)] by (intro bit_word_eqI) (auto simp: bit_read)
qed

section \<open>Histories\<close>

datatype layer_op =
  Key bool keypos_t | On u8 | Off u8 | Move u8 | Invert u8 | Clear | Tri u8 u8 u8 | State u16 | Default u16

fun layer_step :: "layer_cfg \<Rightarrow> layer_op \<Rightarrow> layers \<Rightarrow> layers" where
  "layer_step cfg (Key pressed key) s = fst (store_or_get_action cfg pressed key s)"
| "layer_step cfg (On n) s = layer_on cfg n s"
| "layer_step cfg (Off n) s = layer_off cfg n s"
| "layer_step cfg (Move n) s = layer_move cfg n s"
| "layer_step cfg (Invert n) s = layer_invert cfg n s"
| "layer_step cfg Clear s = layer_clear cfg s"
| "layer_step cfg (Tri a b c) s = update_tri_layer cfg a b c s"
| "layer_step cfg (State x) s = layer_state_set cfg x s"
| "layer_step cfg (Default x) s = default_layer_set cfg x s"

text \<open>A key the caches have room for, and the state the caches start in and keep.\<close>

definition cached_key :: "layer_cfg \<Rightarrow> keypos_t \<Rightarrow> bool" where
  "cached_key cfg key \<longleftrightarrow> key_in_matrix cfg key \<or> key_is_encoder key \<and> unat (kp_col key) < LC_ENCODERS cfg"

definition layers_ok :: "layer_cfg \<Rightarrow> layers \<Rightarrow> bool" where
  "layers_ok cfg s \<longleftrightarrow> cache_ok (LC_ROWS cfg * LC_COLS cfg) (source_layers_cache s)
     \<and> cache_ok (LC_ENCODERS cfg) (encoder_source_layers_cache s) \<and> \<not> disable_action_cache s"

text \<open>The two directions of an encoder share an entry.\<close>

definition same_entry :: "layer_cfg \<Rightarrow> keypos_t \<Rightarrow> keypos_t \<Rightarrow> bool" where
  "same_entry cfg k k' \<longleftrightarrow>
     k = k' \<or> \<not> key_in_matrix cfg k \<and> \<not> key_in_matrix cfg k' \<and> kp_col k = kp_col k'"

fun disturbs :: "layer_cfg \<Rightarrow> keypos_t \<Rightarrow> layer_op \<Rightarrow> bool" where
  "disturbs cfg k (Key pressed k') \<longleftrightarrow> \<not> cached_key cfg k' \<or> pressed \<and> same_entry cfg k k'"
| "disturbs cfg k op \<longleftrightarrow> False"

lemma matrix_entry_eq:
  assumes "key_in_matrix cfg k" "LC_COLS cfg \<le> 255"
  shows "matrix_entry cfg k = unat (kp_row k) * LC_COLS cfg + unat (kp_col k)"
    and "matrix_entry cfg k < LC_ROWS cfg * LC_COLS cfg"
proof -
  have c: "unat (kp_col k) < LC_COLS cfg" "Suc (unat (kp_row k)) \<le> LC_ROWS cfg"
    using assms(1) by (auto simp: key_in_matrix_def)
  have "unat (kp_row k) \<le> 255" using unat_lt_256[of "kp_row k"] by simp
  then have "unat (kp_row k) * LC_COLS cfg \<le> 255 * 255" using assms(2) by (intro mult_mono) auto
  then show e: "matrix_entry cfg k = unat (kp_row k) * LC_COLS cfg + unat (kp_col k)"
    using c(1) assms(2) by (simp add: matrix_entry_def)
  have "matrix_entry cfg k < Suc (unat (kp_row k)) * LC_COLS cfg" using e c(1) by simp
  also have "\<dots> \<le> LC_ROWS cfg * LC_COLS cfg" using c(2) by (rule mult_le_mono1)
  finally show "matrix_entry cfg k < LC_ROWS cfg * LC_COLS cfg" .
qed

lemma matrix_entry_inj:
  assumes "key_in_matrix cfg k" "key_in_matrix cfg k'" "LC_COLS cfg \<le> 255"
    and "matrix_entry cfg k = matrix_entry cfg k'"
  shows "k = k'"
proof -
  have c: "unat (kp_col k) < LC_COLS cfg" "unat (kp_col k') < LC_COLS cfg"
    using assms(1,2) by (auto simp: key_in_matrix_def)
  have e: "unat (kp_row k) * LC_COLS cfg + unat (kp_col k) = unat (kp_row k') * LC_COLS cfg + unat (kp_col k')"
    using assms matrix_entry_eq(1) by metis
  from arg_cong[OF e, of "\<lambda>x. x mod LC_COLS cfg"] have "unat (kp_col k) = unat (kp_col k')" using c by simp
  moreover from arg_cong[OF e, of "\<lambda>x. x div LC_COLS cfg"] have "unat (kp_row k) = unat (kp_row k')" using c by simp
  ultimately show ?thesis using KEYEQ_iff[of k k'] by (simp add: KEYEQ_def word_unat_eq_iff)
qed

lemma press_stores:
  assumes "layers_ok cfg s" "cached_key cfg k" "LC_COLS cfg \<le> 255" "l < MAX_LAYER"
  shows "layers_ok cfg (update_source_layers_cache cfg k l s)
    \<and> read_source_layers_cache cfg k (update_source_layers_cache cfg k l s) = of_nat l"
proof (cases "key_in_matrix cfg k")
  case True
  then show ?thesis
    using cache.stored[of "LC_ROWS cfg * LC_COLS cfg" "source_layers_cache s" "matrix_entry cfg k" l]
      matrix_entry_eq(2)[OF True assms(3)] assms(1,4)
    by (simp add: layers_ok_def update_source_layers_cache_def read_source_layers_cache_def)
next
  case False
  then have "key_is_encoder k" "unat (kp_col k) < LC_ENCODERS cfg" using assms(2) by (auto simp: cached_key_def)
  then show ?thesis
    using cache.stored[of "LC_ENCODERS cfg" "encoder_source_layers_cache s" "unat (kp_col k)" l] False assms(1,4)
    by (simp add: layers_ok_def update_source_layers_cache_def read_source_layers_cache_def)
qed

lemma press_keeps:
  assumes "layers_ok cfg s \<and> read_source_layers_cache cfg k s = v"
    and "cached_key cfg k" "cached_key cfg k'" "\<not> same_entry cfg k k'" "LC_COLS cfg \<le> 255"
  shows "layers_ok cfg (update_source_layers_cache cfg k' l s)
    \<and> read_source_layers_cache cfg k (update_source_layers_cache cfg k' l s) = v"
proof (cases "key_in_matrix cfg k'")
  case k': True
  show ?thesis
  proof (cases "key_in_matrix cfg k")
    case True
    have "matrix_entry cfg k' \<noteq> matrix_entry cfg k"
      using matrix_entry_inj[OF True k' assms(5)] assms(4) by (auto simp: same_entry_def)
    then show ?thesis
      using cache.kept[of "LC_ROWS cfg * LC_COLS cfg" "source_layers_cache s" "matrix_entry cfg k" v "matrix_entry cfg k'" l]
        matrix_entry_eq(2)[OF True assms(5)] matrix_entry_eq(2)[OF k' assms(5)] assms(1) True k'
      by (simp add: layers_ok_def update_source_layers_cache_def read_source_layers_cache_def)
  next
    case False
    then show ?thesis
      using cache.upd_ok[of "LC_ROWS cfg * LC_COLS cfg" "source_layers_cache s" "matrix_entry cfg k'" l]
        matrix_entry_eq(2)[OF k' assms(5)] assms(1) k'
      by (auto simp: layers_ok_def update_source_layers_cache_def read_source_layers_cache_def)
  qed
next
  case k': False
  then have e': "key_is_encoder k'" "unat (kp_col k') < LC_ENCODERS cfg" using assms(3) by (auto simp: cached_key_def)
  show ?thesis
  proof (cases "key_in_matrix cfg k")
    case True
    then show ?thesis
      using cache.upd_ok[of "LC_ENCODERS cfg" "encoder_source_layers_cache s" "unat (kp_col k')" l] e' assms(1) k'
      by (simp add: layers_ok_def update_source_layers_cache_def read_source_layers_cache_def)
  next
    case False
    then have e: "key_is_encoder k" "unat (kp_col k) < LC_ENCODERS cfg" using assms(2) by (auto simp: cached_key_def)
    have "unat (kp_col k') \<noteq> unat (kp_col k)" using assms(4) False k' by (auto simp: same_entry_def word_unat_eq_iff)
    then show ?thesis
      using cache.kept[of "LC_ENCODERS cfg" "encoder_source_layers_cache s" "unat (kp_col k)" v "unat (kp_col k')" l]
        e e' False k' assms(1)
      by (simp add: layers_ok_def update_source_layers_cache_def read_source_layers_cache_def)
  qed
qed

lemmas layer_ops = layer_on_def layer_off_def layer_move_def layer_invert_def layer_clear_def update_tri_layer_def
  layer_state_set_def default_layer_set_def default_layer_state_set_def

lemma caches_frame:
  assumes "source_layers_cache s' = source_layers_cache s"
    and "encoder_source_layers_cache s' = encoder_source_layers_cache s"
    and "disable_action_cache s' = disable_action_cache s"
  shows "layers_ok cfg s' = layers_ok cfg s" "read_source_layers_cache cfg k s' = read_source_layers_cache cfg k s"
  using assms by (simp_all add: layers_ok_def read_source_layers_cache_def)

lemma layer_state_ops_frame:
  assumes "\<And>pressed k. op \<noteq> Key pressed k"
  shows "source_layers_cache (layer_step cfg op s) = source_layers_cache s"
    "encoder_source_layers_cache (layer_step cfg op s) = encoder_source_layers_cache s"
    "disable_action_cache (layer_step cfg op s) = disable_action_cache s"
  using assms by (cases op; simp add: layer_ops)+

lemma layer_step_keeps:
  assumes "layers_ok cfg s \<and> read_source_layers_cache cfg k s = v"
    and "cached_key cfg k" "\<not> disturbs cfg k op" "LC_COLS cfg \<le> 255"
  shows "layers_ok cfg (layer_step cfg op s) \<and> read_source_layers_cache cfg k (layer_step cfg op s) = v"
proof (cases op)
  case (Key pressed k')
  then show ?thesis
    using assms press_keeps[OF assms(1,2), of k'] by (auto simp: store_or_get_action_def Let_def layers_ok_def)
qed (use assms(1) in \<open>simp_all only: caches_frame[OF layer_state_ops_frame] layer_op.distinct not_False_eq_True\<close>)

lemma history_keeps:
  assumes "layers_ok cfg s \<and> read_source_layers_cache cfg k s = v"
    and "cached_key cfg k" "\<forall>op \<in> set ops. \<not> disturbs cfg k op" "LC_COLS cfg \<le> 255"
  shows "layers_ok cfg (fold (layer_step cfg) ops s) \<and> read_source_layers_cache cfg k (fold (layer_step cfg) ops s) = v"
  using assms(1,3)
proof (induction ops arbitrary: s)
  case (Cons op ops)
  then have "layers_ok cfg (layer_step cfg op s) \<and> read_source_layers_cache cfg k (layer_step cfg op s) = v"
    using assms(2,4) by (intro layer_step_keeps) simp_all
  then show ?case using Cons by simp
qed simp

lemma layer_switch_cases:
  "layer_switch_get_layer cfg key s = 0 \<or> layer_switch_get_layer cfg key s < MAX_LAYER"
  by (auto simp: layer_switch_get_layer_def Let_def find_Some_iff split: option.split)
    (metis MAX_LAYER_def nth_mem set_rev set_upt atLeastLessThan_iff length_rev length_upt diff_zero)

text \<open>
  C6. A release has the action of its press: whatever layers are switched and keys pressed and
  released in between, a key of the matrix that was pressed on some layer is released with the
  action it has on that layer. So no key sticks when a layer changes under it. (For an encoder,
  no press of the same encoder may come in between: its two directions share an entry.)
\<close>

theorem release_matches_press:
  assumes "layers_ok cfg s" "cached_key cfg k" "LC_COLS cfg \<le> 255"
    and "\<forall>op \<in> set ops. \<not> disturbs cfg k op"
    and "store_or_get_action cfg True k s = (s1, action)"
  shows "store_or_get_action cfg False k (fold (layer_step cfg) ops s1)
    = (fold (layer_step cfg) ops s1, action)"
proof -
  define l where "l = layer_switch_get_layer cfg k s"
  have l: "l < MAX_LAYER" using layer_switch_cases[of cfg k s] by (auto simp: l_def MAX_LAYER_def)
  have s1: "s1 = update_source_layers_cache cfg k l s" "action = action_for_key cfg l k"
    using assms(1,5) by (auto simp: store_or_get_action_def Let_def l_def layers_ok_def)
  have "layers_ok cfg s1 \<and> read_source_layers_cache cfg k s1 = of_nat l"
    unfolding s1 by (rule press_stores[OF assms(1-3) l])
  then have "layers_ok cfg (fold (layer_step cfg) ops s1)
      \<and> read_source_layers_cache cfg k (fold (layer_step cfg) ops s1) = of_nat l"
    by (rule history_keeps[OF _ assms(2,4,3)])
  then show ?thesis using l s1(2)
    by (simp add: store_or_get_action_def layers_ok_def unat_of_nat_mod MAX_LAYER_def)
qed

text \<open>A matrix of two rows and three columns whose layer 1 has an action of its own on one key.\<close>

definition two_layers :: layer_cfg where
  "two_layers = \<lparr>LC_ROWS = 2, LC_COLS = 3, LC_ENCODERS = 1, layer_state_set_modules = id, layer_state_set_kb = id,
     default_layer_state_set_modules = id, default_layer_state_set_kb = id,
     action_for_key = (\<lambda>l k. if l = 1 \<and> kp_col k = 2 then 7 else if l = 0 then 4 else 1)\<rparr>"

definition two_layers_start :: layers where
  "two_layers_start = \<lparr>default_layer_state = 1, layer_state = 2,
     source_layers_cache = [[0, 0, 0, 0]], encoder_source_layers_cache = [[0, 0, 0, 0]], disable_action_cache = False\<rparr>"

lemma two_layers_ok:
  "layers_ok two_layers two_layers_start" "cached_key two_layers \<lparr>kp_col = 2, kp_row = 1\<rparr>"
  "LC_COLS two_layers \<le> 255"
  by (simp_all add: layers_ok_def two_layers_def two_layers_start_def cache_ok_def cached_key_def key_in_matrix_def
      MAX_LAYER_BITS_def)

theorem release_matches_press_witness:
  "snd (store_or_get_action two_layers False \<lparr>kp_col = 2, kp_row = 1\<rparr>
     (fold (layer_step two_layers) [Off 1, Key True \<lparr>kp_col = 0, kp_row = 1\<rparr>, Clear]
       (fst (store_or_get_action two_layers True \<lparr>kp_col = 2, kp_row = 1\<rparr> two_layers_start)))) = 7"
proof -
  let ?k = "\<lparr>kp_col = 2, kp_row = 1\<rparr> :: keypos_t"
  have a: "snd (store_or_get_action two_layers True ?k two_layers_start) = 7"
    by (simp add: store_or_get_action_def layer_switch_get_layer_def two_layers_def two_layers_start_def
        MAX_LAYER_def BIT_def ACTION_TRANSPARENT_def upt_conv_Cons Let_def)
  have "store_or_get_action two_layers True ?k two_layers_start
      = (fst (store_or_get_action two_layers True ?k two_layers_start), 7)"
    using a by (metis prod.collapse)
  from release_matches_press[OF two_layers_ok _ this, of "[Off 1, Key True \<lparr>kp_col = 0, kp_row = 1\<rparr>, Clear]"]
  show ?thesis
    by (simp add: same_entry_def cached_key_def key_in_matrix_def two_layers_def del: layer_step.simps)
qed

section \<open>Which layer a key is on\<close>

definition defines_action :: "layer_cfg \<Rightarrow> keypos_t \<Rightarrow> layers \<Rightarrow> nat \<Rightarrow> bool" where
  "defines_action cfg key s i \<longleftrightarrow>
     i < MAX_LAYER \<and> bit (layer_state s OR default_layer_state s) i \<and> action_for_key cfg i key \<noteq> ACTION_TRANSPARENT"

lemma find_rev_upt:
  "find P (rev [0..<n]) = (if \<exists>i < n. P i then Some (GREATEST i. i < n \<and> P i) else None)"
proof (induction n)
  case (Suc n)
  have "(GREATEST i. i < Suc n \<and> P i) = n" if "P n"
    using that by (intro Greatest_equality) auto
  moreover have "(\<lambda>i. i < Suc n \<and> P i) = (\<lambda>i. i < n \<and> P i)" if "\<not> P n"
    using that less_Suc_eq by auto
  ultimately show ?case using Suc by (auto simp: less_Suc_eq)
qed simp

text \<open>
  The layer a key takes its action from is the highest active one on which it is not
  transparent, whether the layer is active by itself or as a default layer, and layer 0 when
  there is none.
\<close>

theorem layer_switch_highest:
  "layer_switch_get_layer cfg key s =
     (if \<exists>i. defines_action cfg key s i then GREATEST i. defines_action cfg key s i else 0)"
proof -
  have "defines_action cfg key s = (\<lambda>i. i < MAX_LAYER \<and> (layer_state s OR default_layer_state s) AND BIT i \<noteq> 0
      \<and> action_for_key cfg i key \<noteq> ACTION_TRANSPARENT)"
    by (auto simp: defines_action_def and_BIT_neq_0 fun_eq_iff)
  then show ?thesis by (auto simp: layer_switch_get_layer_def Let_def find_rev_upt)
qed

section \<open>The set of active layers\<close>

definition active :: "layers \<Rightarrow> nat set" where
  "active s = {i. bit (layer_state s) i}"




end
