(* ===== verification/Action_Util.thy ===== *)
theory Action_Util
  imports Report Layers
begin

text \<open>
  Modifiers, one-shot modifiers and layers, and the sending of reports (quantum/action_util.c).

  The build has \<open>NKRO_ENABLE\<close> and \<open>KEY_OVERRIDE_ENABLE\<close>, one-shot keys, no swap hands and no
  speculative hold. \<open>ONESHOT_TIMEOUT\<close> is a parameter in milliseconds, 0 when it is not defined;
  the clock reading is an argument \<open>now\<close>. The weak hooks of the code do nothing and are left out.
  The state extends the report by the static variables, with the usages last sent by
  tmk_core/protocol/host.c, and records what the host was sent.
\<close>

section \<open>State\<close>

datatype host_report = Host_Keyboard u8 "u8 list" | Host_Nkro u8 "u8 list"
  | Host_System u16 | Host_Consumer u16

record action_util = report_state +
  real_mods :: "8 word"
  weak_mods :: "8 word"
  weak_override_mods :: "8 word"
  suppressed_mods :: "8 word"
  oneshot_mods :: "8 word"
  oneshot_locked_mods :: "8 word"
  oneshot_time :: "16 word"
  oneshot_layer_data :: "8 word"
  oneshot_layer_time :: "16 word"
  oneshot_enable :: bool
  au_layers :: layers
  report_mods :: "8 word"
  nkro_report_mods :: "8 word"
  last_report :: "u8 \<times> u8 list"
  last_nkro_report :: "u8 \<times> u8 list"
  last_system_usage :: "16 word"
  last_consumer_usage :: "16 word"
  host :: "host_report list"

section \<open>Real and weak modifiers\<close>

definition get_mods :: "action_util \<Rightarrow> u8" where "get_mods s = real_mods s"
definition add_mods :: "u8 \<Rightarrow> action_util \<Rightarrow> action_util" where
  "add_mods mods s = s\<lparr>real_mods := real_mods s OR mods\<rparr>"
definition del_mods :: "u8 \<Rightarrow> action_util \<Rightarrow> action_util" where
  "del_mods mods s = s\<lparr>real_mods := real_mods s AND NOT mods\<rparr>"
definition set_mods :: "u8 \<Rightarrow> action_util \<Rightarrow> action_util" where
  "set_mods mods s = s\<lparr>real_mods := mods\<rparr>"
definition clear_mods :: "action_util \<Rightarrow> action_util" where
  "clear_mods s = s\<lparr>real_mods := 0\<rparr>"

definition get_weak_mods :: "action_util \<Rightarrow> u8" where "get_weak_mods s = weak_mods s"
definition add_weak_mods :: "u8 \<Rightarrow> action_util \<Rightarrow> action_util" where
  "add_weak_mods mods s = s\<lparr>weak_mods := weak_mods s OR mods\<rparr>"
definition del_weak_mods :: "u8 \<Rightarrow> action_util \<Rightarrow> action_util" where
  "del_weak_mods mods s = s\<lparr>weak_mods := weak_mods s AND NOT mods\<rparr>"
definition set_weak_mods :: "u8 \<Rightarrow> action_util \<Rightarrow> action_util" where
  "set_weak_mods mods s = s\<lparr>weak_mods := mods\<rparr>"
definition clear_weak_mods :: "action_util \<Rightarrow> action_util" where
  "clear_weak_mods s = s\<lparr>weak_mods := 0\<rparr>"

definition set_weak_override_mods :: "u8 \<Rightarrow> action_util \<Rightarrow> action_util" where
  "set_weak_override_mods mods s = s\<lparr>weak_override_mods := mods\<rparr>"
definition clear_weak_override_mods :: "action_util \<Rightarrow> action_util" where
  "clear_weak_override_mods s = s\<lparr>weak_override_mods := 0\<rparr>"
definition set_suppressed_override_mods :: "u8 \<Rightarrow> action_util \<Rightarrow> action_util" where
  "set_suppressed_override_mods mods s = s\<lparr>suppressed_mods := mods\<rparr>"
definition clear_suppressed_override_mods :: "action_util \<Rightarrow> action_util" where
  "clear_suppressed_override_mods s = s\<lparr>suppressed_mods := 0\<rparr>"

definition has_anymod :: "action_util \<Rightarrow> u8" where
  "has_anymod s = bitpop (real_mods s)"

section \<open>One-shot modifiers\<close>

definition get_oneshot_locked_mods :: "action_util \<Rightarrow> u8" where
  "get_oneshot_locked_mods s = oneshot_locked_mods s"

definition add_oneshot_locked_mods :: "u8 \<Rightarrow> action_util \<Rightarrow> action_util" where
  "add_oneshot_locked_mods mods s =
     (if oneshot_locked_mods s AND mods \<noteq> mods then s\<lparr>oneshot_locked_mods := oneshot_locked_mods s OR mods\<rparr> else s)"

definition set_oneshot_locked_mods :: "u8 \<Rightarrow> action_util \<Rightarrow> action_util" where
  "set_oneshot_locked_mods mods s =
     (if mods \<noteq> oneshot_locked_mods s then s\<lparr>oneshot_locked_mods := mods\<rparr> else s)"

definition clear_oneshot_locked_mods :: "action_util \<Rightarrow> action_util" where
  "clear_oneshot_locked_mods s =
     (if oneshot_locked_mods s \<noteq> 0 then s\<lparr>oneshot_locked_mods := 0\<rparr> else s)"

definition del_oneshot_locked_mods :: "u8 \<Rightarrow> action_util \<Rightarrow> action_util" where
  "del_oneshot_locked_mods mods s =
     (if oneshot_locked_mods s AND mods \<noteq> 0
      then s\<lparr>oneshot_locked_mods := oneshot_locked_mods s AND NOT mods\<rparr> else s)"

definition has_oneshot_mods_timed_out :: "nat \<Rightarrow> u16 \<Rightarrow> action_util \<Rightarrow> bool" where
  "has_oneshot_mods_timed_out ONESHOT_TIMEOUT now s \<longleftrightarrow>
     (if 0 < ONESHOT_TIMEOUT then ONESHOT_TIMEOUT \<le> unat (now - oneshot_time s) else False)"

definition get_oneshot_mods :: "action_util \<Rightarrow> u8" where "get_oneshot_mods s = oneshot_mods s"

text \<open>The time of the last change is kept only when there is a timeout.\<close>

definition stamp_oneshot :: "nat \<Rightarrow> u16 \<Rightarrow> action_util \<Rightarrow> action_util" where
  "stamp_oneshot ONESHOT_TIMEOUT time s = (if 0 < ONESHOT_TIMEOUT then s\<lparr>oneshot_time := time\<rparr> else s)"

definition add_oneshot_mods :: "nat \<Rightarrow> u16 \<Rightarrow> u8 \<Rightarrow> action_util \<Rightarrow> action_util" where
  "add_oneshot_mods ONESHOT_TIMEOUT now mods s =
     (if oneshot_mods s AND mods \<noteq> mods
      then (stamp_oneshot ONESHOT_TIMEOUT now s)\<lparr>oneshot_mods := oneshot_mods s OR mods\<rparr> else s)"

definition del_oneshot_mods :: "nat \<Rightarrow> u16 \<Rightarrow> u8 \<Rightarrow> action_util \<Rightarrow> action_util" where
  "del_oneshot_mods ONESHOT_TIMEOUT now mods s =
     (if oneshot_mods s AND mods \<noteq> 0 then
        let s = s\<lparr>oneshot_mods := oneshot_mods s AND NOT mods\<rparr>
        in stamp_oneshot ONESHOT_TIMEOUT (if oneshot_mods s \<noteq> 0 then now else 0) s
      else s)"

definition set_oneshot_mods :: "nat \<Rightarrow> u16 \<Rightarrow> u8 \<Rightarrow> action_util \<Rightarrow> action_util" where
  "set_oneshot_mods ONESHOT_TIMEOUT now mods s =
     (if oneshot_enable s then
        (if oneshot_mods s \<noteq> mods then (stamp_oneshot ONESHOT_TIMEOUT now s)\<lparr>oneshot_mods := mods\<rparr> else s)
      else s)"

definition clear_oneshot_mods :: "nat \<Rightarrow> action_util \<Rightarrow> action_util" where
  "clear_oneshot_mods ONESHOT_TIMEOUT s =
     (if oneshot_mods s \<noteq> 0 then stamp_oneshot ONESHOT_TIMEOUT 0 (s\<lparr>oneshot_mods := 0\<rparr>) else s)"

section \<open>One-shot layers\<close>

definition ONESHOT_OTHER_KEY_PRESSED :: u8 where "ONESHOT_OTHER_KEY_PRESSED = 0b10"
definition ONESHOT_TOGGLED :: u8 where "ONESHOT_TOGGLED = 0b100"

definition get_oneshot_layer :: "action_util \<Rightarrow> u8" where
  "get_oneshot_layer s = drop_bit 3 (oneshot_layer_data s)"

definition get_oneshot_layer_state :: "action_util \<Rightarrow> u8" where
  "get_oneshot_layer_state s = oneshot_layer_data s AND 0b111"

definition has_oneshot_layer_timed_out :: "nat \<Rightarrow> u16 \<Rightarrow> action_util \<Rightarrow> bool" where
  "has_oneshot_layer_timed_out ONESHOT_TIMEOUT now s \<longleftrightarrow>
     ONESHOT_TIMEOUT \<le> unat (now - oneshot_layer_time s) \<and> get_oneshot_layer_state s AND ONESHOT_TOGGLED = 0"

definition set_oneshot_layer ::
  "layer_cfg \<Rightarrow> nat \<Rightarrow> u16 \<Rightarrow> u8 \<Rightarrow> u8 \<Rightarrow> action_util \<Rightarrow> action_util" where
  "set_oneshot_layer cfg ONESHOT_TIMEOUT now layer state s =
     (if oneshot_enable s then
        let s = s\<lparr>oneshot_layer_data := push_bit 3 layer OR state, au_layers := layer_on cfg layer (au_layers s)\<rparr>
        in if 0 < ONESHOT_TIMEOUT then s\<lparr>oneshot_layer_time := now\<rparr> else s
      else s\<lparr>au_layers := layer_on cfg layer (au_layers s)\<rparr>)"

definition reset_oneshot_layer :: "nat \<Rightarrow> action_util \<Rightarrow> action_util" where
  "reset_oneshot_layer ONESHOT_TIMEOUT s =
     (let s = s\<lparr>oneshot_layer_data := 0\<rparr>
      in if 0 < ONESHOT_TIMEOUT then s\<lparr>oneshot_layer_time := 0\<rparr> else s)"

definition clear_oneshot_layer_state :: "layer_cfg \<Rightarrow> nat \<Rightarrow> u8 \<Rightarrow> action_util \<Rightarrow> action_util" where
  "clear_oneshot_layer_state cfg ONESHOT_TIMEOUT state s =
     (let start_state = oneshot_layer_data s;
          s = s\<lparr>oneshot_layer_data := oneshot_layer_data s AND NOT state\<rparr>
      in if (get_oneshot_layer_state s = 0 \<and> start_state \<noteq> oneshot_layer_data s) \<and> oneshot_enable s
         then reset_oneshot_layer ONESHOT_TIMEOUT
                (s\<lparr>au_layers := layer_off cfg (get_oneshot_layer s) (au_layers s)\<rparr>)
         else s)"

definition is_oneshot_layer_active :: "action_util \<Rightarrow> bool" where
  "is_oneshot_layer_active s \<longleftrightarrow> get_oneshot_layer_state s \<noteq> 0"

section \<open>Sending\<close>

definition get_mods_for_report :: "nat \<Rightarrow> u16 \<Rightarrow> action_util \<Rightarrow> action_util \<times> u8" where
  "get_mods_for_report ONESHOT_TIMEOUT now s =
     (let mods = real_mods s OR weak_mods s;
          (s, mods) =
            (if oneshot_mods s \<noteq> 0 then
               let s = (if has_oneshot_mods_timed_out ONESHOT_TIMEOUT now s
                        then clear_oneshot_mods ONESHOT_TIMEOUT s else s);
                   mods = mods OR oneshot_mods s
               in (if has_anykey s \<noteq> 0 then clear_oneshot_mods ONESHOT_TIMEOUT s else s, mods)
             else (s, mods))
      in (s, (mods AND NOT (suppressed_mods s)) OR weak_override_mods s))"

definition send_6kro_report :: "nat \<Rightarrow> u16 \<Rightarrow> action_util \<Rightarrow> action_util" where
  "send_6kro_report ONESHOT_TIMEOUT now s =
     (let (s, mods) = get_mods_for_report ONESHOT_TIMEOUT now s;
          s = s\<lparr>report_mods := mods\<rparr>
      in if (report_mods s, keys s) \<noteq> last_report s
         then s\<lparr>last_report := (report_mods s, keys s), host := host s @ [Host_Keyboard (report_mods s) (keys s)]\<rparr>
         else s)"

definition send_nkro_report :: "nat \<Rightarrow> u16 \<Rightarrow> action_util \<Rightarrow> action_util" where
  "send_nkro_report ONESHOT_TIMEOUT now s =
     (let (s, mods) = get_mods_for_report ONESHOT_TIMEOUT now s;
          s = s\<lparr>nkro_report_mods := mods\<rparr>
      in if (nkro_report_mods s, bits s) \<noteq> last_nkro_report s
         then s\<lparr>last_nkro_report := (nkro_report_mods s, bits s), host := host s @ [Host_Nkro (nkro_report_mods s) (bits s)]\<rparr>
         else s)"

definition send_keyboard_report :: "nat \<Rightarrow> u16 \<Rightarrow> action_util \<Rightarrow> action_util" where
  "send_keyboard_report ONESHOT_TIMEOUT now s =
     (if use_nkro s then send_nkro_report ONESHOT_TIMEOUT now s else send_6kro_report ONESHOT_TIMEOUT now s)"

section \<open>What the host sees\<close>

definition kb_view :: "host_report list \<Rightarrow> u8 \<times> u8 list" where
  "kb_view log = fold (\<lambda>r v. case r of Host_Keyboard m ks \<Rightarrow> (m, ks) | _ \<Rightarrow> v) log
     (0, replicate KEYBOARD_REPORT_KEYS 0)"

definition nkro_view :: "host_report list \<Rightarrow> u8 \<times> u8 list" where
  "nkro_view log = fold (\<lambda>r v. case r of Host_Nkro m bs \<Rightarrow> (m, bs) | _ \<Rightarrow> v) log
     (0, replicate NKRO_REPORT_BITS 0)"

definition host_ok :: "action_util \<Rightarrow> bool" where
  "host_ok s \<longleftrightarrow> last_report s = kb_view (host s) \<and> last_nkro_report s = nkro_view (host s)"

definition host_view :: "action_util \<Rightarrow> u8 \<times> u8 list" where
  "host_view s = (if use_nkro s then nkro_view (host s) else kb_view (host s))"

lemma view_snoc:
  "kb_view (log @ [Host_System u]) = kb_view log" "nkro_view (log @ [Host_System u]) = nkro_view log"
  "kb_view (log @ [Host_Consumer u]) = kb_view log" "nkro_view (log @ [Host_Consumer u]) = nkro_view log"
  "kb_view (log @ [Host_Keyboard m ks]) = (m, ks)" "nkro_view (log @ [Host_Keyboard m ks]) = nkro_view log"
  "nkro_view (log @ [Host_Nkro m bs]) = (m, bs)" "kb_view (log @ [Host_Nkro m bs]) = kb_view log"
  by (simp_all add: kb_view_def nkro_view_def)

lemma has_anykey_frame:
  "use_nkro s' = use_nkro s \<Longrightarrow> keys s' = keys s \<Longrightarrow> bits s' = bits s \<Longrightarrow> has_anykey s' = has_anykey s"
  by (simp add: has_anykey_def)

lemma stamp_frame:
  "use_nkro (stamp_oneshot T t s) = use_nkro s" "keys (stamp_oneshot T t s) = keys s"
  "bits (stamp_oneshot T t s) = bits s" "host (stamp_oneshot T t s) = host s"
  "last_report (stamp_oneshot T t s) = last_report s" "last_nkro_report (stamp_oneshot T t s) = last_nkro_report s"
  "real_mods (stamp_oneshot T t s) = real_mods s" "weak_mods (stamp_oneshot T t s) = weak_mods s"
  "suppressed_mods (stamp_oneshot T t s) = suppressed_mods s"
  "weak_override_mods (stamp_oneshot T t s) = weak_override_mods s"
  "oneshot_mods (stamp_oneshot T t s) = oneshot_mods s"
  by (simp_all add: stamp_oneshot_def)

lemma clear_oneshot_frame:
  "use_nkro (clear_oneshot_mods T s) = use_nkro s" "keys (clear_oneshot_mods T s) = keys s"
  "bits (clear_oneshot_mods T s) = bits s" "host (clear_oneshot_mods T s) = host s"
  "last_report (clear_oneshot_mods T s) = last_report s" "last_nkro_report (clear_oneshot_mods T s) = last_nkro_report s"
  "real_mods (clear_oneshot_mods T s) = real_mods s" "weak_mods (clear_oneshot_mods T s) = weak_mods s"
  "suppressed_mods (clear_oneshot_mods T s) = suppressed_mods s"
  "weak_override_mods (clear_oneshot_mods T s) = weak_override_mods s"
  "oneshot_mods (clear_oneshot_mods T s) = 0"
  "has_anykey (clear_oneshot_mods T s) = has_anykey s"
  by (simp_all add: clear_oneshot_mods_def stamp_frame has_anykey_def)

lemma get_mods_frame:
  fixes s :: action_util and T :: nat and now :: u16
  defines "s' \<equiv> fst (get_mods_for_report T now s)"
  shows "use_nkro s' = use_nkro s" "keys s' = keys s" "bits s' = bits s" "host s' = host s"
    "last_report s' = last_report s" "last_nkro_report s' = last_nkro_report s"
    "real_mods s' = real_mods s" "weak_mods s' = weak_mods s"
    "suppressed_mods s' = suppressed_mods s" "weak_override_mods s' = weak_override_mods s"
    "has_anykey s' = has_anykey s"
  by (simp_all add: s'_def get_mods_for_report_def Let_def clear_oneshot_frame)

lemma get_mods_value:
  "snd (get_mods_for_report T now s) =
     ((real_mods s OR weak_mods s OR (if has_oneshot_mods_timed_out T now s then 0 else oneshot_mods s))
        AND NOT (suppressed_mods s)) OR weak_override_mods s"
  by (simp add: get_mods_for_report_def Let_def clear_oneshot_frame or.assoc)

lemma get_mods_oneshot:
  "oneshot_mods (fst (get_mods_for_report T now s)) =
     (if has_anykey s \<noteq> 0 \<or> has_oneshot_mods_timed_out T now s then 0 else oneshot_mods s)"
  by (auto simp: get_mods_for_report_def Let_def clear_oneshot_frame)

lemma send_cases:
  fixes s :: action_util
  assumes "get_mods_for_report T now s = (t, mods)"
  shows "send_keyboard_report T now s =
    (if use_nkro s then
       (let u = t\<lparr>nkro_report_mods := mods\<rparr> in
        if (mods, bits s) \<noteq> last_nkro_report s
        then u\<lparr>last_nkro_report := (mods, bits s), host := host s @ [Host_Nkro mods (bits s)]\<rparr> else u)
     else
       (let u = t\<lparr>report_mods := mods\<rparr> in
        if (mods, keys s) \<noteq> last_report s
        then u\<lparr>last_report := (mods, keys s), host := host s @ [Host_Keyboard mods (keys s)]\<rparr> else u))"
  using get_mods_frame[where T = T and now = now and s = s] assms
  by (simp add: send_keyboard_report_def send_nkro_report_def send_6kro_report_def Let_def)

lemma send_keeps_host_lemma:
  assumes "host_ok s"
  shows "host_ok (send_keyboard_report T now s)"
    and "host_view (send_keyboard_report T now s)
        = (snd (get_mods_for_report T now s), if use_nkro s then bits s else keys s)"
    and "host (send_keyboard_report T now s) = host s
        \<longleftrightarrow> host_view s = (snd (get_mods_for_report T now s), if use_nkro s then bits s else keys s)"
proof -
  obtain t mods where g: "get_mods_for_report T now s = (t, mods)" by (cases "get_mods_for_report T now s")
  have f: "use_nkro t = use_nkro s" "host t = host s" "last_report t = last_report s"
    "last_nkro_report t = last_nkro_report s"
    using get_mods_frame[where T = T and now = now and s = s] g by simp_all
  note d = send_cases[OF g] g Let_def host_ok_def host_view_def view_snoc
  show "host_ok (send_keyboard_report T now s)"
    using assms f by (cases "use_nkro s") (auto simp: d)
  show "host_view (send_keyboard_report T now s)
        = (snd (get_mods_for_report T now s), if use_nkro s then bits s else keys s)"
    using assms f by (cases "use_nkro s") (auto simp: d)
  show "host (send_keyboard_report T now s) = host s
        \<longleftrightarrow> host_view s = (snd (get_mods_for_report T now s), if use_nkro s then bits s else keys s)"
    using assms f by (cases "use_nkro s") (auto simp: d)
qed

text \<open>
  C12. Sending keeps the host up to date without repeating itself: after
  \<open>send_keyboard_report\<close> the last report the host received is the current one, keys and
  modifiers, and nothing was sent when the host had it already.
\<close>

theorem send_keeps_host_current:
  assumes "host_ok s"
  shows "host_ok (send_keyboard_report T now s)
    \<and> host_view (send_keyboard_report T now s)
        = (snd (get_mods_for_report T now s), if use_nkro s then bits s else keys s)
    \<and> (host (send_keyboard_report T now s) = host s
        \<longleftrightarrow> host_view s = (snd (get_mods_for_report T now s), if use_nkro s then bits s else keys s))"
  using send_keeps_host_lemma[OF assms] by blast

definition idle_keyboard :: action_util where
  "idle_keyboard = \<lparr>keys = replicate 6 0, bits = replicate 30 0, use_nkro = False, real_mods = 0, weak_mods = 0,
     weak_override_mods = 0, suppressed_mods = 0, oneshot_mods = 0, oneshot_locked_mods = 0, oneshot_time = 0,
     oneshot_layer_data = 0, oneshot_layer_time = 0, oneshot_enable = True, au_layers = two_layers_start,
     report_mods = 0, nkro_report_mods = 0, last_report = (0, replicate 6 0), last_nkro_report = (0, replicate 30 0),
     last_system_usage = 0, last_consumer_usage = 0, host = []\<rparr>"

lemma idle_host_ok: "host_ok idle_keyboard"
  by (simp add: host_ok_def idle_keyboard_def kb_view_def nkro_view_def KEYBOARD_REPORT_KEYS_def NKRO_REPORT_BITS_def)

theorem send_keeps_host_current_witness:
  "host_view (send_keyboard_report 0 0 (idle_keyboard\<lparr>keys := [4, 0, 0, 0, 0, 0], real_mods := 2\<rparr>))
     = (2, [4, 0, 0, 0, 0, 0])"
proof -
  let ?s = "idle_keyboard\<lparr>keys := [4, 0, 0, 0, 0, 0], real_mods := 2\<rparr>"
  have "host_ok ?s" using idle_host_ok by (simp add: host_ok_def)
  from send_keeps_host_current[OF this, where T = 0 and now = 0] show ?thesis
    by (simp add: get_mods_value idle_keyboard_def)
qed

section \<open>One-shot modifiers last for one key\<close>



section \<open>One-shot layers\<close>

definition ONESHOT_PRESSED :: u8 where "ONESHOT_PRESSED = 0b01"
definition ONESHOT_START :: u8 where "ONESHOT_START = 0b11"

lemma layer_data_bits:
  assumes "unat layer < 16" "unat x < 8"
  shows "(push_bit 3 layer OR x) AND 0b111 = x" "drop_bit 3 (push_bit 3 layer OR x) = (layer :: u8)"
proof -
  have m: "(0b111 :: u8) = mask 3" by (simp add: mask_eq_exp_minus_1)
  have x: "bit x k \<Longrightarrow> k < 3" for k using bit_small[of x 3 k] assms(2) by simp
  have l: "bit layer k \<Longrightarrow> k < 4" for k using bit_small[of layer 4 k] assms(1) by simp
  show "(push_bit 3 layer OR x) AND 0b111 = x"
    unfolding m by (rule bit_word_eqI) (auto simp: bit_simps dest: x)
  show "drop_bit 3 (push_bit 3 layer OR x) = layer"
    by (rule bit_word_eqI) (auto simp: bit_simps dest: x l)
qed

lemma layer_data_clear:
  "(push_bit 3 layer OR x) AND NOT y = (push_bit 3 layer AND NOT y) OR (x AND NOT (y :: u8))"
  by (rule bit_word_eqI) (auto simp: bit_simps)

lemma push_3_keeps:
  assumes "unat y < 8"
  shows "push_bit 3 layer AND NOT y = push_bit 3 (layer :: u8)"
proof (rule bit_word_eqI)
  fix k assume "k < LENGTH(8)"
  then show "bit (push_bit 3 layer AND NOT y) k = bit (push_bit 3 layer) k"
    using bit_small[of y 3 k] assms by (auto simp: bit_simps)
qed

lemma clear_state_data:
  assumes "unat y < 8"
  shows "(push_bit 3 layer OR x) AND NOT y = push_bit 3 layer OR (x AND NOT (y :: u8))"
  using push_3_keeps[OF assms] by (simp only: layer_data_clear)

text \<open>
  C32. A one-shot layer goes on with its key and stays on until both its key has been released
  and another key was pressed, in either order; then it is off and no one-shot layer is pending.
\<close>

theorem oneshot_layer_until_both:
  assumes "layer_state_set_modules cfg = id" "layer_state_set_kb cfg = id"
    and "oneshot_enable s" "unat layer < 16"
    and "(a = ONESHOT_PRESSED \<and> b = ONESHOT_OTHER_KEY_PRESSED) \<or> (a = ONESHOT_OTHER_KEY_PRESSED \<and> b = ONESHOT_PRESSED)"
    and "s1 = set_oneshot_layer cfg T now layer ONESHOT_START s"
    and "s2 = clear_oneshot_layer_state cfg T a s1"
    and "s3 = clear_oneshot_layer_state cfg T b s2"
  shows "unat layer \<in> active (au_layers s1) \<and> unat layer \<in> active (au_layers s2)
    \<and> active (au_layers s3) = active (au_layers s) - {unat layer} \<and> \<not> is_oneshot_layer_active s3"
proof -
  note ids = assms(1,2)
  have w: "bit (v :: u16) i \<Longrightarrow> i < 16" for v i using bit_imp_le_length[of v i] by simp
  have on: "active (layer_on cfg layer l) = insert (unat layer) (active l)" for l
    using assms(4) by (auto simp: layer_ops active_def ids bit_simps dest: w)
  have off: "active (layer_off cfg layer l) = active l - {unat layer}" for l
    by (auto simp: layer_ops active_def ids bit_simps dest: w)
  have c: "ONESHOT_START AND NOT a = b" "b AND NOT b = 0" "b \<noteq> 0" "unat a < 8" "unat b < 8" "b \<noteq> ONESHOT_START"
    using assms(5) by (auto simp: ONESHOT_START_def ONESHOT_PRESSED_def ONESHOT_OTHER_KEY_PRESSED_def)
  have s1: "oneshot_layer_data s1 = push_bit 3 layer OR ONESHOT_START" "oneshot_enable s1"
    "au_layers s1 = layer_on cfg layer (au_layers s)"
    using assms(3) by (simp_all add: assms(6) set_oneshot_layer_def Let_def)
  have d1: "oneshot_layer_data s1 AND NOT a = push_bit 3 layer OR b"
    using clear_state_data[OF c(4), of layer ONESHOT_START] by (simp only: s1(1) c(1))
  have s2: "oneshot_layer_data s2 = push_bit 3 layer OR b" "oneshot_enable s2" "au_layers s2 = au_layers s1"
    using layer_data_bits(1)[OF assms(4) c(5)] c(3) s1(2)
    by (simp_all add: assms(7) clear_oneshot_layer_state_def d1 Let_def get_oneshot_layer_state_def)
  have d2: "oneshot_layer_data s2 AND NOT b = push_bit 3 layer"
    using clear_state_data[OF c(5), of layer b] by (simp add: s2(1) c(2))
  have z: "push_bit 3 layer AND 0b111 = 0" "drop_bit 3 (push_bit 3 layer) = layer"
    using layer_data_bits[OF assms(4), of 0] by simp_all
  have "oneshot_layer_data s2 \<noteq> push_bit 3 layer"
    using layer_data_bits(1)[OF assms(4) c(5)] z(1) c(3) s2(1) by metis
  then have s3: "au_layers s3 = layer_off cfg layer (au_layers s2)" "oneshot_layer_data s3 = 0"
    using s2(2) z
    by (simp_all add: assms(8) clear_oneshot_layer_state_def d2 Let_def get_oneshot_layer_state_def
        get_oneshot_layer_def reset_oneshot_layer_def)
  show ?thesis
    using s1(3) s2(3) s3 on off by (auto simp: is_oneshot_layer_active_def get_oneshot_layer_state_def)
qed

theorem oneshot_layer_until_both_witness:
  "\<exists>s1 s2 s3. s1 = set_oneshot_layer two_layers 0 0 3 ONESHOT_START idle_keyboard
     \<and> s2 = clear_oneshot_layer_state two_layers 0 ONESHOT_PRESSED s1
     \<and> s3 = clear_oneshot_layer_state two_layers 0 ONESHOT_OTHER_KEY_PRESSED s2
     \<and> 3 \<in> active (au_layers s2) \<and> 3 \<notin> active (au_layers s3)"
  using oneshot_layer_until_both[of two_layers idle_keyboard 3 ONESHOT_PRESSED ONESHOT_OTHER_KEY_PRESSED _ 0 0,
      OF _ _ _ _ _ refl refl refl]
  by (simp add: two_layers_def idle_keyboard_def)

end
