(* ===== verification/Action_Code.thy ===== *)
theory Action_Code
  imports Key_Event
begin

text \<open>
  Action codes: the 16-bit codes of quantum/action_code.h, with the bit fields of the union
  \<open>action_t\<close> and the macros that build them, the actions that wait for a tap
  (\<open>is_tap_action\<close> of quantum/action.c), and the records of key events with what is known of
  their taps (quantum/action.h).
\<close>

section \<open>Action codes\<close>

datatype action_kind_id = ACT_LMODS | ACT_RMODS | ACT_LMODS_TAP | ACT_RMODS_TAP | ACT_USAGE
  | ACT_MOUSEKEY | ACT_SWAP_HANDS | ACT_LAYER | ACT_LAYER_MODS | ACT_LAYER_TAP | ACT_LAYER_TAP_EXT

fun action_kind_value :: "action_kind_id \<Rightarrow> u16" where
  "action_kind_value ACT_LMODS = 0b0000"
| "action_kind_value ACT_RMODS = 0b0001"
| "action_kind_value ACT_LMODS_TAP = 0b0010"
| "action_kind_value ACT_RMODS_TAP = 0b0011"
| "action_kind_value ACT_USAGE = 0b0100"
| "action_kind_value ACT_MOUSEKEY = 0b0101"
| "action_kind_value ACT_SWAP_HANDS = 0b0110"
| "action_kind_value ACT_LAYER = 0b1000"
| "action_kind_value ACT_LAYER_MODS = 0b1001"
| "action_kind_value ACT_LAYER_TAP = 0b1010"
| "action_kind_value ACT_LAYER_TAP_EXT = 0b1011"

text \<open>The w bits from position lo on.\<close>

definition bit_field :: "nat \<Rightarrow> nat \<Rightarrow> u16 \<Rightarrow> 'a::len word" where
  "bit_field lo w a = ucast (take_bit w (drop_bit lo a))"

text \<open>\<open>kind.id\<close>; the values with no name take the default branch of every \<open>switch\<close>.\<close>

definition action_kind :: "u16 \<Rightarrow> action_kind_id option" where
  "action_kind a = find (\<lambda>k. action_kind_value k = bit_field 12 4 a)
     [ACT_LMODS, ACT_RMODS, ACT_LMODS_TAP, ACT_RMODS_TAP, ACT_USAGE, ACT_MOUSEKEY, ACT_SWAP_HANDS,
      ACT_LAYER, ACT_LAYER_MODS, ACT_LAYER_TAP, ACT_LAYER_TAP_EXT]"

definition key_code :: "u16 \<Rightarrow> u8" where "key_code a = bit_field 0 8 a"
definition key_mods :: "u16 \<Rightarrow> u8" where "key_mods a = bit_field 8 4 a"
definition layer_bitop_bits :: "u16 \<Rightarrow> u8" where "layer_bitop_bits a = bit_field 0 4 a"
definition layer_bitop_xbit :: "u16 \<Rightarrow> u8" where "layer_bitop_xbit a = bit_field 4 1 a"
definition layer_bitop_part :: "u16 \<Rightarrow> u8" where "layer_bitop_part a = bit_field 5 3 a"
definition layer_bitop_on :: "u16 \<Rightarrow> u8" where "layer_bitop_on a = bit_field 8 2 a"
definition layer_bitop_op :: "u16 \<Rightarrow> u8" where "layer_bitop_op a = bit_field 10 2 a"
definition layer_mods_mods :: "u16 \<Rightarrow> u8" where "layer_mods_mods a = bit_field 0 8 a"
definition layer_mods_layer :: "u16 \<Rightarrow> u8" where "layer_mods_layer a = bit_field 8 4 a"
definition layer_tap_code :: "u16 \<Rightarrow> u8" where "layer_tap_code a = bit_field 0 8 a"
definition layer_tap_val :: "u16 \<Rightarrow> u8" where "layer_tap_val a = bit_field 8 5 a"
definition usage_code :: "u16 \<Rightarrow> u16" where "usage_code a = bit_field 0 10 a"
definition usage_page :: "u16 \<Rightarrow> u8" where "usage_page a = bit_field 10 2 a"

definition ACTION :: "action_kind_id \<Rightarrow> u16 \<Rightarrow> u16" where
  "ACTION kind param = push_bit 12 (action_kind_value kind) OR param"

definition ACTION_NO :: u16 where "ACTION_NO = 0"
definition MODS_ONESHOT :: u8 where "MODS_ONESHOT = 0"
definition MODS_TAP_TOGGLE :: u8 where "MODS_TAP_TOGGLE = 1"

definition ACTION_KEY :: "u16 \<Rightarrow> u16" where
  "ACTION_KEY key = ACTION ACT_LMODS key"

definition ACTION_MODS_KEY :: "u16 \<Rightarrow> u16 \<Rightarrow> u16" where
  "ACTION_MODS_KEY mods key = ACTION ACT_LMODS (push_bit 8 (mods AND 0x1f) OR key)"

definition ACTION_MODS_TAP_KEY :: "u16 \<Rightarrow> u16 \<Rightarrow> u16" where
  "ACTION_MODS_TAP_KEY mods key = ACTION ACT_LMODS_TAP (push_bit 8 (mods AND 0x1f) OR key)"

definition ACTION_MODS_ONESHOT :: "u16 \<Rightarrow> u16" where
  "ACTION_MODS_ONESHOT mods = ACTION ACT_LMODS_TAP (push_bit 8 (mods AND 0x1f) OR ucast MODS_ONESHOT)"

definition ACTION_USAGE_SYSTEM :: "u16 \<Rightarrow> u16" where
  "ACTION_USAGE_SYSTEM idn = ACTION ACT_USAGE (push_bit 10 0 OR idn)"

definition ACTION_USAGE_CONSUMER :: "u16 \<Rightarrow> u16" where
  "ACTION_USAGE_CONSUMER idn = ACTION ACT_USAGE (push_bit 10 1 OR idn)"

definition ACTION_MOUSEKEY :: "u16 \<Rightarrow> u16" where
  "ACTION_MOUSEKEY key = ACTION ACT_MOUSEKEY key"

definition ON_PRESS :: u8 where "ON_PRESS = 1"
definition ON_RELEASE :: u8 where "ON_RELEASE = 2"
definition OP_BIT_AND :: u8 where "OP_BIT_AND = 0"
definition OP_BIT_OR :: u8 where "OP_BIT_OR = 1"
definition OP_BIT_XOR :: u8 where "OP_BIT_XOR = 2"
definition OP_BIT_SET :: u8 where "OP_BIT_SET = 3"
definition OP_TAP_TOGGLE :: u8 where "OP_TAP_TOGGLE = 0xF0"
definition OP_ON_OFF :: u8 where "OP_ON_OFF = 0xF1"
definition OP_OFF_ON :: u8 where "OP_OFF_ON = 0xF2"
definition OP_SET_CLEAR :: u8 where "OP_SET_CLEAR = 0xF3"
definition OP_ONESHOT :: u8 where "OP_ONESHOT = 0xF4"

definition ACTION_LAYER_BITOP :: "u8 \<Rightarrow> u16 \<Rightarrow> u16 \<Rightarrow> u8 \<Rightarrow> u16" where
  "ACTION_LAYER_BITOP bop part bits onn =
     ACTION ACT_LAYER (push_bit 10 (ucast bop) OR push_bit 8 (ucast onn) OR push_bit 5 part OR (bits AND 0x1f))"

definition ACTION_LAYER_TAP :: "u16 \<Rightarrow> u16 \<Rightarrow> u16" where
  "ACTION_LAYER_TAP layer key = ACTION ACT_LAYER_TAP (push_bit 8 layer OR key)"

text \<open>\<open>1 << ((layer) % 4)\<close> in part \<open>(layer) / 4\<close>.\<close>

definition ACTION_DEFAULT_LAYER_SET :: "u16 \<Rightarrow> u16" where
  "ACTION_DEFAULT_LAYER_SET layer = ACTION_LAYER_BITOP OP_BIT_SET (layer div 4) (BIT (unat (layer mod 4))) 0"

definition ACTION_LAYER_MOMENTARY :: "u16 \<Rightarrow> u16" where
  "ACTION_LAYER_MOMENTARY layer = ACTION_LAYER_TAP layer (ucast OP_ON_OFF)"

definition ACTION_LAYER_TOGGLE :: "u16 \<Rightarrow> u16" where
  "ACTION_LAYER_TOGGLE layer = ACTION_LAYER_BITOP OP_BIT_XOR (layer div 4) (BIT (unat (layer mod 4))) ON_RELEASE"

definition ACTION_LAYER_GOTO :: "u16 \<Rightarrow> u16" where
  "ACTION_LAYER_GOTO layer = ACTION_LAYER_BITOP OP_BIT_SET (layer div 4) (BIT (unat (layer mod 4))) ON_PRESS"

definition ACTION_LAYER_ONESHOT :: "u16 \<Rightarrow> u16" where
  "ACTION_LAYER_ONESHOT layer = ACTION_LAYER_TAP layer (ucast OP_ONESHOT)"

definition ACTION_LAYER_TAP_TOGGLE :: "u16 \<Rightarrow> u16" where
  "ACTION_LAYER_TAP_TOGGLE layer = ACTION_LAYER_TAP layer (ucast OP_TAP_TOGGLE)"

definition ACTION_LAYER_MODS :: "u16 \<Rightarrow> u16 \<Rightarrow> u16" where
  "ACTION_LAYER_MODS layer mods = ACTION ACT_LAYER_MODS (push_bit 8 layer OR mods)"

section \<open>Which actions wait for a tap\<close>

definition is_tap_action :: "u16 \<Rightarrow> bool" where
  "is_tap_action action = (case action_kind action of
     Some k \<Rightarrow>
       (if k \<in> {ACT_LMODS_TAP, ACT_RMODS_TAP, ACT_LAYER_TAP, ACT_LAYER_TAP_EXT}
        then layer_tap_code action \<le> 0xE7 \<or> layer_tap_code action = OP_TAP_TOGGLE \<or> layer_tap_code action = OP_ONESHOT
        else if k = ACT_SWAP_HANDS then key_code action \<le> 0xE7 \<or> key_code action = 0xF1
        else False)
   | None \<Rightarrow> False)"

section \<open>Key records\<close>

record tap_t =
  tap_interrupted :: bool
  tap_count :: "4 word"

record keyrecord_t =
  kr_event :: keyevent_t
  kr_tap :: tap_t

definition no_tap :: tap_t where
  "no_tap = \<lparr>tap_interrupted = False, tap_count = 0\<rparr>"

text \<open>\<open>(keyrecord_t){0}\<close>, and \<open>(keyrecord_t){.event = event}\<close>.\<close>

definition no_record :: keyrecord_t where
  "no_record = \<lparr>kr_event = \<lparr>ev_key = \<lparr>kp_col = 0, kp_row = 0\<rparr>, ev_time = 0, ev_type = TICK_EVENT,
     ev_pressed = False\<rparr>, kr_tap = no_tap\<rparr>"

definition event_record :: "keyevent_t \<Rightarrow> keyrecord_t" where
  "event_record event = \<lparr>kr_event = event, kr_tap = no_tap\<rparr>"

abbreviation pressed :: "keyrecord_t \<Rightarrow> bool" where "pressed r \<equiv> ev_pressed (kr_event r)"
abbreviation key_of :: "keyrecord_t \<Rightarrow> keypos_t" where "key_of r \<equiv> ev_key (kr_event r)"
abbreviation time_of :: "keyrecord_t \<Rightarrow> u16" where "time_of r \<equiv> ev_time (kr_event r)"
abbreviation taps :: "keyrecord_t \<Rightarrow> 4 word" where "taps r \<equiv> tap_count (kr_tap r)"
abbreviation set_taps :: "4 word \<Rightarrow> keyrecord_t \<Rightarrow> keyrecord_t" where
  "set_taps n r \<equiv> r\<lparr>kr_tap := (kr_tap r)\<lparr>tap_count := n\<rparr>\<rparr>"
abbreviation set_interrupted :: "keyrecord_t \<Rightarrow> keyrecord_t" where
  "set_interrupted r \<equiv> r\<lparr>kr_tap := (kr_tap r)\<lparr>tap_interrupted := True\<rparr>\<rparr>"

end
