(* ===== verification/Keymap.thy ===== *)
theory Keymap
  imports Action_Code Key_Event
begin

text \<open>
  From key positions to actions: keycodes and their ranges (quantum/keycodes.h), the user's
  remapping (quantum/keycode_config.c) and the translation to action codes
  (quantum/keymap_common.c). The build has \<open>EXTRAKEY_ENABLE\<close>, \<open>MAGIC_ENABLE\<close> and encoder maps,
  but no swap hands and no dip-switch map. The keymap tables are parameters.
\<close>

section \<open>Keycodes\<close>

definition KC_TRANSPARENT :: u16 where "KC_TRANSPARENT = 0x1"
definition KC_ESCAPE :: u16 where "KC_ESCAPE = 0x29"
definition KC_BACKSPACE :: u16 where "KC_BACKSPACE = 0x2a"
definition KC_BACKSLASH :: u16 where "KC_BACKSLASH = 0x31"
definition KC_GRAVE :: u16 where "KC_GRAVE = 0x35"
definition KC_CAPS_LOCK :: u16 where "KC_CAPS_LOCK = 0x39"
definition KC_LOCKING_CAPS_LOCK :: u16 where "KC_LOCKING_CAPS_LOCK = 0x82"
definition KC_LEFT_CTRL :: u16 where "KC_LEFT_CTRL = 0xe0"
definition KC_LEFT_ALT :: u16 where "KC_LEFT_ALT = 0xe2"
definition KC_LEFT_GUI :: u16 where "KC_LEFT_GUI = 0xe3"
definition KC_RIGHT_CTRL :: u16 where "KC_RIGHT_CTRL = 0xe4"
definition KC_RIGHT_ALT :: u16 where "KC_RIGHT_ALT = 0xe6"
definition KC_RIGHT_GUI :: u16 where "KC_RIGHT_GUI = 0xe7"

definition IS_BASIC_KEYCODE :: "'a::len word \<Rightarrow> bool" where
  "IS_BASIC_KEYCODE code \<longleftrightarrow> 0x04 \<le> code \<and> code \<le> 0xA4"
definition IS_SYSTEM_KEYCODE :: "'a::len word \<Rightarrow> bool" where
  "IS_SYSTEM_KEYCODE code \<longleftrightarrow> 0xA5 \<le> code \<and> code \<le> 0xA7"
definition IS_CONSUMER_KEYCODE :: "'a::len word \<Rightarrow> bool" where
  "IS_CONSUMER_KEYCODE code \<longleftrightarrow> 0xA8 \<le> code \<and> code \<le> 0xC2"
definition IS_MOUSE_KEYCODE :: "'a::len word \<Rightarrow> bool" where
  "IS_MOUSE_KEYCODE code \<longleftrightarrow> 0xCD \<le> code \<and> code \<le> 0xDF"
definition IS_MODIFIER_KEYCODE :: "'a::len word \<Rightarrow> bool" where
  "IS_MODIFIER_KEYCODE code \<longleftrightarrow> 0xE0 \<le> code \<and> code \<le> 0xE7"

definition KEYCODE2SYSTEM :: "u8 \<Rightarrow> u16" where
  "KEYCODE2SYSTEM key = (case map_of [(0xA5, 0x81), (0xA6, 0x82), (0xA7, 0x83)] key of
     Some usage \<Rightarrow> usage | None \<Rightarrow> 0)"

definition KEYCODE2CONSUMER :: "u8 \<Rightarrow> u16" where
  "KEYCODE2CONSUMER key = (case map_of [
      (0xa8, 0xe2), (0xa9, 0xe9), (0xaa, 0xea), (0xab, 0xb5), (0xac, 0xb6), (0xbb, 0xb3),
      (0xbc, 0xb4), (0xad, 0xb7), (0xb0, 0xcc), (0xae, 0xcd), (0xaf, 0x183), (0xb1, 0x18a),
      (0xb2, 0x192), (0xb3, 0x194), (0xbf, 0x19f), (0xc0, 0x1cb), (0xb4, 0x221), (0xb5, 0x223),
      (0xb6, 0x224), (0xb7, 0x225), (0xb8, 0x226), (0xb9, 0x227), (0xbd, 0x6f), (0xbe, 0x70),
      (0xba, 0x22a), (0xc1, 0x29f), (0xc2, 0x2a0)] key of
     Some usage \<Rightarrow> usage | None \<Rightarrow> 0)"

section \<open>Remapping\<close>

text \<open>
  The fields that remap keys; \<open>nkro\<close> and \<open>oneshot_enable\<close> are in the state of the report and of
  the one-shot keys, where they are read.
\<close>

record keymap_config_t =
  swap_control_capslock :: bool
  capslock_to_control :: bool
  swap_lalt_lgui :: bool
  swap_ralt_rgui :: bool
  no_gui :: bool
  swap_grave_esc :: bool
  swap_backslash_backspace :: bool
  swap_lctl_lgui :: bool
  swap_rctl_rgui :: bool
  swap_escape_capslock :: bool

definition keycode_config :: "keymap_config_t \<Rightarrow> u16 \<Rightarrow> u16" where
  "keycode_config c keycode =
     (if keycode = KC_CAPS_LOCK \<or> keycode = KC_LOCKING_CAPS_LOCK then
        if swap_control_capslock c \<or> capslock_to_control c then KC_LEFT_CTRL
        else if swap_escape_capslock c then KC_ESCAPE
        else keycode
      else if keycode = KC_LEFT_CTRL then
        if swap_control_capslock c then KC_CAPS_LOCK
        else if swap_lctl_lgui c then if no_gui c then 0 else KC_LEFT_GUI
        else KC_LEFT_CTRL
      else if keycode = KC_LEFT_ALT then
        if swap_lalt_lgui c then if no_gui c then 0 else KC_LEFT_GUI else KC_LEFT_ALT
      else if keycode = KC_LEFT_GUI then
        if swap_lalt_lgui c then KC_LEFT_ALT
        else if swap_lctl_lgui c then KC_LEFT_CTRL
        else if no_gui c then 0 else KC_LEFT_GUI
      else if keycode = KC_RIGHT_CTRL then
        if swap_rctl_rgui c then if no_gui c then 0 else KC_RIGHT_GUI else KC_RIGHT_CTRL
      else if keycode = KC_RIGHT_ALT then
        if swap_ralt_rgui c then if no_gui c then 0 else KC_RIGHT_GUI else KC_RIGHT_ALT
      else if keycode = KC_RIGHT_GUI then
        if swap_ralt_rgui c then KC_RIGHT_ALT
        else if swap_rctl_rgui c then KC_RIGHT_CTRL
        else if no_gui c then 0 else KC_RIGHT_GUI
      else if keycode = KC_GRAVE then if swap_grave_esc c then KC_ESCAPE else KC_GRAVE
      else if keycode = KC_ESCAPE then
        if swap_grave_esc c then KC_GRAVE
        else if swap_escape_capslock c then KC_CAPS_LOCK
        else KC_ESCAPE
      else if keycode = KC_BACKSLASH then if swap_backslash_backspace c then KC_BACKSPACE else KC_BACKSLASH
      else if keycode = KC_BACKSPACE then if swap_backslash_backspace c then KC_BACKSLASH else KC_BACKSPACE
      else keycode)"

definition MOD_LCTL :: u8 where "MOD_LCTL = 0x01"
definition MOD_LALT :: u8 where "MOD_LALT = 0x04"
definition MOD_LGUI :: u8 where "MOD_LGUI = 0x08"
definition MOD_RCTL :: u8 where "MOD_RCTL = 0x11"
definition MOD_RALT :: u8 where "MOD_RALT = 0x14"
definition MOD_RGUI :: u8 where "MOD_RGUI = 0x18"

text \<open>The five bits of a packed modifier set, the highest of them for the right-hand side.\<close>

definition mod_config :: "keymap_config_t \<Rightarrow> u8 \<Rightarrow> u8" where
  "mod_config c md =
     (let md = (if swap_lalt_lgui c \<and> ((md AND MOD_RALT = MOD_LALT) \<noteq> (md AND MOD_RGUI = MOD_LGUI))
                then md XOR (MOD_LALT OR MOD_LGUI) else md);
          md = (if swap_ralt_rgui c \<and> ((md AND MOD_RALT = MOD_RALT) \<noteq> (md AND MOD_RGUI = MOD_RGUI))
                then md XOR (MOD_LALT OR MOD_LGUI) else md);
          md = (if swap_lctl_lgui c \<and> ((md AND MOD_RCTL = MOD_LCTL) \<noteq> (md AND MOD_RGUI = MOD_LGUI))
                then md XOR (MOD_LCTL OR MOD_LGUI) else md);
          md = (if swap_rctl_rgui c \<and> ((md AND MOD_RCTL = MOD_RCTL) \<noteq> (md AND MOD_RGUI = MOD_RGUI))
                then md XOR (MOD_LCTL OR MOD_LGUI) else md)
      in if no_gui c \<and> md AND MOD_LGUI \<noteq> 0 then md AND NOT MOD_RGUI else md)"

section \<open>From keycodes to actions\<close>

definition action_for_keycode :: "keymap_config_t \<Rightarrow> u16 \<Rightarrow> u16" where
  "action_for_keycode c keycode =
     (let keycode = keycode_config c keycode; low = keycode AND 0xFF; layer = keycode AND 0x1F
      in if IS_BASIC_KEYCODE keycode \<or> IS_MODIFIER_KEYCODE keycode then ACTION_KEY keycode
         else if IS_SYSTEM_KEYCODE keycode then ACTION_USAGE_SYSTEM (KEYCODE2SYSTEM (ucast keycode))
         else if IS_CONSUMER_KEYCODE keycode then ACTION_USAGE_CONSUMER (KEYCODE2CONSUMER (ucast keycode))
         else if IS_MOUSE_KEYCODE keycode then ACTION_MOUSEKEY keycode
         else if keycode = KC_TRANSPARENT then 1
         else if 0x0100 \<le> keycode \<and> keycode \<le> 0x1FFF then
           ACTION_MODS_KEY (ucast (mod_config c (ucast (drop_bit 8 keycode AND 0x1F)))) (keycode_config c low)
         else if 0x4000 \<le> keycode \<and> keycode \<le> 0x4FFF then
           ACTION_LAYER_TAP (drop_bit 8 keycode AND 0xF) (keycode_config c low)
         else if 0x5200 \<le> keycode \<and> keycode \<le> 0x521F then ACTION_LAYER_GOTO layer
         else if 0x5220 \<le> keycode \<and> keycode \<le> 0x523F then ACTION_LAYER_MOMENTARY layer
         else if 0x5240 \<le> keycode \<and> keycode \<le> 0x525F then ACTION_DEFAULT_LAYER_SET layer
         else if 0x5260 \<le> keycode \<and> keycode \<le> 0x527F then ACTION_LAYER_TOGGLE layer
         else if 0x5280 \<le> keycode \<and> keycode \<le> 0x529F then ACTION_LAYER_ONESHOT layer
         else if 0x52A0 \<le> keycode \<and> keycode \<le> 0x52BF then
           ACTION_MODS_ONESHOT (ucast (mod_config c (ucast layer)))
         else if 0x52C0 \<le> keycode \<and> keycode \<le> 0x52DF then ACTION_LAYER_TAP_TOGGLE layer
         else if 0x5000 \<le> keycode \<and> keycode \<le> 0x51FF then
           (let md = mod_config c (ucast layer); action_layer = drop_bit 5 keycode AND 0xF
            in ACTION_LAYER_MODS action_layer
                 (ucast (if md AND 0x10 \<noteq> 0 then push_bit 4 (md AND 0xF) else md)))
         else if 0x2000 \<le> keycode \<and> keycode \<le> 0x3FFF then
           ACTION_MODS_TAP_KEY (ucast (mod_config c (ucast (drop_bit 8 keycode AND 0x1F)))) (keycode_config c low)
         else ACTION_NO)"

text \<open>
  \<open>keymap\<close> and \<open>encodermap\<close> are \<open>keycode_at_keymap_location\<close> and
  \<open>keycode_at_encodermap_location\<close> of the keymap's tables.
\<close>

record keymap_tables =
  KM_ROWS :: nat
  KM_COLS :: nat
  KM_ENCODERS :: nat
  keymap :: "nat \<Rightarrow> nat \<Rightarrow> nat \<Rightarrow> 16 word"
  encodermap :: "nat \<Rightarrow> nat \<Rightarrow> bool \<Rightarrow> 16 word"

definition keymap_key_to_keycode :: "keymap_tables \<Rightarrow> nat \<Rightarrow> keypos_t \<Rightarrow> u16" where
  "keymap_key_to_keycode t layer key =
     (if unat (kp_row key) < KM_ROWS t \<and> unat (kp_col key) < KM_COLS t
      then keymap t layer (unat (kp_row key)) (unat (kp_col key))
      else if kp_row key = KEYLOC_ENCODER_CW \<and> unat (kp_col key) < KM_ENCODERS t
      then encodermap t layer (unat (kp_col key)) True
      else if kp_row key = KEYLOC_ENCODER_CCW \<and> unat (kp_col key) < KM_ENCODERS t
      then encodermap t layer (unat (kp_col key)) False
      else 0)"

definition key_action :: "keymap_config_t \<Rightarrow> keymap_tables \<Rightarrow> nat \<Rightarrow> keypos_t \<Rightarrow> u16" where
  "key_action c t layer key = action_for_keycode c (keymap_key_to_keycode t layer key)"

end
