(* ===== verification/Action.thy ===== *)
theory Action
  imports Action_Util Keymap
begin

text \<open>
  The interpreter of actions (quantum/action.c): what a key event does once it is decided whether
  it is a tap or a hold.

  The build has \<open>EXTRAKEY_ENABLE\<close> and one-shot keys; it has no mouse keys, no pointing device, no
  swap hands, no retro tapping, no locking keys and no \<open>HOLD_ON_OTHER_KEY_PRESS\<close> for all keys, so
  \<open>register_mouse\<close> does nothing. Waiting and the setting of the LEDs have no effect on the state.

  \<open>AC_NOW\<close> is the reading of the clock during a pass of the main loop. \<open>quantum_features\<close> stands
  for the chain of optional features and user hooks in \<open>process_record_quantum\<close>, which may
  change the state and may take the key for themselves.
\<close>

section \<open>Configuration\<close>

record action_cfg =
  AC_LAYERS :: layer_cfg
  AC_CONFIG :: keymap_config_t
  AC_TABLES :: keymap_tables
  AC_ONESHOT_TIMEOUT :: nat
  AC_ONESHOT_TAP_TOGGLE :: nat
  AC_TAPPING_TOGGLE :: nat
  AC_NOW :: "16 word"
  quantum_features :: "16 word \<Rightarrow> keyrecord_t \<Rightarrow> action_util \<Rightarrow> action_util \<times> bool"

text \<open>The layers over the keymap, and the functions of quantum/action_util.c at the clock reading.\<close>

definition lcfg :: "action_cfg \<Rightarrow> layer_cfg" where
  "lcfg c = (AC_LAYERS c)\<lparr>action_for_key := key_action (AC_CONFIG c) (AC_TABLES c)\<rparr>"

definition on_layers :: "(layers \<Rightarrow> layers) \<Rightarrow> action_util \<Rightarrow> action_util" where
  "on_layers f s = s\<lparr>au_layers := f (au_layers s)\<rparr>"

abbreviation send :: "action_cfg \<Rightarrow> action_util \<Rightarrow> action_util" where
  "send c s \<equiv> send_keyboard_report (AC_ONESHOT_TIMEOUT c) (AC_NOW c) s"

abbreviation clear_oneshot_layer :: "action_cfg \<Rightarrow> u8 \<Rightarrow> action_util \<Rightarrow> action_util" where
  "clear_oneshot_layer c state s \<equiv> clear_oneshot_layer_state (lcfg c) (AC_ONESHOT_TIMEOUT c) state s"

definition host_system_send :: "u16 \<Rightarrow> action_util \<Rightarrow> action_util" where
  "host_system_send usage s =
     (if usage = last_system_usage s then s
      else s\<lparr>last_system_usage := usage, host := host s @ [Host_System usage]\<rparr>)"

definition host_consumer_send :: "u16 \<Rightarrow> action_util \<Rightarrow> action_util" where
  "host_consumer_send usage s =
     (if usage = last_consumer_usage s then s
      else s\<lparr>last_consumer_usage := usage, host := host s @ [Host_Consumer usage]\<rparr>)"

section \<open>Registering keys and modifiers\<close>

definition add_key :: "u8 \<Rightarrow> action_util \<Rightarrow> action_util" where
  "add_key key s = add_key_to_report key s"
definition del_key :: "u8 \<Rightarrow> action_util \<Rightarrow> action_util" where
  "del_key key s = del_key_from_report key s"
definition clear_keys :: "action_util \<Rightarrow> action_util" where
  "clear_keys s = clear_keys_from_report s"

definition MOD_BIT :: "u8 \<Rightarrow> u8" where
  "MOD_BIT code = BIT (unat (code AND 0x07))"

definition register_code :: "action_cfg \<Rightarrow> u8 \<Rightarrow> action_util \<Rightarrow> action_util" where
  "register_code c code s =
     (if code = KC_NO then s
      else if IS_BASIC_KEYCODE code then
        let s = (if is_key_pressed code s then send c (del_key code s) else s)
        in send c (add_key code s)
      else if IS_MODIFIER_KEYCODE code then send c (add_mods (MOD_BIT code) s)
      else if IS_SYSTEM_KEYCODE code then host_system_send (KEYCODE2SYSTEM code) s
      else if IS_CONSUMER_KEYCODE code then host_consumer_send (KEYCODE2CONSUMER code) s
      else s)"

definition unregister_code :: "action_cfg \<Rightarrow> u8 \<Rightarrow> action_util \<Rightarrow> action_util" where
  "unregister_code c code s =
     (if code = KC_NO then s
      else if IS_BASIC_KEYCODE code then send c (del_key code s)
      else if IS_MODIFIER_KEYCODE code then send c (del_mods (MOD_BIT code) s)
      else if IS_SYSTEM_KEYCODE code then host_system_send 0 s
      else if IS_CONSUMER_KEYCODE code then host_consumer_send 0 s
      else s)"

definition tap_code :: "action_cfg \<Rightarrow> u8 \<Rightarrow> action_util \<Rightarrow> action_util" where
  "tap_code c code s = unregister_code c code (register_code c code s)"

definition register_mods :: "action_cfg \<Rightarrow> u8 \<Rightarrow> action_util \<Rightarrow> action_util" where
  "register_mods c mods s = (if mods \<noteq> 0 then send c (add_mods mods s) else s)"
definition unregister_mods :: "action_cfg \<Rightarrow> u8 \<Rightarrow> action_util \<Rightarrow> action_util" where
  "unregister_mods c mods s = (if mods \<noteq> 0 then send c (del_mods mods s) else s)"
definition register_weak_mods :: "action_cfg \<Rightarrow> u8 \<Rightarrow> action_util \<Rightarrow> action_util" where
  "register_weak_mods c mods s = (if mods \<noteq> 0 then send c (add_weak_mods mods s) else s)"
definition unregister_weak_mods :: "action_cfg \<Rightarrow> u8 \<Rightarrow> action_util \<Rightarrow> action_util" where
  "unregister_weak_mods c mods s = (if mods \<noteq> 0 then send c (del_weak_mods mods s) else s)"

definition clear_keyboard_but_mods_and_keys :: "action_cfg \<Rightarrow> action_util \<Rightarrow> action_util" where
  "clear_keyboard_but_mods_and_keys c s =
     send c (clear_weak_mods (host_consumer_send 0 (host_system_send 0 s)))"
definition clear_keyboard_but_mods :: "action_cfg \<Rightarrow> action_util \<Rightarrow> action_util" where
  "clear_keyboard_but_mods c s = clear_keyboard_but_mods_and_keys c (clear_keys s)"
definition clear_keyboard :: "action_cfg \<Rightarrow> action_util \<Rightarrow> action_util" where
  "clear_keyboard c s = clear_keyboard_but_mods c (clear_mods s)"

section \<open>The kinds of action\<close>

text \<open>
  A key with modifiers: the modifiers are real when there is no other key, weak otherwise.
  \<open>action_mods\<close> are the modifiers of an action of the left or the right kind.
\<close>

definition action_mods :: "bool \<Rightarrow> u16 \<Rightarrow> u8" where
  "action_mods left action = (if left then key_mods action else push_bit 4 (key_mods action))"

definition process_mods :: "action_cfg \<Rightarrow> bool \<Rightarrow> u8 \<Rightarrow> u8 \<Rightarrow> action_util \<Rightarrow> action_util" where
  "process_mods c down mods code s =
     (let strong = (IS_MODIFIER_KEYCODE code \<or> code = KC_NO)
      in if down then
           let s = (if mods \<noteq> 0 then send c (if strong then add_mods mods s else add_weak_mods mods s) else s)
           in register_code c code s
         else
           let s = unregister_code c code s
           in if mods \<noteq> 0 then send c (if strong then del_mods mods s else del_weak_mods mods s) else s)"

definition process_oneshot_mods :: "action_cfg \<Rightarrow> bool \<Rightarrow> u8 \<Rightarrow> nat \<Rightarrow> action_util \<Rightarrow> action_util" where
  "process_oneshot_mods c down mods tap_number s =
     (let T = AC_ONESHOT_TIMEOUT c; now = AC_NOW c; toggle = 1 < AC_ONESHOT_TAP_TOGGLE c
      in if down then
           if tap_number = 0 then register_mods c mods s
           else if tap_number = 1 then add_oneshot_mods T now mods s
           else if toggle \<and> tap_number = AC_ONESHOT_TAP_TOGGLE c then
             add_oneshot_locked_mods mods (del_oneshot_mods T now mods (register_mods c mods s))
           else s
         else if tap_number = 0 \<or> toggle \<and> tap_number = 1 \<and> mods AND get_mods s \<noteq> 0 then
           del_oneshot_locked_mods mods (del_oneshot_mods T now mods (unregister_mods c mods s))
         else s)"

definition process_mods_tap :: "action_cfg \<Rightarrow> bool \<Rightarrow> u8 \<Rightarrow> u16 \<Rightarrow> nat \<Rightarrow> action_util \<Rightarrow> action_util" where
  "process_mods_tap c down mods action tap_number s =
     (if layer_tap_code action = MODS_ONESHOT then
        if \<not> oneshot_enable s then process_mods c down mods (key_code action) s
        else process_oneshot_mods c down mods tap_number s
      else if layer_tap_code action = MODS_TAP_TOGGLE then
        if down then if tap_number \<le> AC_TAPPING_TOGGLE c then register_mods c mods s else s
        else if tap_number < AC_TAPPING_TOGGLE c then unregister_mods c mods s else s
      else if down then
        if 0 < tap_number then register_code c (key_code action) s else register_mods c mods s
      else
        if 0 < tap_number then unregister_code c (key_code action) s else unregister_mods c mods s)"

definition process_usage :: "bool \<Rightarrow> u16 \<Rightarrow> action_util \<Rightarrow> action_util" where
  "process_usage down action s =
     (if usage_page action = 0 then host_system_send (if down then usage_code action else 0) s
      else if usage_page action = 1 then host_consumer_send (if down then usage_code action else 0) s
      else s)"

text \<open>The four bits of a part, and the bits outside it when the extra bit asks to keep them.\<close>

definition bitop_operand :: "u16 \<Rightarrow> u16" where
  "bitop_operand action =
     (let shift = unat (layer_bitop_part action) * 4;
          bits = push_bit shift (ucast (layer_bitop_bits action));
          msk = (if layer_bitop_xbit action \<noteq> 0 then NOT (push_bit shift 0xf) else 0)
      in bits OR msk)"

definition process_layer :: "action_cfg \<Rightarrow> bool \<Rightarrow> u16 \<Rightarrow> layers \<Rightarrow> layers" where
  "process_layer c down action l =
     (let x = bitop_operand action; bop = layer_bitop_op action; onn = layer_bitop_on action
      in if onn = 0 then
           if \<not> down then
             if bop = OP_BIT_AND then default_layer_and (lcfg c) x l
             else if bop = OP_BIT_OR then default_layer_or (lcfg c) x l
             else if bop = OP_BIT_XOR then default_layer_xor (lcfg c) x l
             else default_layer_set (lcfg c) x l
           else l
         else if (if down then onn AND ON_PRESS \<noteq> 0 else onn AND ON_RELEASE \<noteq> 0) then
           if bop = OP_BIT_AND then layer_and (lcfg c) x l
           else if bop = OP_BIT_OR then layer_or (lcfg c) x l
           else if bop = OP_BIT_XOR then layer_xor (lcfg c) x l
           else layer_state_set (lcfg c) x l
         else l)"

definition process_layer_mods :: "action_cfg \<Rightarrow> bool \<Rightarrow> u16 \<Rightarrow> action_util \<Rightarrow> action_util" where
  "process_layer_mods c down action s =
     (if down then register_mods c (layer_mods_mods action) (on_layers (layer_on (lcfg c) (layer_mods_layer action)) s)
      else on_layers (layer_off (lcfg c) (layer_mods_layer action)) (unregister_mods c (layer_mods_mods action) s))"

definition process_oneshot_layer :: "action_cfg \<Rightarrow> bool \<Rightarrow> u8 \<Rightarrow> nat \<Rightarrow> action_util \<Rightarrow> action_util" where
  "process_oneshot_layer c down layer tap_number s =
     (let T = AC_ONESHOT_TIMEOUT c; now = AC_NOW c
      in if \<not> oneshot_enable s then on_layers (if down then layer_on (lcfg c) layer else layer_off (lcfg c) layer) s
         else if 1 < AC_ONESHOT_TAP_TOGGLE c then
           if down then
             if get_oneshot_layer_state s = ONESHOT_TOGGLED then
               on_layers (layer_off (lcfg c) layer) (reset_oneshot_layer T s)
             else if tap_number < AC_ONESHOT_TAP_TOGGLE c then set_oneshot_layer (lcfg c) T now layer ONESHOT_START s
             else s
           else if AC_ONESHOT_TAP_TOGGLE c \<le> tap_number then
             set_oneshot_layer (lcfg c) T now layer ONESHOT_TOGGLED (reset_oneshot_layer T s)
           else clear_oneshot_layer c ONESHOT_PRESSED s
         else if down then set_oneshot_layer (lcfg c) T now layer ONESHOT_START s
         else
           let s = clear_oneshot_layer c ONESHOT_PRESSED s
           in if 1 < tap_number then clear_oneshot_layer c ONESHOT_OTHER_KEY_PRESSED s else s)"

definition process_layer_tap :: "action_cfg \<Rightarrow> bool \<Rightarrow> u16 \<Rightarrow> nat \<Rightarrow> action_util \<Rightarrow> action_util" where
  "process_layer_tap c down action tap_number s =
     (let code = layer_tap_code action; val = layer_tap_val action; L = lcfg c
      in if code = OP_TAP_TOGGLE then
           (if (if down then tap_number < AC_TAPPING_TOGGLE c else tap_number \<le> AC_TAPPING_TOGGLE c)
            then on_layers (layer_invert L val) s else s)
         else if code = OP_ON_OFF then on_layers (if down then layer_on L val else layer_off L val) s
         else if code = OP_OFF_ON then on_layers (if down then layer_off L val else layer_on L val) s
         else if code = OP_SET_CLEAR then on_layers (if down then layer_move L val else layer_clear L) s
         else if code = OP_ONESHOT then process_oneshot_layer c down val tap_number s
         else if down then
           if 0 < tap_number then register_code c code s else on_layers (layer_on L val) s
         else
           if 0 < tap_number then unregister_code c code s else on_layers (layer_off L val) s)"

section \<open>Actions\<close>

definition process_action_kind :: "action_cfg \<Rightarrow> keyrecord_t \<Rightarrow> u16 \<Rightarrow> action_util \<Rightarrow> action_util" where
  "process_action_kind c record action s =
     (let down = pressed record; tap_number = unat (taps record)
      in case action_kind action of
           Some ACT_LMODS \<Rightarrow> process_mods c down (action_mods True action) (key_code action) s
         | Some ACT_RMODS \<Rightarrow> process_mods c down (action_mods False action) (key_code action) s
         | Some ACT_LMODS_TAP \<Rightarrow> process_mods_tap c down (action_mods True action) action tap_number s
         | Some ACT_RMODS_TAP \<Rightarrow> process_mods_tap c down (action_mods False action) action tap_number s
         | Some ACT_USAGE \<Rightarrow> process_usage down action s
         | Some ACT_LAYER \<Rightarrow> on_layers (process_layer c down action) s
         | Some ACT_LAYER_MODS \<Rightarrow> process_layer_mods c down action s
         | Some ACT_LAYER_TAP \<Rightarrow> process_layer_tap c down action tap_number s
         | Some ACT_LAYER_TAP_EXT \<Rightarrow> process_layer_tap c down action tap_number s
         | _ \<Rightarrow> s)"

text \<open>Whether a press with this action uses up a one-shot layer.\<close>

definition uses_oneshot_layer :: "keyrecord_t \<Rightarrow> u16 \<Rightarrow> action_util \<Rightarrow> bool" where
  "uses_oneshot_layer record action s \<longleftrightarrow> is_oneshot_layer_active s \<and> pressed record
     \<and> (action_kind action = Some ACT_USAGE
        \<or> \<not> (IS_MODIFIER_KEYCODE (key_code action)
             \<or> action_kind action \<in> {Some ACT_LMODS_TAP, Some ACT_RMODS_TAP}
               \<and> (layer_tap_code action \<le> MODS_TAP_TOGGLE \<or> taps record = 0)))
     \<and> oneshot_enable s"

text \<open>
  \<open>pr\<close> is the nested call of \<open>process_record\<close>, on the record turned into a release. A layer
  action keeps the key down.
\<close>

definition release_record :: "keyrecord_t \<Rightarrow> keyrecord_t" where
  "release_record r = r\<lparr>kr_event := (kr_event r)\<lparr>ev_pressed := False\<rparr>\<rparr>"

definition process_action_with ::
    "(keyrecord_t \<Rightarrow> action_util \<Rightarrow> keyrecord_t \<times> action_util) \<Rightarrow> action_cfg \<Rightarrow> keyrecord_t \<Rightarrow> u16
      \<Rightarrow> action_util \<Rightarrow> keyrecord_t \<times> action_util" where
  "process_action_with pr c record action s =
     (let use = uses_oneshot_layer record action s;
          s = (if use then clear_oneshot_layer c ONESHOT_OTHER_KEY_PRESSED s else s);
          do_release_oneshot = (use \<and> \<not> is_oneshot_layer_active s
            \<and> action_kind action \<notin> {Some ACT_LAYER, Some ACT_LAYER_MODS, Some ACT_LAYER_TAP, Some ACT_LAYER_TAP_EXT});
          s = process_action_kind c record action s
      in if pressed record \<and> do_release_oneshot \<and> get_oneshot_layer_state s AND ONESHOT_PRESSED = 0 then
           let s = on_layers (layer_on (lcfg c) (get_oneshot_layer s)) s
           in case pr (release_record record) s of
                (record, s) \<Rightarrow> (record, on_layers (layer_off (lcfg c) (get_oneshot_layer s)) s)
         else (record, s))"

lemma process_action_with_cong [fundef_cong]:
  assumes "c = c'" "record = record'" "action = action'" "s = s'"
    and "\<And>t. pressed record' \<Longrightarrow> pr (release_record record') t = pr' (release_record record') t"
  shows "process_action_with pr c record action s = process_action_with pr' c' record' action' s'"
  using assms by (simp add: process_action_with_def Let_def)

section \<open>Records\<close>

text \<open>\<open>get_record_keycode\<close>: the keycode of a key, which a press may store in the layer cache.\<close>

definition get_record_keycode ::
    "action_cfg \<Rightarrow> keyrecord_t \<Rightarrow> bool \<Rightarrow> action_util \<Rightarrow> action_util \<times> u16" where
  "get_record_keycode c record update_layer_cache s =
     (let key = key_of record; l = au_layers s; code = keymap_key_to_keycode (AC_TABLES c)
      in if disable_action_cache l then (s, code (layer_switch_get_layer (lcfg c) key l) key)
         else if pressed record \<and> update_layer_cache then
           let layer = layer_switch_get_layer (lcfg c) key l
           in (on_layers (update_source_layers_cache (lcfg c) key layer) s, code layer key)
         else (s, code (unat (read_source_layers_cache (lcfg c) key l)) key))"

definition process_record_quantum :: "action_cfg \<Rightarrow> keyrecord_t \<Rightarrow> action_util \<Rightarrow> action_util \<times> bool" where
  "process_record_quantum c record s =
     (case get_record_keycode c record True s of (s, keycode) \<Rightarrow> quantum_features c keycode record s)"

function process_record :: "action_cfg \<Rightarrow> keyrecord_t \<Rightarrow> action_util \<Rightarrow> keyrecord_t \<times> action_util" where
  "process_record c record s =
     (if IS_NOEVENT (kr_event record) then (record, s)
      else case process_record_quantum c record s of (s, continue) \<Rightarrow>
        if \<not> continue then
          (record, if is_oneshot_layer_active s \<and> pressed record \<and> oneshot_enable s
                   then clear_oneshot_layer c ONESHOT_OTHER_KEY_PRESSED s else s)
        else case store_or_get_action (lcfg c) (pressed record) (key_of record) (au_layers s) of (l, action) \<Rightarrow>
          process_action_with (process_record c) c record action (s\<lparr>au_layers := l\<rparr>))"
  by auto

termination
  by (relation "measure (\<lambda>(c, record, s). if pressed record then 1 else 0)") (auto simp: release_record_def)

definition process_action :: "action_cfg \<Rightarrow> keyrecord_t \<Rightarrow> u16 \<Rightarrow> action_util \<Rightarrow> keyrecord_t \<times> action_util" where
  "process_action c = process_action_with (process_record c) c"

definition process_record_nocache :: "action_cfg \<Rightarrow> keyrecord_t \<Rightarrow> action_util \<Rightarrow> keyrecord_t \<times> action_util" where
  "process_record_nocache c record s =
     (case process_record c record (on_layers (\<lambda>l. l\<lparr>disable_action_cache := True\<rparr>) s) of
        (record, s) \<Rightarrow> (record, on_layers (\<lambda>l. l\<lparr>disable_action_cache := False\<rparr>) s))"

end
