(* ===== verification/Tapping.thy ===== *)
theory Tapping
  imports Ring_Queue Action_Code
begin

text \<open>
  Tap and hold (quantum/action_tapping.c): the state machine that decides whether a dual-role key
  was tapped or held. A key that waits for the decision is the tapping key; the events that come
  meanwhile wait in a ring buffer.

  The build has \<open>TAPPING_TERM_PER_KEY\<close>, \<open>QUICK_TAP_TERM_PER_KEY\<close>, \<open>PERMISSIVE_HOLD_PER_KEY\<close> and
  \<open>HOLD_ON_OTHER_KEY_PRESS_PER_KEY\<close>, which with constant functions give the simpler builds; it
  has no combos, auto shift, chordal hold, flow tap, speculative hold or swap hands.

  What the module calls are fields of a record of operations over the state \<open>'e\<close> of the rest of
  the firmware. \<open>process_record\<close> takes its record by reference, and so returns it.
\<close>

section \<open>State and operations\<close>

record 'e tapping_ops =
  op_process_record :: "keyrecord_t \<Rightarrow> 'e \<Rightarrow> keyrecord_t \<times> 'e"
  op_layer_switch_get_action :: "keypos_t \<Rightarrow> 'e \<Rightarrow> 16 word"
  op_get_tapping_term :: "keyrecord_t \<Rightarrow> 'e \<Rightarrow> 16 word"
  op_get_quick_tap_term :: "keyrecord_t \<Rightarrow> 'e \<Rightarrow> 16 word"
  op_get_permissive_hold :: "keyrecord_t \<Rightarrow> 'e \<Rightarrow> bool"
  op_get_hold_on_other_key_press :: "keyrecord_t \<Rightarrow> 'e \<Rightarrow> bool"
  op_clear_keyboard :: "'e \<Rightarrow> 'e"

definition WAITING_BUFFER_SIZE :: nat where "WAITING_BUFFER_SIZE = 8"

record 'e tapping =
  tapping_key :: keyrecord_t
  waiting_buffer :: "keyrecord_t list"
  waiting_buffer_head :: u8
  waiting_buffer_tail :: u8
  rest :: 'e

section \<open>The waiting buffer\<close>

definition wb_next :: "u8 \<Rightarrow> u8" where
  "wb_next i = of_nat ((unat i + 1) mod WAITING_BUFFER_SIZE)"

definition waiting_buffer_enq :: "keyrecord_t \<Rightarrow> 'e tapping \<Rightarrow> 'e tapping \<times> bool" where
  "waiting_buffer_enq record s =
     (if IS_NOEVENT (kr_event record) then (s, True)
      else if wb_next (waiting_buffer_head s) = waiting_buffer_tail s then (s, False)
      else (s\<lparr>waiting_buffer := (waiting_buffer s)[unat (waiting_buffer_head s) := record],
              waiting_buffer_head := wb_next (waiting_buffer_head s)\<rparr>, True))"

definition waiting_buffer_clear :: "'e tapping \<Rightarrow> 'e tapping" where
  "waiting_buffer_clear s = s\<lparr>waiting_buffer_head := 0, waiting_buffer_tail := 0\<rparr>"

text \<open>The loop \<open>for (i = tail; i != head; i = (i + 1) % SIZE)\<close>: the indices it visits.\<close>

definition wb_indices :: "'e tapping \<Rightarrow> nat list" where
  "wb_indices s = map (\<lambda>k. (unat (waiting_buffer_tail s) + k) mod WAITING_BUFFER_SIZE)
     [0..<ring_count WAITING_BUFFER_SIZE (unat (waiting_buffer_tail s)) (unat (waiting_buffer_head s))]"

definition waiting_buffer_typed :: "keyevent_t \<Rightarrow> 'e tapping \<Rightarrow> bool" where
  "waiting_buffer_typed event s = list_ex (\<lambda>i. let e = kr_event (waiting_buffer s ! i)
     in KEYEQ (ev_key event) (ev_key e) \<and> ev_pressed event \<noteq> ev_pressed e) (wb_indices s)"

definition waiting_buffer_has_anykey_pressed :: "'e tapping \<Rightarrow> bool" where
  "waiting_buffer_has_anykey_pressed s = list_ex (\<lambda>i. pressed (waiting_buffer s ! i)) (wb_indices s)"

definition TIMER_DIFF_16 :: "u16 \<Rightarrow> u16 \<Rightarrow> u16" where
  "TIMER_DIFF_16 a b = a - b"

definition WITHIN_TAPPING_TERM :: "'e tapping_ops \<Rightarrow> keyevent_t \<Rightarrow> 'e tapping \<Rightarrow> bool" where
  "WITHIN_TAPPING_TERM ops e s \<longleftrightarrow>
     TIMER_DIFF_16 (ev_time e) (time_of (tapping_key s)) < op_get_tapping_term ops (tapping_key s) (rest s)"

definition WITHIN_QUICK_TAP_TERM :: "'e tapping_ops \<Rightarrow> keyevent_t \<Rightarrow> 'e tapping \<Rightarrow> bool" where
  "WITHIN_QUICK_TAP_TERM ops e s \<longleftrightarrow>
     TIMER_DIFF_16 (ev_time e) (time_of (tapping_key s)) < op_get_quick_tap_term ops (tapping_key s) (rest s)"

definition IS_TAPPING_RECORD :: "keyrecord_t \<Rightarrow> 'e tapping \<Rightarrow> bool" where
  "IS_TAPPING_RECORD r s \<longleftrightarrow> KEYEQ (key_of (tapping_key s)) (key_of r)"

definition is_tap_record :: "'e tapping_ops \<Rightarrow> keyrecord_t \<Rightarrow> 'e tapping \<Rightarrow> bool" where
  "is_tap_record ops r s =
     (if IS_NOEVENT (kr_event r) then False
      else is_tap_action (op_layer_switch_get_action ops (key_of r) (rest s)))"

text \<open>Calls of \<open>process_record\<close> on the tapping key itself, and on a record of its own.\<close>

definition process_tapping_key :: "'e tapping_ops \<Rightarrow> 'e tapping \<Rightarrow> 'e tapping" where
  "process_tapping_key ops s =
     (case op_process_record ops (tapping_key s) (rest s) of (r, e) \<Rightarrow> s\<lparr>tapping_key := r, rest := e\<rparr>)"

definition process_other :: "'e tapping_ops \<Rightarrow> keyrecord_t \<Rightarrow> 'e tapping \<Rightarrow> keyrecord_t \<times> 'e tapping" where
  "process_other ops r s = (case op_process_record ops r (rest s) of (r, e) \<Rightarrow> (r, s\<lparr>rest := e\<rparr>))"

definition waiting_buffer_scan_tap :: "'e tapping_ops \<Rightarrow> 'e tapping \<Rightarrow> 'e tapping" where
  "waiting_buffer_scan_tap ops s =
     (if 0 < taps (tapping_key s) \<or> \<not> pressed (tapping_key s) then s
      else case find (\<lambda>i. let candidate = waiting_buffer s ! i
               in IS_EVENT (kr_event candidate) \<and> KEYEQ (key_of candidate) (key_of (tapping_key s))
                  \<and> \<not> pressed candidate \<and> WITHIN_TAPPING_TERM ops (kr_event candidate) s) (wb_indices s) of
        None \<Rightarrow> s
      | Some i \<Rightarrow> process_tapping_key ops
          (s\<lparr>tapping_key := set_taps 1 (tapping_key s),
             waiting_buffer := (waiting_buffer s)[i := set_taps 1 (waiting_buffer s ! i)]\<rparr>))"

section \<open>The state machine\<close>

text \<open>
  \<open>process_tapping\<close> by the states of the code. Each function returns whether the record was
  processed or consumed, the record, and the state. The release of a key pressed before the
  tapping key is kept back when it is a modifier or a layer, which must outlast the decision.
\<close>

definition retain_release :: "u16 \<Rightarrow> keyrecord_t \<Rightarrow> bool" where
  "retain_release action keyp = (case action_kind action of
     Some k \<Rightarrow>
       (if k \<in> {ACT_LMODS, ACT_RMODS} then
          key_mods action \<noteq> 0 \<and> key_code action = 0 \<or> 0xE0 \<le> key_code action \<and> key_code action \<le> 0xE7
        else if k \<in> {ACT_LMODS_TAP, ACT_RMODS_TAP} then
          key_mods action \<noteq> 0 \<and> taps keyp = 0 \<or> 0xE0 \<le> key_code action \<and> key_code action \<le> 0xE7
        else if k \<in> {ACT_LAYER_TAP, ACT_LAYER_TAP_EXT} then
          layer_tap_code action < OP_TAP_TOGGLE
          \<or> layer_tap_code action \<in> {OP_ON_OFF, OP_OFF_ON, OP_SET_CLEAR}
        else False)
   | None \<Rightarrow> False)"

text \<open>The reset state: no tapping key.\<close>

definition tapping_reset ::
    "'e tapping_ops \<Rightarrow> keyrecord_t \<Rightarrow> 'e tapping \<Rightarrow> bool \<times> keyrecord_t \<times> 'e tapping" where
  "tapping_reset ops keyp s =
     (if \<not> IS_EVENT (kr_event keyp) then (True, keyp, s)
      else if pressed keyp \<and> is_tap_record ops keyp s then
        (True, keyp, waiting_buffer_scan_tap ops (s\<lparr>tapping_key := keyp\<rparr>))
      else (True, process_other ops keyp s))"

text \<open>The tapping key is down and not decided yet (\<open>tap.count == 0\<close>), within its term.\<close>

definition tapping_undecided ::
    "'e tapping_ops \<Rightarrow> keyrecord_t \<Rightarrow> 'e tapping \<Rightarrow> bool \<times> keyrecord_t \<times> 'e tapping" where
  "tapping_undecided ops keyp s =
     (if IS_TAPPING_RECORD keyp s \<and> \<not> pressed keyp then
        let s = process_tapping_key ops (s\<lparr>tapping_key := set_taps 1 (tapping_key s)\<rparr>)
        in (False, keyp\<lparr>kr_tap := kr_tap (tapping_key s)\<rparr>, s)
      else if \<not> pressed keyp \<and> waiting_buffer_typed (kr_event keyp) s
              \<and> op_get_permissive_hold ops (tapping_key s) (rest s) then
        (False, keyp, (process_tapping_key ops s)\<lparr>tapping_key := no_record\<rparr>)
      else if \<not> pressed keyp \<and> \<not> waiting_buffer_typed (kr_event keyp) s then
        (if retain_release (op_layer_switch_get_action ops (key_of keyp) (rest s)) keyp then (False, keyp, s)
         else (True, process_other ops keyp s))
      else if pressed keyp then
        let s = s\<lparr>tapping_key := set_interrupted (tapping_key s)\<rparr>
        in if op_get_hold_on_other_key_press ops (tapping_key s) (rest s)
           then (False, keyp, (process_tapping_key ops s)\<lparr>tapping_key := no_record\<rparr>)
           else (False, keyp, s)
      else (False, keyp, s))"

text \<open>
  A tap key is pressed while the tapping key, already a tap, is still down: the new key becomes
  the tapping key, and a tap that was repeated is released first.
\<close>

definition tapping_start_over ::
    "'e tapping_ops \<Rightarrow> keyrecord_t \<Rightarrow> 'e tapping \<Rightarrow> bool \<times> keyrecord_t \<times> 'e tapping" where
  "tapping_start_over ops keyp s =
     (let t = tapping_key s;
          s = (if 1 < taps t then
                 snd (process_other ops
                   \<lparr>kr_event = \<lparr>ev_key = key_of t, ev_time = time_of keyp, ev_type = ev_type (kr_event t),
                      ev_pressed = False\<rparr>, kr_tap = kr_tap t\<rparr> s)
               else s)
      in (True, keyp, waiting_buffer_scan_tap ops (s\<lparr>tapping_key := keyp\<rparr>)))"

text \<open>The tapping key is down and already a tap. After its term, its release ends the tapping.\<close>

definition tapping_tapped ::
    "'e tapping_ops \<Rightarrow> bool \<Rightarrow> keyrecord_t \<Rightarrow> 'e tapping \<Rightarrow> bool \<times> keyrecord_t \<times> 'e tapping" where
  "tapping_tapped ops in_time keyp s =
     (if IS_TAPPING_RECORD keyp s \<and> \<not> pressed keyp then
        case process_other ops (keyp\<lparr>kr_tap := kr_tap (tapping_key s)\<rparr>) s of
          (keyp, s) \<Rightarrow> (True, keyp, s\<lparr>tapping_key := (if in_time then keyp else no_record)\<rparr>)
      else if is_tap_record ops keyp s \<and> pressed keyp then tapping_start_over ops keyp s
      else (True, process_other ops keyp s))"

text \<open>The tapping key was released: what follows may be another tap of it.\<close>

definition tapping_released ::
    "'e tapping_ops \<Rightarrow> keyrecord_t \<Rightarrow> 'e tapping \<Rightarrow> bool \<times> keyrecord_t \<times> 'e tapping" where
  "tapping_released ops keyp s =
     (if pressed keyp then
        if IS_TAPPING_RECORD keyp s then
          if WITHIN_QUICK_TAP_TERM ops (kr_event keyp) s \<and> \<not> tap_interrupted (kr_tap (tapping_key s))
             \<and> 0 < taps (tapping_key s) then
            let keyp = keyp\<lparr>kr_tap := kr_tap (tapping_key s)\<rparr>;
                keyp = (if taps keyp < 15 then set_taps (taps keyp + 1) keyp else keyp)
            in case process_other ops keyp s of (keyp, s) \<Rightarrow> (True, keyp, s\<lparr>tapping_key := keyp\<rparr>)
          else (True, keyp, s\<lparr>tapping_key := keyp\<rparr>)
        else if is_tap_record ops keyp s then
          (True, keyp, waiting_buffer_scan_tap ops (s\<lparr>tapping_key := keyp\<rparr>))
        else (True, process_other ops keyp (s\<lparr>tapping_key := set_interrupted (tapping_key s)\<rparr>))
      else (True, process_other ops keyp s))"

definition process_tapping ::
    "'e tapping_ops \<Rightarrow> keyrecord_t \<Rightarrow> 'e tapping \<Rightarrow> bool \<times> keyrecord_t \<times> 'e tapping" where
  "process_tapping ops keyp s =
     (if IS_NOEVENT (kr_event (tapping_key s)) then tapping_reset ops keyp s
      else if pressed (tapping_key s) then
        if WITHIN_TAPPING_TERM ops (kr_event keyp) s then
          if IS_NOEVENT (kr_event keyp) then (True, keyp, s)
          else if taps (tapping_key s) = 0 then tapping_undecided ops keyp s
          else tapping_tapped ops True keyp s
        else if taps (tapping_key s) = 0 then
          (False, keyp, (process_tapping_key ops s)\<lparr>tapping_key := no_record\<rparr>)
        else if IS_NOEVENT (kr_event keyp) then (True, keyp, s)
        else tapping_tapped ops False keyp s
      else if WITHIN_TAPPING_TERM ops (kr_event keyp) s then
        if IS_NOEVENT (kr_event keyp) then (True, keyp, s) else tapping_released ops keyp s
      else (False, keyp, s\<lparr>tapping_key := no_record\<rparr>))"

text \<open>
  The loop over the waiting buffer. It takes one element a turn, and \<open>process_tapping\<close> does not
  move the indices, so as many turns as the buffer has elements are enough.
\<close>

fun process_waiting :: "nat \<Rightarrow> 'e tapping_ops \<Rightarrow> 'e tapping \<Rightarrow> 'e tapping" where
  "process_waiting 0 ops s = s"
| "process_waiting (Suc n) ops s =
     (if waiting_buffer_tail s = waiting_buffer_head s then s
      else let i = unat (waiting_buffer_tail s)
           in case process_tapping ops (waiting_buffer s ! i) s of
                (True, keyp, s) \<Rightarrow>
                  process_waiting n ops (s\<lparr>waiting_buffer := (waiting_buffer s)[i := keyp],
                    waiting_buffer_tail := wb_next (waiting_buffer_tail s)\<rparr>)
              | (False, keyp, s) \<Rightarrow> s\<lparr>waiting_buffer := (waiting_buffer s)[i := keyp]\<rparr>)"

definition action_tapping_process :: "'e tapping_ops \<Rightarrow> keyrecord_t \<Rightarrow> 'e tapping \<Rightarrow> 'e tapping" where
  "action_tapping_process ops record s =
     (case process_tapping ops record s of (done, record, s) \<Rightarrow>
        let s = (if done then s
                 else case waiting_buffer_enq record s of (s, queued) \<Rightarrow>
                   if queued then s
                   else (waiting_buffer_clear (s\<lparr>rest := op_clear_keyboard ops (rest s)\<rparr>))
                          \<lparr>tapping_key := no_record\<rparr>)
        in process_waiting WAITING_BUFFER_SIZE ops s)"

end
