(* ===== verification/Tapping_Events.thy ===== *)
theory Tapping_Events
  imports Tapping "HOL-Library.Multiset"
begin

text \<open>
  What becomes of the events that go into the tapping state machine: none is lost. The locale
  \<open>record_processor\<close> is what the state machine expects of \<open>process_record\<close>: it may turn the
  record into a release, and else leaves it alone.
\<close>

section \<open>Observing the state machine\<close>

text \<open>The operations with a log of the records that were processed and of the overflows.\<close>

datatype tap_log = Processed keyrecord_t | Cleared

definition logging :: "'e tapping_ops \<Rightarrow> ('e \<times> tap_log list) tapping_ops" where
  "logging ops = \<lparr>
     op_process_record = (\<lambda>r (e, l). case op_process_record ops r e of (r', e') \<Rightarrow> (r', (e', l @ [Processed r]))),
     op_layer_switch_get_action = (\<lambda>k x. op_layer_switch_get_action ops k (fst x)),
     op_get_tapping_term = (\<lambda>r x. op_get_tapping_term ops r (fst x)),
     op_get_quick_tap_term = (\<lambda>r x. op_get_quick_tap_term ops r (fst x)),
     op_get_permissive_hold = (\<lambda>r x. op_get_permissive_hold ops r (fst x)),
     op_get_hold_on_other_key_press = (\<lambda>r x. op_get_hold_on_other_key_press ops r (fst x)),
     op_clear_keyboard = (\<lambda>(e, l). (op_clear_keyboard ops e, l @ [Cleared]))\<rparr>"

abbreviation tap_log :: "('e \<times> tap_log list) tapping \<Rightarrow> tap_log list" where
  "tap_log s \<equiv> snd (rest s)"

fun processed :: "tap_log list \<Rightarrow> keyrecord_t list" where
  "processed [] = []"
| "processed (Processed r # l) = r # processed l"
| "processed (Cleared # l) = processed l"

lemma processed_append [simp]: "processed (l @ m) = processed l @ processed m"
  by (induction l rule: processed.induct) auto

definition is_press :: "keyevent_t \<Rightarrow> bool" where
  "is_press e \<longleftrightarrow> IS_EVENT e \<and> ev_pressed e"
definition is_release :: "keyevent_t \<Rightarrow> bool" where
  "is_release e \<longleftrightarrow> IS_EVENT e \<and> \<not> ev_pressed e"

text \<open>The press of a tapping key that is not decided yet, and the events in the buffer.\<close>

definition undecided :: "'e tapping \<Rightarrow> keyevent_t list" where
  "undecided s = (if pressed (tapping_key s) \<and> taps (tapping_key s) = 0 then [kr_event (tapping_key s)] else [])"

definition buffered :: "'e tapping \<Rightarrow> keyrecord_t list" where
  "buffered s = ring_list (waiting_buffer s) (unat (waiting_buffer_tail s)) (unat (waiting_buffer_head s))"

definition pending :: "'e tapping \<Rightarrow> keyevent_t list" where
  "pending s = undecided s @ map kr_event (buffered s)"

definition untapped_press :: "keyrecord_t \<Rightarrow> bool" where
  "untapped_press r \<longleftrightarrow> (pressed r \<longrightarrow> taps r = 0 \<and> IS_EVENT (kr_event r))"

definition tapping_ok :: "'e tapping \<Rightarrow> bool" where
  "tapping_ok s \<longleftrightarrow> length (waiting_buffer s) = WAITING_BUFFER_SIZE
     \<and> unat (waiting_buffer_head s) < WAITING_BUFFER_SIZE \<and> unat (waiting_buffer_tail s) < WAITING_BUFFER_SIZE
     \<and> (\<forall>r \<in> set (buffered s). untapped_press r)
     \<and> (pressed (tapping_key s) \<longrightarrow> IS_EVENT (kr_event (tapping_key s)))"

section \<open>One record\<close>

text \<open>
  What processing a record may do to the rest of the state: it extends the log by \<open>new\<close>, and
  counts taps of releases in the buffer.
\<close>

definition touches :: "tap_log list \<Rightarrow> ('e \<times> tap_log list) tapping \<Rightarrow> ('e \<times> tap_log list) tapping \<Rightarrow> bool" where
  "touches new s t \<longleftrightarrow> tap_log t = tap_log s @ new
     \<and> waiting_buffer_head t = waiting_buffer_head s \<and> waiting_buffer_tail t = waiting_buffer_tail s
     \<and> map kr_event (waiting_buffer t) = map kr_event (waiting_buffer s)
     \<and> (\<forall>i < length (waiting_buffer s). pressed (waiting_buffer s ! i) \<longrightarrow> waiting_buffer t ! i = waiting_buffer s ! i)"

text \<open>
  The events of a turn: \<open>ins\<close> went in, \<open>keep\<close> are kept back, \<open>new\<close> was processed.
\<close>

definition balanced :: "keyevent_t list \<Rightarrow> keyevent_t list \<Rightarrow> keyevent_t list \<Rightarrow> bool" where
  "balanced ins new keep \<longleftrightarrow>
     mset (filter is_press ins) = mset (filter is_press new) + mset (filter is_press keep)
     \<and> mset (filter is_release ins) \<subseteq># mset (filter is_release new) + mset (filter is_release keep)"

lemma balanced_perm:
  "mset ins = mset ins' \<Longrightarrow> mset new = mset new' \<Longrightarrow> mset keep = mset keep' \<Longrightarrow> balanced ins new keep \<longleftrightarrow> balanced ins' new' keep'"
  by (simp add: balanced_def mset_filter)

lemma balanced_all_new: "balanced ins ins []"
  by (simp add: balanced_def)

lemma balanced_all_kept: "balanced ins [] ins"
  by (simp add: balanced_def)

lemma balanced_frame: "balanced ins new keep \<Longrightarrow> balanced (ins @ xs) new (keep @ xs)"
  by (simp add: balanced_def)

lemma balanced_trans:
  "balanced ins new mid \<Longrightarrow> balanced mid new' keep \<Longrightarrow> balanced ins (new @ new') keep"
proof -
  assume a: "balanced ins new mid" "balanced mid new' keep"
  have "mset (filter is_release new) + mset (filter is_release mid)
      \<subseteq># mset (filter is_release new) + (mset (filter is_release new') + mset (filter is_release keep))"
    using a(2) by (simp add: balanced_def)
  then have "mset (filter is_release ins) \<subseteq># mset (filter is_release (new @ new')) + mset (filter is_release keep)"
    using a(1) by (auto simp: balanced_def add.assoc intro: subset_mset.order_trans)
  moreover have "mset (filter is_press ins) = mset (filter is_press (new @ new')) + mset (filter is_press keep)"
    using a by (simp add: balanced_def add.assoc)
  ultimately show ?thesis by (simp add: balanced_def)
qed

lemma touches_refl: "touches [] s s"
  by (simp add: touches_def)

lemma touches_trans: "touches l s t \<Longrightarrow> touches m t u \<Longrightarrow> touches (l @ m) s u"
  by (auto simp: touches_def) (metis length_map nth_map)+

lemma scan_tap_cases:
  obtains "waiting_buffer_scan_tap ops s = s"
  | i where "taps (tapping_key s) = 0" "pressed (tapping_key s)" "i \<in> set (wb_indices s)"
      "\<not> pressed (waiting_buffer s ! i)" "key_of (waiting_buffer s ! i) = key_of (tapping_key s)"
      "waiting_buffer_scan_tap ops s = process_tapping_key ops (s\<lparr>tapping_key := set_taps 1 (tapping_key s),
        waiting_buffer := (waiting_buffer s)[i := set_taps 1 (waiting_buffer s ! i)]\<rparr>)"
proof (cases "0 < taps (tapping_key s) \<or> \<not> pressed (tapping_key s)")
  case True
  then show thesis by (intro that(1)) (simp add: waiting_buffer_scan_tap_def)
next
  case False
  let ?f = "find (\<lambda>i. let candidate = waiting_buffer s ! i
               in IS_EVENT (kr_event candidate) \<and> KEYEQ (key_of candidate) (key_of (tapping_key s))
                  \<and> \<not> pressed candidate \<and> WITHIN_TAPPING_TERM ops (kr_event candidate) s) (wb_indices s)"
  show thesis
  proof (cases ?f)
    case None
    with False show thesis by (intro that(1)) (simp add: waiting_buffer_scan_tap_def Let_def)
  next
    case (Some i)
    have "waiting_buffer_scan_tap ops s = process_tapping_key ops (s\<lparr>tapping_key := set_taps 1 (tapping_key s),
        waiting_buffer := (waiting_buffer s)[i := set_taps 1 (waiting_buffer s ! i)]\<rparr>)"
      unfolding waiting_buffer_scan_tap_def Some using False by simp
    with find_Some_iff[THEN iffD1, OF Some] False show thesis
      by (intro that(2)[of i]) (auto simp: Let_def KEYEQ_iff word_gt_0)
  qed
qed

text \<open>One turn of the state machine on \<open>keyp\<close>, which is kept back when \<open>b\<close> is false.\<close>

definition turn ::
    "('e \<times> tap_log list) tapping \<Rightarrow> keyrecord_t \<Rightarrow> bool \<times> keyrecord_t \<times> ('e \<times> tap_log list) tapping \<Rightarrow> bool" where
  "turn s keyp x \<longleftrightarrow> (case x of (b, keyp', t) \<Rightarrow> \<exists>new. Cleared \<notin> set new \<and> touches new s t
     \<and> balanced (undecided s @ [kr_event keyp]) (map kr_event (processed new))
         (undecided t @ (if b then [] else [kr_event keyp']))
     \<and> (\<not> b \<longrightarrow> kr_event keyp' = kr_event keyp \<and> (pressed keyp \<longrightarrow> kr_tap keyp' = kr_tap keyp))
     \<and> (pressed (tapping_key t) \<longrightarrow> IS_EVENT (kr_event (tapping_key t))))"

definition key_ok :: "'x tapping \<Rightarrow> bool" where
  "key_ok s \<longleftrightarrow> (pressed (tapping_key s) \<longrightarrow> IS_EVENT (kr_event (tapping_key s)))"

locale record_processor =
  fixes ops :: "'e tapping_ops"
  assumes record_kept: "op_process_record ops r e = (r', e') \<Longrightarrow> kr_tap r' = kr_tap r
    \<and> (kr_event r' = kr_event r \<or> kr_event r' = (kr_event r)\<lparr>ev_pressed := False\<rparr>)"
begin

lemma process_other_touches:
  assumes "process_other (logging ops) r s = (r', t)"
  shows "touches [Processed r] s t \<and> tapping_key t = tapping_key s \<and> kr_tap r' = kr_tap r
    \<and> (pressed r' \<longrightarrow> pressed r \<and> kr_event r' = kr_event r) \<and> ev_type (kr_event r') = ev_type (kr_event r)"
proof -
  obtain e l where s: "rest s = (e, l)" by (cases "rest s")
  obtain r2 e2 where p: "op_process_record ops r e = (r2, e2)" by (cases "op_process_record ops r e")
  show ?thesis using assms record_kept[OF p]
    by (auto simp: process_other_def logging_def s p touches_def)
qed

lemma process_tapping_key_touches:
  assumes "t = process_tapping_key (logging ops) s"
  shows "touches [Processed (tapping_key s)] s t \<and> kr_tap (tapping_key t) = kr_tap (tapping_key s)
    \<and> (pressed (tapping_key t) \<longrightarrow> pressed (tapping_key s) \<and> kr_event (tapping_key t) = kr_event (tapping_key s))"
proof -
  obtain e l where s: "rest s = (e, l)" by (cases "rest s")
  obtain r2 e2 where p: "op_process_record ops (tapping_key s) e = (r2, e2)"
    by (cases "op_process_record ops (tapping_key s) e")
  show ?thesis using record_kept[OF p]
    by (auto simp: assms process_tapping_key_def logging_def s p touches_def)
qed

lemma turnI:
  assumes "Cleared \<notin> set new" "touches new s t"
    and "balanced (undecided s @ [kr_event keyp]) (map kr_event (processed new))
         (undecided t @ (if b then [] else [kr_event keyp']))"
    and "\<not> b \<Longrightarrow> kr_event keyp' = kr_event keyp \<and> (pressed keyp \<longrightarrow> kr_tap keyp' = kr_tap keyp)"
    and "key_ok t"
  shows "turn s keyp (b, keyp', t)"
  using assms by (auto simp: turn_def key_ok_def)

lemma scan_tap_touches:
  assumes "t = waiting_buffer_scan_tap (logging ops) s" "key_ok s"
  shows "\<exists>new. Cleared \<notin> set new \<and> touches new s t \<and> key_ok t
    \<and> balanced (undecided s) (map kr_event (processed new)) (undecided t)"
proof (cases rule: scan_tap_cases[of "logging ops" s])
  case 1
  then show ?thesis using assms touches_refl balanced_all_kept by (intro exI[of _ "[]"]) auto
next
  case (2 i)
  note und = 2(1,2) and i = 2(4) and t = 2(6)[folded assms(1)]
  let ?u = "s\<lparr>tapping_key := set_taps 1 (tapping_key s),
        waiting_buffer := (waiting_buffer s)[i := set_taps 1 (waiting_buffer s ! i)]\<rparr>"
  have u: "touches [] s ?u"
    using i by (auto simp: touches_def map_update nth_update_if intro!: nth_equalityI)
  note p = process_tapping_key_touches[OF t]
  have "touches [Processed (set_taps 1 (tapping_key s))] s t"
    using touches_trans[OF u conjunct1[OF p]] by simp
  moreover have "undecided t = []" using p by (simp add: undecided_def)
  moreover have "undecided s = [kr_event (tapping_key s)]" using und by (simp add: undecided_def)
  moreover have "key_ok t" using p assms(2) by (auto simp: key_ok_def)
  ultimately show ?thesis
    using balanced_all_new by (intro exI[of _ "[Processed (set_taps 1 (tapping_key s))]"]) simp
qed

text \<open>The turns all branches are made of.\<close>

lemma other_turn:
  assumes "key_ok s"
  shows "turn s keyp (True, process_other (logging ops) keyp s)"
proof -
  obtain r t where p: "process_other (logging ops) keyp s = (r, t)" by (cases "process_other (logging ops) keyp s")
  note q = process_other_touches[OF p]
  have t: "key_ok t" "undecided t = undecided s" using q assms by (auto simp: key_ok_def undecided_def)
  have "balanced (undecided s @ [kr_event keyp]) [kr_event keyp] (undecided s)"
    by (simp add: balanced_def)
  then show ?thesis unfolding p using q t by (intro turnI[of "[Processed keyp]"]) auto
qed

lemma start_turn:
  assumes "undecided s = []" "pressed keyp" "untapped_press keyp"
  shows "turn s keyp (True, keyp, waiting_buffer_scan_tap (logging ops) (s\<lparr>tapping_key := keyp\<rparr>))"
proof -
  let ?u = "s\<lparr>tapping_key := keyp\<rparr>"
  have u: "undecided ?u = [kr_event keyp]" "key_ok ?u"
    using assms by (auto simp: undecided_def untapped_press_def key_ok_def)
  from scan_tap_touches[OF refl u(2)] obtain new where
    n: "Cleared \<notin> set new" "touches new ?u (waiting_buffer_scan_tap (logging ops) ?u)"
      "key_ok (waiting_buffer_scan_tap (logging ops) ?u)"
      "balanced (undecided ?u) (map kr_event (processed new)) (undecided (waiting_buffer_scan_tap (logging ops) ?u))"
    by blast
  then have "touches new s (waiting_buffer_scan_tap (logging ops) ?u)" by (simp add: touches_def)
  with n u assms(1) show ?thesis by (intro turnI[of new]) auto
qed

lemma keep_turn:
  assumes "key_ok s"
  shows "turn s keyp (False, keyp, s)"
  using assms touches_refl balanced_all_kept by (intro turnI[of "[]"]) auto

lemma idle_turn:
  assumes "key_ok s" "IS_NOEVENT (kr_event keyp)"
  shows "turn s keyp (True, keyp, s)"
proof -
  have "\<not> is_press (kr_event keyp)" "\<not> is_release (kr_event keyp)"
    using assms(2) by (auto simp: is_press_def is_release_def IS_EVENT_iff)
  then have "balanced (undecided s @ [kr_event keyp]) [] (undecided s)" by (simp add: balanced_def)
  with assms(1) touches_refl show ?thesis by (intro turnI[of "[]"]) auto
qed

text \<open>The tapping key is processed and a record is kept back; \<open>u\<close> differs from \<open>s\<close> in its taps.\<close>

lemma settle_turn:
  assumes "u = s\<lparr>tapping_key := (tapping_key s)\<lparr>kr_tap := tp\<rparr>\<rparr>" "key_ok s" "pressed (tapping_key s)" "taps (tapping_key s) = 0"
    and "t = process_tapping_key (logging ops) u"
    and "t' = t \<and> tap_count tp \<noteq> 0 \<or> t' = t\<lparr>tapping_key := no_record\<rparr>"
    and "kr_event keyp' = kr_event keyp" "pressed keyp \<longrightarrow> kr_tap keyp' = kr_tap keyp"
  shows "turn s keyp (False, keyp', t')"
proof -
  note p = process_tapping_key_touches[OF assms(5)]
  have "touches [Processed (tapping_key u)] s t" using p by (simp add: assms(1) touches_def)
  then have "touches [Processed (tapping_key u)] s t'" using assms(6) by (auto simp: touches_def)
  moreover have "undecided s = [kr_event (tapping_key s)]" using assms by (simp add: undecided_def)
  moreover have "undecided t' = []" using p assms(1,6) by (auto simp: undecided_def no_record_def)
  moreover have "key_ok t'" using p assms(1,2,6) by (auto simp: key_ok_def no_record_def)
  moreover have "balanced [kr_event (tapping_key s), kr_event keyp] [kr_event (tapping_key s)] [kr_event keyp]"
    by (simp add: balanced_def)
  ultimately show ?thesis using assms(1,7,8) by (intro turnI[of "[Processed (tapping_key u)]"]) auto
qed

text \<open>A record becomes the tapping key after it was processed: it is decided or a release.\<close>

lemma replace_turn:
  assumes "undecided s = []" "kr_event k = kr_event keyp" "process_other (logging ops) k s = (r, t)"
    and "taps k \<noteq> 0 \<or> \<not> pressed k" "pressed k \<longrightarrow> IS_EVENT (kr_event k)"
    and "u = r \<or> u = no_record"
  shows "turn s keyp (True, q, t\<lparr>tapping_key := u\<rparr>)"
proof -
  note p = process_other_touches[OF assms(3)]
  have "touches [Processed k] s (t\<lparr>tapping_key := u\<rparr>)" using p by (simp add: touches_def)
  moreover have "undecided (t\<lparr>tapping_key := u\<rparr>) = []"
    using p assms(4,6) by (auto simp: undecided_def no_record_def)
  moreover have "key_ok (t\<lparr>tapping_key := u\<rparr>)" using p assms(5,6) by (auto simp: key_ok_def no_record_def)
  ultimately show ?thesis using assms(1,2) by (intro turnI[of "[Processed k]"]) (auto simp: balanced_all_new)
qed

lemma interrupted_turn:
  assumes "key_ok s" "pressed (tapping_key s)" "taps (tapping_key s) = 0"
  shows "turn s keyp (False, keyp, s\<lparr>tapping_key := set_interrupted (tapping_key s)\<rparr>)"
proof -
  let ?t = "s\<lparr>tapping_key := set_interrupted (tapping_key s)\<rparr>"
  have "undecided ?t = undecided s" "key_ok ?t" using assms by (auto simp: undecided_def key_ok_def)
  moreover have "touches [] s ?t" by (simp add: touches_def)
  ultimately show ?thesis using balanced_all_kept by (intro turnI[of "[]"]) auto
qed

lemma extra_release_turn:
  assumes "touches [Processed k] s t" "undecided t = undecided s" "\<not> pressed k" "turn t keyp x"
  shows "turn s keyp x"
proof -
  obtain b keyp' u new where x: "x = (b, keyp', u)" and n: "Cleared \<notin> set new" "touches new t u"
      "balanced (undecided t @ [kr_event keyp]) (map kr_event (processed new)) (undecided u @ (if b then [] else [kr_event keyp']))"
      "\<not> b \<longrightarrow> kr_event keyp' = kr_event keyp \<and> (pressed keyp \<longrightarrow> kr_tap keyp' = kr_tap keyp)" "key_ok u"
    using assms(4) by (cases x) (auto simp: turn_def key_ok_def)
  have "\<not> is_press (kr_event k)" using assms(3) by (simp add: is_press_def)
  with n(3) assms(2) have "balanced (undecided s @ [kr_event keyp]) (kr_event k # map kr_event (processed new))
      (undecided u @ (if b then [] else [kr_event keyp']))"
    by (auto simp: balanced_def intro: subset_mset.order_trans)
  with n touches_trans[OF assms(1) n(2)] show ?thesis
    unfolding x by (intro turnI[of "Processed k # new"]) auto
qed

lemma tapping_reset_turn:
  assumes "IS_NOEVENT (kr_event (tapping_key s))" "untapped_press keyp" "key_ok s"
  shows "turn s keyp (tapping_reset (logging ops) keyp s)"
proof -
  have "undecided s = []" using assms(1,3) by (auto simp: undecided_def key_ok_def IS_EVENT_iff)
  then show ?thesis
    using idle_turn[OF assms(3)] start_turn[OF _ _ assms(2)] other_turn[OF assms(3)]
    by (simp add: tapping_reset_def IS_EVENT_iff)
qed

lemma tapping_undecided_turn:
  assumes "key_ok s" "pressed (tapping_key s)" "taps (tapping_key s) = 0"
  shows "turn s keyp (tapping_undecided (logging ops) keyp s)"
proof -
  let ?L = "logging ops" and ?int = "(kr_tap (tapping_key s))\<lparr>tap_interrupted := True\<rparr>"
  have first: "turn s keyp (False, keyp\<lparr>kr_tap := kr_tap (tapping_key t)\<rparr>, t)"
    if "\<not> pressed keyp" "t = process_tapping_key ?L (s\<lparr>tapping_key := set_taps 1 (tapping_key s)\<rparr>)" for t
    using that by (intro settle_turn[OF refl assms, of _ "(kr_tap (tapping_key s))\<lparr>tap_count := 1\<rparr>"]) auto
  have hold: "turn s keyp (False, keyp, (process_tapping_key ?L (s\<lparr>tapping_key := (tapping_key s)\<lparr>kr_tap := tp\<rparr>\<rparr>))
      \<lparr>tapping_key := no_record\<rparr>)" for tp
    by (intro settle_turn[OF refl assms, of _ tp]) auto
  show ?thesis
    using first hold[of "kr_tap (tapping_key s)"] hold[of ?int] keep_turn[OF assms(1)] other_turn[OF assms(1)]
      interrupted_turn[OF assms]
    by (simp add: tapping_undecided_def Let_def)
qed

lemma tapping_start_over_turn:
  assumes "undecided s = []" "pressed keyp" "untapped_press keyp"
  shows "turn s keyp (tapping_start_over (logging ops) keyp s)"
proof (cases "1 < taps (tapping_key s)")
  case True
  define k where "k = \<lparr>kr_event = \<lparr>ev_key = key_of (tapping_key s), ev_time = time_of keyp,
      ev_type = ev_type (kr_event (tapping_key s)), ev_pressed = False\<rparr>, kr_tap = kr_tap (tapping_key s)\<rparr>"
  obtain r t where p: "process_other (logging ops) k s = (r, t)" by (cases "process_other (logging ops) k s")
  note q = process_other_touches[OF p]
  have u: "undecided t = undecided s" using q by (simp add: undecided_def)
  have "turn s keyp (True, keyp, waiting_buffer_scan_tap (logging ops) (t\<lparr>tapping_key := keyp\<rparr>))"
    using q u assms by (intro extra_release_turn[of k s t, OF _ u _ start_turn]) (auto simp: k_def)
  with True p show ?thesis by (simp add: tapping_start_over_def Let_def k_def)
next
  case False
  then show ?thesis using start_turn[OF assms] by (simp add: tapping_start_over_def Let_def)
qed

lemma tapping_tapped_turn:
  assumes "key_ok s" "taps (tapping_key s) \<noteq> 0" "untapped_press keyp"
  shows "turn s keyp (tapping_tapped (logging ops) in_time keyp s)"
proof -
  have u: "undecided s = []" using assms(2) by (simp add: undecided_def)
  obtain r t where p: "process_other (logging ops) (keyp\<lparr>kr_tap := kr_tap (tapping_key s)\<rparr>) s = (r, t)"
    by (cases "process_other (logging ops) (keyp\<lparr>kr_tap := kr_tap (tapping_key s)\<rparr>) s")
  have "turn s keyp (True, r, t\<lparr>tapping_key := (if in_time then r else no_record)\<rparr>)" if "\<not> pressed keyp"
    using that by (intro replace_turn[OF u _ p]) auto
  then show ?thesis
    using other_turn[OF assms(1)] tapping_start_over_turn[OF u _ assms(3)]
    by (simp add: tapping_tapped_def p)
qed

lemma tapping_released_turn:
  assumes "key_ok s" "\<not> pressed (tapping_key s)" "untapped_press keyp" "\<not> IS_NOEVENT (kr_event keyp)"
  shows "turn s keyp (tapping_released (logging ops) keyp s)"
proof -
  let ?L = "logging ops"
  have u: "undecided s = []" using assms(2) by (simp add: undecided_def)
  define k where "k = (let keyp = keyp\<lparr>kr_tap := kr_tap (tapping_key s)\<rparr>
    in if taps keyp < 15 then set_taps (taps keyp + 1) keyp else keyp)"
  obtain r t where p: "process_other ?L k s = (r, t)" by (cases "process_other ?L k s")
  have again: "turn s keyp (True, r, t\<lparr>tapping_key := r\<rparr>)" if "taps (tapping_key s) \<noteq> 0"
  proof (rule replace_turn[OF u _ p])
    have "(15 :: 4 word) = - 1" by simp
    then have "taps (tapping_key s) < 15 \<Longrightarrow> taps (tapping_key s) + 1 \<noteq> 0"
      by (metis eq_neg_iff_add_eq_0 order_less_irrefl)
    then show "taps k \<noteq> 0 \<or> \<not> pressed k" using that by (auto simp: k_def Let_def)
  qed (use assms(4) in \<open>auto simp: k_def Let_def IS_EVENT_iff\<close>)
  have new: "turn s keyp (True, keyp, s\<lparr>tapping_key := keyp\<rparr>)" if "pressed keyp"
  proof -
    have "undecided (s\<lparr>tapping_key := keyp\<rparr>) = [kr_event keyp]" "key_ok (s\<lparr>tapping_key := keyp\<rparr>)"
      using that assms(3) by (auto simp: undecided_def untapped_press_def key_ok_def)
    moreover have "touches [] s (s\<lparr>tapping_key := keyp\<rparr>)" by (simp add: touches_def)
    ultimately show ?thesis using u balanced_all_kept by (intro turnI[of "[]"]) auto
  qed
  let ?i = "s\<lparr>tapping_key := set_interrupted (tapping_key s)\<rparr>"
  have inter: "turn s keyp (True, process_other ?L keyp ?i)"
  proof -
    have i: "touches [] s ?i" "undecided ?i = undecided s" "key_ok ?i"
      using assms(2) by (auto simp: touches_def undecided_def key_ok_def)
    obtain r t where p: "process_other ?L keyp ?i = (r, t)" by (cases "process_other ?L keyp ?i")
    note q = process_other_touches[OF p]
    have "undecided t = []" "key_ok t" using q assms(2) by (auto simp: undecided_def key_ok_def)
    moreover have "touches [Processed keyp] s t" using touches_trans[OF i(1) conjunct1[OF q]] by simp
    ultimately show ?thesis unfolding p using u by (intro turnI[of "[Processed keyp]"]) (auto simp: balanced_all_new)
  qed
  have quick: "(let keyp = keyp\<lparr>kr_tap := kr_tap (tapping_key s)\<rparr>;
      keyp = (if taps keyp < 15 then set_taps (taps keyp + 1) keyp else keyp)
      in case process_other ?L keyp s of (keyp, s) \<Rightarrow> (True, keyp, s\<lparr>tapping_key := keyp\<rparr>))
    = (True, r, t\<lparr>tapping_key := r\<rparr>)"
    using p unfolding k_def Let_def by simp
  show ?thesis
    unfolding tapping_released_def quick
    using again new inter start_turn[OF u _ assms(3)] other_turn[OF assms(1)] by (auto simp: word_gt_0)
qed

lemma process_tapping_turn:
  assumes "key_ok s" "untapped_press keyp"
  shows "turn s keyp (process_tapping (logging ops) keyp s)"
proof -
  let ?L = "logging ops"
  have hold: "turn s keyp (False, keyp, (process_tapping_key ?L s)\<lparr>tapping_key := no_record\<rparr>)"
    if "pressed (tapping_key s)" "taps (tapping_key s) = 0"
    using that by (intro settle_turn[where tp = "kr_tap (tapping_key s)" and u = s, OF _ assms(1) that refl]) auto
  have forget: "turn s keyp (False, keyp, s\<lparr>tapping_key := no_record\<rparr>)" if "\<not> pressed (tapping_key s)"
  proof -
    have "undecided s = []" "undecided (s\<lparr>tapping_key := no_record\<rparr>) = []"
      using that by (auto simp: undecided_def no_record_def)
    then show ?thesis using balanced_all_kept
      by (intro turnI[of "[]"]) (auto simp: touches_def key_ok_def no_record_def)
  qed
  show ?thesis
    using tapping_reset_turn[OF _ assms(2,1)] hold forget idle_turn[OF assms(1)]
      tapping_undecided_turn[OF assms(1)] tapping_tapped_turn[OF assms(1) _ assms(2)]
      tapping_released_turn[OF assms(1) _ assms(2)]
    by (simp add: process_tapping_def)
qed

end

section \<open>The buffer\<close>

lemma ring_list_map: "0 < length xs \<Longrightarrow> map f (ring_list xs s e) = ring_list (map f xs) s e"
  by (simp add: ring_list_def)

lemma ring_list_overwrite:
  assumes "s < length xs" "e < length xs" "s \<noteq> e"
  shows "ring_list (xs[s := y]) ((s + 1) mod length xs) e = ring_list xs ((s + 1) mod length xs) e"
proof -
  let ?n = "length xs"
  have c: "ring_count ?n ((s + 1) mod ?n) e = ring_count ?n s e - 1" using ring_count_deq assms by blast
  have "((s + 1) mod ?n + i) mod ?n \<noteq> s" if "i < ring_count ?n s e - 1" for i
  proof
    assume "((s + 1) mod ?n + i) mod ?n = s"
    then have eq: "(s + (i + 1)) mod ?n = (s + 0) mod ?n" using assms(1) by (simp add: mod_add_left_eq)
    have "i + 1 < ?n" "0 < ?n" using that ring_count_lt[OF assms(1,2)] assms(1) by linarith+
    from ring_index_inj[OF assms(1) this eq] show False by simp
  qed
  then show ?thesis using c by (simp add: ring_list_def) (metis atLeastLessThan_iff nth_list_update_neq)
qed

lemma wb_next_unat: "unat (wb_next i) = (unat i + 1) mod WAITING_BUFFER_SIZE"
  unfolding wb_next_def WAITING_BUFFER_SIZE_def by (rule unat_of_nat_mod) (simp add: order.strict_trans2[OF mod_less_divisor])

lemma wb_next_eq: "wb_next i = j \<longleftrightarrow> (unat i + 1) mod WAITING_BUFFER_SIZE = unat j"
  by (simp add: word_unat_eq_iff wb_next_unat)

lemma enq_buffered:
  assumes "tapping_ok s" "waiting_buffer_enq r s = (t, b)" "untapped_press r" "\<not> IS_NOEVENT (kr_event r)"
  shows "tapping_key t = tapping_key s \<and> rest t = rest s \<and> tapping_ok t
    \<and> (if b then buffered t = buffered s @ [r] else t = s \<and> length (buffered s) = WAITING_BUFFER_SIZE - 1)"
proof -
  have i: "unat (waiting_buffer_tail s) < length (waiting_buffer s)" "unat (waiting_buffer_head s) < length (waiting_buffer s)"
    and l: "length (waiting_buffer s) = WAITING_BUFFER_SIZE" using assms(1) by (auto simp: tapping_ok_def)
  show ?thesis
  proof (cases "wb_next (waiting_buffer_head s) = waiting_buffer_tail s")
    case True
    then have "length (buffered s) = WAITING_BUFFER_SIZE - 1"
      using ring_full_iff[OF i] l by (simp add: buffered_def wb_next_eq)
    with True assms show ?thesis by (auto simp: waiting_buffer_enq_def)
  next
    case False
    then have t: "t = s\<lparr>waiting_buffer := (waiting_buffer s)[unat (waiting_buffer_head s) := r],
        waiting_buffer_head := wb_next (waiting_buffer_head s)\<rparr>" "b"
      using assms(2,4) by (auto simp: waiting_buffer_enq_def)
    have "(unat (waiting_buffer_head s) + 1) mod length (waiting_buffer s) \<noteq> unat (waiting_buffer_tail s)"
      using False l by (simp add: wb_next_eq)
    then have b: "buffered t = buffered s @ [r]"
      using ring_list_enq[OF i, of r] l by (simp add: t(1) buffered_def wb_next_unat)
    then have "tapping_ok t"
      using assms(1,3) l by (auto simp: tapping_ok_def t(1) wb_next_unat WAITING_BUFFER_SIZE_def)
    with b t show ?thesis by simp
  qed
qed

lemma buffered_touches:
  assumes "touches new s t" "tapping_ok s"
  shows "map kr_event (buffered t) = map kr_event (buffered s)" "\<forall>r \<in> set (buffered t). untapped_press r"
    "length (waiting_buffer t) = WAITING_BUFFER_SIZE"
proof -
  have l: "length (waiting_buffer s) = WAITING_BUFFER_SIZE" "0 < WAITING_BUFFER_SIZE"
    using assms(2) by (auto simp: tapping_ok_def WAITING_BUFFER_SIZE_def)
  have e: "map kr_event (waiting_buffer t) = map kr_event (waiting_buffer s)"
    and ht: "waiting_buffer_head t = waiting_buffer_head s" "waiting_buffer_tail t = waiting_buffer_tail s"
    using assms(1) by (auto simp: touches_def)
  show lt: "length (waiting_buffer t) = WAITING_BUFFER_SIZE" using map_eq_imp_length_eq[OF e] l by simp
  show m: "map kr_event (buffered t) = map kr_event (buffered s)"
    using l lt by (simp add: buffered_def ring_list_map e ht)
  show "\<forall>r \<in> set (buffered t). untapped_press r"
  proof
    fix r assume "r \<in> set (buffered t)"
    then obtain i where i: "i < length (buffered t)" "buffered t ! i = r" by (auto simp: in_set_conv_nth)
    define j where "j = (unat (waiting_buffer_tail s) + i) mod WAITING_BUFFER_SIZE"
    have j: "j < length (waiting_buffer s)" using l by (simp add: j_def)
    have ri: "r = waiting_buffer t ! j" "buffered s ! i = waiting_buffer s ! j" "i < length (buffered s)"
      using i map_eq_imp_length_eq[OF m] l lt by (auto simp: buffered_def ring_list_def j_def ht)
    have ev: "kr_event r = kr_event (waiting_buffer s ! j)"
      using arg_cong[OF e, of "\<lambda>xs. xs ! j"] j l lt by (simp add: ri(1))
    have "untapped_press (waiting_buffer s ! j)"
      using assms(2) nth_mem[OF ri(3)] unfolding ri(2) by (simp add: tapping_ok_def)
    moreover have "pressed (waiting_buffer s ! j) \<Longrightarrow> r = waiting_buffer s ! j"
      using assms(1) j by (auto simp: touches_def ri(1))
    ultimately show "untapped_press r" using ev by (auto simp: untapped_press_def)
  qed
qed

section \<open>Whole passes\<close>

lemma tapping_ok_turn:
  assumes "tapping_ok s" "turn s r (b, r', t)"
  shows "tapping_ok t" "map kr_event (buffered t) = map kr_event (buffered s)"
    "unat (waiting_buffer_tail t) = unat (waiting_buffer_tail s)" "waiting_buffer_head t = waiting_buffer_head s"
proof -
  obtain new where n: "touches new s t" "pressed (tapping_key t) \<longrightarrow> IS_EVENT (kr_event (tapping_key t))"
    using assms(2) by (auto simp: turn_def)
  note b = buffered_touches[OF n(1) assms(1)]
  show "map kr_event (buffered t) = map kr_event (buffered s)" by (rule b(1))
  show "tapping_ok t" using b n assms(1) by (simp add: tapping_ok_def touches_def)
  show "unat (waiting_buffer_tail t) = unat (waiting_buffer_tail s)" "waiting_buffer_head t = waiting_buffer_head s"
    using n(1) by (simp_all add: touches_def)
qed

text \<open>The state after the first element of the buffer was taken, and the buffer it leaves.\<close>

lemma pop_buffered:
  assumes "tapping_ok s" "waiting_buffer_tail s \<noteq> waiting_buffer_head s"
    and "u = s\<lparr>waiting_buffer := (waiting_buffer s)[unat (waiting_buffer_tail s) := x],
      waiting_buffer_tail := wb_next (waiting_buffer_tail s)\<rparr>"
  shows "buffered s = waiting_buffer s ! unat (waiting_buffer_tail s) # buffered u \<and> tapping_ok u"
proof -
  have i: "unat (waiting_buffer_tail s) < length (waiting_buffer s)" "unat (waiting_buffer_head s) < length (waiting_buffer s)"
    and l: "length (waiting_buffer s) = WAITING_BUFFER_SIZE" using assms(1) by (auto simp: tapping_ok_def)
  have ne: "unat (waiting_buffer_tail s) \<noteq> unat (waiting_buffer_head s)"
    using assms(2) by (simp add: word_unat_eq_iff)
  have "buffered s = waiting_buffer s ! unat (waiting_buffer_tail s) # buffered u"
    using ring_list_deq[OF i ne] ring_list_overwrite[OF i ne, of x] l
    by (simp add: buffered_def assms(3) wb_next_unat)
  then show ?thesis
    using assms(1) by (auto simp: tapping_ok_def assms(3) wb_next_unat WAITING_BUFFER_SIZE_def)
qed

lemma not_pop_buffered:
  assumes "tapping_ok s" "waiting_buffer_tail s \<noteq> waiting_buffer_head s"
    and "kr_event x = kr_event (waiting_buffer s ! unat (waiting_buffer_tail s))"
    and "untapped_press x" "u = s\<lparr>waiting_buffer := (waiting_buffer s)[unat (waiting_buffer_tail s) := x]\<rparr>"
  shows "map kr_event (buffered u) = map kr_event (buffered s) \<and> tapping_ok u"
proof -
  let ?i = "unat (waiting_buffer_tail s)"
  have i: "?i < length (waiting_buffer s)" "unat (waiting_buffer_head s) < length (waiting_buffer s)"
    and l: "length (waiting_buffer s) = WAITING_BUFFER_SIZE" using assms(1) by (auto simp: tapping_ok_def)
  have ne: "?i \<noteq> unat (waiting_buffer_head s)"
    using assms(2) by (simp add: word_unat_eq_iff)
  have b: "buffered s = waiting_buffer s ! ?i # ring_list (waiting_buffer s) ((?i + 1) mod length (waiting_buffer s)) (unat (waiting_buffer_head s))"
    using ring_list_deq[OF i ne] by (simp add: buffered_def)
  have "?i < length ((waiting_buffer s)[?i := x])" "unat (waiting_buffer_head s) < length ((waiting_buffer s)[?i := x])"
    using i by simp_all
  from ring_list_deq[OF this ne] ring_list_overwrite[OF i ne, of x] i
  have u: "buffered u = x # ring_list (waiting_buffer s) ((?i + 1) mod length (waiting_buffer s)) (unat (waiting_buffer_head s))"
    by (simp add: buffered_def assms(5))
  show ?thesis
    using assms(1,3,4) l by (auto simp: u b tapping_ok_def) (auto simp: assms(5))
qed

text \<open>
  From \<open>s\<close> to \<open>t\<close> the log grew, and unless an overflow cleared everything the events \<open>ins\<close> and
  those that were pending before are all processed or pending afterwards. The buffer takes one
  event at a time, and overflows only when it is full.
\<close>

definition passes :: "keyevent_t list \<Rightarrow> ('e \<times> tap_log list) tapping \<Rightarrow> ('e \<times> tap_log list) tapping \<Rightarrow> bool" where
  "passes ins s t \<longleftrightarrow> tapping_ok t \<and> (\<exists>new. tap_log t = tap_log s @ new
     \<and> (Cleared \<notin> set new \<longrightarrow> balanced (pending s @ ins) (map kr_event (processed new)) (pending t))
     \<and> (Cleared \<in> set new \<longrightarrow> WAITING_BUFFER_SIZE \<le> length (buffered s) + length ins))
     \<and> length (buffered t) \<le> length (buffered s) + length ins"

lemma passes_refl: "tapping_ok s \<Longrightarrow> passes [] s s"
  unfolding passes_def by (intro conjI exI[of _ "[]"]) (simp_all add: balanced_all_kept)

lemma passes_trans:
  assumes "passes xs s t" "passes ys t u"
  shows "passes (xs @ ys) s u"
proof -
  obtain l m where l: "tap_log t = tap_log s @ l"
      "Cleared \<notin> set l \<longrightarrow> balanced (pending s @ xs) (map kr_event (processed l)) (pending t)"
      "Cleared \<in> set l \<longrightarrow> WAITING_BUFFER_SIZE \<le> length (buffered s) + length xs"
      "length (buffered t) \<le> length (buffered s) + length xs"
    using assms(1) by (auto simp: passes_def)
  obtain m where m: "tap_log u = tap_log t @ m"
      "Cleared \<notin> set m \<longrightarrow> balanced (pending t @ ys) (map kr_event (processed m)) (pending u)" "tapping_ok u"
      "Cleared \<in> set m \<longrightarrow> WAITING_BUFFER_SIZE \<le> length (buffered t) + length ys"
      "length (buffered u) \<le> length (buffered t) + length ys"
    using assms(2) by (auto simp: passes_def)
  have "balanced (pending s @ xs @ ys) (map kr_event (processed (l @ m))) (pending u)" if "Cleared \<notin> set (l @ m)"
    using that l(2) m(2) balanced_trans[OF balanced_frame[of "pending s @ xs" _ _ ys]] by simp
  with l m show ?thesis unfolding passes_def by (intro conjI exI[of _ "l @ m"]) auto
qed

context record_processor
begin

lemma waiting_passes:
  assumes "tapping_ok s"
  shows "passes [] s (process_waiting n (logging ops) s)"
  using assms
proof (induction n arbitrary: s)
  case (Suc n)
  show ?case
  proof (cases "waiting_buffer_tail s = waiting_buffer_head s")
    case True
    then show ?thesis using passes_refl[OF Suc.prems] by simp
  next
    case False
    define i where "i = unat (waiting_buffer_tail s)"
    define r where "r = waiting_buffer s ! i"
    obtain b r' t where p: "process_tapping (logging ops) r s = (b, r', t)" by (cases "process_tapping (logging ops) r s")
    have hd: "\<exists>xs. buffered s = r # xs" using pop_buffered[OF Suc.prems False refl] by (auto simp: r_def i_def)
    then have r: "untapped_press r" using Suc.prems by (auto simp: tapping_ok_def)
    have "key_ok s" using Suc.prems by (simp add: tapping_ok_def key_ok_def)
    from process_tapping_turn[OF this r] p have tn: "turn s r (b, r', t)" by simp
    note ok = tapping_ok_turn[OF Suc.prems tn]
    obtain new where n: "Cleared \<notin> set new" "touches new s t"
        "balanced (undecided s @ [kr_event r]) (map kr_event (processed new)) (undecided t @ (if b then [] else [kr_event r']))"
        "\<not> b \<longrightarrow> kr_event r' = kr_event r \<and> (pressed r \<longrightarrow> kr_tap r' = kr_tap r)"
      using tn by (auto simp: turn_def)
    have ht: "waiting_buffer_tail t = waiting_buffer_tail s" using n(2) by (simp add: touches_def)
    then have ne: "waiting_buffer_tail t \<noteq> waiting_buffer_head t" using False ok(4) by simp
    have log: "tap_log t = tap_log s @ new" using n(2) by (simp add: touches_def)
    show ?thesis
    proof (cases b)
      case True
      define u where "u = t\<lparr>waiting_buffer := (waiting_buffer t)[i := r'], waiting_buffer_tail := wb_next (waiting_buffer_tail t)\<rparr>"
      have "u = t\<lparr>waiting_buffer := (waiting_buffer t)[unat (waiting_buffer_tail t) := r'], waiting_buffer_tail := wb_next (waiting_buffer_tail t)\<rparr>"
        by (simp add: u_def i_def ht)
      note pop = pop_buffered[OF ok(1) ne this]
      obtain xs where xs: "buffered s = r # xs" using hd by blast
      have "map kr_event xs = map kr_event (buffered u)" using ok(2) pop xs by simp
      moreover have "undecided u = undecided t" by (simp add: u_def undecided_def)
      ultimately have "balanced (pending s) (map kr_event (processed new)) (pending u)"
        using balanced_frame[OF n(3), of "map kr_event xs"] True xs by (simp add: pending_def)
      moreover have "tap_log u = tap_log s @ new" using log by (simp add: u_def)
      ultimately have "passes [] s u" using pop n(1) map_eq_imp_length_eq[OF ok(2)] unfolding passes_def by (intro conjI exI[of _ new]) simp_all
      moreover have "passes [] u (process_waiting n (logging ops) u)" using pop by (intro Suc.IH) simp
      ultimately have "passes [] s (process_waiting n (logging ops) u)" using passes_trans by fastforce
      then show ?thesis using False p True by (simp add: Let_def r_def[symmetric] i_def[symmetric] u_def)
    next
      case b: False
      define u where "u = t\<lparr>waiting_buffer := (waiting_buffer t)[i := r']\<rparr>"
      have u: "u = t\<lparr>waiting_buffer := (waiting_buffer t)[unat (waiting_buffer_tail t) := r']\<rparr>"
        by (simp add: u_def i_def ht)
      have "map kr_event (waiting_buffer t) ! i = map kr_event (waiting_buffer s) ! i" using n(2) by (simp add: touches_def)
      then have "kr_event (waiting_buffer t ! i) = kr_event r"
        using ok(1) Suc.prems by (simp add: r_def i_def tapping_ok_def)
      then have e: "kr_event r' = kr_event (waiting_buffer t ! unat (waiting_buffer_tail t))" using n(4) b by (simp add: i_def ht)
      have up: "untapped_press r'" using n(4) b r by (auto simp: untapped_press_def)
      note keep = not_pop_buffered[OF ok(1) ne e up u]
      obtain xs where xs: "buffered s = r # xs" using hd by blast
      have "map kr_event (buffered u) = kr_event r' # map kr_event xs" using keep ok(2) xs n(4) b by simp
      moreover have "undecided u = undecided t" by (simp add: u_def undecided_def)
      ultimately have "balanced (pending s) (map kr_event (processed new)) (pending u)"
        using balanced_frame[OF n(3), of "map kr_event xs"] b xs by (simp add: pending_def)
      moreover have "tap_log u = tap_log s @ new" using log by (simp add: u_def)
      ultimately have "passes [] s u" using keep n(1) map_eq_imp_length_eq[OF conjunct1[OF keep]] map_eq_imp_length_eq[OF ok(2)] unfolding passes_def by (intro conjI exI[of _ new]) simp_all
      then show ?thesis using False p b by (simp add: Let_def r_def[symmetric] i_def[symmetric] u_def)
    qed
  qed
qed (simp add: passes_refl)

lemma overflow_passes:
  assumes "tapping_ok t" "touches new s t"
    and "WAITING_BUFFER_SIZE \<le> length (buffered s) + length ins"
    and "u = (waiting_buffer_clear (t\<lparr>rest := op_clear_keyboard (logging ops) (rest t)\<rparr>))\<lparr>tapping_key := no_record\<rparr>"
  shows "passes ins s u"
proof -
  have "tap_log u = tap_log s @ (new @ [Cleared])"
    using assms(2) by (cases "rest t") (simp add: assms(4) waiting_buffer_clear_def logging_def touches_def)
  moreover have "buffered u = []" by (simp add: assms(4) waiting_buffer_clear_def buffered_def)
  moreover have "tapping_ok u"
    using assms(1) \<open>buffered u = []\<close> unfolding tapping_ok_def
    by (auto simp: assms(4) waiting_buffer_clear_def no_record_def WAITING_BUFFER_SIZE_def)
  ultimately show ?thesis unfolding passes_def using assms(3) by (intro conjI exI[of _ "new @ [Cleared]"]) auto
qed

lemma action_tapping_passes:
  assumes "tapping_ok s" "untapped_press r"
  shows "passes [kr_event r] s (action_tapping_process (logging ops) r s)"
proof -
  let ?L = "logging ops"
  obtain b r' t where p: "process_tapping ?L r s = (b, r', t)" by (cases "process_tapping ?L r s")
  have "key_ok s" using assms(1) by (simp add: tapping_ok_def key_ok_def)
  from process_tapping_turn[OF this assms(2)] p have tn: "turn s r (b, r', t)" by simp
  note ok = tapping_ok_turn[OF assms(1) tn]
  obtain new where n: "Cleared \<notin> set new" "touches new s t"
      "balanced (undecided s @ [kr_event r]) (map kr_event (processed new)) (undecided t @ (if b then [] else [kr_event r']))"
      "\<not> b \<longrightarrow> kr_event r' = kr_event r \<and> (pressed r \<longrightarrow> kr_tap r' = kr_tap r)"
    using tn by (auto simp: turn_def)
  define k where "k = (if b then [] else [kr_event r'])"
  have log: "tap_log t = tap_log s @ new" using n(2) by (simp add: touches_def)
  have len: "length (buffered t) = length (buffered s)" using map_eq_imp_length_eq[OF ok(2)] .
  have bal: "balanced (pending s @ [kr_event r]) (map kr_event (processed new)) (pending t @ k)"
    using balanced_frame[OF n(3)[folded k_def], of "map kr_event (buffered s)"] ok(2)
    by (subst balanced_perm[OF _ refl]) (auto simp: pending_def)
  have rest: "passes [kr_event r] s (process_waiting WAITING_BUFFER_SIZE ?L u)" if "passes [kr_event r] s u" for u
  proof -
    have "tapping_ok u" using that by (simp add: passes_def)
    from passes_trans[OF that waiting_passes[OF this]] show ?thesis by simp
  qed
  show ?thesis
  proof (cases b)
    case True
    have "passes [kr_event r] s t"
      using bal log ok(1) True len n(1) unfolding passes_def k_def by (intro conjI exI[of _ new]) simp_all
    with rest p True show ?thesis by (simp add: action_tapping_process_def Let_def)
  next
    case b: False
    show ?thesis
    proof (cases "IS_NOEVENT (kr_event r)")
      case True
      then have "\<not> is_press (kr_event r')" "\<not> is_release (kr_event r')"
        using n(4) b by (auto simp: is_press_def is_release_def IS_EVENT_iff)
      with bal have "balanced (pending s @ [kr_event r]) (map kr_event (processed new)) (pending t)"
        by (simp add: balanced_def k_def)
      with log ok(1) len n(1) have "passes [kr_event r] s t" unfolding passes_def by (intro conjI exI[of _ new]) simp_all
      with rest p b True n(4) show ?thesis
        by (simp add: action_tapping_process_def Let_def waiting_buffer_enq_def)
    next
      case ev: False
      obtain u q where e: "waiting_buffer_enq r' t = (u, q)" by (cases "waiting_buffer_enq r' t")
      have r': "untapped_press r'" "\<not> IS_NOEVENT (kr_event r')"
        using n(4) b assms(2) ev by (auto simp: untapped_press_def)
      note enq = enq_buffered[OF ok(1) e r']
      show ?thesis
      proof (cases q)
        case True
        have "pending u = pending t @ k"
          using enq True b by (simp add: pending_def k_def undecided_def)
        with bal log enq True len n(1) have "passes [kr_event r] s u"
          unfolding passes_def by (intro conjI exI[of _ new]) simp_all
        with rest p b e True show ?thesis by (simp add: action_tapping_process_def Let_def)
      next
        case False
        with enq have u: "u = t" by simp
        have "passes [kr_event r] s ((waiting_buffer_clear (t\<lparr>rest := op_clear_keyboard ?L (rest t)\<rparr>))\<lparr>tapping_key := no_record\<rparr>)"
          using enq False len by (intro overflow_passes[OF ok(1) n(2) _ refl]) simp
        with rest p b e False u show ?thesis by (simp add: action_tapping_process_def Let_def)
      qed
    qed
  qed
qed

end

section \<open>Events in order\<close>

text \<open>
  An event as \<open>action_exec\<close> passes it on: \<open>prep\<close> is what happens before, \<open>pre\<close> may take the event
  for itself.
\<close>

definition tapping_exec ::
    "('e \<Rightarrow> 'e) \<Rightarrow> ('e \<Rightarrow> 'e \<times> bool) \<Rightarrow> 'e tapping_ops \<Rightarrow> keyevent_t \<Rightarrow> 'e tapping \<Rightarrow> 'e tapping" where
  "tapping_exec prep pre ops event s =
     (let s = s\<lparr>rest := prep (rest s)\<rparr>
      in if IS_NOEVENT event then action_tapping_process ops (event_record event) s
         else case pre (rest s) of (e, continue) \<Rightarrow>
           let s = s\<lparr>rest := e\<rparr>
           in if continue then action_tapping_process ops (event_record event) s else s)"

definition tapping_start :: "'e \<Rightarrow> 'e tapping" where
  "tapping_start e = \<lparr>tapping_key = no_record, waiting_buffer = replicate WAITING_BUFFER_SIZE no_record,
     waiting_buffer_head = 0, waiting_buffer_tail = 0, rest = e\<rparr>"

lemma tapping_start_ok: "tapping_ok (tapping_start e)" "pending (tapping_start e) = []"
  by (simp_all add: tapping_ok_def tapping_start_def buffered_def no_record_def WAITING_BUFFER_SIZE_def
      pending_def undecided_def)

definition logged :: "('e \<Rightarrow> 'e \<times> 'b) \<Rightarrow> 'e \<times> tap_log list \<Rightarrow> ('e \<times> tap_log list) \<times> 'b" where
  "logged f x = (case f (fst x) of (e, b) \<Rightarrow> ((e, snd x), b))"

definition logged_exec ::
    "('e \<Rightarrow> 'e) \<Rightarrow> ('e \<Rightarrow> 'e \<times> bool) \<Rightarrow> 'e tapping_ops \<Rightarrow> keyevent_t
      \<Rightarrow> ('e \<times> tap_log list) tapping \<Rightarrow> ('e \<times> tap_log list) tapping" where
  "logged_exec prep pre ops = tapping_exec (apfst prep) (logged pre) (logging ops)"

text \<open>The log is only looked at: without it the same happens.\<close>

definition unlogged :: "('e \<times> tap_log list) tapping \<Rightarrow> 'e tapping" where
  "unlogged s = \<lparr>tapping_key = tapping_key s, waiting_buffer = waiting_buffer s,
     waiting_buffer_head = waiting_buffer_head s, waiting_buffer_tail = waiting_buffer_tail s, rest = fst (rest s)\<rparr>"

lemma unlogged_simps [simp]:
  "tapping_key (unlogged s) = tapping_key s" "waiting_buffer (unlogged s) = waiting_buffer s"
  "waiting_buffer_head (unlogged s) = waiting_buffer_head s" "waiting_buffer_tail (unlogged s) = waiting_buffer_tail s"
  "rest (unlogged s) = fst (rest s)"
  "unlogged (s\<lparr>tapping_key := k\<rparr>) = unlogged s\<lparr>tapping_key := k\<rparr>"
  "unlogged (s\<lparr>waiting_buffer := b\<rparr>) = unlogged s\<lparr>waiting_buffer := b\<rparr>"
  "unlogged (s\<lparr>waiting_buffer_head := h\<rparr>) = unlogged s\<lparr>waiting_buffer_head := h\<rparr>"
  "unlogged (s\<lparr>waiting_buffer_tail := h\<rparr>) = unlogged s\<lparr>waiting_buffer_tail := h\<rparr>"
  "unlogged (s\<lparr>rest := x\<rparr>) = unlogged s\<lparr>rest := fst x\<rparr>"
  by (simp_all add: unlogged_def)

lemma unlogged_queries:
  "WITHIN_TAPPING_TERM ops e (unlogged s) = WITHIN_TAPPING_TERM (logging ops) e s"
  "WITHIN_QUICK_TAP_TERM ops e (unlogged s) = WITHIN_QUICK_TAP_TERM (logging ops) e s"
  "is_tap_record ops r (unlogged s) = is_tap_record (logging ops) r s"
  "IS_TAPPING_RECORD r (unlogged s) = IS_TAPPING_RECORD r s"
  "waiting_buffer_typed e (unlogged s) = waiting_buffer_typed e s"
  "wb_indices (unlogged s) = wb_indices s"
  by (simp_all add: WITHIN_TAPPING_TERM_def WITHIN_QUICK_TAP_TERM_def is_tap_record_def IS_TAPPING_RECORD_def
      logging_def waiting_buffer_typed_def wb_indices_def)

lemma unlogged_process:
  "process_tapping_key ops (unlogged s) = unlogged (process_tapping_key (logging ops) s)"
  "process_other ops r (unlogged s) = map_prod id unlogged (process_other (logging ops) r s)"
  by (cases "rest s"; simp add: process_tapping_key_def process_other_def logging_def split: prod.splits)+

lemma unlogged_scan_tap:
  "waiting_buffer_scan_tap ops (unlogged s) = unlogged (waiting_buffer_scan_tap (logging ops) s)"
  unfolding waiting_buffer_scan_tap_def
  by (auto simp: unlogged_queries unlogged_process simp flip: unlogged_simps(6-10) split: option.splits)

abbreviation unlogged_turn :: "bool \<times> keyrecord_t \<times> ('e \<times> tap_log list) tapping \<Rightarrow> bool \<times> keyrecord_t \<times> 'e tapping" where
  "unlogged_turn \<equiv> map_prod id (map_prod id unlogged)"

lemmas unlogged_steps = unlogged_queries unlogged_process unlogged_scan_tap

lemma unlogged_ops:
  "op_layer_switch_get_action (logging ops) k x = op_layer_switch_get_action ops k (fst x)"
  "op_get_permissive_hold (logging ops) r x = op_get_permissive_hold ops r (fst x)"
  "op_get_hold_on_other_key_press (logging ops) r x = op_get_hold_on_other_key_press ops r (fst x)"
  "fst (op_clear_keyboard (logging ops) x) = op_clear_keyboard ops (fst x)"
  by (simp_all add: logging_def split: prod.splits)

lemma unlogged_reset: "tapping_reset ops keyp (unlogged s) = unlogged_turn (tapping_reset (logging ops) keyp s)"
  by (auto simp: tapping_reset_def unlogged_steps simp flip: unlogged_simps(6-10))

lemma unlogged_undecided:
  "tapping_undecided ops keyp (unlogged s) = unlogged_turn (tapping_undecided (logging ops) keyp s)"
  by (simp add: tapping_undecided_def Let_def unlogged_steps unlogged_ops flip: unlogged_simps(6-10))

lemma unlogged_start_over:
  "tapping_start_over ops keyp (unlogged s) = unlogged_turn (tapping_start_over (logging ops) keyp s)"
  by (auto simp: tapping_start_over_def Let_def unlogged_steps simp flip: unlogged_simps(6-10))

lemma unlogged_tapped:
  "tapping_tapped ops in_time keyp (unlogged s) = unlogged_turn (tapping_tapped (logging ops) in_time keyp s)"
  by (auto simp: tapping_tapped_def unlogged_steps unlogged_start_over simp flip: unlogged_simps(6-10) split: prod.splits)

lemma unlogged_released:
  "tapping_released ops keyp (unlogged s) = unlogged_turn (tapping_released (logging ops) keyp s)"
  by (auto simp: tapping_released_def Let_def unlogged_steps simp flip: unlogged_simps(6-10) split: prod.splits)

lemma unlogged_process_tapping:
  "process_tapping ops keyp (unlogged s) = unlogged_turn (process_tapping (logging ops) keyp s)"
  by (simp add: process_tapping_def unlogged_steps unlogged_reset unlogged_undecided unlogged_tapped unlogged_released
      flip: unlogged_simps(6-10))

lemma unlogged_waiting:
  "process_waiting n ops (unlogged s) = unlogged (process_waiting n (logging ops) s)"
proof (induction n arbitrary: s)
  case (Suc n)
  obtain b r t where p: "process_tapping (logging ops) (waiting_buffer s ! unat (waiting_buffer_tail s)) s = (b, r, t)"
    by (cases "process_tapping (logging ops) (waiting_buffer s ! unat (waiting_buffer_tail s)) s")
  have u: "process_tapping ops (waiting_buffer s ! unat (waiting_buffer_tail s)) (unlogged s) = (b, r, unlogged t)"
    by (simp add: unlogged_process_tapping p)
  show ?case
  proof (cases b)
    case True
    let ?u = "t\<lparr>waiting_buffer := (waiting_buffer t)[unat (waiting_buffer_tail s) := r],
      waiting_buffer_tail := wb_next (waiting_buffer_tail t)\<rparr>"
    have "process_waiting n ops (unlogged ?u) = unlogged (process_waiting n (logging ops) ?u)" by (rule Suc.IH)
    then show ?thesis using True by (simp add: Let_def p u)
  qed (simp add: Let_def p u)
qed simp

lemma unlogged_enq:
  "waiting_buffer_enq r (unlogged s) = map_prod unlogged id (waiting_buffer_enq r s)"
  by (simp add: waiting_buffer_enq_def)

lemma unlogged_action_tapping:
  "action_tapping_process ops r (unlogged s) = unlogged (action_tapping_process (logging ops) r s)"
proof -
  obtain b r' t where p: "process_tapping (logging ops) r s = (b, r', t)" by (cases "process_tapping (logging ops) r s")
  obtain u q where e: "waiting_buffer_enq r' t = (u, q)" by (cases "waiting_buffer_enq r' t")
  have clear: "(waiting_buffer_clear (unlogged u\<lparr>rest := op_clear_keyboard ops (rest (unlogged u))\<rparr>))\<lparr>tapping_key := no_record\<rparr>
      = unlogged ((waiting_buffer_clear (u\<lparr>rest := op_clear_keyboard (logging ops) (rest u)\<rparr>))\<lparr>tapping_key := no_record\<rparr>)"
    by (simp add: waiting_buffer_clear_def unlogged_ops)
  show ?thesis
    by (simp only: action_tapping_process_def unlogged_process_tapping p map_prod_simp id_apply prod.case
        unlogged_enq e Let_def if_distrib[of unlogged] unlogged_waiting clear if_distrib[of "process_waiting WAITING_BUFFER_SIZE ops"] cong: if_cong)
      (simp add: unlogged_waiting clear)
qed

lemma unlogged_exec:
  "tapping_exec prep pre ops e (unlogged s) = unlogged (logged_exec prep pre ops e s)"
  by (simp add: tapping_exec_def logged_exec_def logged_def Let_def unlogged_action_tapping[symmetric] split: prod.splits)

context record_processor
begin

lemma exec_passes:
  assumes "tapping_ok s" "ev_pressed e \<longrightarrow> IS_EVENT e" "\<And>x. IS_EVENT e \<Longrightarrow> snd (pre x)"
  shows "passes [e] s (logged_exec prep pre ops e s)"
proof -
  have up: "untapped_press (event_record e)" using assms(2) by (simp add: untapped_press_def event_record_def no_tap_def)
  have ev: "kr_event (event_record e) = e" by (simp add: event_record_def)
  have frame: "passes [e] s (action_tapping_process (logging ops) (event_record e) (s\<lparr>rest := x\<rparr>))"
    if "snd x = tap_log s" for x
  proof -
    have ok: "tapping_ok (s\<lparr>rest := x\<rparr>)" using assms(1) by (simp add: tapping_ok_def buffered_def)
    have "undecided (s\<lparr>rest := x\<rparr>) = undecided s" unfolding undecided_def by simp
    then have "pending (s\<lparr>rest := x\<rparr>) = pending s" by (simp add: pending_def buffered_def)
    then show ?thesis using action_tapping_passes[OF ok up] that by (auto simp: passes_def ev buffered_def)
  qed
  show ?thesis using frame assms(3)
    by (auto simp: logged_exec_def tapping_exec_def logged_def Let_def IS_EVENT_iff split: prod.splits) (metis snd_conv)
qed

end

end
