(* ===== verification/Tapping_Policy.thy ===== *)
theory Tapping_Policy
  imports Tapping_Events
begin

text \<open>
  When a dual-role key counts as tapped and when as held: the steps of the state machine while one
  dual-role key is down and only keys with a single role are used beside it.
\<close>

section \<open>The loop over the buffer\<close>

lemma waiting_Nil:
  assumes "tapping_ok s" "buffered s = []"
  shows "process_waiting n ops s = s"
proof (cases n)
  case (Suc m)
  have "unat (waiting_buffer_tail s) < length (waiting_buffer s)" "unat (waiting_buffer_head s) < length (waiting_buffer s)"
    using assms(1) by (auto simp: tapping_ok_def)
  from ring_empty_iff[OF this] assms(2) have "waiting_buffer_tail s = waiting_buffer_head s"
    by (simp add: buffered_def ring_list_def word_unat_eq_iff)
  then show ?thesis by (simp add: Suc)
qed simp

lemma waiting_Cons:
  assumes "tapping_ok s" "buffered s = r # rs" "process_tapping ops r s = (b, r', t)"
    and "waiting_buffer t = waiting_buffer s" "waiting_buffer_head t = waiting_buffer_head s"
    and "waiting_buffer_tail t = waiting_buffer_tail s" "key_ok t"
  shows "if b then \<exists>u. process_waiting (Suc n) ops s = process_waiting n ops u \<and> tapping_ok u \<and> buffered u = rs
           \<and> tapping_key u = tapping_key t \<and> rest u = rest t
         else r' = r \<longrightarrow> process_waiting (Suc n) ops s = t \<and> tapping_ok t \<and> buffered t = buffered s"
proof -
  have ne: "waiting_buffer_tail s \<noteq> waiting_buffer_head s" using assms(2) by (auto simp: buffered_def)
  have r: "r = waiting_buffer s ! unat (waiting_buffer_tail s)"
    using pop_buffered[OF assms(1) ne refl] assms(2) by simp
  have bt: "buffered t = buffered s" "tapping_ok t"
    using assms by (simp_all add: buffered_def tapping_ok_def key_ok_def)
  define u where "u = t\<lparr>waiting_buffer := (waiting_buffer t)[unat (waiting_buffer_tail t) := r'],
      waiting_buffer_tail := wb_next (waiting_buffer_tail t)\<rparr>"
  have net: "waiting_buffer_tail t \<noteq> waiting_buffer_head t" using ne assms(5,6) by simp
  from pop_buffered[OF bt(2) net u_def] bt(1) assms(2) have u: "buffered u = rs" "tapping_ok u" by simp_all
  have ut: "tapping_key u = tapping_key t" "rest u = rest t" by (simp_all add: u_def)
  show ?thesis
  proof (cases b)
    case True
    have p: "process_tapping ops (waiting_buffer s ! unat (waiting_buffer_tail s)) s = (True, r', t)"
      using assms(3) True unfolding r by simp
    have "process_waiting (Suc n) ops s = process_waiting n ops u"
      unfolding process_waiting.simps Let_def p using ne assms(6) by (simp add: u_def)
    with u ut True show ?thesis by auto
  next
    case False
    let ?i = "unat (waiting_buffer_tail s)"
    have "(waiting_buffer t)[?i := r] = waiting_buffer t" unfolding assms(4) r by (rule list_update_id)
    then have same: "t\<lparr>waiting_buffer := (waiting_buffer t)[?i := r]\<rparr> = t" by simp
    have p: "process_tapping ops (waiting_buffer s ! ?i) s = (False, r', t)"
      using assms(3) False unfolding r by simp
    have "process_waiting (Suc n) ops s = t" if "r' = r"
      unfolding process_waiting.simps Let_def p using ne same that by simp
    with False bt show ?thesis by simp
  qed
qed

section \<open>One dual-role key\<close>

definition single_role :: "'e tapping_ops \<Rightarrow> keypos_t \<Rightarrow> bool" where
  "single_role ops key \<longleftrightarrow> (\<forall>e. \<not> is_tap_action (op_layer_switch_get_action ops key e))"

text \<open>A key with one term and one choice of each kind, whatever the state.\<close>

definition dual_role :: "'e tapping_ops \<Rightarrow> keypos_t \<Rightarrow> u16 \<Rightarrow> bool \<Rightarrow> bool \<Rightarrow> bool" where
  "dual_role ops key term perm other \<longleftrightarrow> (\<forall>e. is_tap_action (op_layer_switch_get_action ops key e))
     \<and> (\<forall>r e. key_of r = key \<longrightarrow> op_get_tapping_term ops r e = term \<and> op_get_permissive_hold ops r e = perm
          \<and> op_get_hold_on_other_key_press ops r e = other)"

definition quiet :: "'e tapping \<Rightarrow> bool" where
  "quiet s \<longleftrightarrow> tapping_ok s \<and> IS_NOEVENT (kr_event (tapping_key s)) \<and> buffered s = []"

definition waits :: "keyevent_t \<Rightarrow> keyevent_t list \<Rightarrow> 'e tapping \<Rightarrow> bool" where
  "waits e0 B s \<longleftrightarrow> tapping_ok s \<and> kr_event (tapping_key s) = e0 \<and> taps (tapping_key s) = 0
     \<and> buffered s = map event_record B"

abbreviation seen :: "tap_log list \<Rightarrow> (keyevent_t \<times> 4 word) list" where
  "seen l \<equiv> map (\<lambda>r. (kr_event r, taps r)) (processed l)"

lemma processed_map [simp]:
  "processed (map Processed rs) = rs" "processed (map (\<lambda>x. Processed (f x)) xs) = map f xs"
  by (induction rs, simp_all) (induction xs, simp_all)

lemma logging_sel [simp]:
  "op_layer_switch_get_action (logging ops) k x = op_layer_switch_get_action ops k (fst x)"
  "op_get_tapping_term (logging ops) r x = op_get_tapping_term ops r (fst x)"
  "op_get_permissive_hold (logging ops) r x = op_get_permissive_hold ops r (fst x)"
  "op_get_hold_on_other_key_press (logging ops) r x = op_get_hold_on_other_key_press ops r (fst x)"
  by (simp_all add: logging_def)

lemma event_record_sel [simp]:
  "kr_event (event_record e) = e" "kr_tap (event_record e) = no_tap" "tap_count no_tap = 0"
  by (simp_all add: event_record_def no_tap_def)

context record_processor
begin

text \<open>With no tapping key, the events of keys with one role go straight through.\<close>

lemma reset_through:
  assumes "IS_NOEVENT (kr_event (tapping_key s))" "IS_EVENT (kr_event r)" "single_role ops (key_of r) \<or> \<not> pressed r"
  shows "\<exists>r' t. process_tapping (logging ops) r s = (True, r', t) \<and> tap_log t = tap_log s @ [Processed r]
    \<and> tapping_key t = tapping_key s \<and> waiting_buffer t = waiting_buffer s
    \<and> waiting_buffer_head t = waiting_buffer_head s \<and> waiting_buffer_tail t = waiting_buffer_tail s"
proof -
  obtain e l where s: "rest s = (e, l)" by (cases "rest s")
  obtain r2 e2 where p: "op_process_record ops r e = (r2, e2)" by (cases "op_process_record ops r e")
  have "\<not> (pressed r \<and> is_tap_record (logging ops) r s)"
    using assms(2,3) by (auto simp: is_tap_record_def single_role_def IS_EVENT_iff)
  then have "process_tapping (logging ops) r s = (True, process_other (logging ops) r s)"
    using assms(1,2) by (auto simp: process_tapping_def tapping_reset_def)
  moreover have "process_other (logging ops) r s = (r2, s\<lparr>rest := (e2, l @ [Processed r])\<rparr>)"
    by (simp add: process_other_def s logging_def p)
  ultimately show ?thesis using s by simp
qed

lemma drain:
  assumes "tapping_ok s" "IS_NOEVENT (kr_event (tapping_key s))" "buffered s = rs" "length rs \<le> n"
    and "\<forall>r \<in> set rs. IS_EVENT (kr_event r) \<and> (single_role ops (key_of r) \<or> \<not> pressed r)"
  shows "quiet (process_waiting n (logging ops) s)
    \<and> tap_log (process_waiting n (logging ops) s) = tap_log s @ map Processed rs"
  using assms
proof (induction n arbitrary: s rs)
  case 0
  then show ?case by (simp add: quiet_def)
next
  case (Suc n)
  show ?case
  proof (cases rs)
    case Nil
    then show ?thesis using Suc.prems waiting_Nil[OF Suc.prems(1), of "Suc n" "logging ops"] by (simp add: quiet_def)
  next
    case (Cons r rs')
    from reset_through[OF Suc.prems(2), of r] Suc.prems(5) Cons obtain r' t where
      p: "process_tapping (logging ops) r s = (True, r', t)" "tap_log t = tap_log s @ [Processed r]"
        "tapping_key t = tapping_key s" "waiting_buffer t = waiting_buffer s"
        "waiting_buffer_head t = waiting_buffer_head s" "waiting_buffer_tail t = waiting_buffer_tail s" by auto
    have "key_ok t" using p(3) Suc.prems(1) by (simp add: key_ok_def tapping_ok_def)
    from waiting_Cons[OF Suc.prems(1) _ p(1,4,5,6) this, of rs' n] Suc.prems(3) Cons obtain u where
      u: "process_waiting (Suc n) (logging ops) s = process_waiting n (logging ops) u" "tapping_ok u"
        "buffered u = rs'" "tapping_key u = tapping_key t" "rest u = rest t" by auto
    from Suc.IH[OF u(2) _ u(3)] Suc.prems Cons u p show ?thesis by simp
  qed
qed

lemma quiet_tick:
  assumes "quiet s" "IS_NOEVENT e"
  shows "action_tapping_process (logging ops) (event_record e) s = s"
  using assms waiting_Nil[of s WAITING_BUFFER_SIZE "logging ops"]
  by (simp add: quiet_def action_tapping_process_def process_tapping_def tapping_reset_def IS_EVENT_iff)

lemma quiet_event:
  assumes "quiet s" "IS_EVENT e" "single_role ops (ev_key e) \<or> \<not> ev_pressed e"
  shows "quiet (action_tapping_process (logging ops) (event_record e) s)
    \<and> tap_log (action_tapping_process (logging ops) (event_record e) s) = tap_log s @ [Processed (event_record e)]"
proof -
  from reset_through[of s "event_record e"] assms obtain r' t where
    p: "process_tapping (logging ops) (event_record e) s = (True, r', t)" "tap_log t = tap_log s @ [Processed (event_record e)]"
      "tapping_key t = tapping_key s" "waiting_buffer t = waiting_buffer s"
      "waiting_buffer_head t = waiting_buffer_head s" "waiting_buffer_tail t = waiting_buffer_tail s"
    by (auto simp: quiet_def)
  then have "quiet t" using assms(1) by (simp add: quiet_def tapping_ok_def buffered_def)
  then have "process_waiting WAITING_BUFFER_SIZE (logging ops) t = t"
    using waiting_Nil[of t] by (simp add: quiet_def)
  with \<open>quiet t\<close> p show ?thesis by (simp add: action_tapping_process_def)
qed

lemma quiet_press:
  assumes "quiet s" "IS_EVENT e" "ev_pressed e" "dual_role ops (ev_key e) tm perm other"
  shows "waits e [] (action_tapping_process (logging ops) (event_record e) s)
    \<and> tap_log (action_tapping_process (logging ops) (event_record e) s) = tap_log s"
proof -
  let ?t = "s\<lparr>tapping_key := event_record e\<rparr>"
  have b: "buffered ?t = []" and ok: "tapping_ok ?t"
    using assms(1,2) by (simp_all add: quiet_def buffered_def tapping_ok_def)
  have "wb_indices ?t = []"
    using b assms(1) by (simp add: wb_indices_def buffered_def ring_list_def quiet_def tapping_ok_def)
  then have "waiting_buffer_scan_tap (logging ops) ?t = ?t" by (simp add: waiting_buffer_scan_tap_def)
  moreover have "is_tap_record (logging ops) (event_record e) s"
    using assms(2,4) by (simp add: is_tap_record_def dual_role_def IS_EVENT_iff)
  ultimately have p: "process_tapping (logging ops) (event_record e) s = (True, event_record e, ?t)"
    using assms(1-3) by (simp add: process_tapping_def tapping_reset_def quiet_def)
  have "process_waiting WAITING_BUFFER_SIZE (logging ops) ?t = ?t" by (rule waiting_Nil[OF ok b])
  with p ok b show ?thesis by (simp add: action_tapping_process_def waits_def)
qed

end

text \<open>\<open>e\<close> comes within the term of the press \<open>e0\<close>.\<close>

definition in_term :: "u16 \<Rightarrow> keyevent_t \<Rightarrow> keyevent_t \<Rightarrow> bool" where
  "in_term tm e0 e \<longleftrightarrow> ev_time e - ev_time e0 < tm"

lemma within_iff:
  assumes "dual_role ops (key_of (tapping_key s)) tm perm other"
  shows "WITHIN_TAPPING_TERM (logging ops) e s \<longleftrightarrow> in_term tm (kr_event (tapping_key s)) e"
  using assms by (simp add: WITHIN_TAPPING_TERM_def TIMER_DIFF_16_def in_term_def dual_role_def)

lemma single_dual: "single_role ops k \<Longrightarrow> dual_role ops l tm perm other \<Longrightarrow> k \<noteq> l"
  by (auto simp: single_role_def dual_role_def)

context record_processor
begin

text \<open>The tapping key is settled as held, and everything that waited goes through.\<close>

lemma settle_hold:
  assumes "waits e0 B s" "length B < WAITING_BUFFER_SIZE - 1"
    and "\<forall>b \<in> set B. IS_EVENT b \<and> single_role ops (ev_key b)"
    and "IS_EVENT e \<Longrightarrow> single_role ops (ev_key e) \<or> \<not> ev_pressed e"
    and "kr_event k = e0" "taps k = 0"
    and p: "process_tapping (logging ops) (event_record e) s
      = (False, event_record e, (process_tapping_key (logging ops) (s\<lparr>tapping_key := k\<rparr>))\<lparr>tapping_key := no_record\<rparr>)"
  shows "quiet (action_tapping_process (logging ops) (event_record e) s)
    \<and> seen (tap_log (action_tapping_process (logging ops) (event_record e) s))
      = seen (tap_log s) @ (e0, 0) # map (\<lambda>b. (b, 0)) (B @ (if IS_EVENT e then [e] else []))"
proof -
  let ?h = "(process_tapping_key (logging ops) (s\<lparr>tapping_key := k\<rparr>))\<lparr>tapping_key := no_record\<rparr>"
  obtain x l where s: "rest s = (x, l)" by (cases "rest s")
  have h: "tap_log ?h = tap_log s @ [Processed k]" "buffered ?h = map event_record B" "tapping_ok ?h"
    "IS_NOEVENT (kr_event (tapping_key ?h))"
    using assms(1) by (auto simp: s process_tapping_key_def logging_def buffered_def tapping_ok_def waits_def no_record_def
        IS_NOEVENT_def split: prod.splits)
  have n: "length B < 8 - 1" using assms(2) by (simp add: WAITING_BUFFER_SIZE_def)
  show ?thesis
  proof (cases "IS_EVENT e")
    case False
    then have "waiting_buffer_enq (event_record e) ?h = (?h, True)" by (simp add: waiting_buffer_enq_def IS_EVENT_iff)
    then have "action_tapping_process (logging ops) (event_record e) s = process_waiting WAITING_BUFFER_SIZE (logging ops) ?h"
      using p by (simp add: action_tapping_process_def)
    with drain[OF h(3,4,2), of WAITING_BUFFER_SIZE] n False assms(3,5,6) h(1) show ?thesis
      by (simp add: WAITING_BUFFER_SIZE_def comp_def processed_map)
  next
    case True
    obtain u q where e: "waiting_buffer_enq (event_record e) ?h = (u, q)" by (cases "waiting_buffer_enq (event_record e) ?h")
    have "untapped_press (event_record e)" using True by (simp add: untapped_press_def)
    from enq_buffered[OF h(3) e this] True n h(2) have u: "q" "buffered u = map event_record B @ [event_record e]"
      "tapping_key u = tapping_key ?h" "rest u = rest ?h" "tapping_ok u"
      by (auto simp: IS_EVENT_iff WAITING_BUFFER_SIZE_def split: if_splits)
    have "action_tapping_process (logging ops) (event_record e) s = process_waiting WAITING_BUFFER_SIZE (logging ops) u"
      using p e u(1) by (simp add: action_tapping_process_def)
    with drain[OF u(5) _ u(2), of WAITING_BUFFER_SIZE] n True assms(3,4,5,6) h u show ?thesis
      by (simp add: WAITING_BUFFER_SIZE_def comp_def processed_map)
  qed
qed

end

lemma buffered_indices:
  assumes "tapping_ok s"
  shows "buffered s = map (\<lambda>i. waiting_buffer s ! i) (wb_indices s)"
  using assms by (simp add: buffered_def ring_list_def wb_indices_def tapping_ok_def)

lemma typed_iff:
  assumes "tapping_ok s"
  shows "waiting_buffer_typed e s \<longleftrightarrow> (\<exists>r \<in> set (buffered s). key_of r = ev_key e \<and> pressed r \<noteq> ev_pressed e)"
proof -
  have "waiting_buffer_typed e s \<longleftrightarrow> list_ex (\<lambda>r. key_of r = ev_key e \<and> pressed r \<noteq> ev_pressed e) (buffered s)"
    unfolding buffered_indices[OF assms] waiting_buffer_typed_def list_ex_iff Let_def KEYEQ_iff
    by (simp add: eq_commute)
  then show ?thesis by (simp add: list_ex_iff)
qed

text \<open>
  The events that may wait: of keys with one role, within the term, a press first, and no press at
  all when a press already settles the tapping key.
\<close>

definition waits_ok :: "'e tapping_ops \<Rightarrow> u16 \<Rightarrow> bool \<Rightarrow> keyevent_t \<Rightarrow> keyevent_t list \<Rightarrow> bool" where
  "waits_ok ops tm other e0 B \<longleftrightarrow> (\<forall>b \<in> set B. IS_EVENT b \<and> single_role ops (ev_key b) \<and> in_term tm e0 b)
     \<and> (B \<noteq> [] \<longrightarrow> ev_pressed (hd B) \<and> \<not> other)"

definition dual_press :: "'e tapping_ops \<Rightarrow> u16 \<Rightarrow> bool \<Rightarrow> bool \<Rightarrow> keyevent_t \<Rightarrow> bool" where
  "dual_press ops tm perm other e0 \<longleftrightarrow> IS_EVENT e0 \<and> ev_pressed e0 \<and> dual_role ops (ev_key e0) tm perm other"

lemma choices:
  assumes "dual_press ops tm perm other e0" "key_of r = ev_key e0"
  shows "op_get_permissive_hold (logging ops) r x = perm" "op_get_hold_on_other_key_press (logging ops) r x = other"
  using assms by (simp_all add: dual_role_def dual_press_def)

lemma waits_within:
  assumes "dual_press ops tm perm other e0" "waits e0 B s"
  shows "WITHIN_TAPPING_TERM (logging ops) e s \<longleftrightarrow> in_term tm e0 e" "\<not> IS_NOEVENT (kr_event (tapping_key s))"
    "pressed (tapping_key s)"
proof -
  have "dual_role ops (key_of (tapping_key s)) tm perm other" using assms by (simp add: waits_def dual_press_def)
  from within_iff[OF this] show "WITHIN_TAPPING_TERM (logging ops) e s \<longleftrightarrow> in_term tm e0 e"
    using assms(2) by (simp add: waits_def)
qed (use assms in \<open>simp_all add: waits_def dual_press_def IS_EVENT_iff\<close>)

lemma undecided_step:
  assumes "dual_press ops tm perm other e0" "waits e0 B s" "in_term tm e0 e" "IS_EVENT e"
  shows "process_tapping (logging ops) (event_record e) s = tapping_undecided (logging ops) (event_record e) s"
  using waits_within[OF assms(1,2)] assms by (simp add: process_tapping_def waits_def IS_EVENT_iff)

lemma late_step:
  assumes "dual_press ops tm perm other e0" "waits e0 B s" "\<not> in_term tm e0 e"
  shows "process_tapping (logging ops) (event_record e) s
    = (False, event_record e, (process_tapping_key (logging ops) s)\<lparr>tapping_key := no_record\<rparr>)"
  using waits_within[OF assms(1,2)] assms by (simp add: process_tapping_def waits_def IS_EVENT_iff)

lemma press_step:
  assumes "dual_press ops tm perm other e0" "waits e0 B s" "in_term tm e0 e" "IS_EVENT e" "ev_pressed e"
  shows "process_tapping (logging ops) (event_record e) s
    = (if other then (False, event_record e,
         (process_tapping_key (logging ops) (s\<lparr>tapping_key := set_interrupted (tapping_key s)\<rparr>))\<lparr>tapping_key := no_record\<rparr>)
       else (False, event_record e, s\<lparr>tapping_key := set_interrupted (tapping_key s)\<rparr>))"
  unfolding undecided_step[OF assms(1-4)]
  using assms(1,2,5) choices[OF assms(1)] by (simp add: tapping_undecided_def Let_def waits_def del: logging_sel)

lemma release_step:
  assumes "dual_press ops tm perm other e0" "waits e0 B s" "in_term tm e0 e" "IS_EVENT e" "\<not> ev_pressed e"
    and "ev_key e \<noteq> ev_key e0" "\<exists>b \<in> set B. ev_pressed b \<and> ev_key b = ev_key e"
  shows "process_tapping (logging ops) (event_record e) s
    = (if perm then (False, event_record e, (process_tapping_key (logging ops) s)\<lparr>tapping_key := no_record\<rparr>)
       else (False, event_record e, s))"
proof -
  have "tapping_ok s" using assms(2) by (simp add: waits_def)
  from typed_iff[OF this, of e] have t: "waiting_buffer_typed e s" using assms(2,5,7) by (auto simp: waits_def)
  have "\<not> IS_TAPPING_RECORD (event_record e) s" using assms(2,6) by (auto simp: IS_TAPPING_RECORD_def KEYEQ_iff waits_def)
  then show ?thesis unfolding undecided_step[OF assms(1-4)]
    using assms(2,5) t choices[OF assms(1)] by (simp add: tapping_undecided_def waits_def del: logging_sel)
qed

context record_processor
begin

lemma loop_keeps:
  assumes "dual_press ops tm perm other e0" "waits e0 B s" "waits_ok ops tm other e0 B"
  shows "waits e0 B (process_waiting n (logging ops) s) \<and> tap_log (process_waiting n (logging ops) s) = tap_log s"
proof (cases B)
  case Nil
  then show ?thesis using assms waiting_Nil[of s n] by (simp add: waits_def)
next
  case (Cons b B')
  show ?thesis
  proof (cases n)
    case (Suc m)
    let ?t = "s\<lparr>tapping_key := set_interrupted (tapping_key s)\<rparr>"
    have b: "in_term tm e0 b" "IS_EVENT b" "ev_pressed b" "\<not> other"
      using assms(3) Cons by (auto simp: waits_ok_def)
    have p: "process_tapping (logging ops) (event_record b) s = (False, event_record b, ?t)"
      using press_step[OF assms(1,2) b(1-3)] b(4) by simp
    have "key_ok ?t" using assms(1,2) by (simp add: key_ok_def waits_def dual_press_def)
    from waiting_Cons[OF _ _ p _ _ _ this, of "map event_record B'" m] assms(2) Cons
    have "process_waiting n (logging ops) s = ?t \<and> tapping_ok ?t \<and> buffered ?t = buffered s"
      by (simp add: waits_def Suc)
    with assms(2) show ?thesis by (simp add: waits_def)
  qed (use assms in simp)
qed

lemma tick_keeps:
  assumes "dual_press ops tm perm other e0" "waits e0 B s" "waits_ok ops tm other e0 B" "in_term tm e0 e" "IS_NOEVENT e"
  shows "waits e0 B (action_tapping_process (logging ops) (event_record e) s)
    \<and> tap_log (action_tapping_process (logging ops) (event_record e) s) = tap_log s"
proof -
  have "process_tapping (logging ops) (event_record e) s = (True, event_record e, s)"
    using waits_within[OF assms(1,2)] assms by (simp add: process_tapping_def)
  then show ?thesis using loop_keeps[OF assms(1-3)] by (simp add: action_tapping_process_def)
qed

lemma enq_keeps:
  assumes "dual_press ops tm perm other e0" "waits e0 B s" "waits_ok ops tm other e0 (B @ [e])"
    and "length B < WAITING_BUFFER_SIZE - 1"
    and "process_tapping (logging ops) (event_record e) s = (False, event_record e, s\<lparr>tapping_key := k\<rparr>)"
    and "kr_event k = e0" "taps k = 0"
  shows "waits e0 (B @ [e]) (action_tapping_process (logging ops) (event_record e) s)
    \<and> tap_log (action_tapping_process (logging ops) (event_record e) s) = tap_log s"
proof -
  let ?k = "s\<lparr>tapping_key := k\<rparr>"
  have k: "tapping_ok ?k" "buffered ?k = map event_record B"
    using assms(1,2,6) by (simp_all add: waits_def tapping_ok_def buffered_def dual_press_def)
  have ev: "IS_EVENT e" using assms(3) by (simp add: waits_ok_def)
  obtain u q where e: "waiting_buffer_enq (event_record e) ?k = (u, q)" by (cases "waiting_buffer_enq (event_record e) ?k")
  have "untapped_press (event_record e)" using ev by (simp add: untapped_press_def)
  from enq_buffered[OF k(1) e this] ev assms(4) k(2) have u: "q" "buffered u = map event_record (B @ [e])"
    "tapping_key u = k" "rest u = rest s" "tapping_ok u"
    by (auto simp: IS_EVENT_iff split: if_splits)
  then have "waits e0 (B @ [e]) u" using assms(6,7) by (simp add: waits_def)
  from loop_keeps[OF assms(1) this assms(3)] u e assms(5) show ?thesis by (simp add: action_tapping_process_def)
qed

end

section \<open>While the tapping key is undecided\<close>

text \<open>Events that settle the tapping key as held.\<close>

definition settles :: "u16 \<Rightarrow> bool \<Rightarrow> bool \<Rightarrow> keyevent_t \<Rightarrow> keyevent_t \<Rightarrow> bool" where
  "settles tm perm other e0 e \<longleftrightarrow> \<not> in_term tm e0 e \<or> IS_EVENT e \<and> (if ev_pressed e then other else perm)"

text \<open>Ticks, and events of keys with a single role, where a key is released only after its press.\<close>

definition follows :: "'e tapping_ops \<Rightarrow> keyevent_t list \<Rightarrow> keyevent_t \<Rightarrow> bool" where
  "follows ops es e \<longleftrightarrow> IS_NOEVENT e
     \<or> single_role ops (ev_key e) \<and> (ev_pressed e \<or> (\<exists>b \<in> set es. is_press b \<and> ev_key b = ev_key e))"

definition between :: "'e tapping_ops \<Rightarrow> keyevent_t list \<Rightarrow> bool" where
  "between ops es \<longleftrightarrow> (\<forall>i < length es. follows ops (take i es) (es ! i))"

lemma between_snoc: "between ops (es @ [e]) \<longleftrightarrow> between ops es \<and> follows ops es e"
  by (auto simp: between_def nth_append less_Suc_eq)

lemma between_single:
  assumes "between ops es" "e \<in> set es" "IS_EVENT e"
  shows "single_role ops (ev_key e)"
  using assms by (auto simp: between_def in_set_conv_nth follows_def IS_EVENT_iff)

lemma between_first:
  assumes "between ops es" "filter IS_EVENT es \<noteq> []"
  shows "ev_pressed (hd (filter IS_EVENT es))"
  using assms
proof (induction es rule: rev_induct)
  case (snoc e es)
  show ?case
  proof (cases "filter IS_EVENT es = []")
    case True
    then show ?thesis using snoc.prems
      by (auto simp: between_snoc follows_def is_press_def IS_EVENT_iff filter_empty_conv split: if_splits)
  qed (use snoc in \<open>auto simp: between_snoc\<close>)
qed simp

definition phase ::
    "u16 \<Rightarrow> bool \<Rightarrow> bool \<Rightarrow> keyevent_t \<Rightarrow> keyevent_t list \<Rightarrow> (keyevent_t \<times> 4 word) list
      \<Rightarrow> ('e \<times> tap_log list) tapping \<Rightarrow> bool" where
  "phase tm perm other e0 es L s \<longleftrightarrow>
     (if list_ex (settles tm perm other e0) es
      then quiet s \<and> seen (tap_log s) = L @ (e0, 0) # map (\<lambda>e. (e, 0)) (filter IS_EVENT es)
      else waits e0 (filter IS_EVENT es) s \<and> seen (tap_log s) = L)"

lemma phase_waits_ok:
  assumes "between ops es" "\<not> list_ex (settles tm perm other e0) es"
  shows "waits_ok ops tm other e0 (filter IS_EVENT es)"
proof -
  have *: "IS_EVENT b \<and> single_role ops (ev_key b) \<and> in_term tm e0 b \<and> (ev_pressed b \<longrightarrow> \<not> other)"
    if "b \<in> set (filter IS_EVENT es)" for b
    using between_single[OF assms(1), of b] that assms(2) by (auto simp: list_ex_iff settles_def split: if_splits)
  have "\<not> other" if "filter IS_EVENT es \<noteq> []"
    using *[OF hd_in_set[OF that]] between_first[OF assms(1) that] by simp
  with * between_first[OF assms(1)] show ?thesis unfolding waits_ok_def by blast
qed

context record_processor
begin

lemma phase_step:
  assumes d: "dual_press ops tm perm other e0" and ph: "phase tm perm other e0 es L s"
    and b: "between ops (es @ [e])" and n: "length (filter IS_EVENT es) < WAITING_BUFFER_SIZE - 1"
  shows "phase tm perm other e0 (es @ [e]) L (action_tapping_process (logging ops) (event_record e) s)"
proof -
  let ?B = "filter IS_EVENT es" and ?t = "action_tapping_process (logging ops) (event_record e) s"
  have be: "between ops es" and fe: "follows ops es e" using b by (simp_all add: between_snoc)
  have sr: "IS_EVENT e \<Longrightarrow> single_role ops (ev_key e)" using fe by (auto simp: follows_def IS_EVENT_iff)
  show ?thesis
  proof (cases "list_ex (settles tm perm other e0) es")
    case True
    then have q: "quiet s" "seen (tap_log s) = L @ (e0, 0) # map (\<lambda>e. (e, 0)) ?B" using ph by (simp_all add: phase_def)
    show ?thesis
    proof (cases "IS_EVENT e")
      case False
      then show ?thesis using quiet_tick[OF q(1), of e] q True by (simp add: phase_def IS_EVENT_iff)
    next
      case ev: True
      then show ?thesis using quiet_event[OF q(1) ev] sr q True by (simp add: phase_def)
    qed
  next
    case False
    then have w: "waits e0 ?B s" "seen (tap_log s) = L" using ph by (simp_all add: phase_def)
    have ok: "waits_ok ops tm other e0 ?B" by (rule phase_waits_ok[OF be False])
    have B: "\<forall>b \<in> set ?B. IS_EVENT b \<and> single_role ops (ev_key b)" using ok by (simp add: waits_ok_def)
    have tk: "kr_event (tapping_key s) = e0" "taps (tapping_key s) = 0" using w(1) by (simp_all add: waits_def)
    have hold: "phase tm perm other e0 (es @ [e]) L ?t" if "settles tm perm other e0 e" "kr_event k = e0" "taps k = 0"
        "process_tapping (logging ops) (event_record e) s
          = (False, event_record e, (process_tapping_key (logging ops) (s\<lparr>tapping_key := k\<rparr>))\<lparr>tapping_key := no_record\<rparr>)" for k
      using settle_hold[OF w(1) n B _ that(2-4)] sr w(2) that(1) by (auto simp: phase_def)
    have keep: "phase tm perm other e0 (es @ [e]) L ?t" if "\<not> settles tm perm other e0 e" "IS_EVENT e"
        "kr_event k = e0" "taps k = 0"
        "process_tapping (logging ops) (event_record e) s = (False, event_record e, s\<lparr>tapping_key := k\<rparr>)" for k
    proof -
      have "\<not> list_ex (settles tm perm other e0) (es @ [e])" using False that(1) by simp
      from phase_waits_ok[OF b this] that(2) have "waits_ok ops tm other e0 (?B @ [e])" by simp
      from enq_keeps[OF d w(1) this n that(5,3,4)] w(2) that(1,2) False show ?thesis by (simp add: phase_def)
    qed
    consider "\<not> in_term tm e0 e" | "in_term tm e0 e" "IS_NOEVENT e" | "in_term tm e0 e" "IS_EVENT e" "ev_pressed e"
      | "in_term tm e0 e" "IS_EVENT e" "\<not> ev_pressed e" by (auto simp: IS_EVENT_iff)
    then show ?thesis
    proof cases
      case 1
      then show ?thesis using late_step[OF d w(1) 1] tk by (intro hold[of "tapping_key s"]) (auto simp: settles_def)
    next
      case 2
      then show ?thesis using tick_keeps[OF d w(1) ok 2] w(2) False by (simp add: phase_def settles_def IS_EVENT_iff)
    next
      case 3
      then show ?thesis using press_step[OF d w(1) 3] tk hold[of "set_interrupted (tapping_key s)"]
          keep[of "set_interrupted (tapping_key s)"] by (auto simp: settles_def split: if_splits)
    next
      case 4
      have "ev_key e \<noteq> ev_key e0" using single_dual sr 4(2) d unfolding dual_press_def by blast
      moreover have "\<exists>b \<in> set ?B. ev_pressed b \<and> ev_key b = ev_key e"
        using fe 4 by (auto simp: follows_def is_press_def IS_EVENT_iff)
      ultimately show ?thesis using release_step[OF d w(1) 4] tk 4 hold[of "tapping_key s"] keep[of "tapping_key s"]
        by (auto simp: settles_def split: if_splits)
    qed
  qed
qed

end

section \<open>Tapped\<close>

definition tapped :: "keyevent_t \<Rightarrow> 'e tapping \<Rightarrow> bool" where
  "tapped e0 s \<longleftrightarrow> IS_EVENT (kr_event (tapping_key s)) \<and> key_of (tapping_key s) = ev_key e0
     \<and> time_of (tapping_key s) = ev_time e0 \<and> taps (tapping_key s) = 1"

lemma other_log:
  "\<exists>r' t. process_other (logging ops) r s = (r', t) \<and> tap_log t = tap_log s @ [Processed r]
    \<and> tapping_key t = tapping_key s \<and> waiting_buffer t = waiting_buffer s
    \<and> waiting_buffer_head t = waiting_buffer_head s \<and> waiting_buffer_tail t = waiting_buffer_tail s"
proof -
  obtain e l where s: "rest s = (e, l)" by (cases "rest s")
  obtain r2 e2 where p: "op_process_record ops r e = (r2, e2)" by (cases "op_process_record ops r e")
  have "process_other (logging ops) r s = (r2, s\<lparr>rest := (e2, l @ [Processed r])\<rparr>)"
    by (simp add: process_other_def s logging_def p)
  with s show ?thesis by simp
qed

text \<open>One record in this state: an event of another key, or the release of the tapping key.\<close>

lemma tapped_step:
  fixes ops :: "'e tapping_ops" and s :: "('e \<times> tap_log list) tapping"
  assumes d: "dual_press ops tm perm other e0" and t: "tapped e0 s" and r: "IS_EVENT (kr_event r)" "in_term tm e0 (kr_event r)"
    and c: "single_role ops (key_of r) \<or> key_of r = ev_key e0 \<and> \<not> pressed r \<and> taps r = 1"
  shows "\<exists>r' u. process_tapping (logging ops) r s = (True, r', u)
    \<and> seen (tap_log u) = seen (tap_log s) @ [(kr_event r, taps r)]
    \<and> waiting_buffer u = waiting_buffer s \<and> waiting_buffer_head u = waiting_buffer_head s
    \<and> waiting_buffer_tail u = waiting_buffer_tail s \<and> (single_role ops (key_of r) \<longrightarrow> tapped e0 u)"
proof -
  have dual: "dual_role ops (ev_key e0) tm perm other" using d by (simp add: dual_press_def)
  then have w: "WITHIN_TAPPING_TERM (logging ops) (kr_event r) s"
    using t r(2) by (simp add: WITHIN_TAPPING_TERM_def TIMER_DIFF_16_def in_term_def dual_role_def tapped_def)
  have step: "process_tapping (logging ops) r s = (if pressed (tapping_key s)
      then tapping_tapped (logging ops) True r s else tapping_released (logging ops) r s)"
    using t r(1) w by (simp add: process_tapping_def tapped_def IS_EVENT_iff)
  show ?thesis
  proof (cases "single_role ops (key_of r)")
    case True
    then have "\<not> IS_TAPPING_RECORD r s" using single_dual[OF True dual] t by (simp add: IS_TAPPING_RECORD_def KEYEQ_iff tapped_def)
    moreover have "\<not> is_tap_record (logging ops) r s" using True by (simp add: is_tap_record_def single_role_def)
    ultimately have "\<exists>k. tapped e0 (s\<lparr>tapping_key := k\<rparr>)
        \<and> process_tapping (logging ops) r s = (True, process_other (logging ops) r (s\<lparr>tapping_key := k\<rparr>))"
      using t unfolding step tapping_tapped_def tapping_released_def
      by (intro exI[of _ "if pressed (tapping_key s) \<or> \<not> pressed r then tapping_key s else set_interrupted (tapping_key s)"])
        (simp add: tapped_def)
    then obtain k where k: "tapped e0 (s\<lparr>tapping_key := k\<rparr>)"
      "process_tapping (logging ops) r s = (True, process_other (logging ops) r (s\<lparr>tapping_key := k\<rparr>))" by blast
    from other_log[of ops r "s\<lparr>tapping_key := k\<rparr>"] k show ?thesis by (auto simp: tapped_def)
  next
    case False
    then have m: "IS_TAPPING_RECORD r s" "\<not> pressed r" "taps r = 1"
      using c t by (auto simp: IS_TAPPING_RECORD_def KEYEQ_iff tapped_def)
    let ?k = "if pressed (tapping_key s) then r\<lparr>kr_tap := kr_tap (tapping_key s)\<rparr> else r"
    obtain r' u where o: "process_other (logging ops) ?k s = (r', u)" "tap_log u = tap_log s @ [Processed ?k]"
      "waiting_buffer u = waiting_buffer s" "waiting_buffer_head u = waiting_buffer_head s"
      "waiting_buffer_tail u = waiting_buffer_tail s"
      using other_log[of ops ?k s] by blast
    have "\<exists>k. process_tapping (logging ops) r s = (True, r', u\<lparr>tapping_key := k\<rparr>)"
    proof (cases "pressed (tapping_key s)")
      case True
      then show ?thesis using m o(1) unfolding step tapping_tapped_def by auto
    next
      case False
      then have "process_tapping (logging ops) r s = (True, r', u\<lparr>tapping_key := tapping_key u\<rparr>)"
        using m(2) o(1) unfolding step tapping_released_def by simp
      then show ?thesis by blast
    qed
    with o m False t show ?thesis by (auto simp: tapped_def)
  qed
qed

context record_processor
begin

lemma drain_tapped:
  assumes "dual_press ops tm perm other e0" "tapping_ok s" "tapped e0 s" "buffered s = rs @ [r1]" "length rs < n"
    and "\<forall>r \<in> set rs. IS_EVENT (kr_event r) \<and> in_term tm e0 (kr_event r) \<and> single_role ops (key_of r)"
    and "IS_EVENT (kr_event r1)" "in_term tm e0 (kr_event r1)" "key_of r1 = ev_key e0" "\<not> pressed r1" "taps r1 = 1"
  shows "seen (tap_log (process_waiting n (logging ops) s)) = seen (tap_log s) @ map (\<lambda>r. (kr_event r, taps r)) (rs @ [r1])"
  using assms(2-6)
proof (induction rs arbitrary: n s)
  case Nil
  then obtain m where m: "n = Suc m" by (cases n) auto
  from tapped_step[OF assms(1) Nil.prems(2) assms(7,8)] assms(9-11) obtain r' u where
    p: "process_tapping (logging ops) r1 s = (True, r', u)" "seen (tap_log u) = seen (tap_log s) @ [(kr_event r1, taps r1)]"
      "waiting_buffer u = waiting_buffer s" "waiting_buffer_head u = waiting_buffer_head s"
      "waiting_buffer_tail u = waiting_buffer_tail s" by blast
  have "turn s r1 (process_tapping (logging ops) r1 s)"
    using Nil.prems assms(10) by (intro process_tapping_turn) (auto simp: tapping_ok_def untapped_press_def key_ok_def)
  then have "key_ok u" unfolding p(1) by (auto simp: turn_def key_ok_def)
  from waiting_Cons[OF Nil.prems(1) _ p(1,3,4,5) this, of "[]" m] Nil.prems(3) obtain v where
    v: "process_waiting n (logging ops) s = process_waiting m (logging ops) v" "tapping_ok v" "buffered v = []" "rest v = rest u"
    by (auto simp: m)
  then show ?case using waiting_Nil[OF v(2,3)] p(2) by simp
next
  case (Cons r rs)
  then obtain m where m: "n = Suc m" by (cases n) auto
  have r: "IS_EVENT (kr_event r)" "in_term tm e0 (kr_event r)" "single_role ops (key_of r)" using Cons.prems by auto
  from tapped_step[OF assms(1) Cons.prems(2) r(1,2)] r(3) obtain r' u where
    p: "process_tapping (logging ops) r s = (True, r', u)" "seen (tap_log u) = seen (tap_log s) @ [(kr_event r, taps r)]"
      "waiting_buffer u = waiting_buffer s" "waiting_buffer_head u = waiting_buffer_head s"
      "waiting_buffer_tail u = waiting_buffer_tail s" "tapped e0 u" by blast
  have "key_ok u" using p(6) by (simp add: tapped_def key_ok_def)
  from waiting_Cons[OF Cons.prems(1) _ p(1,3,4,5) this, of "rs @ [r1]" m] Cons.prems(3) obtain v where
    v: "process_waiting n (logging ops) s = process_waiting m (logging ops) v" "tapping_ok v" "buffered v = rs @ [r1]"
      "tapping_key v = tapping_key u" "rest v = rest u"
    by (auto simp: m)
  from Cons.IH[OF v(2) _ v(3), of m] v p Cons.prems(4,5) show ?case by (simp add: m tapped_def)
qed

lemma waits_tap:
  assumes d: "dual_press ops tm perm other e0" and w: "waits e0 B s" and ok: "waits_ok ops tm other e0 B"
    and n: "length B < WAITING_BUFFER_SIZE - 1"
    and e: "IS_EVENT e1" "\<not> ev_pressed e1" "ev_key e1 = ev_key e0" "in_term tm e0 e1"
  shows "seen (tap_log (action_tapping_process (logging ops) (event_record e1) s))
    = seen (tap_log s) @ (e0, 1) # map (\<lambda>b. (b, 0)) B @ [(e1, 1)]"
proof -
  obtain x l where s: "rest s = (x, l)" by (cases "rest s")
  let ?k = "set_taps 1 (tapping_key s)"
  obtain r2 x2 where o: "op_process_record ops ?k x = (r2, x2)" by (cases "op_process_record ops ?k x")
  let ?h = "s\<lparr>tapping_key := r2, rest := (x2, l @ [Processed ?k])\<rparr>"
  let ?r = "(event_record e1)\<lparr>kr_tap := kr_tap r2\<rparr>"
  have h: "process_tapping_key (logging ops) (s\<lparr>tapping_key := ?k\<rparr>) = ?h"
    by (simp add: process_tapping_key_def s logging_def o)
  have r2: "tapped e0 ?h" "taps r2 = 1" "pressed r2 \<longrightarrow> IS_EVENT (kr_event r2)"
    using record_kept[OF o] w d by (auto simp: tapped_def waits_def dual_press_def IS_EVENT_def)
  have p: "process_tapping (logging ops) (event_record e1) s = (False, ?r, ?h)"
    unfolding undecided_step[OF d w e(4,1)] tapping_undecided_def Let_def h
    using w e by (simp add: IS_TAPPING_RECORD_def KEYEQ_iff waits_def)
  have hok: "tapping_ok ?h" "buffered ?h = map event_record B"
    using w r2(3) by (simp_all add: waits_def tapping_ok_def buffered_def)
  obtain u q where q: "waiting_buffer_enq ?r ?h = (u, q)" by (cases "waiting_buffer_enq ?r ?h")
  have "untapped_press ?r" using e by (simp add: untapped_press_def)
  from enq_buffered[OF hok(1) q this] e(1) n hok(2) have u: "q" "buffered u = map event_record B @ [?r]"
    "tapping_key u = r2" "rest u = rest ?h" "tapping_ok u"
    by (auto simp: IS_EVENT_iff split: if_splits)
  have "tapped e0 u" using r2(1) u(3) by (simp add: tapped_def)
  from drain_tapped[OF d u(5) this u(2), of WAITING_BUFFER_SIZE] n ok e r2(2) u(1,4) p q w s show ?thesis
    by (auto simp: action_tapping_process_def waits_ok_def comp_def waits_def)
qed

text \<open>The release of the dual-role key ends the wait.\<close>

lemma phase_release:
  assumes d: "dual_press ops tm perm other e0" and ph: "phase tm perm other e0 es L s" and b: "between ops es"
    and n: "length (filter IS_EVENT es) < WAITING_BUFFER_SIZE - 1"
    and e: "IS_EVENT e1" "\<not> ev_pressed e1" "ev_key e1 = ev_key e0"
  shows "seen (tap_log (action_tapping_process (logging ops) (event_record e1) s))
    = L @ (let n = (if list_ex (settles tm perm other e0) es \<or> \<not> in_term tm e0 e1 then 0 else 1)
           in (e0, n) # map (\<lambda>b. (b, 0)) (filter IS_EVENT es) @ [(e1, n)])"
proof (cases "list_ex (settles tm perm other e0) es")
  case True
  then have q: "quiet s" "seen (tap_log s) = L @ (e0, 0) # map (\<lambda>e. (e, 0)) (filter IS_EVENT es)"
    using ph by (simp_all add: phase_def)
  with quiet_event[OF q(1) e(1)] e(2) True show ?thesis by simp
next
  case False
  then have w: "waits e0 (filter IS_EVENT es) s" "seen (tap_log s) = L" using ph by (simp_all add: phase_def)
  note ok = phase_waits_ok[OF b False]
  show ?thesis
  proof (cases "in_term tm e0 e1")
    case True
    from waits_tap[OF d w(1) ok n e True] w(2) False True show ?thesis by simp
  next
    case late: False
    have "\<forall>b \<in> set (filter IS_EVENT es). IS_EVENT b \<and> single_role ops (ev_key b)" using ok by (simp add: waits_ok_def)
    from settle_hold[OF w(1) n this, of e1 "tapping_key s"] late_step[OF d w(1) late] w False late e
    show ?thesis by (simp add: waits_def)
  qed
qed

end

end
