(* ===== verification/Firmware.thy ===== *)
theory Firmware
  imports Action Tapping_Policy
begin

text \<open>
  The path of a key event: \<open>action_exec\<close> (quantum/action.c) hands it to the tapping state machine,
  which hands records to the interpreter of actions. The state machine runs over the operations
  of the interpreter, and the interpreter keeps the contract \<open>record_processor\<close> of the state
  machine.

  The terms and choices per key are functions of the keycode, and the hooks of
  \<open>pre_process_record_quantum\<close>, built without combos, are parameters. The clock reading of a pass is the time of its
  event.
\<close>

section \<open>Composition\<close>

record firmware_cfg =
  FW_ACTION :: action_cfg
  get_tapping_term :: "16 word \<Rightarrow> keyrecord_t \<Rightarrow> 16 word"
  get_quick_tap_term :: "16 word \<Rightarrow> keyrecord_t \<Rightarrow> 16 word"
  get_permissive_hold :: "16 word \<Rightarrow> keyrecord_t \<Rightarrow> bool"
  get_hold_on_other_key_press :: "16 word \<Rightarrow> keyrecord_t \<Rightarrow> bool"
  pre_process_record_modules :: "16 word \<Rightarrow> keyrecord_t \<Rightarrow> action_util \<Rightarrow> action_util \<times> bool"
  pre_process_record_kb :: "16 word \<Rightarrow> keyrecord_t \<Rightarrow> action_util \<Rightarrow> action_util \<times> bool"

definition at_time :: "u16 \<Rightarrow> firmware_cfg \<Rightarrow> firmware_cfg" where
  "at_time now c = c\<lparr>FW_ACTION := (FW_ACTION c)\<lparr>AC_NOW := now\<rparr>\<rparr>"

definition firmware_ops :: "firmware_cfg \<Rightarrow> action_util tapping_ops" where
  "firmware_ops c = (let A = FW_ACTION c; keycode = (\<lambda>r s. snd (get_record_keycode A r False s))
     in \<lparr>op_process_record = process_record A,
         op_layer_switch_get_action = (\<lambda>key s. layer_switch_get_action (lcfg A) key (au_layers s)),
         op_get_tapping_term = (\<lambda>r s. get_tapping_term c (keycode r s) r),
         op_get_quick_tap_term = (\<lambda>r s. get_quick_tap_term c (keycode r s) r),
         op_get_permissive_hold = (\<lambda>r s. get_permissive_hold c (keycode r s) r),
         op_get_hold_on_other_key_press = (\<lambda>r s. get_hold_on_other_key_press c (keycode r s) r),
         op_clear_keyboard = clear_keyboard A\<rparr>)"

text \<open>What \<open>action_exec\<close> does before the tapping, on a press and when one-shot keys timed out.\<close>

definition action_exec_start :: "firmware_cfg \<Rightarrow> keyevent_t \<Rightarrow> action_util \<Rightarrow> action_util" where
  "action_exec_start c event s =
     (let A = FW_ACTION c; T = AC_ONESHOT_TIMEOUT A; now = AC_NOW A;
          s = (if ev_pressed event then clear_weak_mods s else s)
      in if oneshot_enable s \<and> 0 < T then
           let s = (if has_oneshot_layer_timed_out T now s
                    then clear_oneshot_layer A ONESHOT_OTHER_KEY_PRESSED s else s)
           in if has_oneshot_mods_timed_out T now s then clear_oneshot_mods T s else s
         else s)"

definition pre_process_record_quantum ::
    "firmware_cfg \<Rightarrow> keyrecord_t \<Rightarrow> action_util \<Rightarrow> action_util \<times> bool" where
  "pre_process_record_quantum c record s =
     (case get_record_keycode (FW_ACTION c) record True s of (s, keycode) \<Rightarrow>
        case pre_process_record_modules c keycode record s of (s, continue) \<Rightarrow>
          if \<not> continue then (s, False)
          else case get_record_keycode (FW_ACTION c) record True s of (s, keycode) \<Rightarrow>
            pre_process_record_kb c keycode record s)"

text \<open>Hooks that let every record through.\<close>

definition passes_through :: "firmware_cfg \<Rightarrow> bool" where
  "passes_through c \<longleftrightarrow> (\<forall>k r s. snd (pre_process_record_modules c k r s) \<and> snd (pre_process_record_kb c k r s))"

lemma pre_process_passes:
  assumes "passes_through c"
  shows "snd (pre_process_record_quantum (at_time now c) r s)"
proof -
  have "snd (pre_process_record_modules c k r s)" "snd (pre_process_record_kb c k r s)" for k r s
    using assms by (simp_all add: passes_through_def)
  then show ?thesis
    by (auto simp: pre_process_record_quantum_def at_time_def split: prod.splits) (metis snd_conv)+
qed

definition action_exec :: "firmware_cfg \<Rightarrow> keyevent_t \<Rightarrow> action_util tapping \<Rightarrow> action_util tapping" where
  "action_exec c event =
     tapping_exec (action_exec_start c event) (pre_process_record_quantum c (event_record event))
       (firmware_ops c) event"

section \<open>The interpreter keeps the records\<close>

lemma process_release_record: "\<not> pressed record \<Longrightarrow> fst (process_record c record s) = record"
  by (subst process_record.simps) (simp add: process_action_with_def Let_def split: prod.splits)

lemma process_record_record: "fst (process_record c record s) \<in> {record, release_record record}"
proof -
  have "fst (process_action_with (process_record c) c record action t) \<in> {record, release_record record}" for action t
    using process_release_record[of "release_record record" c]
    by (simp add: process_action_with_def Let_def release_record_def split: prod.splits)
  then show ?thesis by (subst process_record.simps) (simp split: prod.splits)
qed

interpretation fw: record_processor "firmware_ops c" for c
proof
  fix r :: keyrecord_t and e r' e'
  assume "op_process_record (firmware_ops c) r e = (r', e')"
  then have "process_record (FW_ACTION c) r e = (r', e')" by (simp add: firmware_ops_def Let_def)
  then have "r' \<in> {r, release_record r}" using process_record_record[of "FW_ACTION c" r e] by simp
  then show "kr_tap r' = kr_tap r \<and> (kr_event r' = kr_event r \<or> kr_event r' = (kr_event r)\<lparr>ev_pressed := False\<rparr>)"
    by (auto simp: release_record_def)
qed

section \<open>No key press is lost\<close>

text \<open>A run, and the same run with the log of the records that were processed.\<close>

definition firmware_run :: "firmware_cfg \<Rightarrow> keyevent_t list \<Rightarrow> action_util tapping \<Rightarrow> action_util tapping" where
  "firmware_run c es s = fold (\<lambda>e. action_exec (at_time (ev_time e) c) e) es s"

definition firmware_logged ::
    "firmware_cfg \<Rightarrow> keyevent_t list \<Rightarrow> (action_util \<times> tap_log list) tapping \<Rightarrow> (action_util \<times> tap_log list) tapping" where
  "firmware_logged c es s = fold (\<lambda>e. let c = at_time (ev_time e) c in
     logged_exec (action_exec_start c e) (pre_process_record_quantum c (event_record e)) (firmware_ops c) e) es s"

lemma firmware_run_logged: "firmware_run c es (unlogged s) = unlogged (firmware_logged c es s)"
  by (induction es arbitrary: s) (simp_all add: firmware_run_def firmware_logged_def Let_def action_exec_def unlogged_exec)

lemma firmware_passes:
  assumes "tapping_ok s" "\<forall>e \<in> set es. ev_pressed e \<longrightarrow> IS_EVENT e"
    and "passes_through c"
  shows "passes es s (firmware_logged c es s)"
  using assms(1,2)
proof (induction es arbitrary: s)
  case (Cons e es)
  define c' where "c' = at_time (ev_time e) c"
  let ?t = "logged_exec (action_exec_start c' e) (pre_process_record_quantum c' (event_record e)) (firmware_ops c') e s"
  have "snd (pre_process_record_quantum c' (event_record e) x)" for x
    unfolding c'_def by (rule pre_process_passes[OF assms(3)])
  then have t: "passes [e] s ?t" using Cons.prems by (intro fw.exec_passes) auto
  then have "passes es ?t (firmware_logged c es ?t)"
    using Cons.prems(2) by (intro Cons.IH) (auto simp: passes_def)
  from passes_trans[OF t this] show ?case by (simp add: firmware_logged_def Let_def c'_def)
qed (simp add: firmware_logged_def passes_refl)

text \<open>
  C1. No key press is lost or doubled between the matrix and the interpreter of actions, whatever
  keys are dual-role and however the events interleave: after any events, unless the waiting buffer
  overflowed, the presses processed and those that still wait are together the presses that came
  in. No release is lost either (there may be more, where a repeated tap is cut short). The log
  these are read from does not change what the firmware does.
\<close>

theorem no_event_lost:
  assumes "\<forall>e \<in> set es. ev_pressed e \<longrightarrow> IS_EVENT e"
    and "passes_through c"
    and "t = firmware_logged c es (tapping_start (s, []))" "Cleared \<notin> set (tap_log t)"
  shows "unlogged t = firmware_run c es (tapping_start s)
    \<and> mset (filter is_press es) = mset (filter is_press (map kr_event (processed (tap_log t)))) + mset (filter is_press (pending t))
    \<and> mset (filter is_release es) \<subseteq># mset (filter is_release (map kr_event (processed (tap_log t)))) + mset (filter is_release (pending t))"
proof -
  have "unlogged (tapping_start (s, [])) = tapping_start s" by (simp add: unlogged_def tapping_start_def)
  then have "unlogged t = firmware_run c es (tapping_start s)"
    using firmware_run_logged[of c es "tapping_start (s, [])"] assms(3) by simp
  moreover have "passes es (tapping_start (s, [])) t"
    unfolding assms(3) by (rule firmware_passes[OF tapping_start_ok(1) assms(1,2)])
  moreover have "tap_log (tapping_start (s, [])) = []" for s :: action_util by (simp add: tapping_start_def)
  ultimately show ?thesis using assms(4) tapping_start_ok(2)[of "(s, [] :: tap_log list)"] by (simp add: passes_def balanced_def)
qed

text \<open>So few events do not fill the buffer.\<close>

lemma few_events_no_overflow:
  assumes "\<forall>e \<in> set es. ev_pressed e \<longrightarrow> IS_EVENT e" "passes_through c"
    and "length es < WAITING_BUFFER_SIZE"
  shows "Cleared \<notin> set (tap_log (firmware_logged c es (tapping_start (s, []))))"
proof -
  have "passes es (tapping_start (s, [])) (firmware_logged c es (tapping_start (s, [])))"
    by (rule firmware_passes[OF tapping_start_ok(1) assms(1,2)])
  moreover have "buffered (tapping_start (s, [] :: tap_log list)) = []" "tap_log (tapping_start (s, [])) = []"
    by (simp_all add: tapping_start_def buffered_def)
  ultimately show ?thesis using assms(3) by (auto simp: passes_def)
qed

section \<open>Tap or hold\<close>

text \<open>What holds of a pass does not depend on the time or on the rest of the state.\<close>

lemma at_time_roles [simp]:
  "dual_press (firmware_ops (at_time now c)) tm perm other e \<longleftrightarrow> dual_press (firmware_ops c) tm perm other e"
  "between (firmware_ops (at_time now c)) es \<longleftrightarrow> between (firmware_ops c) es"
proof -
  have l: "lcfg (FW_ACTION (at_time now c)) = lcfg (FW_ACTION c)" by (simp add: at_time_def lcfg_def)
  have k: "get_record_keycode (FW_ACTION (at_time now c)) = get_record_keycode (FW_ACTION c)"
  proof (intro ext)
    fix r b s
    have "AC_TABLES (FW_ACTION (at_time now c)) = AC_TABLES (FW_ACTION c)" by (simp add: at_time_def)
    then show "get_record_keycode (FW_ACTION (at_time now c)) r b s = get_record_keycode (FW_ACTION c) r b s"
      unfolding get_record_keycode_def l by simp
  qed
  show "dual_press (firmware_ops (at_time now c)) tm perm other e \<longleftrightarrow> dual_press (firmware_ops c) tm perm other e"
    "between (firmware_ops (at_time now c)) es \<longleftrightarrow> between (firmware_ops c) es"
    unfolding dual_press_def dual_role_def between_def follows_def single_role_def firmware_ops_def Let_def l k
    by (simp_all add: at_time_def)
qed

lemma rest_irrelevant:
  assumes "snd x = tap_log s"
  shows "phase tm perm other e0 es L (s\<lparr>rest := x\<rparr>) \<longleftrightarrow> phase tm perm other e0 es L s" "quiet (s\<lparr>rest := x\<rparr>) \<longleftrightarrow> quiet s"
  using assms by (simp_all add: phase_def quiet_def waits_def tapping_ok_def buffered_def)

lemma firmware_pass:
  assumes "passes_through c"
  shows "\<exists>x. snd x = tap_log s \<and> firmware_logged c [e] s
    = action_tapping_process (logging (firmware_ops (at_time (ev_time e) c))) (event_record e) (s\<lparr>rest := x\<rparr>)"
proof -
  obtain a l where s: "rest s = (a, l)" by (cases "rest s")
  have "snd (pre_process_record_quantum (at_time (ev_time e) c) r x)" for r x
    by (rule pre_process_passes[OF assms])
  from this[of "event_record e" "action_exec_start (at_time (ev_time e) c) e a"] obtain b where
    "pre_process_record_quantum (at_time (ev_time e) c) (event_record e) (action_exec_start (at_time (ev_time e) c) e a) = (b, True)"
    by (metis prod.collapse)
  then show ?thesis
    by (cases "IS_NOEVENT e") (auto simp: firmware_logged_def logged_exec_def tapping_exec_def logged_def Let_def s)
qed

lemma firmware_logged_snoc: "firmware_logged c (es @ [e]) s = firmware_logged c [e] (firmware_logged c es s)"
  by (simp add: firmware_logged_def)

lemma firmware_phase:
  assumes "quiet s" "dual_press (firmware_ops c) tm perm other e0" "passes_through c"
    and "between (firmware_ops c) es" "length (filter IS_EVENT es) < WAITING_BUFFER_SIZE - 1"
  shows "phase tm perm other e0 es (seen (tap_log s)) (firmware_logged c (e0 # es) s)"
  using assms(4,5)
proof (induction es rule: rev_induct)
  case Nil
  obtain x where x: "snd x = tap_log s" "firmware_logged c [e0] s
    = action_tapping_process (logging (firmware_ops (at_time (ev_time e0) c))) (event_record e0) (s\<lparr>rest := x\<rparr>)"
    using firmware_pass[OF assms(3)] by blast
  have "dual_press (firmware_ops (at_time (ev_time e0) c)) tm perm other e0" using assms(2) by simp
  with fw.quiet_press[of "s\<lparr>rest := x\<rparr>" e0 "at_time (ev_time e0) c" tm perm other] assms(1) x rest_irrelevant(2)[OF x(1)]
  show ?case by (simp add: phase_def dual_press_def)
next
  case (snoc e es)
  let ?s = "firmware_logged c (e0 # es) s"
  have b: "between (firmware_ops c) es" using snoc.prems(1) by (simp add: between_snoc)
  have "phase tm perm other e0 es (seen (tap_log s)) ?s" using snoc.IH[OF b] snoc.prems(2) by simp
  moreover obtain x where x: "snd x = tap_log ?s" "firmware_logged c [e] ?s
    = action_tapping_process (logging (firmware_ops (at_time (ev_time e) c))) (event_record e) (?s\<lparr>rest := x\<rparr>)"
    using firmware_pass[OF assms(3)] by blast
  ultimately have "phase tm perm other e0 es (seen (tap_log s)) (?s\<lparr>rest := x\<rparr>)" by (simp add: rest_irrelevant)
  from fw.phase_step[OF _ this, of "at_time (ev_time e) c" e] show ?case
    using assms(2) snoc.prems x(2) firmware_logged_snoc[of c "e0 # es" e s] by (simp split: if_splits)
qed

text \<open>
  C2. Tap or hold. A dual-role key goes down and up again, and meanwhile keys with a single role
  are used (each released only after it was pressed, at most as many events as the buffer takes).
  The dual-role key counts as tapped exactly when it comes up within its tapping term, no key was
  pressed meanwhile if it chooses hold on other key press, and none was released meanwhile if it
  is permissive. Either way every event is processed exactly once, in the order in which they
  came: those of the dual-role key with the same tap count, the others with none.
\<close>

theorem tap_or_hold:
  assumes "quiet s" "dual_press (firmware_ops c) tm perm other e0" "between (firmware_ops c) es"
    and "length (filter IS_EVENT es) < WAITING_BUFFER_SIZE - 1"
    and "IS_EVENT e1" "\<not> ev_pressed e1" "ev_key e1 = ev_key e0"
    and "sorted (map (\<lambda>e. unat (ev_time e - ev_time e0)) (es @ [e1]))"
    and "passes_through c"
  shows "seen (tap_log (firmware_logged c (e0 # es @ [e1]) s)) = seen (tap_log s)
    @ (let n = (if in_term tm e0 e1 \<and> \<not> (other \<and> (\<exists>e \<in> set es. is_press e)) \<and> \<not> (perm \<and> (\<exists>e \<in> set es. is_release e))
                then 1 else 0)
       in (e0, n) # map (\<lambda>e. (e, 0)) (filter IS_EVENT es) @ [(e1, n)])"
proof -
  let ?s = "firmware_logged c (e0 # es) s"
  have "phase tm perm other e0 es (seen (tap_log s)) ?s" by (rule firmware_phase[OF assms(1,2,9,3,4)])
  moreover obtain x where x: "snd x = tap_log ?s" "firmware_logged c [e1] ?s
    = action_tapping_process (logging (firmware_ops (at_time (ev_time e1) c))) (event_record e1) (?s\<lparr>rest := x\<rparr>)"
    using firmware_pass[OF assms(9)] by blast
  ultimately have "phase tm perm other e0 es (seen (tap_log s)) (?s\<lparr>rest := x\<rparr>)" by (simp add: rest_irrelevant)
  from fw.phase_release[OF _ this _ assms(4-7), of "at_time (ev_time e1) c"] assms(2,3) x(2)
    firmware_logged_snoc[of c "e0 # es" e1 s]
  have log: "seen (tap_log (firmware_logged c (e0 # es @ [e1]) s)) = seen (tap_log s)
    @ (let n = (if list_ex (settles tm perm other e0) es \<or> \<not> in_term tm e0 e1 then 0 else 1)
       in (e0, n) # map (\<lambda>b. (b, 0)) (filter IS_EVENT es) @ [(e1, n)])" by simp
  have late: "\<not> in_term tm e0 e1" if "e \<in> set es" "\<not> in_term tm e0 e" for e
    using assms(8) that by (auto simp: sorted_append in_term_def word_less_nat_alt intro: le_less_trans)
  have "list_ex (settles tm perm other e0) es \<or> \<not> in_term tm e0 e1
    \<longleftrightarrow> \<not> (in_term tm e0 e1 \<and> \<not> (other \<and> (\<exists>e \<in> set es. is_press e)) \<and> \<not> (perm \<and> (\<exists>e \<in> set es. is_release e)))"
    using late by (auto simp: list_ex_iff settles_def is_press_def is_release_def)
  then show ?thesis unfolding log by simp
qed

section \<open>An example\<close>

text \<open>A keyboard of one row, the same on all layers: \<open>A\<close>, \<open>LT(1, B)\<close> and \<open>MT(MOD_LSFT, C)\<close>.\<close>

definition small_tables :: keymap_tables where
  "small_tables = \<lparr>KM_ROWS = 1, KM_COLS = 3, KM_ENCODERS = 0,
     keymap = (\<lambda>layer row col. if col = 0 then 0x0004 else if col = 1 then 0x4105 else 0x2206),
     encodermap = (\<lambda>_ _ _. 0)\<rparr>"

definition small_firmware :: firmware_cfg where
  "small_firmware = \<lparr>
     FW_ACTION = \<lparr>AC_LAYERS = \<lparr>LC_ROWS = 1, LC_COLS = 3, LC_ENCODERS = 0, layer_state_set_modules = id,
         layer_state_set_kb = id, default_layer_state_set_modules = id, default_layer_state_set_kb = id,
         action_for_key = (\<lambda>_ _. 0)\<rparr>,
       AC_CONFIG = \<lparr>swap_control_capslock = False, capslock_to_control = False, swap_lalt_lgui = False,
         swap_ralt_rgui = False, no_gui = False, swap_grave_esc = False, swap_backslash_backspace = False,
         swap_lctl_lgui = False, swap_rctl_rgui = False, swap_escape_capslock = False\<rparr>,
       AC_TABLES = small_tables, AC_ONESHOT_TIMEOUT = 0, AC_ONESHOT_TAP_TOGGLE = 0, AC_TAPPING_TOGGLE = 5,
       AC_NOW = 0, quantum_features = (\<lambda>_ _ s. (s, True))\<rparr>,
     get_tapping_term = (\<lambda>_ _. 200), get_quick_tap_term = (\<lambda>_ _. 200), get_permissive_hold = (\<lambda>_ _. False),
     get_hold_on_other_key_press = (\<lambda>_ _. False), pre_process_record_modules = (\<lambda>_ _ s. (s, True)), pre_process_record_kb = (\<lambda>_ _ s. (s, True))\<rparr>"

definition small_keyboard :: action_util where
  "small_keyboard = idle_keyboard\<lparr>au_layers := \<lparr>default_layer_state = 1, layer_state = 0,
     source_layers_cache = [[0, 0, 0, 0]], encoder_source_layers_cache = [], disable_action_cache = False\<rparr>\<rparr>"

definition key_a :: keypos_t where "key_a = MAKE_KEYPOS 0 0"
definition key_lt :: keypos_t where "key_lt = MAKE_KEYPOS 0 1"

lemma small_switch:
  assumes "key \<in> {key_a, key_lt}"
  shows "layer_switch_get_action (lcfg (FW_ACTION small_firmware)) key l = (if key = key_a then 0x0004 else 0xA105)"
proof -
  have "action_for_keycode (AC_CONFIG (FW_ACTION small_firmware)) 0x0004 = 0x0004"
    "action_for_keycode (AC_CONFIG (FW_ACTION small_firmware)) 0x4105 = 0xA105" by code_simp+
  moreover have "keymap_key_to_keycode (AC_TABLES (FW_ACTION small_firmware)) i key = (if key = key_a then 0x0004 else 0x4105)" for i
    using assms by (auto simp: keymap_key_to_keycode_def small_firmware_def small_tables_def key_a_def key_lt_def MAKE_KEYPOS_def)
  ultimately show ?thesis by (simp add: layer_switch_get_action_def lcfg_def key_action_def)
qed

lemma small_roles:
  "single_role (firmware_ops small_firmware) key_a"
  "dual_role (firmware_ops small_firmware) key_lt 200 False False"
proof -
  have "\<not> is_tap_action 0x0004" "is_tap_action 0xA105" by code_simp+
  then show "single_role (firmware_ops small_firmware) key_a" "dual_role (firmware_ops small_firmware) key_lt 200 False False"
    by (simp_all add: single_role_def dual_role_def firmware_ops_def Let_def small_switch)
      (simp_all add: small_firmware_def key_a_def key_lt_def MAKE_KEYPOS_def)
qed

definition press_lt :: keyevent_t where "press_lt = MAKE_KEYEVENT 1000 0 1 True"
definition release_lt :: keyevent_t where "release_lt = MAKE_KEYEVENT 1150 0 1 False"

definition while_lt :: "keyevent_t list" where
  "while_lt = [MAKE_TICK_EVENT 1001, MAKE_KEYEVENT 1050 0 0 True, MAKE_KEYEVENT 1100 0 0 False]"

lemmas small_events = press_lt_def release_lt_def while_lt_def MAKE_TICK_EVENT_def MAKE_KEYEVENT_def MAKE_EVENT_def
  MAKE_KEYPOS_def IS_EVENT_def IS_NOEVENT_def

lemma no_event_lost_witness:
  "let t = firmware_logged small_firmware (press_lt # while_lt @ [release_lt]) (tapping_start (small_keyboard, []))
   in mset (filter is_press (press_lt # while_lt @ [release_lt]))
     = mset (filter is_press (map kr_event (processed (tap_log t)))) + mset (filter is_press (pending t))"
proof -
  let ?es = "press_lt # while_lt @ [release_lt]"
  have es: "\<forall>e \<in> set ?es. ev_pressed e \<longrightarrow> IS_EVENT e" by (simp add: small_events)
  have pre: "passes_through small_firmware" by (simp add: passes_through_def small_firmware_def)
  have "Cleared \<notin> set (tap_log (firmware_logged small_firmware ?es (tapping_start (small_keyboard, []))))"
    by (rule few_events_no_overflow[OF es pre]) (simp add: while_lt_def WAITING_BUFFER_SIZE_def)
  from no_event_lost[OF es pre refl this] show ?thesis by (simp add: Let_def)
qed

lemma tap_or_hold_witness:
  "seen (tap_log (firmware_logged small_firmware (press_lt # while_lt @ [release_lt]) (tapping_start (small_keyboard, []))))
   = [(press_lt, 1), (MAKE_KEYEVENT 1050 0 0 True, 0), (MAKE_KEYEVENT 1100 0 0 False, 0), (release_lt, 1)]"
proof -
  have d: "dual_press (firmware_ops small_firmware) 200 False False press_lt"
    using small_roles(2) by (simp add: dual_press_def small_events key_lt_def)
  have b: "between (firmware_ops small_firmware) while_lt"
    using small_roles(1) by (simp add: between_def follows_def small_events key_a_def is_press_def less_Suc_eq All_less_Suc)
  have q: "quiet (tapping_start (small_keyboard, [] :: tap_log list))"
    using tapping_start_ok(1) by (simp add: quiet_def tapping_start_def buffered_def no_record_def IS_NOEVENT_def)
  have pre: "passes_through small_firmware" by (simp add: passes_through_def small_firmware_def)
  have o: "sorted (map (\<lambda>e. unat (ev_time e - ev_time press_lt)) (while_lt @ [release_lt]))" by (simp add: small_events)
  from tap_or_hold[OF q d b _ _ _ _ o pre] show ?thesis
    by (simp add: tapping_start_def in_term_def small_events WAITING_BUFFER_SIZE_def Let_def)
qed

end
