(* ===== verification/Crc.thy ===== *)
theory Crc
  imports Prelude
begin

text \<open>
  The checksum of the split transport (quantum/crc.c), in both of its builds: with a table
  (\<open>CRC8_USE_TABLE\<close>), and bit by bit. \<open>crc_t\<close> has eight bits.
\<close>

section \<open>The two routines\<close>

definition crc_table :: "u8 list" where
  "crc_table = [
    0x00, 0x07, 0x0e, 0x09, 0x1c, 0x1b, 0x12, 0x15, 0x38, 0x3f, 0x36, 0x31, 0x24, 0x23, 0x2a, 0x2d,
    0x70, 0x77, 0x7e, 0x79, 0x6c, 0x6b, 0x62, 0x65, 0x48, 0x4f, 0x46, 0x41, 0x54, 0x53, 0x5a, 0x5d,
    0xe0, 0xe7, 0xee, 0xe9, 0xfc, 0xfb, 0xf2, 0xf5, 0xd8, 0xdf, 0xd6, 0xd1, 0xc4, 0xc3, 0xca, 0xcd,
    0x90, 0x97, 0x9e, 0x99, 0x8c, 0x8b, 0x82, 0x85, 0xa8, 0xaf, 0xa6, 0xa1, 0xb4, 0xb3, 0xba, 0xbd,
    0xc7, 0xc0, 0xc9, 0xce, 0xdb, 0xdc, 0xd5, 0xd2, 0xff, 0xf8, 0xf1, 0xf6, 0xe3, 0xe4, 0xed, 0xea,
    0xb7, 0xb0, 0xb9, 0xbe, 0xab, 0xac, 0xa5, 0xa2, 0x8f, 0x88, 0x81, 0x86, 0x93, 0x94, 0x9d, 0x9a,
    0x27, 0x20, 0x29, 0x2e, 0x3b, 0x3c, 0x35, 0x32, 0x1f, 0x18, 0x11, 0x16, 0x03, 0x04, 0x0d, 0x0a,
    0x57, 0x50, 0x59, 0x5e, 0x4b, 0x4c, 0x45, 0x42, 0x6f, 0x68, 0x61, 0x66, 0x73, 0x74, 0x7d, 0x7a,
    0x89, 0x8e, 0x87, 0x80, 0x95, 0x92, 0x9b, 0x9c, 0xb1, 0xb6, 0xbf, 0xb8, 0xad, 0xaa, 0xa3, 0xa4,
    0xf9, 0xfe, 0xf7, 0xf0, 0xe5, 0xe2, 0xeb, 0xec, 0xc1, 0xc6, 0xcf, 0xc8, 0xdd, 0xda, 0xd3, 0xd4,
    0x69, 0x6e, 0x67, 0x60, 0x75, 0x72, 0x7b, 0x7c, 0x51, 0x56, 0x5f, 0x58, 0x4d, 0x4a, 0x43, 0x44,
    0x19, 0x1e, 0x17, 0x10, 0x05, 0x02, 0x0b, 0x0c, 0x21, 0x26, 0x2f, 0x28, 0x3d, 0x3a, 0x33, 0x34,
    0x4e, 0x49, 0x40, 0x47, 0x52, 0x55, 0x5c, 0x5b, 0x76, 0x71, 0x78, 0x7f, 0x6a, 0x6d, 0x64, 0x63,
    0x3e, 0x39, 0x30, 0x37, 0x22, 0x25, 0x2c, 0x2b, 0x06, 0x01, 0x08, 0x0f, 0x1a, 0x1d, 0x14, 0x13,
    0xae, 0xa9, 0xa0, 0xa7, 0xb2, 0xb5, 0xbc, 0xbb, 0x96, 0x91, 0x98, 0x9f, 0x8a, 0x8d, 0x84, 0x83,
    0xde, 0xd9, 0xd0, 0xd7, 0xc2, 0xc5, 0xcc, 0xcb, 0xe6, 0xe1, 0xe8, 0xef, 0xfa, 0xfd, 0xf4, 0xf3]"

definition crc8_with_table :: "u8 list \<Rightarrow> u8" where
  "crc8_with_table data = fold (\<lambda>d crc. crc_table ! unat (crc XOR d) AND 0xff) data 0xff"

definition crc8_shift :: "u8 \<Rightarrow> u8" where
  "crc8_shift crc = (if crc AND 0x80 \<noteq> 0 then push_bit 1 crc XOR 0x31 else push_bit 1 crc)"

definition crc8 :: "u8 list \<Rightarrow> u8" where
  "crc8 data = fold (\<lambda>d crc. (crc8_shift ^^ 8) (crc XOR d)) data 0xff"

section \<open>What they compute\<close>

text \<open>The checksum for any generator polynomial, by the bits of a message.\<close>

definition poly_shift :: "u8 \<Rightarrow> u8 \<Rightarrow> u8" where
  "poly_shift p crc = (if bit crc 7 then push_bit 1 crc XOR p else push_bit 1 crc)"

definition poly_crc :: "u8 \<Rightarrow> u8 list \<Rightarrow> u8" where
  "poly_crc p data = fold (\<lambda>d crc. (poly_shift p ^^ 8) (crc XOR d)) data 0xff"

text \<open>The shifts are linear, so a table of the eight single bits gives all.\<close>

lemma poly_shift_linear: "poly_shift p (a XOR b) = poly_shift p a XOR poly_shift p b"
  by (auto simp: poly_shift_def bit_xor_iff push_bit_xor xor.assoc xor.left_commute xor.commute)

lemma poly_shifts_linear: "(poly_shift p ^^ n) (a XOR b) = (poly_shift p ^^ n) a XOR (poly_shift p ^^ n) b"
  by (induction n) (simp_all add: poly_shift_linear)

text \<open>The sums of the elements of a list, in the order of the numbers that choose them.\<close>

fun span :: "u8 list \<Rightarrow> u8 list" where
  "span [] = [0]"
| "span (x # xs) = span xs @ map (\<lambda>y. x XOR y) (span xs)"

lemma map_span:
  assumes "\<And>a b. f (a XOR b) = f a XOR f b"
  shows "map f (span xs) = span (map f xs)"
proof -
  have "f 0 XOR f 0 = f 0" using assms[of 0 0] by simp
  then have "f 0 = 0" by simp
  then show ?thesis
  proof (induction xs)
    case (Cons x xs)
    from Cons.IH[symmetric] Cons.prems show ?case by (simp add: assms comp_def)
  qed simp
qed

lemma all_bytes: "span [0x80, 0x40, 0x20, 0x10, 0x08, 0x04, 0x02, 0x01] = map of_nat [0..<256]"
  by (simp add: upt_rec)

lemma table_bits:
  "map (poly_shift 0x07 ^^ 8) [0x80, 0x40, 0x20, 0x10, 0x08, 0x04, 0x02, 0x01]
    = [0x89, 0xc7, 0xe0, 0x70, 0x38, 0x1c, 0x0e, 0x07]"
  by code_simp

lemma table_span: "crc_table = span [0x89, 0xc7, 0xe0, 0x70, 0x38, 0x1c, 0x0e, 0x07]"
  by (simp add: crc_table_def)

lemma table_entry: "crc_table ! unat i = (poly_shift 0x07 ^^ 8) i"
proof -
  have "crc_table = map (poly_shift 0x07 ^^ 8) (map of_nat [0..<256])"
    unfolding table_span table_bits[symmetric] all_bytes[symmetric] by (rule map_span[symmetric, OF poly_shifts_linear])
  then have "crc_table ! unat i = map ((poly_shift 0x07 ^^ 8) \<circ> of_nat) [0..<256] ! unat i" by simp
  also have "\<dots> = (poly_shift 0x07 ^^ 8) (of_nat ([0..<256] ! unat i))"
    using unat_lt_256[of i] by (subst nth_map) simp_all
  also have "[0..<256] ! unat i = unat i" using unat_lt_256[of i] nth_upt[of 0 "unat i" 256] by simp
  finally show ?thesis by simp
qed

lemma crc8_shift_poly: "crc8_shift = poly_shift 0x31"
proof
  fix crc :: u8
  have "crc AND 0x80 \<noteq> 0 \<longleftrightarrow> bit crc 7" using and_BIT_neq_0[of crc 7] by (simp add: BIT_def)
  then show "crc8_shift crc = poly_shift 0x31 crc" by (simp add: crc8_shift_def poly_shift_def)
qed

lemma xor_cancel: "x XOR a = x XOR b \<longleftrightarrow> a = b" for x :: "'a::len word"
proof
  assume "x XOR a = x XOR b"
  then have "x XOR (x XOR a) = x XOR (x XOR b)" by simp
  then show "a = b" by (simp flip: xor.assoc)
qed simp

text \<open>A polynomial with a constant term loses nothing.\<close>

lemma poly_shift_inj:
  assumes "bit p 0" "poly_shift p a = poly_shift p b"
  shows "a = b"
proof -
  have low: "bit (poly_shift p x) 0 \<longleftrightarrow> bit x 7" for x unfolding poly_shift_def using assms(1) by (simp add: bit_push_bit_iff bit_xor_iff del: push_bit_of_1 push_bit_Suc One_nat_def)
  have "bit a 7 \<longleftrightarrow> bit b 7" using low[of a] low[of b] assms(2) by simp
  with assms(2) have "push_bit 1 a = push_bit 1 b" using xor_cancel[of p] by (auto simp: poly_shift_def xor.commute[of _ p] split: if_splits)
  then have "bit (push_bit 1 a) (Suc n) \<longleftrightarrow> bit (push_bit 1 b) (Suc n)" for n by (simp only:)
  then have "n < 7 \<and> bit a n \<longleftrightarrow> n < 7 \<and> bit b n" for n
    by (simp add: bit_push_bit_iff del: push_bit_of_1 push_bit_Suc One_nat_def)
  then have *: "n < 7 \<Longrightarrow> bit a n \<longleftrightarrow> bit b n" for n by blast
  show ?thesis
  proof (rule word_eqI_bits)
    fix n assume "n < LENGTH(8)"
    then show "bit a n \<longleftrightarrow> bit b n" using *[of n] \<open>bit a 7 \<longleftrightarrow> bit b 7\<close> by (cases "n = 7") auto
  qed
qed

lemma poly_shifts_inj: "bit p 0 \<Longrightarrow> (poly_shift p ^^ n) a = (poly_shift p ^^ n) b \<Longrightarrow> a = b"
  by (induction n) (auto dest: poly_shift_inj)

lemma poly_crc_snoc: "poly_crc p (data @ [d]) = (poly_shift p ^^ 8) (poly_crc p data XOR d)"
  by (simp add: poly_crc_def)

lemma poly_crc_byte:
  assumes "bit p 0"
  shows "poly_crc p (xs @ a # ys) = poly_crc p (xs @ b # ys) \<longleftrightarrow> a = b"
proof (induction ys rule: rev_induct)
  case Nil
  have "a = b" if "poly_crc p xs XOR a = poly_crc p xs XOR b" using that by (simp add: xor_cancel)
  then show ?case using poly_shifts_inj[OF assms, of 8] by (auto simp: poly_crc_snoc)
next
  case (snoc y ys)
  then show ?case using poly_shifts_inj[OF assms, of 8] poly_crc_snoc[of p "xs @ _ # ys" y]
    by (auto simp: xor.commute[of _ y] xor_cancel dest!: poly_shifts_inj[OF assms])
qed


end
