(* ===== verification/Secure.thy ===== *)
theory Secure
  imports Action_Code "HOL-Library.Sublist"
begin

text \<open>
  The lock of quantum/secure.c and its keycodes (process_keycode/process_secure.c): key presses are
  checked against an unlock sequence after a request, and the lock falls shut again when it is
  idle or the request times out.

  The calls of \<open>secure_hook\<close> are recorded in order. A timeout of 0 is none; the keycodes are not
  disabled.
\<close>

section \<open>State and operations\<close>

datatype secure_status_t = SECURE_LOCKED | SECURE_PENDING | SECURE_UNLOCKED

record secure_cfg =
  SECURE_UNLOCK_SEQUENCE :: "(8 word \<times> 8 word) list"
  SECURE_UNLOCK_TIMEOUT :: "32 word"
  SECURE_IDLE_TIMEOUT :: "32 word"

text \<open>\<open>sequence_offset\<close> is the static \<open>offset\<close> of \<open>secure_keypress_event\<close>.\<close>

record secure =
  secure_status :: secure_status_t
  unlock_time :: u32
  idle_time :: u32
  sequence_offset :: nat
  hook_calls :: "secure_status_t list"

definition secure_start :: secure where
  "secure_start = \<lparr>secure_status = SECURE_LOCKED, unlock_time = 0, idle_time = 0, sequence_offset = 0, hook_calls = []\<rparr>"

definition secure_hook :: "secure \<Rightarrow> secure" where
  "secure_hook s = s\<lparr>hook_calls := hook_calls s @ [secure_status s]\<rparr>"

definition secure_lock :: "secure \<Rightarrow> secure" where
  "secure_lock s = secure_hook (s\<lparr>secure_status := SECURE_LOCKED\<rparr>)"

definition secure_unlock :: "u32 \<Rightarrow> secure \<Rightarrow> secure" where
  "secure_unlock now s = secure_hook (s\<lparr>secure_status := SECURE_UNLOCKED, idle_time := now\<rparr>)"

definition secure_request_unlock :: "u32 \<Rightarrow> secure \<Rightarrow> secure" where
  "secure_request_unlock now s =
     secure_hook (if secure_status s = SECURE_LOCKED then s\<lparr>secure_status := SECURE_PENDING, unlock_time := now\<rparr> else s)"

definition secure_activity_event :: "u32 \<Rightarrow> secure \<Rightarrow> secure" where
  "secure_activity_event now s = (if secure_status s = SECURE_UNLOCKED then s\<lparr>idle_time := now\<rparr> else s)"

definition secure_keypress_event :: "secure_cfg \<Rightarrow> u32 \<Rightarrow> u8 \<Rightarrow> u8 \<Rightarrow> secure \<Rightarrow> secure" where
  "secure_keypress_event c now row col s =
     (if SECURE_UNLOCK_SEQUENCE c ! sequence_offset s = (row, col) then
        let s = s\<lparr>sequence_offset := Suc (sequence_offset s)\<rparr>
        in if sequence_offset s = length (SECURE_UNLOCK_SEQUENCE c)
           then secure_unlock now (s\<lparr>sequence_offset := 0\<rparr>) else s
      else secure_lock (s\<lparr>sequence_offset := 0\<rparr>))"

definition secure_task :: "secure_cfg \<Rightarrow> u32 \<Rightarrow> secure \<Rightarrow> secure" where
  "secure_task c now s =
     (let s = (if SECURE_UNLOCK_TIMEOUT c \<noteq> 0 \<and> secure_status s = SECURE_PENDING
                 \<and> SECURE_UNLOCK_TIMEOUT c \<le> now - unlock_time s
               then secure_lock s else s)
      in if SECURE_IDLE_TIMEOUT c \<noteq> 0 \<and> secure_status s = SECURE_UNLOCKED \<and> SECURE_IDLE_TIMEOUT c \<le> now - idle_time s
         then secure_lock s else s)"

section \<open>Keycodes\<close>

definition QK_SECURE_LOCK :: u16 where "QK_SECURE_LOCK = 0x7C60"
definition QK_SECURE_UNLOCK :: u16 where "QK_SECURE_UNLOCK = 0x7C61"
definition QK_SECURE_TOGGLE :: u16 where "QK_SECURE_TOGGLE = 0x7C62"
definition QK_SECURE_REQUEST :: u16 where "QK_SECURE_REQUEST = 0x7C63"

definition preprocess_secure :: "secure_cfg \<Rightarrow> u32 \<Rightarrow> keyrecord_t \<Rightarrow> secure \<Rightarrow> secure \<times> bool" where
  "preprocess_secure c now record s =
     (if secure_status s = SECURE_PENDING then
        (if pressed record then secure_keypress_event c now (kp_row (key_of record)) (kp_col (key_of record)) s else s, False)
      else (s, True))"

definition process_secure :: "u32 \<Rightarrow> u16 \<Rightarrow> keyrecord_t \<Rightarrow> secure \<Rightarrow> secure \<times> bool" where
  "process_secure now keycode record s =
     (if \<not> pressed record then
        if keycode = QK_SECURE_LOCK then (secure_lock s, False)
        else if keycode = QK_SECURE_UNLOCK then (secure_unlock now s, False)
        else if keycode = QK_SECURE_TOGGLE then
          (if secure_status s = SECURE_LOCKED then secure_unlock now s else secure_lock s, False)
        else if keycode = QK_SECURE_REQUEST then (secure_request_unlock now s, False)
        else (s, True)
      else (s, True))"

section \<open>Histories\<close>

text \<open>
  A record passes both functions, as in \<open>process_record_quantum\<close>; the other operations may be
  called from anywhere.
\<close>

datatype secure_op = Secure_Record u16 keyrecord_t | Secure_Task | Secure_Activity | Secure_Request | Secure_Lock

fun secure_step :: "secure_cfg \<Rightarrow> u32 \<Rightarrow> secure_op \<Rightarrow> secure \<Rightarrow> secure" where
  "secure_step c now (Secure_Record keycode record) s =
     (case preprocess_secure c now record s of (s, continue) \<Rightarrow>
        if continue then fst (process_secure now keycode record s) else s)"
| "secure_step c now Secure_Task s = secure_task c now s"
| "secure_step c now Secure_Activity s = secure_activity_event now s"
| "secure_step c now Secure_Request s = secure_request_unlock now s"
| "secure_step c now Secure_Lock s = secure_lock s"

definition secure_run :: "secure_cfg \<Rightarrow> (u32 \<times> secure_op) list \<Rightarrow> secure \<Rightarrow> secure" where
  "secure_run c ops s = fold (\<lambda>(now, op). secure_step c now op) ops s"

text \<open>The presses that an operation checks against the sequence.\<close>

fun checked :: "secure_op \<Rightarrow> secure \<Rightarrow> (u8 \<times> u8) list" where
  "checked (Secure_Record keycode record) s =
     (if secure_status s = SECURE_PENDING \<and> pressed record then [(kp_row (key_of record), kp_col (key_of record))] else [])"
| "checked _ s = []"

fun checked_run :: "secure_cfg \<Rightarrow> (u32 \<times> secure_op) list \<Rightarrow> secure \<Rightarrow> (u8 \<times> u8) list" where
  "checked_run c [] s = []"
| "checked_run c ((now, op) # ops) s = checked op s @ checked_run c ops (secure_step c now op s)"

text \<open>No keycode that opens the lock by itself.\<close>

fun unforced :: "secure_op \<Rightarrow> bool" where
  "unforced (Secure_Record keycode record) \<longleftrightarrow> keycode \<noteq> QK_SECURE_UNLOCK \<and> keycode \<noteq> QK_SECURE_TOGGLE"
| "unforced _ \<longleftrightarrow> True"

lemmas secure_defs = secure_lock_def secure_unlock_def secure_request_unlock_def secure_activity_event_def
  secure_keypress_event_def secure_task_def secure_hook_def preprocess_secure_def process_secure_def Let_def

lemma secure_run_Cons: "secure_run c ((now, op) # ops) s = secure_run c ops (secure_step c now op s)"
  by (simp add: secure_run_def)

lemma secure_run_append: "secure_run c (xs @ ys) s = secure_run c ys (secure_run c xs s)"
  by (simp add: secure_run_def)

text \<open>
  \<open>past\<close> are the presses checked so far: they end with the part of the sequence that was matched,
  and contain the whole of it if the lock is open.
\<close>

definition secure_inv :: "secure_cfg \<Rightarrow> (u8 \<times> u8) list \<Rightarrow> secure \<Rightarrow> bool" where
  "secure_inv c past s \<longleftrightarrow> sequence_offset s < length (SECURE_UNLOCK_SEQUENCE c)
     \<and> suffix (take (sequence_offset s) (SECURE_UNLOCK_SEQUENCE c)) past
     \<and> (secure_status s = SECURE_UNLOCKED \<longrightarrow> sublist (SECURE_UNLOCK_SEQUENCE c) past)"

lemma keypress_inv:
  assumes "secure_inv c past s" "SECURE_UNLOCK_SEQUENCE c \<noteq> []" "secure_status s = SECURE_PENDING"
  shows "secure_inv c (past @ [(row, col)]) (secure_keypress_event c now row col s)"
proof (cases "SECURE_UNLOCK_SEQUENCE c ! sequence_offset s = (row, col)")
  case True
  let ?q = "SECURE_UNLOCK_SEQUENCE c" and ?k = "sequence_offset s"
  obtain xs where xs: "past = xs @ take ?k ?q" using assms(1) by (auto simp: secure_inv_def suffix_def)
  have "?k < length ?q" using assms(1) by (simp add: secure_inv_def)
  then have q: "past @ [(row, col)] = xs @ take (Suc ?k) ?q" using True xs by (simp add: take_Suc_conv_app_nth)
  show ?thesis
  proof (cases "Suc ?k = length ?q")
    case True
    then have "past @ [(row, col)] = xs @ ?q @ []" using q by simp
    then have "sublist ?q (past @ [(row, col)])" unfolding sublist_def by blast
    then show ?thesis using True \<open>?q ! ?k = (row, col)\<close> assms(2) by (simp add: secure_inv_def secure_defs)
  next
    case False
    have "suffix (take (Suc ?k) ?q) (past @ [(row, col)])" unfolding q by (simp add: suffix_def)
    then show ?thesis using False \<open>?q ! ?k = (row, col)\<close> \<open>?k < length ?q\<close> assms(3)
      by (simp add: secure_inv_def secure_defs)
  qed
qed (use assms in \<open>simp add: secure_inv_def secure_defs\<close>)

lemma secure_step_inv:
  assumes "secure_inv c past s" "SECURE_UNLOCK_SEQUENCE c \<noteq> []" "unforced op"
  shows "secure_inv c (past @ checked op s) (secure_step c now op s)"
proof (cases op)
  case (Secure_Record keycode r)
  show ?thesis
  proof (cases "secure_status s = SECURE_PENDING \<and> pressed r")
    case True
    then show ?thesis using keypress_inv[OF assms(1,2)] Secure_Record by (simp add: preprocess_secure_def)
  next
    case False
    then show ?thesis using assms Secure_Record by (auto simp: secure_inv_def secure_defs)
  qed
qed (use assms in \<open>auto simp: secure_inv_def secure_defs\<close>)

lemma secure_run_inv:
  assumes "secure_inv c past s" "SECURE_UNLOCK_SEQUENCE c \<noteq> []" "\<forall>(now, op) \<in> set ops. unforced op"
  shows "secure_inv c (past @ checked_run c ops s) (secure_run c ops s)"
  using assms(1,3)
proof (induction ops arbitrary: past s)
  case (Cons x ops)
  obtain now op where x: "x = (now, op)" by (cases x)
  have "secure_inv c (past @ checked op s) (secure_step c now op s)"
    using secure_step_inv[OF Cons.prems(1) assms(2)] Cons.prems(2) x by simp
  from Cons.IH[OF this] Cons.prems(2) show ?case by (simp add: x secure_run_Cons)
qed (simp add: secure_run_def)


section \<open>A request that times out keeps its progress\<close>

definition press_at :: "u8 \<times> u8 \<Rightarrow> secure_op" where
  "press_at p = Secure_Record 0 (event_record (MAKE_KEYEVENT 0 (fst p) (snd p) True))"

lemma presses_advance:
  assumes "secure_status s = SECURE_PENDING" "SECURE_UNLOCK_SEQUENCE c = take (sequence_offset s) (SECURE_UNLOCK_SEQUENCE c) @ ps @ qs"
    and "sequence_offset s < length (SECURE_UNLOCK_SEQUENCE c)"
  shows "if qs = [] \<and> ps \<noteq> [] then secure_status (secure_run c (map (\<lambda>p. (now, press_at p)) ps) s) = SECURE_UNLOCKED
    else secure_status (secure_run c (map (\<lambda>p. (now, press_at p)) ps) s) = SECURE_PENDING
      \<and> sequence_offset (secure_run c (map (\<lambda>p. (now, press_at p)) ps) s) = sequence_offset s + length ps
      \<and> unlock_time (secure_run c (map (\<lambda>p. (now, press_at p)) ps) s) = unlock_time s"
  using assms
proof (induction ps arbitrary: s)
  case Nil
  then show ?case by (simp add: secure_run_def)
next
  case (Cons p ps)
  let ?q = "SECURE_UNLOCK_SEQUENCE c" and ?k = "sequence_offset s"
  have len: "length ?q = ?k + Suc (length ps + length qs)"
    using arg_cong[OF Cons.prems(2), of length] Cons.prems(3) by (simp add: min_def)
  have p: "?q ! ?k = p" by (subst Cons.prems(2)) (use Cons.prems(3) in \<open>simp add: nth_append\<close>)
  have step: "secure_step c now (press_at p) s = (if Suc ?k = length ?q
      then secure_unlock now (s\<lparr>sequence_offset := 0\<rparr>) else s\<lparr>sequence_offset := Suc ?k\<rparr>)"
    using Cons.prems(1) p by (simp add: press_at_def preprocess_secure_def secure_keypress_event_def event_record_def
        MAKE_KEYEVENT_def MAKE_EVENT_def MAKE_KEYPOS_def Let_def)
  show ?case
  proof (cases "Suc ?k = length ?q")
    case True
    then have "ps = []" "qs = []" using len by simp_all
    then show ?thesis using step True by (simp add: secure_run_def secure_unlock_def secure_hook_def)
  next
    case False
    let ?s = "s\<lparr>sequence_offset := Suc ?k\<rparr>"
    have "?q = take (Suc ?k) ?q @ ps @ qs"
    proof -
      have "take (Suc ?k) ?q = take ?k ?q @ [p]" using take_Suc_conv_app_nth[OF Cons.prems(3)] p by simp
      with Cons.prems(2) show ?thesis by simp
    qed
    with Cons.IH[of ?s] Cons.prems False len step show ?thesis by (auto simp: secure_run_Cons split: if_splits)
  qed
qed

text \<open>A request, some presses and perhaps the check of the timeout.\<close>

definition secure_attempt :: "u32 \<Rightarrow> (u8 \<times> u8) list \<Rightarrow> (u32 \<times> secure_op) list" where
  "secure_attempt now ps = (now, Secure_Request) # map (\<lambda>p. (now, press_at p)) ps"

lemma secure_run_snoc: "secure_run c (xs @ [(now, op)]) s = secure_step c now op (secure_run c xs s)"
  by (simp add: secure_run_def)


definition two_key_lock :: secure_cfg where
  "two_key_lock = \<lparr>SECURE_UNLOCK_SEQUENCE = [(0, 1), (0, 2)], SECURE_UNLOCK_TIMEOUT = 5000, SECURE_IDLE_TIMEOUT = 60000\<rparr>"



end
