(* ===== verification/Dynamic_Macro.thy ===== *)
theory Dynamic_Macro
  imports Action_Code
begin

text \<open>
  Dynamic macros (quantum/process_keycode/process_dynamic_macro.c): two macros, recorded from the
  key records and played back, in one buffer from both of its ends.

  Pointers into the buffer are offsets, which may be one off either end. The build has
  \<open>DYNAMIC_MACRO_NO_NESTING\<close>, so that playing does not come back to this module, and clears the
  layers before recording and playing. \<open>process_record\<close>, the keyboard and layer functions and the
  hooks act on the rest of the firmware. A read or write outside the buffer is None.
\<close>

section \<open>State and operations\<close>

record 'e dm_ops =
  DYNAMIC_MACRO_SIZE :: nat
  dm_process_record :: "keyrecord_t \<Rightarrow> 'e \<Rightarrow> keyrecord_t \<times> 'e"
  dm_clear_keyboard :: "'e \<Rightarrow> 'e"
  dm_layer_state :: "'e \<Rightarrow> 16 word"
  dm_layer_state_set :: "16 word \<Rightarrow> 'e \<Rightarrow> 'e"
  dm_layer_clear :: "'e \<Rightarrow> 'e"
  dynamic_macro_record_start_kb :: "int \<Rightarrow> 'e \<Rightarrow> 'e"
  dynamic_macro_play_kb :: "int \<Rightarrow> 'e \<Rightarrow> 'e"
  dynamic_macro_record_key_kb :: "int \<Rightarrow> keyrecord_t \<Rightarrow> 'e \<Rightarrow> 'e"
  dynamic_macro_record_end_kb :: "int \<Rightarrow> 'e \<Rightarrow> 'e"
  dynamic_macro_valid_key_kb :: "16 word \<Rightarrow> keyrecord_t \<Rightarrow> 'e \<Rightarrow> 'e \<times> bool"

record 'e dynamic_macro =
  macro_buffer :: "keyrecord_t list"
  macro_end :: int
  r_macro_end :: int
  macro_pointer :: int
  macro_id :: nat
  dm_rest :: 'e

text \<open>The static initialisers.\<close>

definition dynamic_macro_start :: "'e dm_ops \<Rightarrow> 'e \<Rightarrow> 'e dynamic_macro" where
  "dynamic_macro_start ops e = \<lparr>macro_buffer = replicate (DYNAMIC_MACRO_SIZE ops) no_record, macro_end = 0,
     r_macro_end = int (DYNAMIC_MACRO_SIZE ops) - 1, macro_pointer = 0, macro_id = 0, dm_rest = e\<rparr>"

definition r_macro_buffer :: "'e dm_ops \<Rightarrow> int" where
  "r_macro_buffer ops = int (DYNAMIC_MACRO_SIZE ops) - 1"

definition on_rest :: "('e \<Rightarrow> 'e) \<Rightarrow> 'e dynamic_macro \<Rightarrow> 'e dynamic_macro" where
  "on_rest f s = s\<lparr>dm_rest := f (dm_rest s)\<rparr>"

definition macro_read :: "int \<Rightarrow> 'e dynamic_macro \<Rightarrow> keyrecord_t option" where
  "macro_read p s = (if 0 \<le> p \<and> p < int (length (macro_buffer s)) then Some (macro_buffer s ! nat p) else None)"

definition macro_write :: "int \<Rightarrow> keyrecord_t \<Rightarrow> 'e dynamic_macro \<Rightarrow> 'e dynamic_macro option" where
  "macro_write p r s = (if 0 \<le> p \<and> p < int (length (macro_buffer s))
     then Some (s\<lparr>macro_buffer := (macro_buffer s)[nat p := r]\<rparr>) else None)"

definition dynamic_macro_record_start :: "'e dm_ops \<Rightarrow> int \<Rightarrow> int \<Rightarrow> 'e dynamic_macro \<Rightarrow> 'e dynamic_macro" where
  "dynamic_macro_record_start ops begin direction s =
     (on_rest (\<lambda>e. dm_clear_keyboard ops (dm_layer_clear ops (dynamic_macro_record_start_kb ops direction e))) s)
       \<lparr>macro_pointer := begin\<rparr>"

text \<open>
  The playing loop: \<open>n\<close> is the number of elements between the two pointers. \<open>process_record\<close> works
  on the record in the buffer.
\<close>

fun macro_play_loop :: "'e dm_ops \<Rightarrow> nat \<Rightarrow> int \<Rightarrow> int \<Rightarrow> 'e dynamic_macro \<Rightarrow> 'e dynamic_macro option" where
  "macro_play_loop ops 0 p direction s = Some s"
| "macro_play_loop ops (Suc n) p direction s =
     (case macro_read p s of None \<Rightarrow> None
      | Some r \<Rightarrow> case dm_process_record ops r (dm_rest s) of (r, e) \<Rightarrow>
          case macro_write p r (s\<lparr>dm_rest := e\<rparr>) of None \<Rightarrow> None
          | Some s \<Rightarrow> macro_play_loop ops n (p + direction) direction s)"

definition dynamic_macro_play :: "'e dm_ops \<Rightarrow> int \<Rightarrow> int \<Rightarrow> int \<Rightarrow> 'e dynamic_macro \<Rightarrow> 'e dynamic_macro option" where
  "dynamic_macro_play ops begin fin direction s =
     (let saved_layer_state = dm_layer_state ops (dm_rest s);
          s = on_rest (\<lambda>e. dm_layer_clear ops (dm_clear_keyboard ops e)) s
      in case macro_play_loop ops (nat (direction * (fin - begin))) begin direction s of
           None \<Rightarrow> None
         | Some s \<Rightarrow> Some (on_rest (\<lambda>e. dynamic_macro_play_kb ops direction
             (dm_layer_state_set ops saved_layer_state (dm_clear_keyboard ops e))) s))"

definition dynamic_macro_record_key ::
    "'e dm_ops \<Rightarrow> int \<Rightarrow> int \<Rightarrow> int \<Rightarrow> keyrecord_t \<Rightarrow> 'e dynamic_macro \<Rightarrow> 'e dynamic_macro option" where
  "dynamic_macro_record_key ops begin macro2_end direction r s =
     (if \<not> pressed r \<and> macro_pointer s = begin then Some s
      else case (if macro_pointer s - direction \<noteq> macro2_end
                 then map_option (\<lambda>s. s\<lparr>macro_pointer := macro_pointer s + direction\<rparr>) (macro_write (macro_pointer s) r s)
                 else Some s) of
             None \<Rightarrow> None
           | Some s \<Rightarrow> Some (on_rest (dynamic_macro_record_key_kb ops direction r) s))"

text \<open>The loop that trims the trailing presses, from \<open>n\<close> elements on.\<close>

fun macro_trim :: "nat \<Rightarrow> int \<Rightarrow> int \<Rightarrow> 'e dynamic_macro \<Rightarrow> int option" where
  "macro_trim 0 begin direction s = Some begin"
| "macro_trim (Suc n) begin direction s =
     (let p = begin + direction * int (Suc n)
      in case macro_read (p - direction) s of None \<Rightarrow> None
         | Some r \<Rightarrow> if pressed r then macro_trim n begin direction s else Some p)"

definition dynamic_macro_record_end :: "'e dm_ops \<Rightarrow> int \<Rightarrow> int \<Rightarrow> int \<Rightarrow> 'e dynamic_macro \<Rightarrow> ('e dynamic_macro \<times> int) option" where
  "dynamic_macro_record_end ops begin pointer direction s =
     (let s = on_rest (dynamic_macro_record_end_kb ops direction) s
      in map_option (\<lambda>p. (s, p)) (macro_trim (nat (direction * (pointer - begin))) begin direction s))"

definition dynamic_macro_stop_recording :: "'e dm_ops \<Rightarrow> 'e dynamic_macro \<Rightarrow> 'e dynamic_macro option" where
  "dynamic_macro_stop_recording ops s = map_option (\<lambda>s. s\<lparr>macro_id := 0\<rparr>)
     (if macro_id s = 1 then
        map_option (\<lambda>(s, p). s\<lparr>macro_end := p\<rparr>) (dynamic_macro_record_end ops 0 (macro_pointer s) 1 s)
      else if macro_id s = 2 then
        map_option (\<lambda>(s, p). s\<lparr>r_macro_end := p\<rparr>) (dynamic_macro_record_end ops (r_macro_buffer ops) (macro_pointer s) (-1) s)
      else Some s)"

section \<open>Keycodes\<close>

definition QK_DYNAMIC_MACRO_RECORD_START_1 :: u16 where "QK_DYNAMIC_MACRO_RECORD_START_1 = 0x7C53"
definition QK_DYNAMIC_MACRO_RECORD_START_2 :: u16 where "QK_DYNAMIC_MACRO_RECORD_START_2 = 0x7C54"
definition QK_DYNAMIC_MACRO_RECORD_STOP :: u16 where "QK_DYNAMIC_MACRO_RECORD_STOP = 0x7C55"
definition QK_DYNAMIC_MACRO_PLAY_1 :: u16 where "QK_DYNAMIC_MACRO_PLAY_1 = 0x7C56"
definition QK_DYNAMIC_MACRO_PLAY_2 :: u16 where "QK_DYNAMIC_MACRO_PLAY_2 = 0x7C57"

definition process_dynamic_macro ::
    "'e dm_ops \<Rightarrow> u16 \<Rightarrow> keyrecord_t \<Rightarrow> 'e dynamic_macro \<Rightarrow> ('e dynamic_macro \<times> bool) option" where
  "process_dynamic_macro ops keycode r s =
     (if macro_id s = 0 then
        if \<not> pressed r then
          if keycode = QK_DYNAMIC_MACRO_RECORD_START_1 then
            Some ((dynamic_macro_record_start ops 0 1 s)\<lparr>macro_id := 1\<rparr>, False)
          else if keycode = QK_DYNAMIC_MACRO_RECORD_START_2 then
            Some ((dynamic_macro_record_start ops (r_macro_buffer ops) (-1) s)\<lparr>macro_id := 2\<rparr>, False)
          else if keycode = QK_DYNAMIC_MACRO_PLAY_1 then
            map_option (\<lambda>s. (s, False)) (dynamic_macro_play ops 0 (macro_end s) 1 s)
          else if keycode = QK_DYNAMIC_MACRO_PLAY_2 then
            map_option (\<lambda>s. (s, False)) (dynamic_macro_play ops (r_macro_buffer ops) (r_macro_end s) (-1) s)
          else Some (s, True)
        else Some (s, True)
      else if keycode \<in> {QK_DYNAMIC_MACRO_RECORD_START_1, QK_DYNAMIC_MACRO_RECORD_START_2, QK_DYNAMIC_MACRO_RECORD_STOP} then
        map_option (\<lambda>s. (s, False))
          (if pressed r \<noteq> (keycode \<noteq> QK_DYNAMIC_MACRO_RECORD_STOP) then dynamic_macro_stop_recording ops s else Some s)
      else if keycode \<in> {QK_DYNAMIC_MACRO_PLAY_1, QK_DYNAMIC_MACRO_PLAY_2} then Some (s, False)
      else case dynamic_macro_valid_key_kb ops keycode r (dm_rest s) of (e, ok) \<Rightarrow>
        let s = s\<lparr>dm_rest := e\<rparr>
        in map_option (\<lambda>s. (s, True))
             (if \<not> ok then Some s
              else if macro_id s = 1 then dynamic_macro_record_key ops 0 (r_macro_end s) 1 r s
              else if macro_id s = 2 then dynamic_macro_record_key ops (r_macro_buffer ops) (macro_end s) (-1) r s
              else Some s))"

section \<open>What it should do\<close>

text \<open>
  The contract: two lists of records, one of them perhaps being recorded, which share the room of
  the buffer. A recording starts with a press, does not end with one, and stops growing when the
  room is used up. \<open>play_all\<close> also gives the records as \<open>process_record\<close> leaves them.
\<close>

record 'e macros =
  slot1 :: "keyrecord_t list"
  slot2 :: "keyrecord_t list"
  taping :: nat
  tape :: "keyrecord_t list"
  m_rest :: 'e

fun play_all :: "'e dm_ops \<Rightarrow> keyrecord_t list \<Rightarrow> 'e \<Rightarrow> keyrecord_t list \<times> 'e" where
  "play_all ops [] e = ([], e)"
| "play_all ops (r # rs) e =
     (case dm_process_record ops r e of (r, e) \<Rightarrow> case play_all ops rs e of (rs, e) \<Rightarrow> (r # rs, e))"

definition macros_play :: "'e dm_ops \<Rightarrow> int \<Rightarrow> keyrecord_t list \<Rightarrow> 'e \<Rightarrow> keyrecord_t list \<times> 'e" where
  "macros_play ops direction rs e = apsnd (\<lambda>e'. dynamic_macro_play_kb ops direction
     (dm_layer_state_set ops (dm_layer_state ops e) (dm_clear_keyboard ops e')))
     (play_all ops rs (dm_layer_clear ops (dm_clear_keyboard ops e)))"

definition macros_start :: "'e dm_ops \<Rightarrow> int \<Rightarrow> 'e \<Rightarrow> 'e" where
  "macros_start ops direction e = dm_clear_keyboard ops (dm_layer_clear ops (dynamic_macro_record_start_kb ops direction e))"

definition macros_stop :: "'e dm_ops \<Rightarrow> 'e macros \<Rightarrow> 'e macros" where
  "macros_stop ops m =
     (let rs = rev (dropWhile pressed (rev (tape m)));
          m' = m\<lparr>taping := 0, tape := [], m_rest := dynamic_macro_record_end_kb ops (if taping m = 1 then 1 else -1) (m_rest m)\<rparr>
      in if taping m = 1 then m'\<lparr>slot1 := rs\<rparr> else m'\<lparr>slot2 := rs\<rparr>)"

definition macros_key :: "'e dm_ops \<Rightarrow> keyrecord_t \<Rightarrow> 'e macros \<Rightarrow> 'e macros" where
  "macros_key ops r m =
     (if \<not> pressed r \<and> tape m = [] then m
      else m\<lparr>tape := (if length (tape m) + length (if taping m = 1 then slot2 m else slot1 m) < DYNAMIC_MACRO_SIZE ops
                      then tape m @ [r] else tape m),
             m_rest := dynamic_macro_record_key_kb ops (if taping m = 1 then 1 else -1) r (m_rest m)\<rparr>)"

definition macros_step :: "'e dm_ops \<Rightarrow> u16 \<Rightarrow> keyrecord_t \<Rightarrow> 'e macros \<Rightarrow> 'e macros \<times> bool" where
  "macros_step ops keycode r m =
     (if taping m = 0 then
        if pressed r then (m, True)
        else if keycode = QK_DYNAMIC_MACRO_RECORD_START_1 then
          (m\<lparr>slot1 := [], taping := 1, tape := [], m_rest := macros_start ops 1 (m_rest m)\<rparr>, False)
        else if keycode = QK_DYNAMIC_MACRO_RECORD_START_2 then
          (m\<lparr>slot2 := [], taping := 2, tape := [], m_rest := macros_start ops (-1) (m_rest m)\<rparr>, False)
        else if keycode = QK_DYNAMIC_MACRO_PLAY_1 then
          (case macros_play ops 1 (slot1 m) (m_rest m) of (rs, e) \<Rightarrow> (m\<lparr>slot1 := rs, m_rest := e\<rparr>, False))
        else if keycode = QK_DYNAMIC_MACRO_PLAY_2 then
          (case macros_play ops (-1) (slot2 m) (m_rest m) of (rs, e) \<Rightarrow> (m\<lparr>slot2 := rs, m_rest := e\<rparr>, False))
        else (m, True)
      else if keycode \<in> {QK_DYNAMIC_MACRO_RECORD_START_1, QK_DYNAMIC_MACRO_RECORD_START_2} then
        (if pressed r then m else macros_stop ops m, False)
      else if keycode = QK_DYNAMIC_MACRO_RECORD_STOP then (if pressed r then macros_stop ops m else m, False)
      else if keycode \<in> {QK_DYNAMIC_MACRO_PLAY_1, QK_DYNAMIC_MACRO_PLAY_2} then (m, False)
      else case dynamic_macro_valid_key_kb ops keycode r (m_rest m) of (e, ok) \<Rightarrow>
        (if ok then macros_key ops r (m\<lparr>m_rest := e\<rparr>) else m\<lparr>m_rest := e\<rparr>, True))"

section \<open>The two macros in the buffer\<close>

text \<open>The elements from the pointer \<open>b\<close> up to the pointer \<open>p\<close>.\<close>

definition recorded :: "int \<Rightarrow> int \<Rightarrow> int \<Rightarrow> keyrecord_t list \<Rightarrow> keyrecord_t list" where
  "recorded d b p buf = map (\<lambda>k. buf ! nat (b + d * int k)) [0..<nat (d * (p - b))]"

definition macros_of :: "'e dm_ops \<Rightarrow> 'e dynamic_macro \<Rightarrow> 'e macros" where
  "macros_of ops s = \<lparr>
     slot1 = (if macro_id s = 1 then [] else recorded 1 0 (macro_end s) (macro_buffer s)),
     slot2 = (if macro_id s = 2 then [] else recorded (-1) (r_macro_buffer ops) (r_macro_end s) (macro_buffer s)),
     taping = macro_id s,
     tape = (if macro_id s = 1 then recorded 1 0 (macro_pointer s) (macro_buffer s)
             else if macro_id s = 2 then recorded (-1) (r_macro_buffer ops) (macro_pointer s) (macro_buffer s) else []),
     m_rest = dm_rest s\<rparr>"

definition dm_ok :: "'e dm_ops \<Rightarrow> 'e dynamic_macro \<Rightarrow> bool" where
  "dm_ok ops s \<longleftrightarrow> length (macro_buffer s) = DYNAMIC_MACRO_SIZE ops
     \<and> 0 \<le> macro_end s \<and> macro_end s \<le> r_macro_end s + 1 \<and> r_macro_end s \<le> r_macro_buffer ops \<and> macro_id s \<le> 2
     \<and> (macro_id s = 1 \<longrightarrow> 0 \<le> macro_pointer s \<and> macro_pointer s \<le> r_macro_end s + 1)
     \<and> (macro_id s = 2 \<longrightarrow> macro_end s - 1 \<le> macro_pointer s \<and> macro_pointer s \<le> r_macro_buffer ops)"

lemma recorded_empty [simp]: "recorded d b b buf = []"
  by (simp add: recorded_def)

lemma length_recorded: "length (recorded d b p buf) = nat (d * (p - b))"
  by (simp add: recorded_def)

lemma recorded_snoc:
  assumes "d \<in> {1, -1}" "0 \<le> d * (p - b)"
  shows "recorded d b (p + d) buf = recorded d b p buf @ [buf ! nat p]"
proof -
  have n: "nat (d * (p + d - b)) = Suc (nat (d * (p - b)))" using assms by auto
  have "b + d * int (nat (d * (p - b))) = p" using assms by auto
  then show ?thesis unfolding recorded_def n by simp
qed

lemma recorded_Cons:
  assumes "d \<in> {1, -1}" "0 < d * (p - b)"
  shows "recorded d b p buf = buf ! nat b # recorded d (b + d) p buf"
proof -
  have n: "nat (d * (p - b)) = Suc (nat (d * (p - (b + d))))" using assms by auto
  show ?thesis unfolding recorded_def n
    by (simp add: upt_conv_Cons map_Suc_upt[symmetric] comp_def algebra_simps del: upt_Suc)
qed

lemma recorded_cong:
  assumes "\<And>i. d * (int i - b) \<ge> 0 \<Longrightarrow> d * (p - int i) > 0 \<Longrightarrow> buf ! i = buf' ! i"
    and "d \<in> {1, -1}" "d = 1 \<longrightarrow> 0 \<le> b" "d = -1 \<longrightarrow> -1 \<le> p"
  shows "recorded d b p buf = recorded d b p buf'"
  unfolding recorded_def
proof (rule map_cong)
  fix k assume "k \<in> set [0..<nat (d * (p - b))]"
  then have "int k < d * (p - b)" by auto
  then show "buf ! nat (b + d * int k) = buf' ! nat (b + d * int k)" using assms(2-4) by (intro assms(1)) auto
qed simp

lemma macro_trim_ok:
  assumes "d \<in> {1, -1}" "\<And>k. k < n \<Longrightarrow> 0 \<le> b + d * int k \<and> b + d * int k < int (length (macro_buffer s))"
  shows "\<exists>p. macro_trim n b d s = Some p \<and> 0 \<le> d * (p - b) \<and> d * (p - b) \<le> int n
    \<and> recorded d b p (macro_buffer s) = rev (dropWhile pressed (rev (recorded d b (b + d * int n) (macro_buffer s))))"
  using assms(2)
proof (induction n)
  case (Suc n)
  let ?p = "b + d * int n"
  have r: "macro_read ?p s = Some (macro_buffer s ! nat ?p)" using Suc.prems[of n] by (simp add: macro_read_def)
  have q: "b + d * int (Suc n) = ?p + d" "0 \<le> d * (?p - b)" using assms(1) by (auto simp: algebra_simps)
  have snoc: "recorded d b (?p + d) (macro_buffer s) = recorded d b ?p (macro_buffer s) @ [macro_buffer s ! nat ?p]"
    by (rule recorded_snoc[OF assms(1) q(2)])
  have t: "macro_trim (Suc n) b d s = (if pressed (macro_buffer s ! nat ?p) then macro_trim n b d s else Some (?p + d))"
    using r by (simp add: q(1) Let_def del: of_nat_Suc)
  show ?case
  proof (cases "pressed (macro_buffer s ! nat ?p)")
    case True
    from Suc.IH Suc.prems obtain p where "macro_trim n b d s = Some p" "0 \<le> d * (p - b)" "d * (p - b) \<le> int n"
      "recorded d b p (macro_buffer s) = rev (dropWhile pressed (rev (recorded d b ?p (macro_buffer s))))"
      by (meson less_Suc_eq)
    moreover have "recorded d b (b + d * int (Suc n)) (macro_buffer s) = recorded d b ?p (macro_buffer s) @ [macro_buffer s ! nat ?p]"
      unfolding q(1) by (rule snoc)
    ultimately show ?thesis using True t by (intro exI[of _ p]) (simp del: macro_trim.simps)
  next
    case False
    have "0 \<le> d * (?p + d - b) \<and> d * (?p + d - b) \<le> int (Suc n)" using assms(1) by auto
    moreover have "recorded d b (b + d * int (Suc n)) (macro_buffer s) = recorded d b ?p (macro_buffer s) @ [macro_buffer s ! nat ?p]"
      unfolding q(1) by (rule snoc)
    ultimately show ?thesis using False t snoc by (intro exI[of _ "?p + d"]) (simp del: macro_trim.simps of_nat_Suc)
  qed
qed simp

lemma macro_play_ok:
  assumes "d \<in> {1, -1}" "\<And>k. k < n \<Longrightarrow> 0 \<le> b + d * int k \<and> b + d * int k < int (length (macro_buffer s))"
  shows "\<exists>buf. macro_play_loop ops n b d s = Some (s\<lparr>macro_buffer := buf,
        dm_rest := snd (play_all ops (recorded d b (b + d * int n) (macro_buffer s)) (dm_rest s))\<rparr>)
    \<and> recorded d b (b + d * int n) buf = fst (play_all ops (recorded d b (b + d * int n) (macro_buffer s)) (dm_rest s))
    \<and> length buf = length (macro_buffer s)
    \<and> (\<forall>i. d * (int i - b) < 0 \<or> d * (int i - b) \<ge> int n \<longrightarrow> buf ! i = macro_buffer s ! i)"
  using assms(2)
proof (induction n arbitrary: b s)
  case 0
  then show ?case by (intro exI[of _ "macro_buffer s"]) simp
next
  case (Suc n)
  let ?buf = "macro_buffer s" and ?fin = "b + d * int (Suc n)"
  have b: "0 \<le> b" "b < int (length ?buf)" using Suc.prems[of 0] by simp_all
  obtain r e where r: "dm_process_record ops (?buf ! nat b) (dm_rest s) = (r, e)" by fastforce
  let ?s = "s\<lparr>dm_rest := e, macro_buffer := ?buf[nat b := r]\<rparr>"
  have step: "macro_play_loop ops (Suc n) b d s = macro_play_loop ops n (b + d) d ?s"
    using b r by (simp add: macro_read_def macro_write_def)
  have fin: "b + d + d * int n = ?fin" by (simp add: algebra_simps)
  have pre: "0 \<le> b + d + d * int k \<and> b + d + d * int k < int (length (macro_buffer ?s))" if "k < n" for k
    using Suc.prems[of "Suc k"] that by (simp add: algebra_simps)
  from Suc.IH[of "b + d" ?s, OF pre] obtain buf where
    buf: "macro_play_loop ops n (b + d) d ?s = Some (?s\<lparr>macro_buffer := buf,
        dm_rest := snd (play_all ops (recorded d (b + d) ?fin (?buf[nat b := r])) e)\<rparr>)"
      "recorded d (b + d) ?fin buf = fst (play_all ops (recorded d (b + d) ?fin (?buf[nat b := r])) e)"
      "length buf = length ?buf"
      "\<forall>i. d * (int i - (b + d)) < 0 \<or> d * (int i - (b + d)) \<ge> int n \<longrightarrow> buf ! i = ?buf[nat b := r] ! i"
    unfolding fin by auto
  have last: "-1 \<le> ?fin" using Suc.prems[of n] assms(1) by auto
  have tail: "recorded d (b + d) ?fin (?buf[nat b := r]) = recorded d (b + d) ?fin ?buf"
    using assms(1) b(1) last by (intro recorded_cong) (auto simp: nth_list_update)
  have pos: "0 < d * (?fin - b)" using assms(1) by auto
  have at_b: "buf ! nat b = r" using buf(4) b assms(1) by auto
  have whole: "play_all ops (recorded d b ?fin ?buf) (dm_rest s)
      = (r # fst (play_all ops (recorded d (b + d) ?fin ?buf) e), snd (play_all ops (recorded d (b + d) ?fin ?buf) e))"
    unfolding recorded_Cons[OF assms(1) pos] by (simp add: r split: prod.splits)
  have other: "buf ! i = ?buf ! i" if "d * (int i - b) < 0 \<or> d * (int i - b) \<ge> int (Suc n)" for i
  proof -
    have "i \<noteq> nat b" using that b(1) assms(1) by auto
    moreover have "d * (int i - (b + d)) < 0 \<or> d * (int i - (b + d)) \<ge> int n" using that assms(1) by auto
    ultimately show ?thesis using buf(4) nth_list_update_neq[of "nat b" i ?buf r] by auto
  qed
  show ?case
    using buf(1-3) other tail whole at_b recorded_Cons[OF assms(1) pos, of buf] step
    by (intro exI[of _ buf]) (simp del: of_nat_Suc)
qed

section \<open>The code keeps the contract\<close>

text \<open>Recording and playing in the direction \<open>d\<close> do not touch the macro at the other end.\<close>

lemma recorded_frame:
  assumes "\<And>i. i < length buf \<Longrightarrow> d * (p - int i) > 0 \<Longrightarrow> d * (int i - b) \<ge> 0 \<Longrightarrow> buf' ! i = buf ! i"
    and "d \<in> {1, -1}" "d = 1 \<longrightarrow> 0 \<le> b \<and> p \<le> int (length buf)" "d = -1 \<longrightarrow> b < int (length buf) \<and> -1 \<le> p"
  shows "recorded d b p buf' = recorded d b p buf"
  using assms(2-4) by (intro recorded_cong assms(1)) auto

lemma record_key_ok:
  assumes d: "d \<in> {1, -1}" "b = (if d = 1 then 0 else int (length (macro_buffer s)) - 1)"
    and p: "0 \<le> d * (macro_pointer s - b)" "d * (macro_pointer s - q) \<le> 1"
    and q: "-1 \<le> q" "q \<le> int (length (macro_buffer s))" "d = 1 \<longrightarrow> q < int (length (macro_buffer s))" "d = -1 \<longrightarrow> 0 \<le> q"
    and b': "b' = (if d = 1 then int (length (macro_buffer s)) - 1 else 0)"
  shows "\<exists>t. dynamic_macro_record_key ops b q d r s = Some t \<and> length (macro_buffer t) = length (macro_buffer s)
    \<and> macro_end t = macro_end s \<and> r_macro_end t = r_macro_end s \<and> macro_id t = macro_id s
    \<and> 0 \<le> d * (macro_pointer t - b) \<and> d * (macro_pointer t - q) \<le> 1
    \<and> recorded (- d) b' q (macro_buffer t) = recorded (- d) b' q (macro_buffer s)
    \<and> (let l = recorded d b (macro_pointer s) (macro_buffer s); m = recorded (- d) b' q (macro_buffer s)
       in if \<not> pressed r \<and> l = [] then t = s
          else dm_rest t = dynamic_macro_record_key_kb ops d r (dm_rest s)
             \<and> recorded d b (macro_pointer t) (macro_buffer t)
                 = (if length l + length m < length (macro_buffer s) then l @ [r] else l))"
proof -
  let ?p = "macro_pointer s" and ?buf = "macro_buffer s"
  let ?l = "recorded d b ?p ?buf" and ?m = "recorded (- d) b' q ?buf"
  have empty: "?l = [] \<longleftrightarrow> ?p = b" using p(1) d(1) by (auto simp: recorded_def)
  have room: "length ?l + length ?m < length ?buf \<longleftrightarrow> ?p - d \<noteq> q"
    using d p q b' by (auto simp: length_recorded nat_diff_distrib')
  show ?thesis
  proof (cases "\<not> pressed r \<and> ?p = b")
    case True
    then show ?thesis using empty p by (simp add: dynamic_macro_record_key_def)
  next
    case new: False
    show ?thesis
    proof (cases "?p - d = q")
      case True
      then show ?thesis using new empty room p by (auto simp: dynamic_macro_record_key_def on_rest_def)
    next
      case False
      then have pos: "0 \<le> ?p" "?p < int (length ?buf)" and pq: "d * (?p - q) \<le> 0" using d p q by auto
      let ?t = "s\<lparr>macro_buffer := ?buf[nat ?p := r], macro_pointer := ?p + d, dm_rest := dynamic_macro_record_key_kb ops d r (dm_rest s)\<rparr>"
      have step: "dynamic_macro_record_key ops b q d r s = Some ?t"
        unfolding dynamic_macro_record_key_def if_not_P[OF new] using False pos by (simp add: macro_write_def on_rest_def)
      have keep: "recorded d b ?p (?buf[nat ?p := r]) = ?l"
        using d p pos by (intro recorded_frame) (auto simp: nth_list_update)
      have "recorded d b (?p + d) (?buf[nat ?p := r]) = ?l @ [r]"
        using recorded_snoc[OF d(1) p(1), of "?buf[nat ?p := r]"] keep pos by simp
      moreover have "recorded (- d) b' q (?buf[nat ?p := r]) = ?m"
        using d p q pos pq b' by (intro recorded_frame) (auto simp: nth_list_update)
      moreover have "\<not> (\<not> pressed r \<and> ?l = [])" using new empty by blast
      moreover have "0 \<le> d * (?p + d - b)" "d * (?p + d - q) \<le> 1" using d(1) p(1) pq by auto
      ultimately show ?thesis using step room False unfolding Let_def by (intro exI[of _ ?t]) auto
    qed
  qed
qed

lemma record_end_ok:
  assumes d: "d \<in> {1, -1}" "b = (if d = 1 then 0 else int (length (macro_buffer s)) - 1)"
    and p: "0 \<le> d * (p - b)" "d * (p - b) \<le> int (length (macro_buffer s))"
  shows "\<exists>q. dynamic_macro_record_end ops b p d s = Some (on_rest (dynamic_macro_record_end_kb ops d) s, q)
    \<and> 0 \<le> d * (q - b) \<and> d * (q - b) \<le> d * (p - b)
    \<and> recorded d b q (macro_buffer s) = rev (dropWhile pressed (rev (recorded d b p (macro_buffer s))))"
proof -
  let ?s = "on_rest (dynamic_macro_record_end_kb ops d) s" and ?n = "nat (d * (p - b))"
  have buf: "macro_buffer ?s = macro_buffer s" by (simp add: on_rest_def)
  have "0 \<le> b + d * int k \<and> b + d * int k < int (length (macro_buffer ?s))" if "k < ?n" for k
    using d p that by (auto simp: buf)
  from macro_trim_ok[OF d(1) this] obtain q where q: "macro_trim ?n b d ?s = Some q" "0 \<le> d * (q - b)" "d * (q - b) \<le> int ?n"
    "recorded d b q (macro_buffer ?s) = rev (dropWhile pressed (rev (recorded d b (b + d * int ?n) (macro_buffer ?s))))"
    by blast
  have "b + d * int ?n = p" using d(1) p(1) by auto
  with q p(1) show ?thesis by (intro exI[of _ q]) (simp add: dynamic_macro_record_end_def Let_def buf)
qed

lemma play_ok:
  assumes d: "d \<in> {1, -1}" "b = (if d = 1 then 0 else int (length (macro_buffer s)) - 1)"
    and p: "0 \<le> d * (p - b)" "d * (p - q) \<le> 1"
    and q: "-1 \<le> q" "q \<le> int (length (macro_buffer s))" "d = 1 \<longrightarrow> q < int (length (macro_buffer s))" "d = -1 \<longrightarrow> 0 \<le> q"
    and b': "b' = (if d = 1 then int (length (macro_buffer s)) - 1 else 0)"
  shows "\<exists>buf. dynamic_macro_play ops b p d s = Some (s\<lparr>macro_buffer := buf,
        dm_rest := snd (macros_play ops d (recorded d b p (macro_buffer s)) (dm_rest s))\<rparr>)
    \<and> length buf = length (macro_buffer s)
    \<and> recorded d b p buf = fst (macros_play ops d (recorded d b p (macro_buffer s)) (dm_rest s))
    \<and> recorded (- d) b' q buf = recorded (- d) b' q (macro_buffer s)"
proof -
  let ?s = "on_rest (\<lambda>e. dm_layer_clear ops (dm_clear_keyboard ops e)) s" and ?n = "nat (d * (p - b))"
  have buf: "macro_buffer ?s = macro_buffer s" by (simp add: on_rest_def)
  have pn: "b + d * int ?n = p" using d(1) p(1) by auto
  have in_buf: "0 \<le> b + d * int k \<and> b + d * int k < int (length (macro_buffer ?s))" if "k < ?n" for k
    using d p q that by (auto simp: buf)
  from macro_play_ok[where ops = ops and n = ?n and b = b and s = ?s, OF d(1) in_buf] obtain buf where
    l: "macro_play_loop ops ?n b d ?s = Some (?s\<lparr>macro_buffer := buf,
        dm_rest := snd (play_all ops (recorded d b p (macro_buffer s)) (dm_rest ?s))\<rparr>)"
      "recorded d b p buf = fst (play_all ops (recorded d b p (macro_buffer s)) (dm_rest ?s))"
      "length buf = length (macro_buffer s)"
      "\<forall>i. d * (int i - b) < 0 \<or> d * (int i - b) \<ge> int ?n \<longrightarrow> buf ! i = macro_buffer s ! i"
    unfolding pn buf by blast
  have "recorded (- d) b' q buf = recorded (- d) b' q (macro_buffer s)"
    using d p q b' l(4) by (intro recorded_frame) auto
  then show ?thesis using l(1-3)
    by (intro exI[of _ buf]) (simp add: dynamic_macro_play_def macros_play_def on_rest_def split: prod.splits)
qed

lemma dm_okD:
  assumes "dm_ok ops s"
  shows "length (macro_buffer s) = DYNAMIC_MACRO_SIZE ops" "r_macro_buffer ops = int (length (macro_buffer s)) - 1"
    "0 \<le> macro_end s" "macro_end s \<le> r_macro_end s + 1" "r_macro_end s \<le> r_macro_buffer ops"
  using assms by (auto simp: dm_ok_def r_macro_buffer_def)

lemma play_1:
  assumes "dm_ok ops s" "macro_id s = 0"
  shows "\<exists>t. dynamic_macro_play ops 0 (macro_end s) 1 s = Some t \<and> dm_ok ops t
    \<and> macros_of ops t = (case macros_play ops 1 (slot1 (macros_of ops s)) (dm_rest s) of (rs, e) \<Rightarrow>
        (macros_of ops s)\<lparr>slot1 := rs, m_rest := e\<rparr>)"
proof -
  note ok = dm_okD[OF assms(1)]
  from play_ok[of 1 0 s "macro_end s" "r_macro_end s" "r_macro_buffer ops" ops] ok obtain buf where
    b: "dynamic_macro_play ops 0 (macro_end s) 1 s = Some (s\<lparr>macro_buffer := buf,
        dm_rest := snd (macros_play ops 1 (recorded 1 0 (macro_end s) (macro_buffer s)) (dm_rest s))\<rparr>)"
      "length buf = length (macro_buffer s)"
      "recorded 1 0 (macro_end s) buf = fst (macros_play ops 1 (recorded 1 0 (macro_end s) (macro_buffer s)) (dm_rest s))"
      "recorded (- 1) (r_macro_buffer ops) (r_macro_end s) buf = recorded (- 1) (r_macro_buffer ops) (r_macro_end s) (macro_buffer s)"
    by auto
  with assms show ?thesis by (auto simp: dm_ok_def macros_of_def split: prod.splits)
qed

lemma play_2:
  assumes "dm_ok ops s" "macro_id s = 0"
  shows "\<exists>t. dynamic_macro_play ops (r_macro_buffer ops) (r_macro_end s) (-1) s = Some t \<and> dm_ok ops t
    \<and> macros_of ops t = (case macros_play ops (-1) (slot2 (macros_of ops s)) (dm_rest s) of (rs, e) \<Rightarrow>
        (macros_of ops s)\<lparr>slot2 := rs, m_rest := e\<rparr>)"
proof -
  note ok = dm_okD[OF assms(1)]
  from play_ok[of "-1" "r_macro_buffer ops" s "r_macro_end s" "macro_end s" 0 ops] ok obtain buf where
    b: "dynamic_macro_play ops (r_macro_buffer ops) (r_macro_end s) (-1) s = Some (s\<lparr>macro_buffer := buf,
        dm_rest := snd (macros_play ops (-1) (recorded (-1) (r_macro_buffer ops) (r_macro_end s) (macro_buffer s)) (dm_rest s))\<rparr>)"
      "length buf = length (macro_buffer s)"
      "recorded (-1) (r_macro_buffer ops) (r_macro_end s) buf
        = fst (macros_play ops (-1) (recorded (-1) (r_macro_buffer ops) (r_macro_end s) (macro_buffer s)) (dm_rest s))"
      "recorded 1 0 (macro_end s) buf = recorded 1 0 (macro_end s) (macro_buffer s)"
    by auto
  with assms show ?thesis by (auto simp: dm_ok_def macros_of_def split: prod.splits)
qed

lemma stop_ok:
  assumes "dm_ok ops s" "macro_id s \<noteq> 0"
  shows "\<exists>t. dynamic_macro_stop_recording ops s = Some t \<and> dm_ok ops t \<and> macros_of ops t = macros_stop ops (macros_of ops s)"
proof -
  note ok = dm_okD[OF assms(1)]
  consider "macro_id s = 1" "0 \<le> macro_pointer s" "macro_pointer s \<le> r_macro_end s + 1"
    | "macro_id s = 2" "macro_end s - 1 \<le> macro_pointer s" "macro_pointer s \<le> r_macro_buffer ops"
    using assms by (fastforce simp: dm_ok_def)
  then show ?thesis
  proof cases
    case 1
    from record_end_ok[of 1 0 s "macro_pointer s" ops] 1 ok obtain q where
      "dynamic_macro_record_end ops 0 (macro_pointer s) 1 s = Some (on_rest (dynamic_macro_record_end_kb ops 1) s, q)"
      "0 \<le> q" "q \<le> macro_pointer s"
      "recorded 1 0 q (macro_buffer s) = rev (dropWhile pressed (rev (recorded 1 0 (macro_pointer s) (macro_buffer s))))"
      by auto
    with 1 assms show ?thesis
      by (auto simp: dynamic_macro_stop_recording_def on_rest_def dm_ok_def macros_of_def macros_stop_def Let_def)
  next
    case 2
    from record_end_ok[of "-1" "r_macro_buffer ops" s "macro_pointer s" ops] 2 ok obtain q where
      "dynamic_macro_record_end ops (r_macro_buffer ops) (macro_pointer s) (-1) s
        = Some (on_rest (dynamic_macro_record_end_kb ops (-1)) s, q)"
      "q \<le> r_macro_buffer ops" "macro_pointer s \<le> q"
      "recorded (-1) (r_macro_buffer ops) q (macro_buffer s)
        = rev (dropWhile pressed (rev (recorded (-1) (r_macro_buffer ops) (macro_pointer s) (macro_buffer s))))"
      by auto
    with 2 assms show ?thesis
      by (auto simp: dynamic_macro_stop_recording_def on_rest_def dm_ok_def macros_of_def macros_stop_def Let_def)
  qed
qed

lemma key_1:
  assumes "dm_ok ops s" "macro_id s = 1"
  shows "\<exists>t. dynamic_macro_record_key ops 0 (r_macro_end s) 1 r s = Some t \<and> dm_ok ops t
    \<and> macros_of ops t = macros_key ops r (macros_of ops s)"
proof -
  note ok = dm_okD[OF assms(1)]
  have p: "0 \<le> macro_pointer s" "macro_pointer s \<le> r_macro_end s + 1" using assms by (auto simp: dm_ok_def)
  let ?l = "recorded 1 0 (macro_pointer s) (macro_buffer s)"
  let ?m = "recorded (- 1) (r_macro_buffer ops) (r_macro_end s) (macro_buffer s)"
  from record_key_ok[of 1 0 s "r_macro_end s" "r_macro_buffer ops" ops r] ok p obtain t where
    t: "dynamic_macro_record_key ops 0 (r_macro_end s) 1 r s = Some t" "length (macro_buffer t) = length (macro_buffer s)"
      "macro_end t = macro_end s" "r_macro_end t = r_macro_end s" "macro_id t = macro_id s"
      "0 \<le> macro_pointer t" "macro_pointer t - r_macro_end s \<le> 1"
      "recorded (- 1) (r_macro_buffer ops) (r_macro_end s) (macro_buffer t) = ?m"
      "if \<not> pressed r \<and> ?l = [] then t = s
       else dm_rest t = dynamic_macro_record_key_kb ops 1 r (dm_rest s)
          \<and> recorded 1 0 (macro_pointer t) (macro_buffer t) = (if length ?l + length ?m < length (macro_buffer s) then ?l @ [r] else ?l)"
    by (auto simp: Let_def)
  with assms show ?thesis by (auto simp: dm_ok_def macros_of_def macros_key_def)
qed

lemma key_2:
  assumes "dm_ok ops s" "macro_id s = 2"
  shows "\<exists>t. dynamic_macro_record_key ops (r_macro_buffer ops) (macro_end s) (-1) r s = Some t \<and> dm_ok ops t
    \<and> macros_of ops t = macros_key ops r (macros_of ops s)"
proof -
  note ok = dm_okD[OF assms(1)]
  have p: "macro_end s - 1 \<le> macro_pointer s" "macro_pointer s \<le> r_macro_buffer ops" using assms by (auto simp: dm_ok_def)
  let ?l = "recorded (-1) (r_macro_buffer ops) (macro_pointer s) (macro_buffer s)"
  let ?m = "recorded 1 0 (macro_end s) (macro_buffer s)"
  have b: "r_macro_buffer ops = (if (-1 :: int) = 1 then 0 else int (length (macro_buffer s)) - 1)"
    "macro_end s \<le> int (length (macro_buffer s))" using ok by simp_all
  from record_key_ok[of "-1" "r_macro_buffer ops" s "macro_end s" 0 ops r, OF _ b(1)] ok(3) b(2) p obtain t where
    t: "dynamic_macro_record_key ops (r_macro_buffer ops) (macro_end s) (-1) r s = Some t"
      "length (macro_buffer t) = length (macro_buffer s)"
      "macro_end t = macro_end s" "r_macro_end t = r_macro_end s" "macro_id t = macro_id s"
      "macro_pointer t \<le> r_macro_buffer ops" "macro_end s - macro_pointer t \<le> 1"
      "recorded 1 0 (macro_end s) (macro_buffer t) = ?m"
      "if \<not> pressed r \<and> ?l = [] then t = s
       else dm_rest t = dynamic_macro_record_key_kb ops (-1) r (dm_rest s)
          \<and> recorded (-1) (r_macro_buffer ops) (macro_pointer t) (macro_buffer t)
              = (if length ?l + length ?m < length (macro_buffer s) then ?l @ [r] else ?l)"
    by (simp add: Let_def) blast
  with assms show ?thesis by (auto simp: dm_ok_def macros_of_def macros_key_def)
qed

lemma idle_ok:
  assumes "dm_ok ops s" "macro_id s = 0"
  shows "\<exists>t b. process_dynamic_macro ops keycode r s = Some (t, b) \<and> dm_ok ops t
    \<and> macros_step ops keycode r (macros_of ops s) = (macros_of ops t, b)"
proof -
  note ok = dm_okD[OF assms(1)]
  have idle: "taping (macros_of ops s) = 0" "m_rest (macros_of ops s) = dm_rest s"
    using assms(2) by (simp_all add: macros_of_def)
  consider "pressed r" | "\<not> pressed r" "keycode = QK_DYNAMIC_MACRO_RECORD_START_1"
    | "\<not> pressed r" "keycode = QK_DYNAMIC_MACRO_RECORD_START_2" | "\<not> pressed r" "keycode = QK_DYNAMIC_MACRO_PLAY_1"
    | "\<not> pressed r" "keycode = QK_DYNAMIC_MACRO_PLAY_2"
    | "keycode \<notin> {QK_DYNAMIC_MACRO_RECORD_START_1, QK_DYNAMIC_MACRO_RECORD_START_2, QK_DYNAMIC_MACRO_PLAY_1, QK_DYNAMIC_MACRO_PLAY_2}"
    by blast
  then show ?thesis
  proof cases
    case 2
    then show ?thesis using assms ok
      by (auto simp: process_dynamic_macro_def macros_step_def idle dynamic_macro_record_start_def on_rest_def
          macros_of_def macros_start_def dm_ok_def)
  next
    case 3
    then show ?thesis using assms ok
      by (auto simp: process_dynamic_macro_def macros_step_def idle dynamic_macro_record_start_def on_rest_def
          macros_of_def macros_start_def dm_ok_def QK_DYNAMIC_MACRO_RECORD_START_1_def QK_DYNAMIC_MACRO_RECORD_START_2_def)
  next
    case 4
    with play_1[OF assms] idle assms(2) show ?thesis
      by (auto simp: process_dynamic_macro_def macros_step_def QK_DYNAMIC_MACRO_RECORD_START_1_def
          QK_DYNAMIC_MACRO_RECORD_START_2_def QK_DYNAMIC_MACRO_PLAY_1_def split: prod.splits)
  next
    case 5
    with play_2[OF assms] idle assms(2) show ?thesis
      by (auto simp: process_dynamic_macro_def macros_step_def QK_DYNAMIC_MACRO_RECORD_START_1_def
          QK_DYNAMIC_MACRO_RECORD_START_2_def QK_DYNAMIC_MACRO_PLAY_1_def QK_DYNAMIC_MACRO_PLAY_2_def split: prod.splits)
  qed (use assms idle in \<open>auto simp: process_dynamic_macro_def macros_step_def\<close>)
qed

lemma recording_ok:
  assumes "dm_ok ops s" "macro_id s \<noteq> 0"
  shows "\<exists>t b. process_dynamic_macro ops keycode r s = Some (t, b) \<and> dm_ok ops t
    \<and> macros_step ops keycode r (macros_of ops s) = (macros_of ops t, b)"
proof -
  have tp: "taping (macros_of ops s) \<noteq> 0" "m_rest (macros_of ops s) = dm_rest s" using assms(2) by (simp_all add: macros_of_def)
  let ?starts = "{QK_DYNAMIC_MACRO_RECORD_START_1, QK_DYNAMIC_MACRO_RECORD_START_2}"
  have stop: "QK_DYNAMIC_MACRO_RECORD_STOP \<notin> ?starts"
    by (simp add: QK_DYNAMIC_MACRO_RECORD_START_1_def QK_DYNAMIC_MACRO_RECORD_START_2_def QK_DYNAMIC_MACRO_RECORD_STOP_def)
  consider "keycode \<in> ?starts \<or> keycode = QK_DYNAMIC_MACRO_RECORD_STOP"
    | "keycode \<notin> ?starts" "keycode \<noteq> QK_DYNAMIC_MACRO_RECORD_STOP" "keycode \<in> {QK_DYNAMIC_MACRO_PLAY_1, QK_DYNAMIC_MACRO_PLAY_2}"
    | "keycode \<notin> ?starts" "keycode \<noteq> QK_DYNAMIC_MACRO_RECORD_STOP" "keycode \<notin> {QK_DYNAMIC_MACRO_PLAY_1, QK_DYNAMIC_MACRO_PLAY_2}"
    by blast
  then show ?thesis
  proof cases
    case 1
    obtain t where t: "dynamic_macro_stop_recording ops s = Some t" "dm_ok ops t" "macros_of ops t = macros_stop ops (macros_of ops s)"
      using stop_ok[OF assms] by blast
    have p: "process_dynamic_macro ops keycode r s = map_option (\<lambda>s. (s, False))
        (if pressed r \<noteq> (keycode \<noteq> QK_DYNAMIC_MACRO_RECORD_STOP) then Some t else Some s)"
      using 1 assms(2) t(1) by (simp add: process_dynamic_macro_def disj_comms)
    have m: "macros_step ops keycode r (macros_of ops s)
        = (if pressed r \<noteq> (keycode \<noteq> QK_DYNAMIC_MACRO_RECORD_STOP) then macros_of ops t else macros_of ops s, False)"
    proof (cases "keycode = QK_DYNAMIC_MACRO_RECORD_STOP")
      case True
      then show ?thesis using stop tp(1) t(3) by (simp add: macros_step_def)
    next
      case False
      with 1 have "keycode \<in> ?starts" by blast
      with False show ?thesis using tp(1) t(3) by (simp add: macros_step_def)
    qed
    show ?thesis unfolding p m using assms(1) t(2) by (cases "pressed r \<noteq> (keycode \<noteq> QK_DYNAMIC_MACRO_RECORD_STOP)") auto
  next
    case 2
    then show ?thesis using assms tp by (auto simp: process_dynamic_macro_def macros_step_def)
  next
    case 3
    obtain e valid where v: "dynamic_macro_valid_key_kb ops keycode r (dm_rest s) = (e, valid)" by fastforce
    let ?s = "s\<lparr>dm_rest := e\<rparr>"
    have s: "dm_ok ops ?s" "macros_of ops ?s = (macros_of ops s)\<lparr>m_rest := e\<rparr>" "macro_id ?s = macro_id s"
      using assms(1) by (simp_all add: dm_ok_def macros_of_def)
    have "\<exists>t. (if \<not> valid then Some ?s
        else if macro_id ?s = 1 then dynamic_macro_record_key ops 0 (r_macro_end ?s) 1 r ?s
        else if macro_id ?s = 2 then dynamic_macro_record_key ops (r_macro_buffer ops) (macro_end ?s) (-1) r ?s
        else Some ?s) = Some t \<and> dm_ok ops t
      \<and> macros_of ops t = (if valid then macros_key ops r (macros_of ops ?s) else macros_of ops ?s)"
    proof (cases valid)
      case True
      have "macro_id s = 1 \<or> macro_id s = 2" using assms by (auto simp: dm_ok_def)
      with key_1[OF s(1), of r] key_2[OF s(1), of r] True show ?thesis by (auto simp: s(3))
    qed (use s in simp)
    then obtain t where t: "(if \<not> valid then Some ?s
        else if macro_id ?s = 1 then dynamic_macro_record_key ops 0 (r_macro_end ?s) 1 r ?s
        else if macro_id ?s = 2 then dynamic_macro_record_key ops (r_macro_buffer ops) (macro_end ?s) (-1) r ?s
        else Some ?s) = Some t" "dm_ok ops t"
      "macros_of ops t = (if valid then macros_key ops r (macros_of ops ?s) else macros_of ops ?s)" by blast
    have p: "process_dynamic_macro ops keycode r s = Some (t, True)"
      unfolding process_dynamic_macro_def v prod.case Let_def t(1) using 3 assms(2) by simp
    have m: "macros_step ops keycode r (macros_of ops s) = (macros_of ops t, True)"
      unfolding macros_step_def tp(2) v prod.case t(3) s(2) using 3 tp(1) by simp
    show ?thesis using p m t(2) by blast
  qed
qed

text \<open>
  C13. Dynamic macros are two independent lists in one buffer. Every key goes through the code
  without a read or write outside the buffer, and does to the macros what the contract says: a
  recording takes the key records from the first press to the last release that fit into the room
  the other macro leaves, playing hands them to \<open>process_record\<close> one after the other in
  the order of the recording, and neither touches the other macro.
\<close>

theorem dynamic_macro_refines:
  assumes "dm_ok ops s"
  shows "\<exists>t b. process_dynamic_macro ops keycode r s = Some (t, b) \<and> dm_ok ops t
    \<and> macros_step ops keycode r (macros_of ops s) = (macros_of ops t, b)"
  using idle_ok[OF assms] recording_ok[OF assms] by blast

text \<open>The module starts in this state, and a concrete recording is played as it was recorded.\<close>

lemma dynamic_macro_start_ok:
  "dm_ok ops (dynamic_macro_start ops e)"
  "macros_of ops (dynamic_macro_start ops e) = \<lparr>slot1 = [], slot2 = [], taping = 0, tape = [], m_rest = e\<rparr>"
  by (simp_all add: dm_ok_def dynamic_macro_start_def r_macro_buffer_def macros_of_def recorded_def)

definition noting_ops :: "nat \<Rightarrow> keyrecord_t list dm_ops" where
  "noting_ops n = \<lparr>DYNAMIC_MACRO_SIZE = n, dm_process_record = (\<lambda>r e. (r, e @ [r])), dm_clear_keyboard = id,
     dm_layer_state = (\<lambda>_. 0), dm_layer_state_set = (\<lambda>_. id), dm_layer_clear = id,
     dynamic_macro_record_start_kb = (\<lambda>_. id), dynamic_macro_play_kb = (\<lambda>_. id),
     dynamic_macro_record_key_kb = (\<lambda>_ _. id), dynamic_macro_record_end_kb = (\<lambda>_. id),
     dynamic_macro_valid_key_kb = (\<lambda>_ _ e. (e, True))\<rparr>"

lemma dynamic_macro_refines_witness:
  "\<exists>t. process_dynamic_macro (noting_ops 128) QK_DYNAMIC_MACRO_RECORD_START_1 (event_record (MAKE_KEYEVENT 5 0 0 False))
      (dynamic_macro_start (noting_ops 128) []) = Some (t, False) \<and> taping (macros_of (noting_ops 128) t) = 1"
proof -
  let ?r = "event_record (MAKE_KEYEVENT 5 0 0 False)"
  have "\<not> pressed ?r" by (simp add: event_record_def MAKE_KEYEVENT_def MAKE_EVENT_def)
  with dynamic_macro_refines[OF dynamic_macro_start_ok(1), of "noting_ops 128" QK_DYNAMIC_MACRO_RECORD_START_1 ?r "[]"]
  obtain t b where t: "process_dynamic_macro (noting_ops 128) QK_DYNAMIC_MACRO_RECORD_START_1 ?r (dynamic_macro_start (noting_ops 128) []) = Some (t, b)"
    "macros_step (noting_ops 128) QK_DYNAMIC_MACRO_RECORD_START_1 ?r (macros_of (noting_ops 128) (dynamic_macro_start (noting_ops 128) []))
      = (macros_of (noting_ops 128) t, b)" by blast
  then have "macros_of (noting_ops 128) t = \<lparr>slot1 = [], slot2 = [], taping = 1, tape = [], m_rest = macros_start (noting_ops 128) 1 []\<rparr>" "\<not> b"
    using \<open>\<not> pressed ?r\<close> by (simp_all add: dynamic_macro_start_ok(2) macros_step_def)
  with t(1) show ?thesis by simp
qed

end
