(* ===== verification/Deferred_Exec.thy ===== *)
theory Deferred_Exec
  imports Prelude
begin

text \<open>
  Deferred execution (quantum/deferred_exec.c): a table of callbacks with their times, and tokens
  to extend or cancel them.

  A callback with its argument is a value \<open>'cb\<close>; \<open>run_callback\<close> gives what calling it at a trigger
  time returns and does to the whole state, the table included. A table pointer is not NULL.
\<close>

section \<open>State\<close>

record 'cb deferred_executor_t =
  token :: "8 word"
  trigger_time :: "32 word"
  callback :: "'cb option"

record ('cb, 'e) deferred =
  executors :: "'cb deferred_executor_t list"
  current_token :: u8
  last_execution_time :: u32
  de_rest :: 'e

definition INVALID_DEFERRED_TOKEN :: u8 where "INVALID_DEFERRED_TOKEN = 0"

definition empty_executor :: "'cb deferred_executor_t" where
  "empty_executor = \<lparr>token = INVALID_DEFERRED_TOKEN, trigger_time = 0, callback = None\<rparr>"

definition deferred_start :: "nat \<Rightarrow> 'e \<Rightarrow> ('cb, 'e) deferred" where
  "deferred_start table_count e =
     \<lparr>executors = replicate table_count empty_executor, current_token = 0, last_execution_time = 0, de_rest = e\<rparr>"

section \<open>Tokens\<close>

definition token_can_be_used :: "'cb deferred_executor_t list \<Rightarrow> u8 \<Rightarrow> bool" where
  "token_can_be_used table t \<longleftrightarrow> t \<noteq> INVALID_DEFERRED_TOKEN \<and> \<not> list_ex (\<lambda>entry. token entry = t) table"

lemma unat_minus_1_less: "x \<noteq> 0 \<Longrightarrow> unat (x - 1) < unat (x :: u8)"
  using unat_minus_one[of x] unat_eq_0_iff[of x] by linarith

text \<open>The loop of \<open>allocate_token\<close>: the value returned, and \<open>current_token\<close>.\<close>

function allocate_loop :: "'cb deferred_executor_t list \<Rightarrow> u8 \<Rightarrow> u8 \<Rightarrow> u8 \<times> u8" where
  "allocate_loop table first current =
     (if token_can_be_used table current then (current, current)
      else if current + 1 = first then (INVALID_DEFERRED_TOKEN, current + 1)
      else allocate_loop table first (current + 1))"
  by auto

termination
proof (relation "measure (\<lambda>(table, first, current). unat (first - 1 - current))")
  fix table :: "'cb deferred_executor_t list" and first current :: u8
  assume "current + 1 \<noteq> first"
  then have "first - 1 - current \<noteq> 0" by (metis add.commute diff_add_cancel right_minus_eq)
  moreover have "first - 1 - (current + 1) = first - 1 - current - 1" by simp
  ultimately show "((table, first, current + 1), table, first, current) \<in> measure (\<lambda>(table, first, current). unat (first - 1 - current))"
    using unat_minus_1_less[of "first - 1 - current"] by (simp only: in_measure prod.case not_False_eq_True simp_thms)
qed simp

definition allocate_token :: "('cb, 'e) deferred \<Rightarrow> ('cb, 'e) deferred \<times> u8" where
  "allocate_token s = (case allocate_loop (executors s) (current_token s + 1) (current_token s + 1) of
     (t, current) \<Rightarrow> (s\<lparr>current_token := current\<rparr>, t))"

section \<open>Operations\<close>

text \<open>The first entry with a token.\<close>

definition find_entry :: "u8 \<Rightarrow> ('cb, 'e) deferred \<Rightarrow> nat option" where
  "find_entry t s = find (\<lambda>i. token (executors s ! i) = t) [0..<length (executors s)]"

definition defer_exec_advanced ::
    "u32 \<Rightarrow> u32 \<Rightarrow> 'cb option \<Rightarrow> ('cb, 'e) deferred \<Rightarrow> ('cb, 'e) deferred \<times> u8" where
  "defer_exec_advanced now delay_ms cb s =
     (if executors s = [] \<or> delay_ms = 0 \<or> cb = None then (s, INVALID_DEFERRED_TOKEN)
      else case find_entry INVALID_DEFERRED_TOKEN s of
             None \<Rightarrow> (s, INVALID_DEFERRED_TOKEN)
           | Some i \<Rightarrow> case allocate_token s of (s, t) \<Rightarrow>
               if t = INVALID_DEFERRED_TOKEN then (s, INVALID_DEFERRED_TOKEN)
               else (s\<lparr>executors := (executors s)[i := \<lparr>token = current_token s, trigger_time = now + delay_ms, callback = cb\<rparr>]\<rparr>,
                     current_token s))"

definition extend_deferred_exec_advanced ::
    "u32 \<Rightarrow> u8 \<Rightarrow> u32 \<Rightarrow> ('cb, 'e) deferred \<Rightarrow> ('cb, 'e) deferred \<times> bool" where
  "extend_deferred_exec_advanced now t delay_ms s =
     (if executors s = [] \<or> delay_ms = 0 \<or> t = INVALID_DEFERRED_TOKEN then (s, False)
      else case find_entry t s of
             None \<Rightarrow> (s, False)
           | Some i \<Rightarrow> (s\<lparr>executors := (executors s)[i := (executors s ! i)\<lparr>trigger_time := now + delay_ms\<rparr>]\<rparr>, True))"

definition cancel_deferred_exec_advanced :: "u8 \<Rightarrow> ('cb, 'e) deferred \<Rightarrow> ('cb, 'e) deferred \<times> bool" where
  "cancel_deferred_exec_advanced t s =
     (if executors s = [] \<or> t = INVALID_DEFERRED_TOKEN then (s, False)
      else case find_entry t s of
             None \<Rightarrow> (s, False)
           | Some i \<Rightarrow> (s\<lparr>executors := (executors s)[i := empty_executor]\<rparr>, True))"

text \<open>\<open>(int32_t)TIMER_DIFF_32(a, b)\<close> is \<open>sint (a - b)\<close>. A call through a NULL pointer does nothing here.\<close>

definition run_entry ::
    "('cb \<Rightarrow> u32 \<Rightarrow> ('cb, 'e) deferred \<Rightarrow> ('cb, 'e) deferred \<times> u32) \<Rightarrow> u32 \<Rightarrow> nat \<Rightarrow> ('cb, 'e) deferred \<Rightarrow> ('cb, 'e) deferred" where
  "run_entry run_callback now i s =
     (let entry = executors s ! i; curr_token = token entry
      in if curr_token \<noteq> INVALID_DEFERRED_TOKEN \<and> sint (trigger_time entry - now) \<le> 0 then
           case callback entry of
             None \<Rightarrow> s
           | Some cb \<Rightarrow> case run_callback cb (trigger_time entry) s of (s, delay_ms) \<Rightarrow>
               let entry = executors s ! i
               in if token entry \<noteq> curr_token then s
                  else if 0 < delay_ms then
                    s\<lparr>executors := (executors s)[i := entry\<lparr>trigger_time := trigger_time entry + delay_ms\<rparr>]\<rparr>
                  else s\<lparr>executors := (executors s)[i := empty_executor]\<rparr>
         else s)"

definition deferred_exec_advanced_task ::
    "('cb \<Rightarrow> u32 \<Rightarrow> ('cb, 'e) deferred \<Rightarrow> ('cb, 'e) deferred \<times> u32) \<Rightarrow> u32 \<Rightarrow> ('cb, 'e) deferred \<Rightarrow> ('cb, 'e) deferred" where
  "deferred_exec_advanced_task run_callback now s =
     (if 0 < sint (now - last_execution_time s) then
        fold (run_entry run_callback now) [0..<length (executors s)] (s\<lparr>last_execution_time := now\<rparr>)
      else s)"

section \<open>Tokens are unique\<close>

definition deferred_ok :: "nat \<Rightarrow> ('cb, 'e) deferred \<Rightarrow> bool" where
  "deferred_ok n s \<longleftrightarrow> length (executors s) = n
     \<and> (\<forall>i < n. token (executors s ! i) \<noteq> INVALID_DEFERRED_TOKEN \<longrightarrow> callback (executors s ! i) \<noteq> None
          \<and> (\<forall>j < n. token (executors s ! j) = token (executors s ! i) \<longrightarrow> i = j))"

text \<open>Changing one entry to a free one, or to one with the same or a new token.\<close>

lemma deferred_ok_update:
  assumes "deferred_ok n s" "executors t = (executors s)[i := entry]"
    and "token entry \<noteq> INVALID_DEFERRED_TOKEN \<Longrightarrow> callback entry \<noteq> None
      \<and> (\<forall>j < n. token (executors s ! j) = token entry \<longrightarrow> i = j)"
  shows "deferred_ok n t"
  using assms by (auto simp: deferred_ok_def nth_update_if split: if_splits)

lemma find_entry_SomeD: "find_entry t s = Some i \<Longrightarrow> i < length (executors s) \<and> token (executors s ! i) = t"
  by (auto simp: find_entry_def find_Some_iff)

declare allocate_loop.simps [simp del]

lemma allocate_loop_usable:
  assumes "allocate_loop table first current = (t, c)" "t \<noteq> INVALID_DEFERRED_TOKEN"
  shows "t = c \<and> token_can_be_used table t"
  using assms
proof (induction table first current rule: allocate_loop.induct)
  case (1 table first current)
  show ?case
  proof (cases "token_can_be_used table current \<or> current + 1 = first")
    case True
    then show ?thesis using "1.prems" by (auto simp: allocate_loop.simps[of table first current] split: if_splits)
  next
    case False
    then have "allocate_loop table first (current + 1) = (t, c)"
      using "1.prems"(1) by (simp add: allocate_loop.simps[of table first current])
    from "1.IH"[OF _ _ this "1.prems"(2)] False show ?thesis by blast
  qed
qed

lemma allocate_loop_none:
  assumes "fst (allocate_loop table first current) = INVALID_DEFERRED_TOKEN" "unat k \<le> unat (first - 1 - current)"
  shows "\<not> token_can_be_used table (current + k)"
  using assms
proof (induction table first current arbitrary: k rule: allocate_loop.induct)
  case (1 table first current)
  have free: "\<not> token_can_be_used table current"
  proof
    assume u: "token_can_be_used table current"
    then have "current = INVALID_DEFERRED_TOKEN" using "1.prems"(1) by (simp add: allocate_loop.simps[of table first current])
    with u show False by (simp add: token_can_be_used_def)
  qed
  show ?case
  proof (cases "k = 0")
    case False
    have ne: "first - 1 - current \<noteq> 0"
    proof
      assume "first - 1 - current = 0"
      with "1.prems"(2) have "unat k = 0" by simp
      with False show False by (simp add: unat_eq_0_iff)
    qed
    have "current + 1 \<noteq> first"
    proof
      assume "current + 1 = first"
      then have "first - 1 - current = 0" by auto
      with ne show False ..
    qed
    with "1.prems"(1) free have "fst (allocate_loop table first (current + 1)) = INVALID_DEFERRED_TOKEN"
      by (simp add: allocate_loop.simps[of table first current])
    moreover have "unat (k - 1) \<le> unat (first - 1 - (current + 1))"
      using unat_minus_one[OF False] unat_minus_one[OF ne] "1.prems"(2) by (simp add: diff_diff_eq add.commute)
    ultimately have "\<not> token_can_be_used table (current + 1 + (k - 1))"
      using "1.IH"[OF free \<open>current + 1 \<noteq> first\<close>, of "k - 1"] by simp
    then show ?thesis by simp
  qed (use free in simp)
qed

text \<open>With fewer than 255 entries there is always a token left.\<close>

lemma allocate_token_finds:
  assumes "length (executors s) < 255"
  shows "snd (allocate_token s) \<noteq> INVALID_DEFERRED_TOKEN"
proof
  let ?f = "current_token s + 1" and ?used = "token ` set (executors s)"
  assume "snd (allocate_token s) = INVALID_DEFERRED_TOKEN"
  then have none: "fst (allocate_loop (executors s) ?f ?f) = INVALID_DEFERRED_TOKEN"
    by (simp add: allocate_token_def split: prod.splits)
  have "t \<in> ?used" if "t \<noteq> INVALID_DEFERRED_TOKEN" for t
  proof -
    have "(?f - 1 - ?f) = - 1" by simp
    moreover have "unat (t - ?f) \<le> unat (- 1 :: u8)" unfolding word_le_nat_alt[symmetric] by simp
    ultimately have "\<not> token_can_be_used (executors s) (?f + (t - ?f))" by (intro allocate_loop_none[OF none]) simp
    then show ?thesis using that by (auto simp: token_can_be_used_def list_ex_iff)
  qed
  then have "UNIV - {INVALID_DEFERRED_TOKEN} \<subseteq> ?used" by blast
  then have "card (UNIV - {INVALID_DEFERRED_TOKEN :: u8}) \<le> card ?used" by (intro card_mono) auto
  also have "\<dots> \<le> length (executors s)" using card_image_le[of "set (executors s)" token] card_length[of "executors s"] by simp
  finally show False using assms by (simp add: card_Diff_subset card_word)
qed

lemma defer_exec_ok:
  assumes "deferred_ok n s" "defer_exec_advanced now delay_ms cb s = (s', t)"
  shows "deferred_ok n s' \<and> (t \<noteq> INVALID_DEFERRED_TOKEN \<longrightarrow>
    (\<forall>entry \<in> set (executors s). token entry \<noteq> t) \<and>
    (\<exists>i. find_entry INVALID_DEFERRED_TOKEN s = Some i
      \<and> executors s' = (executors s)[i := \<lparr>token = t, trigger_time = now + delay_ms, callback = cb\<rparr>]))"
proof (cases "executors s = [] \<or> delay_ms = 0 \<or> cb = None \<or> find_entry INVALID_DEFERRED_TOKEN s = None")
  case True
  then have "defer_exec_advanced now delay_ms cb s = (s, INVALID_DEFERRED_TOKEN)" by (auto simp: defer_exec_advanced_def)
  then show ?thesis using assms by simp
next
  case False
  then obtain i c where i: "find_entry INVALID_DEFERRED_TOKEN s = Some i" and c: "cb = Some c" by auto
  obtain u x where a: "allocate_loop (executors s) (current_token s + 1) (current_token s + 1) = (u, x)" by fastforce
  show ?thesis
  proof (cases "u = INVALID_DEFERRED_TOKEN")
    case True
    then show ?thesis using False assms i a by (auto simp: defer_exec_advanced_def allocate_token_def deferred_ok_def)
  next
    case valid: False
    from allocate_loop_usable[OF a valid] have u: "u = x" "token_can_be_used (executors s) u" by blast+
    have s': "t = u" "executors s' = (executors s)[i := \<lparr>token = u, trigger_time = now + delay_ms, callback = cb\<rparr>]"
      using False assms(2) i a valid u(1) by (auto simp: defer_exec_advanced_def allocate_token_def)
    have fresh: "\<forall>entry \<in> set (executors s). token entry \<noteq> u" using u(2) by (auto simp: token_can_be_used_def list_ex_iff)
    then have "token (executors s ! j) \<noteq> u" if "j < n" for j using that assms(1) by (auto simp: deferred_ok_def)
    then have "deferred_ok n s'" by (intro deferred_ok_update[OF assms(1) s'(2)]) (auto simp: c)
    with s' fresh i show ?thesis by simp
  qed
qed

lemma extend_ok:
  assumes "deferred_ok n s"
  shows "deferred_ok n (fst (extend_deferred_exec_advanced now t delay_ms s))"
proof (cases "find_entry t s")
  case (Some i)
  have "deferred_ok n (s\<lparr>executors := (executors s)[i := (executors s ! i)\<lparr>trigger_time := now + delay_ms\<rparr>]\<rparr>)"
    using find_entry_SomeD[OF Some] assms by (intro deferred_ok_update[OF assms]) (auto simp: deferred_ok_def)
  with Some assms show ?thesis by (simp add: extend_deferred_exec_advanced_def)
qed (use assms in \<open>simp add: extend_deferred_exec_advanced_def\<close>)

lemma cancel_ok:
  assumes "deferred_ok n s"
  shows "deferred_ok n (fst (cancel_deferred_exec_advanced t s))"
proof (cases "find_entry t s")
  case (Some i)
  have "deferred_ok n (s\<lparr>executors := (executors s)[i := empty_executor]\<rparr>)"
    by (intro deferred_ok_update[OF assms]) (auto simp: empty_executor_def)
  with Some assms show ?thesis by (simp add: cancel_deferred_exec_advanced_def)
qed (use assms in \<open>simp add: cancel_deferred_exec_advanced_def\<close>)

text \<open>Callbacks may use the table themselves.\<close>

lemma run_entry_ok:
  assumes "deferred_ok n s" "i < n" "\<And>cb t s. deferred_ok n s \<Longrightarrow> deferred_ok n (fst (run_callback cb t s))"
  shows "deferred_ok n (run_entry run_callback now i s)"
proof (cases "token (executors s ! i) \<noteq> INVALID_DEFERRED_TOKEN \<and> sint (trigger_time (executors s ! i) - now) \<le> 0
    \<and> callback (executors s ! i) \<noteq> None")
  case True
  then obtain cb where cb: "callback (executors s ! i) = Some cb" by auto
  obtain u d where u: "run_callback cb (trigger_time (executors s ! i)) s = (u, d)" by fastforce
  have ok: "deferred_ok n u" using assms(3)[OF assms(1), of cb "trigger_time (executors s ! i)"] u by simp
  have "deferred_ok n (u\<lparr>executors := (executors u)[i := (executors u ! i)\<lparr>trigger_time := trigger_time (executors u ! i) + d\<rparr>]\<rparr>)"
    using ok assms(2) by (intro deferred_ok_update[OF ok]) (auto simp: deferred_ok_def)
  moreover have "deferred_ok n (u\<lparr>executors := (executors u)[i := empty_executor]\<rparr>)"
    by (intro deferred_ok_update[OF ok]) (auto simp: empty_executor_def)
  ultimately show ?thesis using True cb u ok by (simp add: run_entry_def Let_def)
qed (use assms(1) in \<open>auto simp: run_entry_def Let_def split: option.splits\<close>)

lemma task_ok:
  assumes "deferred_ok n s" "\<And>cb t s. deferred_ok n s \<Longrightarrow> deferred_ok n (fst (run_callback cb t s))"
  shows "deferred_ok n (deferred_exec_advanced_task run_callback now s)"
proof -
  have "deferred_ok n (fold (run_entry run_callback now) is u)" if "deferred_ok n u" "set is \<subseteq> {..<n}" for "is" u
    using that by (induction "is" arbitrary: u) (auto intro: run_entry_ok assms(2))
  moreover have "deferred_ok n (s\<lparr>last_execution_time := now\<rparr>)" "length (executors s) = n"
    using assms(1) by (simp_all add: deferred_ok_def)
  moreover have "set [0..<n] \<subseteq> {..<n}" by auto
  ultimately show ?thesis using assms(1) by (simp add: deferred_exec_advanced_task_def)
qed

text \<open>Histories of the operations.\<close>

datatype 'cb deferred_op = Defer u32 "'cb option" | Extend u8 u32 | Cancel u8 | Task

fun deferred_step ::
    "('cb \<Rightarrow> u32 \<Rightarrow> ('cb, 'e) deferred \<Rightarrow> ('cb, 'e) deferred \<times> u32) \<Rightarrow> u32 \<times> 'cb deferred_op \<Rightarrow> ('cb, 'e) deferred \<Rightarrow> ('cb, 'e) deferred" where
  "deferred_step run_callback (now, Defer delay_ms cb) s = fst (defer_exec_advanced now delay_ms cb s)"
| "deferred_step run_callback (now, Extend t delay_ms) s = fst (extend_deferred_exec_advanced now t delay_ms s)"
| "deferred_step run_callback (now, Cancel t) s = fst (cancel_deferred_exec_advanced t s)"
| "deferred_step run_callback (now, Task) s = deferred_exec_advanced_task run_callback now s"

definition deferred_run ::
    "('cb \<Rightarrow> u32 \<Rightarrow> ('cb, 'e) deferred \<Rightarrow> ('cb, 'e) deferred \<times> u32) \<Rightarrow> (u32 \<times> 'cb deferred_op) list \<Rightarrow> ('cb, 'e) deferred \<Rightarrow> ('cb, 'e) deferred" where
  "deferred_run run_callback ops s = fold (deferred_step run_callback) ops s"

lemma deferred_run_ok:
  assumes "deferred_ok n s" "\<And>cb t s. deferred_ok n s \<Longrightarrow> deferred_ok n (fst (run_callback cb t s))"
  shows "deferred_ok n (deferred_run run_callback ops s)"
proof -
  have "deferred_ok n (deferred_step run_callback (now, op) u)" if "deferred_ok n u" for now op u
    using that defer_exec_ok[OF that] extend_ok[OF that] cancel_ok[OF that] task_ok[OF that assms(2)]
    by (cases op) (auto split: prod.splits intro: fst_conv, metis prod.collapse)
  then show ?thesis using assms(1) unfolding deferred_run_def by (induction ops arbitrary: s) auto
qed

lemma deferred_start_ok: "deferred_ok n (deferred_start n e)"
  by (simp add: deferred_ok_def deferred_start_def empty_executor_def)

lemma find_entry_None: "find_entry t s = None \<longleftrightarrow> (\<forall>entry \<in> set (executors s). token entry \<noteq> t)"
  by (auto simp: find_entry_def find_None_iff all_set_conv_all_nth)


section \<open>When the callbacks run\<close>

definition due :: "u32 \<Rightarrow> 'cb deferred_executor_t \<Rightarrow> bool" where
  "due now entry \<longleftrightarrow> token entry \<noteq> INVALID_DEFERRED_TOKEN \<and> sint (trigger_time entry - now) \<le> 0"

text \<open>Callbacks that only note that they were called, and return a delay.\<close>

definition noting :: "('cb \<Rightarrow> u32) \<Rightarrow> 'cb \<Rightarrow> u32 \<Rightarrow> ('cb, ('cb \<times> u32) list) deferred
    \<Rightarrow> ('cb, ('cb \<times> u32) list) deferred \<times> u32" where
  "noting again cb t s = (s\<lparr>de_rest := de_rest s @ [(cb, t)]\<rparr>, again cb)"

definition after_call :: "('cb \<Rightarrow> u32) \<Rightarrow> 'cb deferred_executor_t \<Rightarrow> 'cb deferred_executor_t" where
  "after_call again entry = (let d = again (the (callback entry))
     in if 0 < d then entry\<lparr>trigger_time := trigger_time entry + d\<rparr> else empty_executor)"

lemma run_entry_noting:
  assumes "token (executors s ! i) \<noteq> INVALID_DEFERRED_TOKEN \<Longrightarrow> callback (executors s ! i) \<noteq> None"
  shows "run_entry (noting again) now i s = (let entry = executors s ! i in if due now entry
    then s\<lparr>executors := (executors s)[i := after_call again entry], de_rest := de_rest s @ [(the (callback entry), trigger_time entry)]\<rparr>
    else s)"
  using assms by (auto simp: run_entry_def due_def noting_def after_call_def Let_def)

lemma run_entries_noting:
  assumes "deferred_ok n s" "m \<le> n"
  shows "fold (run_entry (noting again) now) [0..<m] s = s\<lparr>
      executors := map (\<lambda>i. let entry = executors s ! i in if i < m \<and> due now entry then after_call again entry else entry) [0..<n],
      de_rest := de_rest s @ map (\<lambda>entry. (the (callback entry), trigger_time entry)) (filter (due now) (take m (executors s)))\<rparr>"
  using assms(2)
proof (induction m)
  case 0
  have "map ((!) (executors s)) [0..<n] = executors s" using assms(1) map_nth[of "executors s"] by (simp add: deferred_ok_def)
  then show ?case by (simp add: Let_def)
next
  case (Suc m)
  let ?at = "\<lambda>m i. let entry = executors s ! i in if i < m \<and> due now entry then after_call again entry else entry"
  define u where "u = fold (run_entry (noting again) now) [0..<m] s"
  have u: "executors u = map (?at m) [0..<n]"
    "de_rest u = de_rest s @ map (\<lambda>entry. (the (callback entry), trigger_time entry)) (filter (due now) (take m (executors s)))"
    "u\<lparr>executors := es, de_rest := log\<rparr> = s\<lparr>executors := es, de_rest := log\<rparr>" for es log
    using Suc by (simp_all add: u_def)
  have m: "m < n" "m < length (executors s)" using Suc.prems assms(1) by (simp_all add: deferred_ok_def)
  have at: "executors u ! m = executors s ! m" using m by (simp add: u(1) Let_def)
  have cb: "callback (executors u ! m) \<noteq> None" if "token (executors u ! m) \<noteq> INVALID_DEFERRED_TOKEN"
    using that at assms(1) m by (auto simp: deferred_ok_def)
  have take: "take (Suc m) (executors s) = take m (executors s) @ [executors s ! m]" by (rule take_Suc_conv_app_nth[OF m(2)])
  have step: "fold (run_entry (noting again) now) [0..<Suc m] s = (if due now (executors s ! m)
      then s\<lparr>executors := (executors u)[m := after_call again (executors s ! m)],
             de_rest := de_rest u @ [(the (callback (executors s ! m)), trigger_time (executors s ! m))]\<rparr>
      else s\<lparr>executors := executors u, de_rest := de_rest u\<rparr>)"
    using run_entry_noting[of u m again now, OF cb] u(3)[where es = "executors u" and log = "de_rest u"] u(3) by (simp add: u_def[symmetric] at Let_def)
  show ?case
  proof (cases "due now (executors s ! m)")
    case True
    then have "(executors u)[m := after_call again (executors s ! m)] = map (?at (Suc m)) [0..<n]"
      unfolding u(1) using m by (intro nth_equalityI) (auto simp: nth_update_if Let_def less_Suc_eq)
    then show ?thesis unfolding step using True by (simp add: u(2) take)
  next
    case False
    then have "executors u = map (?at (Suc m)) [0..<n]" unfolding u(1) by (auto simp: Let_def less_Suc_eq)
    then show ?thesis unfolding step using False by (simp add: u(2) take)
  qed
qed

lemma sint_of_int_32: "- (2 ^ 31) \<le> x \<Longrightarrow> x < 2 ^ 31 \<Longrightarrow> sint (word_of_int x :: u32) = x"
  by (simp add: sint_sbintrunc' signed_take_bit_int_eq_self)

lemma elapsed_due:
  assumes "d < 2 ^ 31" "now - t0 < (2 ^ 31 :: u32)"
  shows "sint (t0 + d - now) \<le> 0 \<longleftrightarrow> d \<le> now - t0"
proof -
  let ?x = "now - t0"
  have "uint d < 2 ^ 31" "uint ?x < 2 ^ 31" using assms by (simp_all add: word_less_def)
  then have "sint (word_of_int (uint d - uint ?x) :: u32) = uint d - uint ?x"
    by (intro sint_of_int_32) (use uint_nonnegative[of d] uint_nonnegative[of ?x] in linarith)+
  moreover have "t0 + d - now = word_of_int (uint d - uint ?x)" by simp
  ultimately show ?thesis by (simp only: word_le_def) simp
qed


section \<open>An example\<close>

lemma noting_ok: "deferred_ok n s \<Longrightarrow> deferred_ok n (fst (noting again cb t s))"
  by (simp add: noting_def deferred_ok_def)



end
