(* ===== verification/Send_String.thy ===== *)
theory Send_String
  imports Prelude
begin

text \<open>
  Strings that are typed (quantum/send_string/send_string.c): characters through the tables of the
  US layout, and embedded commands that tap, hold and release keycodes or wait.

  The getter of the characters is a list of the bytes to come; None means that it was read past its
  end, or a table was. Key presses and waits are operations on the state \<open>'e\<close> of the firmware.
\<close>

section \<open>Characters\<close>

record 'e ss_ops =
  ss_register_code :: "8 word \<Rightarrow> 'e \<Rightarrow> 'e"
  ss_unregister_code :: "8 word \<Rightarrow> 'e \<Rightarrow> 'e"
  ss_tap_code :: "8 word \<Rightarrow> 'e \<Rightarrow> 'e"
  ss_tap_code_delay :: "8 word \<Rightarrow> nat \<Rightarrow> 'e \<Rightarrow> 'e"
  ss_wait_ms :: "nat \<Rightarrow> 'e \<Rightarrow> 'e"

definition KCLUT_ENTRY :: "bool list \<Rightarrow> u8" where
  "KCLUT_ENTRY bs = fold (\<lambda>i w. w OR push_bit i (of_bool (bs ! i))) [0..<8] 0"

definition ascii_to_shift_lut :: "u8 list" where
  "ascii_to_shift_lut = map (\<lambda>bs. KCLUT_ENTRY (map (\<lambda>b. b = (1 :: nat)) bs)) [
    [0, 0, 0, 0, 0, 0, 0, 0], [0, 0, 0, 0, 0, 0, 0, 0], [0, 0, 0, 0, 0, 0, 0, 0], [0, 0, 0, 0, 0, 0, 0, 0],
    [0, 1, 1, 1, 1, 1, 1, 0], [1, 1, 1, 1, 0, 0, 0, 0], [0, 0, 0, 0, 0, 0, 0, 0], [0, 0, 1, 0, 1, 0, 1, 1],
    [1, 1, 1, 1, 1, 1, 1, 1], [1, 1, 1, 1, 1, 1, 1, 1], [1, 1, 1, 1, 1, 1, 1, 1], [1, 1, 1, 0, 0, 0, 1, 1],
    [0, 0, 0, 0, 0, 0, 0, 0], [0, 0, 0, 0, 0, 0, 0, 0], [0, 0, 0, 0, 0, 0, 0, 0], [0, 0, 0, 1, 1, 1, 1, 0]]"

definition ascii_to_altgr_lut :: "u8 list" where "ascii_to_altgr_lut = replicate 16 0"
definition ascii_to_dead_lut :: "u8 list" where "ascii_to_dead_lut = replicate 16 0"

definition ascii_to_keycode_lut :: "u8 list" where
  "ascii_to_keycode_lut = [
    0, 0, 0, 0, 0, 0, 0, 0,
    0x2A, 0x2B, 0x28, 0, 0, 0, 0, 0,
    0, 0, 0, 0, 0, 0, 0, 0,
    0, 0, 0, 0x29, 0, 0, 0, 0,
    0x2C, 0x1E, 0x34, 0x20, 0x21, 0x22, 0x24, 0x34,
    0x26, 0x27, 0x25, 0x2E, 0x36, 0x2D, 0x37, 0x38,
    0x27, 0x1E, 0x1F, 0x20, 0x21, 0x22, 0x23, 0x24,
    0x25, 0x26, 0x33, 0x33, 0x36, 0x2E, 0x37, 0x38,
    0x1F, 0x04, 0x05, 0x06, 0x07, 0x08, 0x09, 0x0A,
    0x0B, 0x0C, 0x0D, 0x0E, 0x0F, 0x10, 0x11, 0x12,
    0x13, 0x14, 0x15, 0x16, 0x17, 0x18, 0x19, 0x1A,
    0x1B, 0x1C, 0x1D, 0x2F, 0x31, 0x30, 0x23, 0x2D,
    0x35, 0x04, 0x05, 0x06, 0x07, 0x08, 0x09, 0x0A,
    0x0B, 0x0C, 0x0D, 0x0E, 0x0F, 0x10, 0x11, 0x12,
    0x13, 0x14, 0x15, 0x16, 0x17, 0x18, 0x19, 0x1A,
    0x1B, 0x1C, 0x1D, 0x2F, 0x31, 0x30, 0x35, 0x4C]"

definition PGM_LOADBIT :: "u8 list \<Rightarrow> nat \<Rightarrow> bool" where
  "PGM_LOADBIT mem pos \<longleftrightarrow> drop_bit (pos mod 8) (mem ! (pos div 8)) AND 0x01 \<noteq> 0"

definition SS_KC_SPACE :: u8 where "SS_KC_SPACE = 0x2C"
definition SS_KC_LEFT_SHIFT :: u8 where "SS_KC_LEFT_SHIFT = 0xE1"
definition SS_KC_RIGHT_ALT :: u8 where "SS_KC_RIGHT_ALT = 0xE6"

definition send_char_with_delay :: "'e ss_ops \<Rightarrow> nat \<Rightarrow> u8 \<Rightarrow> 'e \<Rightarrow> 'e option" where
  "send_char_with_delay ops interval ascii_code e =
     (let c = unat ascii_code; wait = ss_wait_ms ops interval
      in if length ascii_to_keycode_lut \<le> c then None
         else
           let keycode = ascii_to_keycode_lut ! c;
               is_shifted = PGM_LOADBIT ascii_to_shift_lut c;
               is_altgred = PGM_LOADBIT ascii_to_altgr_lut c;
               is_dead = PGM_LOADBIT ascii_to_dead_lut c;
               e = (if is_shifted then wait (ss_register_code ops SS_KC_LEFT_SHIFT e) else e);
               e = (if is_altgred then wait (ss_register_code ops SS_KC_RIGHT_ALT e) else e);
               e = wait (ss_tap_code_delay ops keycode interval e);
               e = (if is_altgred then wait (ss_unregister_code ops SS_KC_RIGHT_ALT e) else e);
               e = (if is_shifted then wait (ss_unregister_code ops SS_KC_LEFT_SHIFT e) else e)
           in Some (if is_dead then wait (ss_tap_code ops SS_KC_SPACE e) else e))"

section \<open>Strings\<close>

definition SS_QMK_PREFIX :: u8 where "SS_QMK_PREFIX = 1"
definition SS_TAP_CODE :: u8 where "SS_TAP_CODE = 1"
definition SS_DOWN_CODE :: u8 where "SS_DOWN_CODE = 2"
definition SS_UP_CODE :: u8 where "SS_UP_CODE = 3"
definition SS_DELAY_CODE :: u8 where "SS_DELAY_CODE = 4"

definition isdigit :: "u8 \<Rightarrow> bool" where "isdigit c \<longleftrightarrow> 48 \<le> c \<and> c \<le> 57"

text \<open>The digits of a delay: the delay, the character after it, and what is left.\<close>

fun read_delay :: "nat \<Rightarrow> u8 list \<Rightarrow> (nat \<times> u8 \<times> u8 list) option" where
  "read_delay ms [] = None"
| "read_delay ms (c # bs) = (if isdigit c then read_delay (ms * 10 + (unat c - 48)) bs else Some (ms, c, bs))"

lemma read_delay_shorter: "read_delay ms bs = Some (ms', c, bs') \<Longrightarrow> length bs' < length bs"
  by (induction ms bs rule: read_delay.induct) (auto split: if_splits)

function send_string_with_delay_impl :: "'e ss_ops \<Rightarrow> nat \<Rightarrow> u8 list \<Rightarrow> 'e \<Rightarrow> ('e \<times> u8 list) option" where
  "send_string_with_delay_impl ops interval [] e = None"
| "send_string_with_delay_impl ops interval (c # bs) e =
     (if c = 0 then Some (e, bs)
      else if c = SS_QMK_PREFIX then
        case bs of [] \<Rightarrow> None
        | a # bs \<Rightarrow>
            if a = SS_TAP_CODE \<or> a = SS_DOWN_CODE \<or> a = SS_UP_CODE then
              case bs of [] \<Rightarrow> None
              | keycode # bs \<Rightarrow>
                  let e = (if a = SS_TAP_CODE then ss_tap_code ops keycode e
                           else if a = SS_DOWN_CODE then ss_register_code ops keycode e
                           else ss_unregister_code ops keycode e)
                  in send_string_with_delay_impl ops interval bs (ss_wait_ms ops interval e)
            else if a = SS_DELAY_CODE then
              case read_delay 0 bs of None \<Rightarrow> None
              | Some (ms, a, bs) \<Rightarrow>
                  let e = ss_wait_ms ops interval (ss_wait_ms ops ms e)
                  in if a = 0 then Some (e, bs) else send_string_with_delay_impl ops interval bs e
            else
              let e = ss_wait_ms ops interval e
              in if a = 0 then Some (e, bs) else send_string_with_delay_impl ops interval bs e
      else case send_char_with_delay ops interval c e of None \<Rightarrow> None
           | Some e \<Rightarrow> send_string_with_delay_impl ops interval bs e)"
  by pat_completeness auto

termination
  by (relation "measure (\<lambda>(ops, interval, bs, e). length bs)") (auto dest: read_delay_shorter)

section \<open>Strings as commands\<close>

datatype ss_command = Send_Char u8 | Tap_Key u8 | Hold_Key u8 | Release_Key u8 | Delay nat

text \<open>A string literal with the macros \<open>SS_TAP\<close>, \<open>SS_DOWN\<close>, \<open>SS_UP\<close> and \<open>SS_DELAY\<close>.\<close>

fun digits :: "nat \<Rightarrow> u8 list" where
  "digits n = (if n < 10 then [of_nat (48 + n)] else digits (n div 10) @ [of_nat (48 + n mod 10)])"

fun ss_encode :: "ss_command \<Rightarrow> u8 list" where
  "ss_encode (Send_Char c) = [c]"
| "ss_encode (Tap_Key k) = [SS_QMK_PREFIX, SS_TAP_CODE, k]"
| "ss_encode (Hold_Key k) = [SS_QMK_PREFIX, SS_DOWN_CODE, k]"
| "ss_encode (Release_Key k) = [SS_QMK_PREFIX, SS_UP_CODE, k]"
| "ss_encode (Delay ms) = [SS_QMK_PREFIX, SS_DELAY_CODE] @ digits ms @ [124]"

fun ss_valid :: "ss_command \<Rightarrow> bool" where
  "ss_valid (Send_Char c) \<longleftrightarrow> c \<noteq> 0 \<and> c \<noteq> SS_QMK_PREFIX \<and> c < 128"
| "ss_valid _ \<longleftrightarrow> True"

text \<open>The characters that take the shift key on a US keyboard.\<close>

definition takes_shift :: "nat \<Rightarrow> bool" where
  "takes_shift c \<longleftrightarrow> c \<in> {33..38} \<or> c \<in> {40..43} \<or> c \<in> {58, 60, 62, 63, 94, 95} \<or> c \<in> {64..90} \<or> c \<in> {123..126}"

fun ss_perform :: "'e ss_ops \<Rightarrow> nat \<Rightarrow> ss_command \<Rightarrow> 'e \<Rightarrow> 'e" where
  "ss_perform ops i (Send_Char c) e =
     (let shifted = takes_shift (unat c); wait = ss_wait_ms ops i;
          e = (if shifted then wait (ss_register_code ops SS_KC_LEFT_SHIFT e) else e);
          e = wait (ss_tap_code_delay ops (ascii_to_keycode_lut ! unat c) i e)
      in if shifted then wait (ss_unregister_code ops SS_KC_LEFT_SHIFT e) else e)"
| "ss_perform ops i (Tap_Key k) e = ss_wait_ms ops i (ss_tap_code ops k e)"
| "ss_perform ops i (Hold_Key k) e = ss_wait_ms ops i (ss_register_code ops k e)"
| "ss_perform ops i (Release_Key k) e = ss_wait_ms ops i (ss_unregister_code ops k e)"
| "ss_perform ops i (Delay ms) e = ss_wait_ms ops i (ss_wait_ms ops ms e)"

lemma shift_lut_bytes:
  "ascii_to_shift_lut = [0, 0, 0, 0, 0x7E, 0x0F, 0, 0xD4, 0xFF, 0xFF, 0xFF, 0xC7, 0, 0, 0, 0x78]"
  by code_simp

lemma shift_lut:
  assumes "c < 128"
  shows "PGM_LOADBIT ascii_to_shift_lut c \<longleftrightarrow> takes_shift c"
proof -
  have "\<forall>c \<in> set [0..<128]. PGM_LOADBIT ascii_to_shift_lut c \<longleftrightarrow> takes_shift c"
    unfolding shift_lut_bytes by code_simp
  then show ?thesis using assms by auto
qed

lemma no_other_lut: "c < 128 \<Longrightarrow> \<not> PGM_LOADBIT ascii_to_altgr_lut c \<and> \<not> PGM_LOADBIT ascii_to_dead_lut c"
  by (simp add: PGM_LOADBIT_def ascii_to_altgr_lut_def ascii_to_dead_lut_def)

lemma length_keycode_lut: "length ascii_to_keycode_lut = 128"
  by (simp add: ascii_to_keycode_lut_def)

lemma send_char_perform:
  assumes "c < 128"
  shows "send_char_with_delay ops i c e = Some (ss_perform ops i (Send_Char c) e)"
proof -
  have "unat c < 128" using assms by (simp add: word_less_nat_alt)
  then show ?thesis
    by (simp add: send_char_with_delay_def Let_def length_keycode_lut shift_lut no_other_lut)
qed

text \<open>The keys tell the printable characters apart.\<close>

lemma printable_distinct: "distinct (map (\<lambda>c. (ascii_to_keycode_lut ! c, takes_shift c)) [32..<127])"
  by code_simp

text \<open>Digits shift what was read before, and add their number.\<close>

lemma read_digit:
  assumes "d < 10"
  shows "read_delay ms (of_nat (48 + d) # bs) = read_delay (ms * 10 + d) bs"
proof -
  have "unat (of_nat (48 + d) :: u8) = 48 + d" using assms unat_of_nat_mod[of "48 + d", where 'a = 8] by (simp del: of_nat_add)
  then show ?thesis using assms by (simp add: isdigit_def word_le_nat_alt)
qed

declare digits.simps [simp del]

lemma read_digits: "\<exists>k. \<forall>ms bs. read_delay ms (digits n @ bs) = read_delay (ms * 10 ^ k + n) bs"
proof (induction n rule: digits.induct)
  case (1 n)
  show ?case
  proof (cases "n < 10")
    case True
    then show ?thesis using read_digit[OF True] by (intro exI[of _ 1]) (simp add: digits.simps[of n])
  next
    case False
    from "1.IH"[OF False] obtain k where
      k: "\<And>ms bs. read_delay ms (digits (n div 10) @ bs) = read_delay (ms * 10 ^ k + n div 10) bs" by blast
    have d: "digits n = digits (n div 10) @ [of_nat (48 + n mod 10)]" using False by (subst digits.simps) simp
    have "read_delay ms (digits n @ bs) = read_delay (ms * 10 ^ Suc k + n) bs" for ms bs
    proof -
      have "read_delay ms (digits n @ bs) = read_delay (ms * 10 ^ k + n div 10) (of_nat (48 + n mod 10) # bs)"
        by (simp add: d k)
      also have "\<dots> = read_delay ((ms * 10 ^ k + n div 10) * 10 + n mod 10) bs"
        by (rule read_digit) simp
      also have "(ms * 10 ^ k + n div 10) * 10 + n mod 10 = ms * 10 ^ Suc k + n"
        using div_mult_mod_eq[of n 10] by (simp add: algebra_simps)
      finally show ?thesis .
    qed
    then show ?thesis by blast
  qed
qed

lemma read_delay_digits: "read_delay 0 (digits n @ 124 # bs) = Some (n, 124, bs)"
proof -
  obtain k where "\<And>ms bs. read_delay ms (digits n @ bs) = read_delay (ms * 10 ^ k + n) bs" using read_digits by blast
  then show ?thesis by (simp add: isdigit_def word_le_nat_alt)
qed

lemma send_one:
  assumes "ss_valid cmd"
  shows "send_string_with_delay_impl ops i (ss_encode cmd @ bs) e = send_string_with_delay_impl ops i bs (ss_perform ops i cmd e)"
proof (cases cmd)
  case (Send_Char c)
  then have "c \<noteq> 0" "c \<noteq> SS_QMK_PREFIX" "c < 128" using assms by simp_all
  then show ?thesis using send_char_perform[of c ops i e] by (simp add: Send_Char del: ss_perform.simps)
qed (simp_all add: SS_QMK_PREFIX_def SS_TAP_CODE_def SS_DOWN_CODE_def SS_UP_CODE_def SS_DELAY_CODE_def
    read_delay_digits Let_def)

lemma send_commands:
  "\<forall>c \<in> set cmds. ss_valid c \<Longrightarrow>
    send_string_with_delay_impl ops i (concat (map ss_encode cmds) @ 0 # rest) e = Some (fold (ss_perform ops i) cmds e, rest)"
proof (induction cmds arbitrary: e)
  case (Cons cmd cmds)
  then show ?case using send_one[of cmd ops i "concat (map ss_encode cmds) @ 0 # rest" e]
    by (simp del: ss_perform.simps ss_encode.simps)
qed simp


text \<open>Keys and waits that are noted, for examples.\<close>

definition typing_notes :: "(string \<times> nat) list ss_ops" where
  "typing_notes = \<lparr>ss_register_code = (\<lambda>k e. e @ [(''down'', unat k)]), ss_unregister_code = (\<lambda>k e. e @ [(''up'', unat k)]),
     ss_tap_code = (\<lambda>k e. e @ [(''tap'', unat k)]), ss_tap_code_delay = (\<lambda>k d e. e @ [(''tap'', unat k)]),
     ss_wait_ms = (\<lambda>n e. if n = 0 then e else e @ [(''wait'', n)])\<rparr>"


text \<open>
  A character outside ASCII makes \<open>send_char_with_delay\<close> read past its tables, and so does
  a string with one, at that character.
\<close>

theorem send_char_reads_past:
  "send_char_with_delay ops i c e = None \<longleftrightarrow> 128 \<le> c"
  by (simp add: send_char_with_delay_def Let_def length_keycode_lut word_le_nat_alt)

end
