(* ===== verification/Dynamic_Keymap.thy ===== *)
theory Dynamic_Keymap
  imports Eeprom Send_String "HOL-Library.Monad_Syntax"
begin

text \<open>
  Keymaps and macros that the host may change (quantum/dynamic_keymap.c and
  quantum/nvm/eeprom/nvm_dynamic_keymap.c): they are kept in the EEPROM, the keymap first, then
  the encoder map and the macros.

  The locale \<open>byte_memory\<close> is the contract of the EEPROM that this relies on; the emulated EEPROM
  keeps it. None is a read or write that the EEPROM driver does out of bounds.
\<close>

section \<open>The EEPROM as its clients see it\<close>

record 's eeprom_ops =
  op_eeprom_read_byte :: "32 word \<Rightarrow> 's \<Rightarrow> 8 word option"
  op_eeprom_update_byte :: "32 word \<Rightarrow> 8 word \<Rightarrow> 's \<Rightarrow> 's option"
  op_eeprom_update_block :: "8 word list \<Rightarrow> 32 word \<Rightarrow> 's \<Rightarrow> 's option"

locale byte_memory =
  fixes ops :: "'s eeprom_ops" and good :: "'s \<Rightarrow> bool" and mem :: "'s \<Rightarrow> u8 list" and bytes :: nat
  assumes bytes: "bytes \<le> 2 ^ 19"
    and mem_length: "good s \<Longrightarrow> length (mem s) = bytes"
    and read_law: "good s \<Longrightarrow> unat a < bytes \<Longrightarrow> op_eeprom_read_byte ops a s = Some (mem s ! unat a)"
    and update_law: "good s \<Longrightarrow> unat a < bytes \<Longrightarrow>
      \<exists>s'. op_eeprom_update_byte ops a v s = Some s' \<and> good s' \<and> mem s' = (mem s)[unat a := v]"
    and block_law: "good s \<Longrightarrow> unat a + length vs \<le> bytes \<Longrightarrow>
      \<exists>s'. op_eeprom_update_block ops vs a s = Some s' \<and> good s' \<and> mem s' = memcpy_at (mem s) (unat a) vs"

section \<open>Layout\<close>

record dk_cfg =
  DYNAMIC_KEYMAP_LAYER_COUNT :: nat
  DK_MATRIX_ROWS :: nat
  DK_MATRIX_COLS :: nat
  DK_NUM_ENCODERS :: nat
  DYNAMIC_KEYMAP_EEPROM_ADDR :: nat
  DYNAMIC_KEYMAP_EEPROM_MAX_ADDR :: nat
  DYNAMIC_KEYMAP_MACRO_COUNT :: nat
  keycode_at_keymap_location_raw :: "nat \<Rightarrow> nat \<Rightarrow> nat \<Rightarrow> 16 word"
  keycode_at_encodermap_location_raw :: "nat \<Rightarrow> nat \<Rightarrow> bool \<Rightarrow> 16 word"

definition DYNAMIC_KEYMAP_SIZE :: "dk_cfg \<Rightarrow> nat" where
  "DYNAMIC_KEYMAP_SIZE c = DYNAMIC_KEYMAP_LAYER_COUNT c * DK_MATRIX_ROWS c * DK_MATRIX_COLS c * 2"

definition DYNAMIC_KEYMAP_ENCODER_EEPROM_ADDR :: "dk_cfg \<Rightarrow> nat" where
  "DYNAMIC_KEYMAP_ENCODER_EEPROM_ADDR c = DYNAMIC_KEYMAP_EEPROM_ADDR c + DYNAMIC_KEYMAP_SIZE c"

definition DYNAMIC_KEYMAP_MACRO_EEPROM_ADDR :: "dk_cfg \<Rightarrow> nat" where
  "DYNAMIC_KEYMAP_MACRO_EEPROM_ADDR c =
     DYNAMIC_KEYMAP_ENCODER_EEPROM_ADDR c + DYNAMIC_KEYMAP_LAYER_COUNT c * DK_NUM_ENCODERS c * 2 * 2"

definition DYNAMIC_KEYMAP_MACRO_EEPROM_SIZE :: "dk_cfg \<Rightarrow> nat" where
  "DYNAMIC_KEYMAP_MACRO_EEPROM_SIZE c = DYNAMIC_KEYMAP_EEPROM_MAX_ADDR c - DYNAMIC_KEYMAP_MACRO_EEPROM_ADDR c + 1"

text \<open>The static assertions.\<close>

definition dk_ok :: "dk_cfg \<Rightarrow> nat \<Rightarrow> bool" where
  "dk_ok c n \<longleftrightarrow> DYNAMIC_KEYMAP_EEPROM_MAX_ADDR c \<le> n - 1 \<and> DYNAMIC_KEYMAP_EEPROM_MAX_ADDR c \<le> 65535 \<and> 0 < n
     \<and> DYNAMIC_KEYMAP_MACRO_EEPROM_ADDR c + 100 \<le> DYNAMIC_KEYMAP_EEPROM_MAX_ADDR c
     \<and> DYNAMIC_KEYMAP_LAYER_COUNT c \<le> 32 \<and> DK_MATRIX_ROWS c \<le> 255 \<and> DK_MATRIX_COLS c \<le> 255 \<and> DK_NUM_ENCODERS c \<le> 255"

section \<open>Keycodes\<close>

definition dynamic_keymap_key_to_eeprom_address :: "dk_cfg \<Rightarrow> u8 \<Rightarrow> u8 \<Rightarrow> u8 \<Rightarrow> u32" where
  "dynamic_keymap_key_to_eeprom_address c layer row column =
     of_nat (DYNAMIC_KEYMAP_EEPROM_ADDR c + unat layer * DK_MATRIX_ROWS c * DK_MATRIX_COLS c * 2
       + unat row * DK_MATRIX_COLS c * 2 + unat column * 2)"

definition on_keymap :: "dk_cfg \<Rightarrow> u8 \<Rightarrow> u8 \<Rightarrow> u8 \<Rightarrow> bool" where
  "on_keymap c layer row column \<longleftrightarrow> unat layer < DYNAMIC_KEYMAP_LAYER_COUNT c \<and> unat row < DK_MATRIX_ROWS c
     \<and> unat column < DK_MATRIX_COLS c"

text \<open>Two bytes, big endian.\<close>

definition read_big_endian :: "'s eeprom_ops \<Rightarrow> u32 \<Rightarrow> 's \<Rightarrow> u16 option" where
  "read_big_endian ops a s = do {
     hi \<leftarrow> op_eeprom_read_byte ops a s;
     lo \<leftarrow> op_eeprom_read_byte ops (a + 1) s;
     Some (push_bit 8 (ucast hi) OR ucast lo)}"

definition update_big_endian :: "'s eeprom_ops \<Rightarrow> u32 \<Rightarrow> u16 \<Rightarrow> 's \<Rightarrow> 's option" where
  "update_big_endian ops a keycode s = do {
     s \<leftarrow> op_eeprom_update_byte ops a (ucast (drop_bit 8 keycode)) s;
     op_eeprom_update_byte ops (a + 1) (ucast (keycode AND 0xFF)) s}"

definition nvm_dynamic_keymap_read_keycode :: "dk_cfg \<Rightarrow> 's eeprom_ops \<Rightarrow> u8 \<Rightarrow> u8 \<Rightarrow> u8 \<Rightarrow> 's \<Rightarrow> u16 option" where
  "nvm_dynamic_keymap_read_keycode c ops layer row column s =
     (if \<not> on_keymap c layer row column then Some 0
      else read_big_endian ops (dynamic_keymap_key_to_eeprom_address c layer row column) s)"

definition nvm_dynamic_keymap_update_keycode ::
    "dk_cfg \<Rightarrow> 's eeprom_ops \<Rightarrow> u8 \<Rightarrow> u8 \<Rightarrow> u8 \<Rightarrow> u16 \<Rightarrow> 's \<Rightarrow> 's option" where
  "nvm_dynamic_keymap_update_keycode c ops layer row column keycode s =
     (if \<not> on_keymap c layer row column then Some s
      else update_big_endian ops (dynamic_keymap_key_to_eeprom_address c layer row column) keycode s)"

definition dynamic_keymap_encoder_to_eeprom_address :: "dk_cfg \<Rightarrow> u8 \<Rightarrow> u8 \<Rightarrow> u32" where
  "dynamic_keymap_encoder_to_eeprom_address c layer encoder_id =
     of_nat (DYNAMIC_KEYMAP_ENCODER_EEPROM_ADDR c + unat layer * DK_NUM_ENCODERS c * 2 * 2 + unat encoder_id * 2 * 2)"

definition on_encodermap :: "dk_cfg \<Rightarrow> u8 \<Rightarrow> u8 \<Rightarrow> bool" where
  "on_encodermap c layer encoder_id \<longleftrightarrow> unat layer < DYNAMIC_KEYMAP_LAYER_COUNT c \<and> unat encoder_id < DK_NUM_ENCODERS c"

definition nvm_dynamic_keymap_read_encoder :: "dk_cfg \<Rightarrow> 's eeprom_ops \<Rightarrow> u8 \<Rightarrow> u8 \<Rightarrow> bool \<Rightarrow> 's \<Rightarrow> u16 option" where
  "nvm_dynamic_keymap_read_encoder c ops layer encoder_id clockwise s =
     (if \<not> on_encodermap c layer encoder_id then Some 0
      else read_big_endian ops (dynamic_keymap_encoder_to_eeprom_address c layer encoder_id + (if clockwise then 0 else 2)) s)"

definition nvm_dynamic_keymap_update_encoder ::
    "dk_cfg \<Rightarrow> 's eeprom_ops \<Rightarrow> u8 \<Rightarrow> u8 \<Rightarrow> bool \<Rightarrow> u16 \<Rightarrow> 's \<Rightarrow> 's option" where
  "nvm_dynamic_keymap_update_encoder c ops layer encoder_id clockwise keycode s =
     (if \<not> on_encodermap c layer encoder_id then Some s
      else update_big_endian ops
        (dynamic_keymap_encoder_to_eeprom_address c layer encoder_id + (if clockwise then 0 else 2)) keycode s)"

definition keycode_at_keymap_location :: "dk_cfg \<Rightarrow> 's eeprom_ops \<Rightarrow> u8 \<Rightarrow> u8 \<Rightarrow> u8 \<Rightarrow> 's \<Rightarrow> u16 option" where
  "keycode_at_keymap_location c ops layer_num row column s =
     (if on_keymap c layer_num row column then nvm_dynamic_keymap_read_keycode c ops layer_num row column s else Some 0)"

definition keycode_at_encodermap_location :: "dk_cfg \<Rightarrow> 's eeprom_ops \<Rightarrow> u8 \<Rightarrow> u8 \<Rightarrow> bool \<Rightarrow> 's \<Rightarrow> u16 option" where
  "keycode_at_encodermap_location c ops layer_num encoder_idx clockwise s =
     (if on_encodermap c layer_num encoder_idx then nvm_dynamic_keymap_read_encoder c ops layer_num encoder_idx clockwise s
      else Some 0)"

text \<open>A loop of updates.\<close>

definition for_each :: "('a \<Rightarrow> 's \<Rightarrow> 's option) \<Rightarrow> 'a list \<Rightarrow> 's \<Rightarrow> 's option" where
  "for_each f xs s = fold (\<lambda>x s. Option.bind s (f x)) xs (Some s)"

definition dynamic_keymap_reset :: "dk_cfg \<Rightarrow> 's eeprom_ops \<Rightarrow> 's \<Rightarrow> 's option" where
  "dynamic_keymap_reset c ops s = for_each (\<lambda>layer s. do {
       s \<leftarrow> for_each (\<lambda>row. for_each (\<lambda>column.
         nvm_dynamic_keymap_update_keycode c ops (of_nat layer) (of_nat row) (of_nat column)
           (keycode_at_keymap_location_raw c layer row column)) [0..<DK_MATRIX_COLS c]) [0..<DK_MATRIX_ROWS c] s;
       for_each (\<lambda>encoder s. do {
         s \<leftarrow> nvm_dynamic_keymap_update_encoder c ops (of_nat layer) (of_nat encoder) True
           (keycode_at_encodermap_location_raw c layer encoder True) s;
         nvm_dynamic_keymap_update_encoder c ops (of_nat layer) (of_nat encoder) False
           (keycode_at_encodermap_location_raw c layer encoder False) s}) [0..<DK_NUM_ENCODERS c] s})
     [0..<DYNAMIC_KEYMAP_LAYER_COUNT c] s"

section \<open>Buffers\<close>

text \<open>
  The host reads and writes parts of an area at an offset. What lies past the end of the area is
  read as 0 and not written.
\<close>

definition read_area :: "'s eeprom_ops \<Rightarrow> nat \<Rightarrow> nat \<Rightarrow> u32 \<Rightarrow> nat \<Rightarrow> 's \<Rightarrow> u8 list option" where
  "read_area ops base area_size offset len s = those (map (\<lambda>i.
     if unat (offset + of_nat i) < area_size then op_eeprom_read_byte ops (of_nat base + offset + of_nat i) s else Some 0) [0..<len])"

definition update_area :: "'s eeprom_ops \<Rightarrow> nat \<Rightarrow> nat \<Rightarrow> u32 \<Rightarrow> u8 list \<Rightarrow> 's \<Rightarrow> 's option" where
  "update_area ops base area_size offset data s = for_each (\<lambda>i s.
     if unat (offset + of_nat i) < area_size then op_eeprom_update_byte ops (of_nat base + offset + of_nat i) (data ! i) s
     else Some s) [0..<length data] s"

definition nvm_dynamic_keymap_read_buffer :: "dk_cfg \<Rightarrow> 's eeprom_ops \<Rightarrow> u32 \<Rightarrow> nat \<Rightarrow> 's \<Rightarrow> u8 list option" where
  "nvm_dynamic_keymap_read_buffer c ops = read_area ops (DYNAMIC_KEYMAP_EEPROM_ADDR c) (DYNAMIC_KEYMAP_SIZE c)"

definition nvm_dynamic_keymap_update_buffer :: "dk_cfg \<Rightarrow> 's eeprom_ops \<Rightarrow> u32 \<Rightarrow> u8 list \<Rightarrow> 's \<Rightarrow> 's option" where
  "nvm_dynamic_keymap_update_buffer c ops = update_area ops (DYNAMIC_KEYMAP_EEPROM_ADDR c) (DYNAMIC_KEYMAP_SIZE c)"

definition nvm_dynamic_keymap_macro_read_buffer :: "dk_cfg \<Rightarrow> 's eeprom_ops \<Rightarrow> u32 \<Rightarrow> nat \<Rightarrow> 's \<Rightarrow> u8 list option" where
  "nvm_dynamic_keymap_macro_read_buffer c ops =
     read_area ops (DYNAMIC_KEYMAP_MACRO_EEPROM_ADDR c) (DYNAMIC_KEYMAP_MACRO_EEPROM_SIZE c)"

definition nvm_dynamic_keymap_macro_update_buffer :: "dk_cfg \<Rightarrow> 's eeprom_ops \<Rightarrow> u32 \<Rightarrow> u8 list \<Rightarrow> 's \<Rightarrow> 's option" where
  "nvm_dynamic_keymap_macro_update_buffer c ops =
     update_area ops (DYNAMIC_KEYMAP_MACRO_EEPROM_ADDR c) (DYNAMIC_KEYMAP_MACRO_EEPROM_SIZE c)"

text \<open>The macro area is cleared in blocks of 16 bytes, the last one perhaps shorter.\<close>

definition nvm_dynamic_keymap_macro_reset :: "dk_cfg \<Rightarrow> 's eeprom_ops \<Rightarrow> 's \<Rightarrow> 's option" where
  "nvm_dynamic_keymap_macro_reset c ops s =
     (let n = DYNAMIC_KEYMAP_MACRO_EEPROM_SIZE c; start = DYNAMIC_KEYMAP_MACRO_EEPROM_ADDR c
      in for_each (\<lambda>i. op_eeprom_update_block ops (replicate (min 16 (n - i)) 0) (of_nat (start + i)))
           (map (\<lambda>k. 16 * k) [0..<(n + 15) div 16]) s)"

section \<open>Macros\<close>

definition dynamic_keymap_read_byte :: "dk_cfg \<Rightarrow> 's eeprom_ops \<Rightarrow> u32 \<Rightarrow> 's \<Rightarrow> u8 option" where
  "dynamic_keymap_read_byte c ops offset s = map_option hd (nvm_dynamic_keymap_macro_read_buffer c ops offset 1 s)"

text \<open>The search for the start of a macro: \<open>n\<close> bytes of the area are left.\<close>

fun skip_macros :: "dk_cfg \<Rightarrow> 's eeprom_ops \<Rightarrow> nat \<Rightarrow> nat \<Rightarrow> u32 \<Rightarrow> 's \<Rightarrow> u32 option option" where
  "skip_macros c ops n 0 offset s = Some (Some offset)"
| "skip_macros c ops 0 (Suc idx) offset s = Some None"
| "skip_macros c ops (Suc n) (Suc idx) offset s = do {
     b \<leftarrow> dynamic_keymap_read_byte c ops offset s;
     skip_macros c ops n (if b = 0 then idx else Suc idx) (offset + 1) s}"

text \<open>The functions that the host protocol calls.\<close>

definition dynamic_keymap_get_buffer :: "dk_cfg \<Rightarrow> 's eeprom_ops \<Rightarrow> u16 \<Rightarrow> u16 \<Rightarrow> 's \<Rightarrow> u8 list option" where
  "dynamic_keymap_get_buffer c ops offset n = nvm_dynamic_keymap_read_buffer c ops (ucast offset) (unat n)"

definition dynamic_keymap_set_buffer :: "dk_cfg \<Rightarrow> 's eeprom_ops \<Rightarrow> u16 \<Rightarrow> u8 list \<Rightarrow> 's \<Rightarrow> 's option" where
  "dynamic_keymap_set_buffer c ops offset = nvm_dynamic_keymap_update_buffer c ops (ucast offset)"

definition dynamic_keymap_macro_get_buffer :: "dk_cfg \<Rightarrow> 's eeprom_ops \<Rightarrow> u16 \<Rightarrow> u16 \<Rightarrow> 's \<Rightarrow> u8 list option" where
  "dynamic_keymap_macro_get_buffer c ops offset n = nvm_dynamic_keymap_macro_read_buffer c ops (ucast offset) (unat n)"

definition dynamic_keymap_macro_set_buffer :: "dk_cfg \<Rightarrow> 's eeprom_ops \<Rightarrow> u16 \<Rightarrow> u8 list \<Rightarrow> 's \<Rightarrow> 's option" where
  "dynamic_keymap_macro_set_buffer c ops offset = nvm_dynamic_keymap_macro_update_buffer c ops (ucast offset)"

text \<open>
  The state machine of \<open>send_string\<close> gets the bytes from the offset on. Past the area it gets zeros,
  of which no command takes more than three.
\<close>

definition dynamic_keymap_macro_send ::
    "dk_cfg \<Rightarrow> 's eeprom_ops \<Rightarrow> 'e ss_ops \<Rightarrow> nat \<Rightarrow> nat \<Rightarrow> 's \<Rightarrow> 'e \<Rightarrow> 'e option" where
  "dynamic_keymap_macro_send c ops typing interval idx s e =
     (let n = DYNAMIC_KEYMAP_MACRO_EEPROM_SIZE c
      in if DYNAMIC_KEYMAP_MACRO_COUNT c \<le> idx then Some e
         else do {
           last \<leftarrow> dynamic_keymap_read_byte c ops (of_nat (n - 1)) s;
           if last \<noteq> 0 then Some e
           else do {
             start \<leftarrow> skip_macros c ops n idx 0 s;
             case start of None \<Rightarrow> Some e
             | Some offset \<Rightarrow> do {
                 input \<leftarrow> those (map (\<lambda>i. dynamic_keymap_read_byte c ops (offset + of_nat i) s) [0..<n - unat offset + 3]);
                 map_option fst (send_string_with_delay_impl typing interval input e)}}})"

section \<open>Where the keycodes are\<close>

type_synonym dk_place = "(u8 \<times> u8 \<times> u8) + (u8 \<times> u8 \<times> bool)"

definition key_slot :: "dk_cfg \<Rightarrow> u8 \<Rightarrow> u8 \<Rightarrow> u8 \<Rightarrow> nat" where
  "key_slot c layer row column = DYNAMIC_KEYMAP_EEPROM_ADDR c
     + ((unat layer * DK_MATRIX_ROWS c + unat row) * DK_MATRIX_COLS c + unat column) * 2"

definition encoder_slot :: "dk_cfg \<Rightarrow> u8 \<Rightarrow> u8 \<Rightarrow> bool \<Rightarrow> nat" where
  "encoder_slot c layer encoder_id clockwise = DYNAMIC_KEYMAP_ENCODER_EEPROM_ADDR c
     + ((unat layer * DK_NUM_ENCODERS c + unat encoder_id) * 2 + (if clockwise then 0 else 1)) * 2"

lemma pair_index_less: "a < A \<Longrightarrow> b < B \<Longrightarrow> a * B + b < A * (B :: nat)"
proof -
  assume "a < A" "b < B"
  then have "a * B + b < Suc a * B" by simp
  also have "\<dots> \<le> A * B" using \<open>a < A\<close> by (intro mult_le_mono1) simp
  finally show ?thesis .
qed

lemma pair_index_inj: "b < B \<Longrightarrow> b' < B \<Longrightarrow> a * B + b = a' * B + b' \<longleftrightarrow> a = a' \<and> b = (b' :: nat)"
proof
  assume *: "b < B" "b' < B" "a * B + b = a' * B + b'"
  have l: "(a * B + b) div B = a" "(a * B + b) mod B = b" using *(1) by simp_all
  have r: "(a' * B + b') div B = a'" "(a' * B + b') mod B = b'" using *(2) by simp_all
  show "a = a' \<and> b = b'" using l r unfolding *(3) by simp
qed simp

lemma slot_inj: "a + x * 2 = a + y * 2 \<longleftrightarrow> x = (y :: nat)" by simp

lemma slot_parity: "(a + x * 2) mod 2 = a mod (2 :: nat)" by simp

text \<open>The areas do not overlap and end within the EEPROM; different keys have different places.\<close>

lemma key_slot_range:
  assumes "on_keymap c l r k"
  shows "DYNAMIC_KEYMAP_EEPROM_ADDR c \<le> key_slot c l r k" "key_slot c l r k + 1 < DYNAMIC_KEYMAP_ENCODER_EEPROM_ADDR c"
proof -
  have "(unat l * DK_MATRIX_ROWS c + unat r) * DK_MATRIX_COLS c + unat k
      < DYNAMIC_KEYMAP_LAYER_COUNT c * DK_MATRIX_ROWS c * DK_MATRIX_COLS c"
    using assms by (intro pair_index_less) (simp_all add: on_keymap_def)
  then show "key_slot c l r k + 1 < DYNAMIC_KEYMAP_ENCODER_EEPROM_ADDR c"
    by (simp add: key_slot_def DYNAMIC_KEYMAP_ENCODER_EEPROM_ADDR_def DYNAMIC_KEYMAP_SIZE_def)
qed (simp add: key_slot_def)

lemma encoder_slot_range:
  assumes "on_encodermap c l e"
  shows "DYNAMIC_KEYMAP_ENCODER_EEPROM_ADDR c \<le> encoder_slot c l e d" "encoder_slot c l e d + 1 < DYNAMIC_KEYMAP_MACRO_EEPROM_ADDR c"
proof -
  have "unat l * DK_NUM_ENCODERS c + unat e < DYNAMIC_KEYMAP_LAYER_COUNT c * DK_NUM_ENCODERS c"
    using assms by (intro pair_index_less) (simp_all add: on_encodermap_def)
  then show "encoder_slot c l e d + 1 < DYNAMIC_KEYMAP_MACRO_EEPROM_ADDR c"
    by (simp add: encoder_slot_def DYNAMIC_KEYMAP_MACRO_EEPROM_ADDR_def)
qed (simp add: encoder_slot_def)

lemma key_slot_inj:
  assumes "on_keymap c l r k" "on_keymap c l' r' k'"
  shows "key_slot c l r k = key_slot c l' r' k' \<longleftrightarrow> l = l' \<and> r = r' \<and> k = k'"
proof -
  have lt: "unat k < DK_MATRIX_COLS c" "unat k' < DK_MATRIX_COLS c" "unat r < DK_MATRIX_ROWS c" "unat r' < DK_MATRIX_ROWS c"
    using assms by (simp_all add: on_keymap_def)
  show ?thesis
    unfolding key_slot_def slot_inj pair_index_inj[OF lt(1,2)] pair_index_inj[OF lt(3,4)] word_unat_eq_iff by simp
qed

lemma encoder_slot_inj:
  assumes "on_encodermap c l e" "on_encodermap c l' e'"
  shows "encoder_slot c l e d = encoder_slot c l' e' d' \<longleftrightarrow> l = l' \<and> e = e' \<and> d = d'"
proof -
  have lt: "unat e < DK_NUM_ENCODERS c" "unat e' < DK_NUM_ENCODERS c" using assms by (simp_all add: on_encodermap_def)
  have b: "(if d then 0 else 1) < (2 :: nat)" "(if d' then 0 else 1) < (2 :: nat)" by simp_all
  show ?thesis
    unfolding encoder_slot_def slot_inj pair_index_inj[OF b] pair_index_inj[OF lt] word_unat_eq_iff by auto
qed

lemma key_slots_even:
  "key_slot c l r k mod 2 = DYNAMIC_KEYMAP_EEPROM_ADDR c mod 2" "encoder_slot c l e d mod 2 = DYNAMIC_KEYMAP_EEPROM_ADDR c mod 2"
  unfolding key_slot_def encoder_slot_def DYNAMIC_KEYMAP_ENCODER_EEPROM_ADDR_def DYNAMIC_KEYMAP_SIZE_def slot_parity
  by (rule refl)+

lemma unat_of_nat_32: "n < 2 ^ 32 \<Longrightarrow> unat (of_nat n :: u32) = n"
  using unat_of_nat_mod[of n, where 'a = 32] by simp

lemma areas_fit:
  assumes "dk_ok c n" "n \<le> 2 ^ 19"
  shows "DYNAMIC_KEYMAP_MACRO_EEPROM_ADDR c + DYNAMIC_KEYMAP_MACRO_EEPROM_SIZE c \<le> n" "DYNAMIC_KEYMAP_MACRO_EEPROM_ADDR c < 2 ^ 32"
    "DYNAMIC_KEYMAP_MACRO_EEPROM_ADDR c < n" "DYNAMIC_KEYMAP_ENCODER_EEPROM_ADDR c \<le> DYNAMIC_KEYMAP_MACRO_EEPROM_ADDR c"
    "0 < DYNAMIC_KEYMAP_MACRO_EEPROM_SIZE c"
  using assms by (auto simp: dk_ok_def DYNAMIC_KEYMAP_MACRO_EEPROM_SIZE_def DYNAMIC_KEYMAP_MACRO_EEPROM_ADDR_def)

lemma key_address:
  assumes "dk_ok c n" "n \<le> 2 ^ 19" "on_keymap c l r k"
  shows "unat (dynamic_keymap_key_to_eeprom_address c l r k) = key_slot c l r k"
    "unat (dynamic_keymap_key_to_eeprom_address c l r k + 1) = key_slot c l r k + 1" "key_slot c l r k + 1 < n"
proof -
  have lt: "key_slot c l r k + 1 < n" using key_slot_range[OF assms(3)] areas_fit[OF assms(1,2)] by simp
  have a: "dynamic_keymap_key_to_eeprom_address c l r k = of_nat (key_slot c l r k)"
    by (simp only: dynamic_keymap_key_to_eeprom_address_def key_slot_def add_mult_distrib add.assoc mult.assoc)
  show "unat (dynamic_keymap_key_to_eeprom_address c l r k) = key_slot c l r k" unfolding a
    using lt assms(2) by (intro unat_of_nat_32) simp
  have a1: "dynamic_keymap_key_to_eeprom_address c l r k + 1 = of_nat (key_slot c l r k + 1)" unfolding a by simp
  show "unat (dynamic_keymap_key_to_eeprom_address c l r k + 1) = key_slot c l r k + 1" unfolding a1
    using lt assms(2) by (intro unat_of_nat_32) simp
  show "key_slot c l r k + 1 < n" by (rule lt)
qed

lemma encoder_address:
  fixes c :: dk_cfg and d :: bool
  assumes "dk_ok c n" "n \<le> 2 ^ 19" "on_encodermap c l e"
  defines "a \<equiv> dynamic_keymap_encoder_to_eeprom_address c l e + (if d then 0 else 2)"
  shows "unat a = encoder_slot c l e d" "unat (a + 1) = encoder_slot c l e d + 1" "encoder_slot c l e d + 1 < n"
proof -
  have lt: "encoder_slot c l e d + 1 < n" using encoder_slot_range[OF assms(3)] areas_fit[OF assms(1,2)] by (meson less_trans)
  have "encoder_slot c l e d = DYNAMIC_KEYMAP_ENCODER_EEPROM_ADDR c + unat l * DK_NUM_ENCODERS c * 2 * 2 + unat e * 2 * 2 + (if d then 0 else 2)"
    by (simp add: encoder_slot_def algebra_simps)
  then have a: "a = of_nat (encoder_slot c l e d)"
    by (simp add: a_def dynamic_keymap_encoder_to_eeprom_address_def)
  then have a1: "a + 1 = of_nat (encoder_slot c l e d + 1)" by simp
  show "unat a = encoder_slot c l e d" "unat (a + 1) = encoder_slot c l e d + 1" unfolding a1 unfolding a
    using lt assms(2) by (intro unat_of_nat_32; simp)+
  show "encoder_slot c l e d + 1 < n" by (rule lt)
qed

definition be16 :: "u8 \<Rightarrow> u8 \<Rightarrow> u16" where
  "be16 hi lo = push_bit 8 (ucast hi) OR ucast lo"

lemma be16_halves: "be16 (ucast (drop_bit 8 w)) (ucast (w AND 0xFF)) = w"
proof (rule word_eqI_bits)
  fix i :: nat assume i: "i < LENGTH(16)"
  have ff: "(0xFF :: u16) = mask 8" by (simp add: mask_eq_exp_minus_1)
  show "bit (be16 (ucast (drop_bit 8 w)) (ucast (w AND 0xFF))) i \<longleftrightarrow> bit w i"
    using i by (auto simp: be16_def ff bit_or_iff bit_push_bit_iff bit_ucast_iff bit_drop_bit_eq bit_and_iff bit_mask_iff)
qed

lemma be16_parts: "ucast (drop_bit 8 (be16 hi lo)) = hi" "ucast (be16 hi lo AND 0xFF) = lo"
proof -
  have ff: "(0xFF :: u16) = mask 8" by (simp add: mask_eq_exp_minus_1)
  show "ucast (drop_bit 8 (be16 hi lo)) = hi" "ucast (be16 hi lo AND 0xFF) = lo"
    by (rule word_eqI_bits; auto simp: be16_def ff bit_or_iff bit_push_bit_iff bit_ucast_iff bit_drop_bit_eq bit_and_iff
        bit_mask_iff dest: bit_imp_le_length)+
qed

lemma those_map_Some: "those (map Some xs) = Some xs"
  by (induction xs) simp_all

lemma for_each_Nil: "for_each f [] s = Some s"
  by (simp add: for_each_def)

lemma for_each_Cons: "for_each f (x # xs) s = Option.bind (f x s) (for_each f xs)"
proof -
  have "fold (\<lambda>x s. Option.bind s (f x)) xs None = None" by (induction xs) simp_all
  then show ?thesis by (cases "f x s") (simp_all add: for_each_def)
qed

lemma for_each_snoc: "for_each f (xs @ [x]) s = Option.bind (for_each f xs s) (f x)"
  by (simp add: for_each_def)

context byte_memory
begin

lemma read_be:
  assumes "good s" "unat (a + 1) = unat a + 1" "unat a + 1 < bytes"
  shows "read_big_endian ops a s = Some (be16 (mem s ! unat a) (mem s ! (unat a + 1)))"
  using assms read_law[OF assms(1), of a] read_law[OF assms(1), of "a + 1"] by (simp add: read_big_endian_def be16_def)

lemma update_be:
  assumes "good s" "unat (a + 1) = unat a + 1" "unat a + 1 < bytes"
  shows "\<exists>s'. update_big_endian ops a w s = Some s' \<and> good s'
    \<and> mem s' = (mem s)[unat a := ucast (drop_bit 8 w), unat a + 1 := ucast (w AND 0xFF)]"
proof -
  obtain s1 where s1: "op_eeprom_update_byte ops a (ucast (drop_bit 8 w)) s = Some s1" "good s1"
    "mem s1 = (mem s)[unat a := ucast (drop_bit 8 w)]"
    using update_law[OF assms(1), of a] assms(3) by auto
  obtain s2 where "op_eeprom_update_byte ops (a + 1) (ucast (w AND 0xFF)) s1 = Some s2" "good s2"
    "mem s2 = (mem s1)[unat (a + 1) := ucast (w AND 0xFF)]"
    using update_law[OF s1(2), of "a + 1"] assms(2,3) by auto
  with s1 assms(2) show ?thesis by (simp add: update_big_endian_def)
qed

text \<open>A word in two bytes, and another one beside it.\<close>

lemma be16_write:
  assumes "length m = n" "i + 1 < n" "j + 1 < n" "i mod 2 = j mod (2 :: nat)"
  shows "be16 (m[i := ucast (drop_bit 8 w), i + 1 := ucast (w AND 0xFF)] ! j) (m[i := ucast (drop_bit 8 w), i + 1 := ucast (w AND 0xFF)] ! (j + 1))
    = (if i = j then w else be16 (m ! j) (m ! (j + 1)))"
proof -
  have "i + 1 \<noteq> j" "j + 1 \<noteq> i" using assms(4) by presburger+
  then show ?thesis using assms(1-3) be16_halves[of w] by (simp add: nth_update_if)
qed

lemma read_keycode:
  assumes "good s" "dk_ok c bytes"
  shows "nvm_dynamic_keymap_read_keycode c ops l r k s = Some (if on_keymap c l r k
    then be16 (mem s ! key_slot c l r k) (mem s ! (key_slot c l r k + 1)) else 0)"
proof (cases "on_keymap c l r k")
  case True
  note a = key_address[OF assms(2) bytes True]
  from read_be[OF assms(1), of "dynamic_keymap_key_to_eeprom_address c l r k"] a True show ?thesis
    by (simp add: nvm_dynamic_keymap_read_keycode_def)
qed (simp add: nvm_dynamic_keymap_read_keycode_def)

lemma read_encoder:
  assumes "good s" "dk_ok c bytes"
  shows "nvm_dynamic_keymap_read_encoder c ops l e d s = Some (if on_encodermap c l e
    then be16 (mem s ! encoder_slot c l e d) (mem s ! (encoder_slot c l e d + 1)) else 0)"
proof (cases "on_encodermap c l e")
  case True
  note a = encoder_address[OF assms(2) bytes True, of d]
  from read_be[OF assms(1), of "dynamic_keymap_encoder_to_eeprom_address c l e + (if d then 0 else 2)"] a True show ?thesis
    by (simp add: nvm_dynamic_keymap_read_encoder_def)
qed (simp add: nvm_dynamic_keymap_read_encoder_def)

lemma update_keycode:
  assumes "good s" "dk_ok c bytes"
  shows "\<exists>s'. nvm_dynamic_keymap_update_keycode c ops l r k w s = Some s' \<and> good s'
    \<and> mem s' = (if on_keymap c l r k
        then (mem s)[key_slot c l r k := ucast (drop_bit 8 w), key_slot c l r k + 1 := ucast (w AND 0xFF)] else mem s)"
proof (cases "on_keymap c l r k")
  case True
  note a = key_address[OF assms(2) bytes True]
  from update_be[OF assms(1), of "dynamic_keymap_key_to_eeprom_address c l r k" w] a True show ?thesis
    by (simp add: nvm_dynamic_keymap_update_keycode_def)
qed (use assms(1) in \<open>simp add: nvm_dynamic_keymap_update_keycode_def\<close>)

lemma update_encoder:
  assumes "good s" "dk_ok c bytes"
  shows "\<exists>s'. nvm_dynamic_keymap_update_encoder c ops l e d w s = Some s' \<and> good s'
    \<and> mem s' = (if on_encodermap c l e
        then (mem s)[encoder_slot c l e d := ucast (drop_bit 8 w), encoder_slot c l e d + 1 := ucast (w AND 0xFF)] else mem s)"
proof (cases "on_encodermap c l e")
  case True
  note a = encoder_address[OF assms(2) bytes True, of d]
  from update_be[OF assms(1), of "dynamic_keymap_encoder_to_eeprom_address c l e + (if d then 0 else 2)" w] a True show ?thesis
    by (simp add: nvm_dynamic_keymap_update_encoder_def)
qed (use assms(1) in \<open>simp add: nvm_dynamic_keymap_update_encoder_def\<close>)

text \<open>All but the keymap and the encoder map stays.\<close>

definition keeps_rest :: "dk_cfg \<Rightarrow> 's \<Rightarrow> 's \<Rightarrow> bool" where
  "keeps_rest c s t \<longleftrightarrow> drop (DYNAMIC_KEYMAP_MACRO_EEPROM_ADDR c) (mem t) = drop (DYNAMIC_KEYMAP_MACRO_EEPROM_ADDR c) (mem s)
     \<and> take (DYNAMIC_KEYMAP_EEPROM_ADDR c) (mem t) = take (DYNAMIC_KEYMAP_EEPROM_ADDR c) (mem s)"

lemma keeps_rest_trans: "keeps_rest c s t \<Longrightarrow> keeps_rest c t u \<Longrightarrow> keeps_rest c s u"
  by (simp add: keeps_rest_def)

lemma encoder_area: "DYNAMIC_KEYMAP_EEPROM_ADDR c \<le> DYNAMIC_KEYMAP_ENCODER_EEPROM_ADDR c"
  by (simp add: DYNAMIC_KEYMAP_ENCODER_EEPROM_ADDR_def)

lemma keycode_set:
  assumes "good s" "dk_ok c bytes"
  shows "\<exists>s'. nvm_dynamic_keymap_update_keycode c ops l r k w s = Some s' \<and> good s'
    \<and> (\<forall>l' r' k'. nvm_dynamic_keymap_read_keycode c ops l' r' k' s'
        = (if on_keymap c l r k \<and> l' = l \<and> r' = r \<and> k' = k then Some w else nvm_dynamic_keymap_read_keycode c ops l' r' k' s))
    \<and> (\<forall>l' e d. nvm_dynamic_keymap_read_encoder c ops l' e d s' = nvm_dynamic_keymap_read_encoder c ops l' e d s)
    \<and> keeps_rest c s s'"
proof -
  obtain s' where s': "nvm_dynamic_keymap_update_keycode c ops l r k w s = Some s'" "good s'"
    "mem s' = (if on_keymap c l r k
        then (mem s)[key_slot c l r k := ucast (drop_bit 8 w), key_slot c l r k + 1 := ucast (w AND 0xFF)] else mem s)"
    using update_keycode[OF assms] by blast
  have len: "length (mem s) = bytes" by (rule mem_length[OF assms(1)])
  show ?thesis
  proof (cases "on_keymap c l r k")
    case True
    note here = key_address(3)[OF assms(2) bytes True] and range = key_slot_range[OF True]
    have "be16 (mem s' ! key_slot c l' r' k') (mem s' ! (key_slot c l' r' k' + 1))
        = (if l' = l \<and> r' = r \<and> k' = k then w else be16 (mem s ! key_slot c l' r' k') (mem s ! (key_slot c l' r' k' + 1)))"
      if on: "on_keymap c l' r' k'" for l' r' k'
      using be16_write[OF len here key_address(3)[OF assms(2) bytes on], of w] key_slot_inj[OF True on]
      by (auto simp: s'(3) True key_slots_even)
    moreover have "be16 (mem s' ! encoder_slot c l' e d) (mem s' ! (encoder_slot c l' e d + 1))
        = be16 (mem s ! encoder_slot c l' e d) (mem s ! (encoder_slot c l' e d + 1))" if on: "on_encodermap c l' e" for l' e d
      using encoder_slot_range[OF on, of d] range by (simp add: s'(3) True)
    moreover have "keeps_rest c s s'"
      using range areas_fit(4)[OF assms(2) bytes] by (simp add: keeps_rest_def s'(3) True)
    ultimately show ?thesis using s'(1,2) True
      by (intro exI[of _ s']) (simp add: read_keycode[OF _ assms(2)] read_encoder[OF _ assms(2)] assms(1))
  qed (use s' read_keycode[OF s'(2) assms(2)] read_keycode[OF assms] read_encoder[OF s'(2) assms(2)] read_encoder[OF assms] in \<open>simp add: keeps_rest_def\<close>)
qed

lemma encoder_set:
  assumes "good s" "dk_ok c bytes"
  shows "\<exists>s'. nvm_dynamic_keymap_update_encoder c ops l e d w s = Some s' \<and> good s'
    \<and> (\<forall>l' e' d'. nvm_dynamic_keymap_read_encoder c ops l' e' d' s'
        = (if on_encodermap c l e \<and> l' = l \<and> e' = e \<and> d' = d then Some w else nvm_dynamic_keymap_read_encoder c ops l' e' d' s))
    \<and> (\<forall>l' r k. nvm_dynamic_keymap_read_keycode c ops l' r k s' = nvm_dynamic_keymap_read_keycode c ops l' r k s)
    \<and> keeps_rest c s s'"
proof -
  obtain s' where s': "nvm_dynamic_keymap_update_encoder c ops l e d w s = Some s'" "good s'"
    "mem s' = (if on_encodermap c l e
        then (mem s)[encoder_slot c l e d := ucast (drop_bit 8 w), encoder_slot c l e d + 1 := ucast (w AND 0xFF)] else mem s)"
    using update_encoder[OF assms] by blast
  have len: "length (mem s) = bytes" by (rule mem_length[OF assms(1)])
  show ?thesis
  proof (cases "on_encodermap c l e")
    case True
    note here = encoder_address(3)[OF assms(2) bytes True, of d] and range = encoder_slot_range[OF True, of d]
    have "be16 (mem s' ! encoder_slot c l' e' d') (mem s' ! (encoder_slot c l' e' d' + 1))
        = (if l' = l \<and> e' = e \<and> d' = d then w else be16 (mem s ! encoder_slot c l' e' d') (mem s ! (encoder_slot c l' e' d' + 1)))"
      if on: "on_encodermap c l' e'" for l' e' d'
      using be16_write[OF len here encoder_address(3)[OF assms(2) bytes on, of d'], of w] encoder_slot_inj[OF True on, of d d']
      by (auto simp: s'(3) True key_slots_even)
    moreover have "be16 (mem s' ! key_slot c l' r k) (mem s' ! (key_slot c l' r k + 1))
        = be16 (mem s ! key_slot c l' r k) (mem s ! (key_slot c l' r k + 1))" if on: "on_keymap c l' r k" for l' r k
      using key_slot_range[OF on] range by (simp add: s'(3) True)
    moreover have "keeps_rest c s s'"
      using range order_trans[OF encoder_area range(1)] by (simp add: keeps_rest_def s'(3) True)
    ultimately show ?thesis using s'(1,2) True
      by (intro exI[of _ s']) (simp add: read_keycode[OF _ assms(2)] read_encoder[OF _ assms(2)] assms(1))
  qed (use s' read_keycode[OF s'(2) assms(2)] read_keycode[OF assms] read_encoder[OF s'(2) assms(2)] read_encoder[OF assms] in \<open>simp add: keeps_rest_def\<close>)
qed

text \<open>The keymap of the firmware at a key or an encoder, and whether the EEPROM has it there.\<close>

fun has_raw :: "dk_cfg \<Rightarrow> dk_place \<Rightarrow> 's \<Rightarrow> bool" where
  "has_raw c (Inl (l, r, k)) s \<longleftrightarrow>
     nvm_dynamic_keymap_read_keycode c ops l r k s = Some (keycode_at_keymap_location_raw c (unat l) (unat r) (unat k))"
| "has_raw c (Inr (l, e, d)) s \<longleftrightarrow>
     nvm_dynamic_keymap_read_encoder c ops l e d s = Some (keycode_at_encodermap_location_raw c (unat l) (unat e) d)"

text \<open>An operation that restores the keymap of the firmware at some places and spoils it nowhere.\<close>

definition restores :: "dk_cfg \<Rightarrow> ('s \<Rightarrow> 's option) \<Rightarrow> dk_place set \<Rightarrow> bool" where
  "restores c f Y \<longleftrightarrow> (\<forall>s. good s \<longrightarrow> (\<exists>s'. f s = Some s' \<and> good s' \<and> keeps_rest c s s'
     \<and> (\<forall>y \<in> Y. has_raw c y s') \<and> (\<forall>y. has_raw c y s \<longrightarrow> has_raw c y s')))"

lemma restoresE:
  assumes "restores c f Y" "good s"
  obtains s' where "f s = Some s'" "good s'" "keeps_rest c s s'" "\<forall>y \<in> Y. has_raw c y s'" "\<forall>y. has_raw c y s \<longrightarrow> has_raw c y s'"
  using assms unfolding restores_def by blast

lemma restores_mono: "restores c f Y \<Longrightarrow> Z \<subseteq> Y \<Longrightarrow> restores c f Z"
  unfolding restores_def by (meson subsetD)

lemma restores_seq:
  assumes "restores c f Y" "restores c g Z"
  shows "restores c (\<lambda>s. Option.bind (f s) g) (Y \<union> Z)"
  unfolding restores_def
proof (intro allI impI)
  fix s assume "good s"
  from restoresE[OF assms(1) this] obtain t where t: "f s = Some t" "good t" "keeps_rest c s t"
    "\<forall>y \<in> Y. has_raw c y t" "\<forall>y. has_raw c y s \<longrightarrow> has_raw c y t" .
  from restoresE[OF assms(2) t(2)] obtain u where u: "g t = Some u" "good u" "keeps_rest c t u"
    "\<forall>y \<in> Z. has_raw c y u" "\<forall>y. has_raw c y t \<longrightarrow> has_raw c y u" .
  show "\<exists>s'. Option.bind (f s) g = Some s' \<and> good s' \<and> keeps_rest c s s'
     \<and> (\<forall>y \<in> Y \<union> Z. has_raw c y s') \<and> (\<forall>y. has_raw c y s \<longrightarrow> has_raw c y s')"
    using t u keeps_rest_trans[OF t(3) u(3)] by (intro exI[of _ u]) auto
qed

lemma restores_loop:
  assumes "\<forall>x \<in> set xs. restores c (f x) (Y x)"
  shows "restores c (for_each f xs) (\<Union>x \<in> set xs. Y x)"
  using assms
proof (induction xs)
  case Nil
  then show ?case by (simp add: restores_def for_each_Nil keeps_rest_def)
next
  case (Cons x xs)
  have "for_each f (x # xs) = (\<lambda>s. Option.bind (f x s) (for_each f xs))" by (rule ext) (rule for_each_Cons)
  then show ?case using restores_seq[of c "f x" "Y x" "for_each f xs"] Cons by simp
qed

lemma restores_key:
  assumes "dk_ok c bytes" "on_keymap c l r k"
  shows "restores c (nvm_dynamic_keymap_update_keycode c ops l r k (keycode_at_keymap_location_raw c (unat l) (unat r) (unat k)))
    {Inl (l, r, k)}"
  unfolding restores_def
proof (intro allI impI)
  let ?w = "keycode_at_keymap_location_raw c (unat l) (unat r) (unat k)"
  fix s assume "good s"
  from keycode_set[OF this assms(1), of l r k ?w] obtain s' where
    s': "nvm_dynamic_keymap_update_keycode c ops l r k ?w s = Some s'" "good s'"
    "\<forall>l' r' k'. nvm_dynamic_keymap_read_keycode c ops l' r' k' s' = (if on_keymap c l r k \<and> l' = l \<and> r' = r \<and> k' = k
        then Some ?w else nvm_dynamic_keymap_read_keycode c ops l' r' k' s)"
    "\<forall>l' e d. nvm_dynamic_keymap_read_encoder c ops l' e d s' = nvm_dynamic_keymap_read_encoder c ops l' e d s" "keeps_rest c s s'"
    by blast
  have "has_raw c y s'" if "has_raw c y s" for y using that s'(3,4) by (cases "(c, y, s)" rule: has_raw.cases) auto
  then show "\<exists>s'. nvm_dynamic_keymap_update_keycode c ops l r k ?w s = Some s' \<and> good s' \<and> keeps_rest c s s'
     \<and> (\<forall>y \<in> {Inl (l, r, k)}. has_raw c y s') \<and> (\<forall>y. has_raw c y s \<longrightarrow> has_raw c y s')"
    using s' assms(2) by (intro exI[of _ s']) simp
qed

lemma restores_encoder:
  assumes "dk_ok c bytes" "on_encodermap c l e"
  shows "restores c (nvm_dynamic_keymap_update_encoder c ops l e d (keycode_at_encodermap_location_raw c (unat l) (unat e) d))
    {Inr (l, e, d)}"
  unfolding restores_def
proof (intro allI impI)
  let ?w = "keycode_at_encodermap_location_raw c (unat l) (unat e) d"
  fix s assume "good s"
  from encoder_set[OF this assms(1), of l e d ?w] obtain s' where
    s': "nvm_dynamic_keymap_update_encoder c ops l e d ?w s = Some s'" "good s'"
    "\<forall>l' e' d'. nvm_dynamic_keymap_read_encoder c ops l' e' d' s' = (if on_encodermap c l e \<and> l' = l \<and> e' = e \<and> d' = d
        then Some ?w else nvm_dynamic_keymap_read_encoder c ops l' e' d' s)"
    "\<forall>l' r k. nvm_dynamic_keymap_read_keycode c ops l' r k s' = nvm_dynamic_keymap_read_keycode c ops l' r k s" "keeps_rest c s s'"
    by blast
  have "has_raw c y s'" if "has_raw c y s" for y using that s'(3,4) by (cases "(c, y, s)" rule: has_raw.cases) auto
  then show "\<exists>s'. nvm_dynamic_keymap_update_encoder c ops l e d ?w s = Some s' \<and> good s' \<and> keeps_rest c s s'
     \<and> (\<forall>y \<in> {Inr (l, e, d)}. has_raw c y s') \<and> (\<forall>y. has_raw c y s \<longrightarrow> has_raw c y s')"
    using s' assms(2) by (intro exI[of _ s']) simp
qed

end

lemma unat_of_nat_8: "n < 256 \<Longrightarrow> unat (of_nat n :: u8) = n"
  using unat_of_nat_mod[of n, where 'a = 8] by simp

context byte_memory
begin

lemma reset_restores:
  assumes "dk_ok c bytes"
  shows "restores c (dynamic_keymap_reset c ops)
    ({Inl (l, r, k) | l r k. on_keymap c l r k} \<union> {Inr (l, e, d) | l e d. on_encodermap c l e})"
proof -
  let ?L = "[0..<DYNAMIC_KEYMAP_LAYER_COUNT c]" and ?R = "[0..<DK_MATRIX_ROWS c]" and ?C = "[0..<DK_MATRIX_COLS c]"
    and ?E = "[0..<DK_NUM_ENCODERS c]"
  let ?w = "of_nat :: nat \<Rightarrow> u8"
  let ?key = "\<lambda>l r k. nvm_dynamic_keymap_update_keycode c ops (?w l) (?w r) (?w k) (keycode_at_keymap_location_raw c l r k)"
    and ?enc = "\<lambda>l e d. nvm_dynamic_keymap_update_encoder c ops (?w l) (?w e) d (keycode_at_encodermap_location_raw c l e d)"
  let ?Y = "\<Union>l \<in> set ?L. (\<Union>r \<in> set ?R. \<Union>k \<in> set ?C. {Inl (?w l, ?w r, ?w k)})
    \<union> (\<Union>e \<in> set ?E. {Inr (?w l, ?w e, True)} \<union> {Inr (?w l, ?w e, False)})"
  have key: "restores c (?key l r k) {Inl (?w l, ?w r, ?w k)}" if "l \<in> set ?L" "r \<in> set ?R" "k \<in> set ?C" for l r k
    using restores_key[OF assms, of "?w l" "?w r" "?w k"] that assms by (simp add: dk_ok_def on_keymap_def unat_of_nat_8)
  have enc: "restores c (?enc l e d) {Inr (?w l, ?w e, d)}" if "l \<in> set ?L" "e \<in> set ?E" for l e d
    using restores_encoder[OF assms, of "?w l" "?w e" d] that assms by (simp add: dk_ok_def on_encodermap_def unat_of_nat_8)
  have step: "restores c (\<lambda>s. for_each (\<lambda>l s. Option.bind (for_each (\<lambda>r. for_each (?key l r) ?C) ?R s)
      (for_each (\<lambda>e s. Option.bind (?enc l e True s) (?enc l e False)) ?E)) ?L s) ?Y"
    by (intro restores_loop restores_seq ballI key enc)
  have cover: "({Inl (l, r, k) | l r k. on_keymap c l r k} \<union> {Inr (l, e, d) | l e d. on_encodermap c l e} :: dk_place set) \<subseteq> ?Y"
  proof (rule subsetI, elim UnE CollectE exE conjE)
    fix y :: dk_place and l r k assume y: "y = Inl (l, r, k)" and on: "on_keymap c l r k"
    show "y \<in> ?Y" unfolding y
      by (rule UN_I[of "unat l"], use on in \<open>simp add: on_keymap_def\<close>, rule UnI1, rule UN_I[of "unat r"],
          use on in \<open>simp add: on_keymap_def\<close>, rule UN_I[of "unat k"], use on in \<open>simp_all add: on_keymap_def\<close>)
  next
    fix y :: dk_place and l e d assume y: "y = Inr (l, e, d)" and on: "on_encodermap c l e"
    show "y \<in> ?Y" unfolding y
      by (rule UN_I[of "unat l"], use on in \<open>simp add: on_encodermap_def\<close>, rule UnI2, rule UN_I[of "unat e"],
          use on in \<open>simp add: on_encodermap_def\<close>, cases d, simp_all)
  qed
  show ?thesis unfolding dynamic_keymap_reset_def by (rule restores_mono[OF step cover])
qed

text \<open>Reading and writing a part of an area.\<close>

lemma area_offset:
  fixes offset :: u32
  assumes "unat offset + i < 2 ^ 32"
  shows "unat (offset + of_nat i) = unat offset + i"
  using assms unat_of_nat_32[of "unat offset + i"] by simp

lemma area_address:
  fixes offset :: u32
  assumes "base + n \<le> bytes" "unat offset + i < n"
  shows "unat (of_nat base + offset + of_nat i) = base + unat offset + i"
  using assms bytes unat_of_nat_32[of "base + unat offset + i"] by simp

lemma read_area_ok:
  assumes "good s" "base + n \<le> bytes" "unat offset + len < 2 ^ 32"
  shows "read_area ops base n offset len s
    = Some (map (\<lambda>i. if unat offset + i < n then mem s ! (base + unat offset + i) else 0) [0..<len])"
proof -
  have "(if unat (offset + of_nat i) < n then op_eeprom_read_byte ops (of_nat base + offset + of_nat i) s else Some 0)
      = Some (if unat offset + i < n then mem s ! (base + unat offset + i) else 0)" if i: "i < len" for i
  proof (cases "unat offset + i < n")
    case True
    then show ?thesis using area_address[OF assms(2) True] area_offset[of offset i] read_law[OF assms(1), of "of_nat base + offset + of_nat i"]
        assms(2,3) i by simp
  qed (use area_offset[of offset i] assms(3) i in simp)
  then have "map (\<lambda>i. if unat (offset + of_nat i) < n then op_eeprom_read_byte ops (of_nat base + offset + of_nat i) s else Some 0) [0..<len]
      = map Some (map (\<lambda>i. if unat offset + i < n then mem s ! (base + unat offset + i) else 0) [0..<len])" by simp
  then show ?thesis by (simp only: read_area_def those_map_Some)
qed

lemma update_area_ok:
  assumes "good s" "base + n \<le> bytes" "unat offset + length d < 2 ^ 32"
  shows "\<exists>s'. update_area ops base n offset d s = Some s' \<and> good s'
    \<and> (\<forall>j < bytes. mem s' ! j = (if base + unat offset \<le> j \<and> j < base + n \<and> j < base + unat offset + length d
        then d ! (j - base - unat offset) else mem s ! j))"
proof -
  let ?f = "\<lambda>i s. if unat (offset + of_nat i) < n then op_eeprom_update_byte ops (of_nat base + offset + of_nat i) (d ! i) s
     else Some s"
  have "\<exists>s'. for_each ?f [0..<k] s = Some s' \<and> good s' \<and> (\<forall>j < bytes. mem s' ! j =
      (if base + unat offset \<le> j \<and> j < base + n \<and> j < base + unat offset + k then d ! (j - base - unat offset) else mem s ! j))"
    if "k \<le> length d" for k
    using that
  proof (induction k)
    case (Suc k)
    then obtain t where t: "for_each ?f [0..<k] s = Some t" "good t" "\<forall>j < bytes. mem t ! j =
        (if base + unat offset \<le> j \<and> j < base + n \<and> j < base + unat offset + k then d ! (j - base - unat offset) else mem s ! j)"
      by auto
    have a: "unat (offset + of_nat k) = unat offset + k" using area_offset[of offset k] Suc.prems assms(3) by simp
    show ?case
    proof (cases "unat offset + k < n")
      case True
      note b = area_address[OF assms(2) True]
      obtain u where u: "op_eeprom_update_byte ops (of_nat base + offset + of_nat k) (d ! k) t = Some u" "good u"
        "mem u = (mem t)[base + unat offset + k := d ! k]"
        using update_law[OF t(2), of "of_nat base + offset + of_nat k" "d ! k"] b True assms(2) by auto
      have "mem u ! j = (if base + unat offset \<le> j \<and> j < base + n \<and> j < base + unat offset + Suc k
          then d ! (j - base - unat offset) else mem s ! j)" if j: "j < bytes" for j
        using t(3) j True mem_length[OF t(2)] by (cases "j = base + unat offset + k") (auto simp: u(3) nth_update_if)
      then show ?thesis using u(1,2) t(1) True a by (simp add: for_each_snoc)
    next
      case False
      then have "mem t ! j = (if base + unat offset \<le> j \<and> j < base + n \<and> j < base + unat offset + Suc k
          then d ! (j - base - unat offset) else mem s ! j)" if j: "j < bytes" for j using t(3) j by auto
      then show ?thesis using t(1,2) False a by (simp add: for_each_snoc)
    qed
  next
    case 0
    show ?case using assms(1) by (auto simp: for_each_Nil)
  qed
  from this[of "length d"] show ?thesis by (simp add: update_area_def)
qed

lemma macro_reset_ok:
  assumes "good s" "dk_ok c bytes"
  shows "\<exists>s'. nvm_dynamic_keymap_macro_reset c ops s = Some s' \<and> good s'
    \<and> (\<forall>j < bytes. mem s' ! j = (if DYNAMIC_KEYMAP_MACRO_EEPROM_ADDR c \<le> j
        \<and> j < DYNAMIC_KEYMAP_MACRO_EEPROM_ADDR c + DYNAMIC_KEYMAP_MACRO_EEPROM_SIZE c then 0 else mem s ! j))"
proof -
  have zero: "a \<le> j \<Longrightarrow> j < a + k \<Longrightarrow> replicate k (0 :: u8) ! (j - a) = 0" for a j k by simp
  define b n where bn: "b = DYNAMIC_KEYMAP_MACRO_EEPROM_ADDR c" "n = DYNAMIC_KEYMAP_MACRO_EEPROM_SIZE c"
  have fit: "b + n \<le> bytes" using areas_fit[OF assms(2) bytes] by (simp add: bn)
  let ?f = "\<lambda>i. op_eeprom_update_block ops (replicate (min 16 (n - i)) 0) (of_nat (b + i))"
  have "\<exists>s'. for_each ?f (map (\<lambda>k. 16 * k) [0..<m]) s = Some s' \<and> good s'
      \<and> (\<forall>j < bytes. mem s' ! j = (if b \<le> j \<and> j < b + min n (16 * m) then 0 else mem s ! j))"
    if "m \<le> (n + 15) div 16" for m
    using that
  proof (induction m)
    case (Suc m)
    then obtain t where t: "for_each ?f (map (\<lambda>k. 16 * k) [0..<m]) s = Some t" "good t"
      "\<forall>j < bytes. mem t ! j = (if b \<le> j \<and> j < b + min n (16 * m) then 0 else mem s ! j)" by auto
    have lt: "16 * m < n" using Suc.prems by simp
    have a: "unat (of_nat (b + 16 * m) :: u32) = b + 16 * m" by (rule unat_of_nat_32) (use fit lt bytes in simp)
    have fits: "b + 16 * m + min 16 (n - 16 * m) \<le> bytes" using fit lt by linarith
    obtain u where u: "?f (16 * m) t = Some u" "good u" "mem u = memcpy_at (mem t) (b + 16 * m) (replicate (min 16 (n - 16 * m)) 0)"
      using fits block_law[OF t(2), of "of_nat (b + 16 * m)" "replicate (min 16 (n - 16 * m)) 0"] unfolding a by auto
    have "mem u ! j = (if b \<le> j \<and> j < b + min n (16 * Suc m) then 0 else mem s ! j)" if j: "j < bytes" for j
      using t(3) j lt fit mem_length[OF t(2)] by (auto simp: u(3) nth_memcpy_at zero)
    then show ?case using t(1) u(1,2) by (simp add: for_each_snoc)
  next
    case 0
    show ?case using assms(1) by (auto simp: for_each_Nil)
  qed
  from this[of "(n + 15) div 16"] have "\<exists>s'. for_each ?f (map (\<lambda>k. 16 * k) [0..<(n + 15) div 16]) s = Some s' \<and> good s'
      \<and> (\<forall>j < bytes. mem s' ! j = (if b \<le> j \<and> j < b + min n (16 * ((n + 15) div 16)) then 0 else mem s ! j))" by simp
  moreover have "min n (16 * ((n + 15) div 16)) = n" by simp
  ultimately show ?thesis by (simp add: nvm_dynamic_keymap_macro_reset_def Let_def flip: bn)
qed

end

section \<open>What the host sees\<close>

text \<open>The specification: the two maps and the bytes of the macros.\<close>

record dk_contents =
  spec_keycode :: "8 word \<Rightarrow> 8 word \<Rightarrow> 8 word \<Rightarrow> 16 word"
  spec_encoder :: "8 word \<Rightarrow> 8 word \<Rightarrow> bool \<Rightarrow> 16 word"
  spec_macros :: "8 word list"

datatype dk_op =
  Set_Keycode u8 u8 u8 u16 | Set_Encoder u8 u8 bool u16 | Set_Buffer u16 "u8 list" | Set_Macros u16 "u8 list"
  | Reset_Keymap | Reset_Macros | Power_Cycle

fun dk_op_ok :: "dk_op \<Rightarrow> bool" where
  "dk_op_ok (Set_Buffer offset d) \<longleftrightarrow> length d < 65536"
| "dk_op_ok (Set_Macros offset d) \<longleftrightarrow> length d < 65536"
| "dk_op_ok _ \<longleftrightarrow> True"

fun dk_step :: "dk_cfg \<Rightarrow> 's eeprom_ops \<Rightarrow> ('s \<Rightarrow> 's) \<Rightarrow> dk_op \<Rightarrow> 's \<Rightarrow> 's option" where
  "dk_step c ops power_cycle (Set_Keycode l r k w) s = nvm_dynamic_keymap_update_keycode c ops l r k w s"
| "dk_step c ops power_cycle (Set_Encoder l e d w) s = nvm_dynamic_keymap_update_encoder c ops l e d w s"
| "dk_step c ops power_cycle (Set_Buffer offset d) s = dynamic_keymap_set_buffer c ops offset d s"
| "dk_step c ops power_cycle (Set_Macros offset d) s = dynamic_keymap_macro_set_buffer c ops offset d s"
| "dk_step c ops power_cycle Reset_Keymap s = dynamic_keymap_reset c ops s"
| "dk_step c ops power_cycle Reset_Macros s = nvm_dynamic_keymap_macro_reset c ops s"
| "dk_step c ops power_cycle Power_Cycle s = Some (power_cycle s)"

definition patched :: "u16 \<Rightarrow> u8 list \<Rightarrow> nat \<Rightarrow> u8 \<Rightarrow> u8" where
  "patched offset d p b = (if unat offset \<le> p \<and> p < unat offset + length d then d ! (p - unat offset) else b)"

fun dk_spec :: "dk_cfg \<Rightarrow> dk_op \<Rightarrow> dk_contents \<Rightarrow> dk_contents" where
  "dk_spec c (Set_Keycode l r k w) a =
     a\<lparr>spec_keycode := \<lambda>l' r' k'. if l' = l \<and> r' = r \<and> k' = k then w else spec_keycode a l' r' k'\<rparr>"
| "dk_spec c (Set_Encoder l e d w) a =
     a\<lparr>spec_encoder := \<lambda>l' e' d'. if l' = l \<and> e' = e \<and> d' = d then w else spec_encoder a l' e' d'\<rparr>"
| "dk_spec c (Set_Buffer offset d) a = a\<lparr>spec_keycode := \<lambda>l r k.
     let p = ((unat l * DK_MATRIX_ROWS c + unat r) * DK_MATRIX_COLS c + unat k) * 2; w = spec_keycode a l r k
     in be16 (patched offset d p (ucast (drop_bit 8 w))) (patched offset d (p + 1) (ucast (w AND 0xFF)))\<rparr>"
| "dk_spec c (Set_Macros offset d) a =
     a\<lparr>spec_macros := map (\<lambda>p. patched offset d p (spec_macros a ! p)) [0..<length (spec_macros a)]\<rparr>"
| "dk_spec c Reset_Keymap a =
     a\<lparr>spec_keycode := \<lambda>l r k. keycode_at_keymap_location_raw c (unat l) (unat r) (unat k),
       spec_encoder := \<lambda>l e d. keycode_at_encodermap_location_raw c (unat l) (unat e) d\<rparr>"
| "dk_spec c Reset_Macros a = a\<lparr>spec_macros := replicate (length (spec_macros a)) 0\<rparr>"
| "dk_spec c Power_Cycle a = a"

fun dk_run :: "dk_cfg \<Rightarrow> 's eeprom_ops \<Rightarrow> ('s \<Rightarrow> 's) \<Rightarrow> dk_op list \<Rightarrow> 's \<Rightarrow> 's option" where
  "dk_run c ops power_cycle [] s = Some s"
| "dk_run c ops power_cycle (x # xs) s = Option.bind (dk_step c ops power_cycle x s) (dk_run c ops power_cycle xs)"

text \<open>An area full of macros.\<close>

definition macro_area :: "ss_command list list \<Rightarrow> u8 list" where
  "macro_area ms = concat (map (\<lambda>cmds. concat (map ss_encode cmds) @ [0]) ms)"

text \<open>An EEPROM that a power cycle does not change.\<close>

locale persistent_bytes = byte_memory ops good mem bytes
  for ops :: "'s eeprom_ops" and good mem bytes +
  fixes power_cycle :: "'s \<Rightarrow> 's"
  assumes power_law: "good s \<Longrightarrow> good (power_cycle s) \<and> mem (power_cycle s) = mem s"
begin

text \<open>The bytes outside the three areas.\<close>

definition outside :: "dk_cfg \<Rightarrow> 's \<Rightarrow> u8 list \<times> u8 list" where
  "outside c s = (take (DYNAMIC_KEYMAP_EEPROM_ADDR c) (mem s),
     drop (DYNAMIC_KEYMAP_MACRO_EEPROM_ADDR c + DYNAMIC_KEYMAP_MACRO_EEPROM_SIZE c) (mem s))"

definition macro_bytes :: "dk_cfg \<Rightarrow> 's \<Rightarrow> u8 list" where
  "macro_bytes c s = take (DYNAMIC_KEYMAP_MACRO_EEPROM_SIZE c) (drop (DYNAMIC_KEYMAP_MACRO_EEPROM_ADDR c) (mem s))"

definition holds :: "dk_cfg \<Rightarrow> dk_contents \<Rightarrow> 's \<Rightarrow> bool" where
  "holds c a s \<longleftrightarrow> good s
     \<and> (\<forall>l r k. on_keymap c l r k \<longrightarrow> nvm_dynamic_keymap_read_keycode c ops l r k s = Some (spec_keycode a l r k))
     \<and> (\<forall>l e d. on_encodermap c l e \<longrightarrow> nvm_dynamic_keymap_read_encoder c ops l e d s = Some (spec_encoder a l e d))
     \<and> spec_macros a = macro_bytes c s"

lemma keeps_rest_outside:
  assumes "keeps_rest c s t"
  shows "outside c t = outside c s" "macro_bytes c t = macro_bytes c s"
proof -
  have d: "drop (DYNAMIC_KEYMAP_MACRO_EEPROM_ADDR c) (mem t) = drop (DYNAMIC_KEYMAP_MACRO_EEPROM_ADDR c) (mem s)"
    using assms by (simp add: keeps_rest_def)
  from arg_cong[OF d, of "drop (DYNAMIC_KEYMAP_MACRO_EEPROM_SIZE c)"]
  show "outside c t = outside c s" using assms by (simp add: outside_def keeps_rest_def add.commute)
  show "macro_bytes c t = macro_bytes c s" using d by (simp add: macro_bytes_def)
qed

text \<open>What a write to the bytes from \<open>b\<close> to \<open>b + n\<close> does elsewhere.\<close>

lemma write_frame:
  assumes "good s" "good t" "\<forall>j < bytes. \<not> (b \<le> j \<and> j < b + n) \<longrightarrow> mem t ! j = mem s ! j"
  shows "x \<le> b \<Longrightarrow> take x (mem t) = take x (mem s)" "b + n \<le> y \<Longrightarrow> drop y (mem t) = drop y (mem s)"
  using assms mem_length[OF assms(1)] mem_length[OF assms(2)] by (auto intro!: nth_equalityI)

lemma keycode_bytes:
  assumes "dk_ok c bytes" "good s" "good t" "on_keymap c l r k"
    and "\<forall>j. DYNAMIC_KEYMAP_EEPROM_ADDR c \<le> j \<longrightarrow> j < DYNAMIC_KEYMAP_ENCODER_EEPROM_ADDR c \<longrightarrow> mem t ! j = mem s ! j"
  shows "nvm_dynamic_keymap_read_keycode c ops l r k t = nvm_dynamic_keymap_read_keycode c ops l r k s"
  using assms(5) key_slot_range[OF assms(4)] by (simp add: read_keycode[OF assms(2,1)] read_keycode[OF assms(3,1)])

lemma encoder_bytes:
  assumes "dk_ok c bytes" "good s" "good t" "on_encodermap c l e"
    and "\<forall>j. DYNAMIC_KEYMAP_ENCODER_EEPROM_ADDR c \<le> j \<longrightarrow> j < DYNAMIC_KEYMAP_MACRO_EEPROM_ADDR c \<longrightarrow> mem t ! j = mem s ! j"
  shows "nvm_dynamic_keymap_read_encoder c ops l e d t = nvm_dynamic_keymap_read_encoder c ops l e d s"
  using assms(5) encoder_slot_range[OF assms(4), of d] by (simp add: read_encoder[OF assms(2,1)] read_encoder[OF assms(3,1)])

lemma holds_set_keycode:
  assumes "dk_ok c bytes" "holds c a s"
  shows "\<exists>s'. dk_step c ops power_cycle (Set_Keycode l r k w) s = Some s'
    \<and> holds c (dk_spec c (Set_Keycode l r k w) a) s' \<and> outside c s' = outside c s"
proof -
  have g: "good s" using assms(2) by (simp add: holds_def)
  from keycode_set[OF g assms(1), of l r k w] obtain s' where
    s': "nvm_dynamic_keymap_update_keycode c ops l r k w s = Some s'" "good s'"
    "\<forall>l' r' k'. nvm_dynamic_keymap_read_keycode c ops l' r' k' s' = (if on_keymap c l r k \<and> l' = l \<and> r' = r \<and> k' = k
        then Some w else nvm_dynamic_keymap_read_keycode c ops l' r' k' s)"
    "\<forall>l' e d. nvm_dynamic_keymap_read_encoder c ops l' e d s' = nvm_dynamic_keymap_read_encoder c ops l' e d s" "keeps_rest c s s'"
    by blast
  then show ?thesis using assms(2) keeps_rest_outside[OF s'(5)] by (intro exI[of _ s']) (auto simp: holds_def)
qed

lemma holds_set_encoder:
  assumes "dk_ok c bytes" "holds c a s"
  shows "\<exists>s'. dk_step c ops power_cycle (Set_Encoder l e d w) s = Some s'
    \<and> holds c (dk_spec c (Set_Encoder l e d w) a) s' \<and> outside c s' = outside c s"
proof -
  have g: "good s" using assms(2) by (simp add: holds_def)
  from encoder_set[OF g assms(1), of l e d w] obtain s' where
    s': "nvm_dynamic_keymap_update_encoder c ops l e d w s = Some s'" "good s'"
    "\<forall>l' e' d'. nvm_dynamic_keymap_read_encoder c ops l' e' d' s' = (if on_encodermap c l e \<and> l' = l \<and> e' = e \<and> d' = d
        then Some w else nvm_dynamic_keymap_read_encoder c ops l' e' d' s)"
    "\<forall>l' r k. nvm_dynamic_keymap_read_keycode c ops l' r k s' = nvm_dynamic_keymap_read_keycode c ops l' r k s" "keeps_rest c s s'"
    by blast
  then show ?thesis using assms(2) keeps_rest_outside[OF s'(5)] by (intro exI[of _ s']) (auto simp: holds_def)
qed

lemma holds_reset_keymap:
  assumes "dk_ok c bytes" "holds c a s"
  shows "\<exists>s'. dk_step c ops power_cycle Reset_Keymap s = Some s' \<and> holds c (dk_spec c Reset_Keymap a) s' \<and> outside c s' = outside c s"
proof -
  have "good s" using assms(2) by (simp add: holds_def)
  from restoresE[OF reset_restores[OF assms(1)] this] obtain s' where
    s': "dynamic_keymap_reset c ops s = Some s'" "good s'" "keeps_rest c s s'"
    "\<forall>y \<in> {Inl (l, r, k) | l r k. on_keymap c l r k} \<union> {Inr (l, e, d) | l e d. on_encodermap c l e}. has_raw c y s'" .
  have "has_raw c (Inl (l, r, k)) s'" if "on_keymap c l r k" for l r k by (rule bspec[OF s'(4)], use that in blast)
  moreover have "has_raw c (Inr (l, e, d)) s'" if "on_encodermap c l e" for l e d by (rule bspec[OF s'(4)], use that in blast)
  ultimately show ?thesis using assms(2) s'(1,2) keeps_rest_outside[OF s'(3)] by (intro exI[of _ s']) (simp add: holds_def)
qed

lemma unat_ucast_16_32: "unat (ucast (x :: u16) :: u32) = unat x"
proof -
  have "unat x < 2 ^ LENGTH(16)" by (rule unsigned_less)
  then show ?thesis by (simp add: unsigned_ucast_eq take_bit_nat_eq_self_iff)
qed

lemma ucast_offset: "length d < 65536 \<Longrightarrow> unat (ucast (offset :: u16) :: u32) + length d < 2 ^ 32"
proof -
  assume "length d < 65536"
  moreover have "unat offset < 2 ^ LENGTH(16)" by (rule unsigned_less)
  ultimately show ?thesis by (simp add: unat_ucast_16_32)
qed

lemma holds_set_buffer:
  assumes "dk_ok c bytes" "holds c a s" "length d < 65536"
  shows "\<exists>s'. dk_step c ops power_cycle (Set_Buffer offset d) s = Some s'
    \<and> holds c (dk_spec c (Set_Buffer offset d) a) s' \<and> outside c s' = outside c s"
proof -
  have g: "good s" using assms(2) by (simp add: holds_def)
  let ?A = "DYNAMIC_KEYMAP_EEPROM_ADDR c" and ?n = "DYNAMIC_KEYMAP_SIZE c"
  note fits = areas_fit[OF assms(1) bytes]
  have An: "?A + ?n = DYNAMIC_KEYMAP_ENCODER_EEPROM_ADDR c" by (simp add: DYNAMIC_KEYMAP_ENCODER_EEPROM_ADDR_def)
  then have n: "?A + ?n \<le> bytes" using fits by linarith
  from update_area_ok[OF g n ucast_offset[OF assms(3), of offset]] obtain s' where
    s': "dynamic_keymap_set_buffer c ops offset d s = Some s'" "good s'"
    "\<forall>j < bytes. mem s' ! j = (if ?A + unat offset \<le> j \<and> j < ?A + ?n \<and> j < ?A + unat offset + length d
        then d ! (j - ?A - unat offset) else mem s ! j)"
    by (auto simp: dynamic_keymap_set_buffer_def nvm_dynamic_keymap_update_buffer_def unat_ucast_16_32)
  have frame: "\<forall>j < bytes. \<not> (?A \<le> j \<and> j < ?A + ?n) \<longrightarrow> mem s' ! j = mem s ! j" using s'(3) by simp
  have "keeps_rest c s s'" using write_frame[OF g s'(2) frame] fits(4) unfolding An by (simp add: keeps_rest_def)
  moreover have "nvm_dynamic_keymap_read_encoder c ops l e b s' = nvm_dynamic_keymap_read_encoder c ops l e b s"
    if "on_encodermap c l e" for l e b
    using encoder_bytes[OF assms(1) g s'(2) that] frame fits(3) by (simp add: An)
  moreover have "nvm_dynamic_keymap_read_keycode c ops l r k s' = Some (spec_keycode (dk_spec c (Set_Buffer offset d) a) l r k)"
    if on: "on_keymap c l r k" for l r k
  proof -
    define p where "p = ((unat l * DK_MATRIX_ROWS c + unat r) * DK_MATRIX_COLS c + unat k) * 2"
    have slot: "key_slot c l r k = ?A + p" by (simp add: key_slot_def p_def)
    have lt: "p + 1 < ?n" using key_slot_range(2)[OF on] by (simp add: slot flip: An)
    have old: "be16 (mem s ! (?A + p)) (mem s ! (?A + p + 1)) = spec_keycode a l r k"
      using assms(2) on read_keycode[OF g assms(1), of l r k] by (simp add: holds_def slot)
    have new: "mem s' ! (?A + q) = patched offset d q (mem s ! (?A + q))" if "q < ?n" for q
      using s'(3) that n by (simp add: patched_def)
    have upd: "spec_keycode (a\<lparr>spec_keycode := f\<rparr>) = f" for f by simp
    have "spec_keycode (dk_spec c (Set_Buffer offset d) a) l r k
        = be16 (patched offset d p (mem s ! (?A + p))) (patched offset d (p + 1) (mem s ! (?A + p + 1)))"
      by (simp only: dk_spec.simps upd Let_def be16_parts flip: old p_def)
    then show ?thesis using on new[of p] new[of "p + 1"] lt by (simp add: read_keycode[OF s'(2) assms(1)] slot)
  qed
  ultimately show ?thesis using s'(1,2) assms(2) keeps_rest_outside[of c s s'] by (intro exI[of _ s']) (simp add: holds_def)
qed

lemma macro_bytes_nth:
  assumes "good s" "dk_ok c bytes"
  shows "macro_bytes c s = map (\<lambda>p. mem s ! (DYNAMIC_KEYMAP_MACRO_EEPROM_ADDR c + p)) [0..<DYNAMIC_KEYMAP_MACRO_EEPROM_SIZE c]"
  using areas_fit(1)[OF assms(2) bytes] mem_length[OF assms(1)] by (auto simp: macro_bytes_def intro!: nth_equalityI)

text \<open>An operation on the macros only.\<close>

lemma holds_macros:
  assumes "dk_ok c bytes" "holds c a s" "good t"
    and "\<forall>j < bytes. \<not> (DYNAMIC_KEYMAP_MACRO_EEPROM_ADDR c \<le> j
      \<and> j < DYNAMIC_KEYMAP_MACRO_EEPROM_ADDR c + DYNAMIC_KEYMAP_MACRO_EEPROM_SIZE c) \<longrightarrow> mem t ! j = mem s ! j"
  shows "holds c (a\<lparr>spec_macros := macro_bytes c t\<rparr>) t \<and> outside c t = outside c s"
proof -
  have g: "good s" using assms(2) by (simp add: holds_def)
  note fits = areas_fit[OF assms(1) bytes]
  have out: "outside c t = outside c s"
    using write_frame[OF g assms(3,4)] order_trans[OF encoder_area fits(4)] by (simp add: outside_def)
  have key: "\<forall>l r k. on_keymap c l r k \<longrightarrow> nvm_dynamic_keymap_read_keycode c ops l r k t = nvm_dynamic_keymap_read_keycode c ops l r k s"
    using keycode_bytes[OF assms(1) g assms(3)] assms(4) fits(3,4) by (meson leD less_le_trans less_trans)
  have enc: "\<forall>l e d. on_encodermap c l e \<longrightarrow> nvm_dynamic_keymap_read_encoder c ops l e d t = nvm_dynamic_keymap_read_encoder c ops l e d s"
    using encoder_bytes[OF assms(1) g assms(3)] assms(4) fits(3) by (meson leD less_trans)
  show ?thesis using assms(2,3) out key enc by (simp add: holds_def)
qed

lemma holds_set_macros:
  assumes "dk_ok c bytes" "holds c a s" "length d < 65536"
  shows "\<exists>s'. dk_step c ops power_cycle (Set_Macros offset d) s = Some s'
    \<and> holds c (dk_spec c (Set_Macros offset d) a) s' \<and> outside c s' = outside c s"
proof -
  have g: "good s" using assms(2) by (simp add: holds_def)
  let ?A = "DYNAMIC_KEYMAP_MACRO_EEPROM_ADDR c" and ?n = "DYNAMIC_KEYMAP_MACRO_EEPROM_SIZE c"
  note fit = areas_fit(1)[OF assms(1) bytes]
  from update_area_ok[OF g fit ucast_offset[OF assms(3), of offset]] obtain s' where
    s': "dynamic_keymap_macro_set_buffer c ops offset d s = Some s'" "good s'"
    "\<forall>j < bytes. mem s' ! j = (if ?A + unat offset \<le> j \<and> j < ?A + ?n \<and> j < ?A + unat offset + length d
        then d ! (j - ?A - unat offset) else mem s ! j)"
    by (auto simp: dynamic_keymap_macro_set_buffer_def nvm_dynamic_keymap_macro_update_buffer_def unat_ucast_16_32)
  have "macro_bytes c s' = map (\<lambda>p. patched offset d p (macro_bytes c s ! p)) [0..<length (macro_bytes c s)]"
    unfolding macro_bytes_nth[OF g assms(1)] macro_bytes_nth[OF s'(2) assms(1)] using s'(3) fit by (simp add: patched_def)
  moreover have "spec_macros a = macro_bytes c s" using assms(2) by (simp add: holds_def)
  ultimately show ?thesis using holds_macros[OF assms(1,2) s'(2)] s'(1,3) by simp
qed

lemma holds_reset_macros:
  assumes "dk_ok c bytes" "holds c a s"
  shows "\<exists>s'. dk_step c ops power_cycle Reset_Macros s = Some s' \<and> holds c (dk_spec c Reset_Macros a) s' \<and> outside c s' = outside c s"
proof -
  have g: "good s" using assms(2) by (simp add: holds_def)
  note fit = areas_fit(1)[OF assms(1) bytes]
  from macro_reset_ok[OF g assms(1)] obtain s' where
    s': "nvm_dynamic_keymap_macro_reset c ops s = Some s'" "good s'"
    "\<forall>j < bytes. mem s' ! j = (if DYNAMIC_KEYMAP_MACRO_EEPROM_ADDR c \<le> j
      \<and> j < DYNAMIC_KEYMAP_MACRO_EEPROM_ADDR c + DYNAMIC_KEYMAP_MACRO_EEPROM_SIZE c then 0 else mem s ! j)" by blast
  have "macro_bytes c s' = replicate (length (macro_bytes c s)) 0"
    unfolding macro_bytes_nth[OF g assms(1)] macro_bytes_nth[OF s'(2) assms(1)] using s'(3) fit
    by (auto intro!: nth_equalityI)
  moreover have "spec_macros a = macro_bytes c s" using assms(2) by (simp add: holds_def)
  ultimately show ?thesis using holds_macros[OF assms(1,2) s'(2)] s'(1,3) by simp
qed

lemma step_holds:
  assumes "dk_ok c bytes" "holds c a s" "dk_op_ok x"
  shows "\<exists>s'. dk_step c ops power_cycle x s = Some s' \<and> holds c (dk_spec c x a) s' \<and> outside c s' = outside c s"
proof (cases x)
  case Power_Cycle
  have "good s" using assms(2) by (simp add: holds_def)
  from power_law[OF this] have g: "good (power_cycle s)" "mem (power_cycle s) = mem s" by simp_all
  have reads: "\<forall>l r k. nvm_dynamic_keymap_read_keycode c ops l r k (power_cycle s) = nvm_dynamic_keymap_read_keycode c ops l r k s"
    "\<forall>l e d. nvm_dynamic_keymap_read_encoder c ops l e d (power_cycle s) = nvm_dynamic_keymap_read_encoder c ops l e d s"
    using g \<open>good s\<close> by (simp_all add: read_keycode[OF _ assms(1)] read_encoder[OF _ assms(1)])
  then show ?thesis using assms(2) g by (simp add: Power_Cycle holds_def outside_def macro_bytes_def)
qed (use assms(3) holds_set_keycode[OF assms(1,2)] holds_set_encoder[OF assms(1,2)] holds_set_buffer[OF assms(1,2)]
    holds_set_macros[OF assms(1,2)] holds_reset_keymap[OF assms(1,2)] holds_reset_macros[OF assms(1,2)] in \<open>simp del: dk_step.simps dk_spec.simps\<close>)+

lemma run_holds:
  assumes "dk_ok c bytes" "holds c a s" "\<forall>x \<in> set xs. dk_op_ok x"
  shows "\<exists>s'. dk_run c ops power_cycle xs s = Some s' \<and> holds c (fold (dk_spec c) xs a) s' \<and> outside c s' = outside c s"
  using assms(2,3)
proof (induction xs arbitrary: a s)
  case (Cons x xs)
  obtain t where t: "dk_step c ops power_cycle x s = Some t" "holds c (dk_spec c x a) t" "outside c t = outside c s"
    using step_holds[OF assms(1) Cons.prems(1), of x] Cons.prems(2) by auto
  then show ?case using Cons.IH[OF t(2)] Cons.prems(2) by (simp del: dk_step.simps dk_spec.simps)
qed simp

text \<open>Macros: \<open>send_string\<close> starts after the right number of zeros.\<close>

lemma read_macro_byte:
  assumes "good s" "dk_ok c bytes" "unat offset < 2 ^ 32 - 1"
  shows "dynamic_keymap_read_byte c ops offset s
    = Some (if unat offset < DYNAMIC_KEYMAP_MACRO_EEPROM_SIZE c then macro_bytes c s ! unat offset else 0)"
  using read_area_ok[OF assms(1) areas_fit(1)[OF assms(2) bytes], of offset 1] assms(3) macro_bytes_nth[OF assms(1,2)]
  by (simp add: dynamic_keymap_read_byte_def nvm_dynamic_keymap_macro_read_buffer_def)

lemma macro_offset: "dk_ok c bytes \<Longrightarrow> x \<le> DYNAMIC_KEYMAP_MACRO_EEPROM_SIZE c + 3 \<Longrightarrow> unat (of_nat x :: u32) = x \<and> x < 2 ^ 32 - 1"
  using areas_fit(1)[of c bytes] bytes unat_of_nat_32[of x] by simp

lemma skip_one_macro:
  assumes "good s" "dk_ok c bytes" "0 \<notin> set bs" "drop x (macro_bytes c s) = bs @ 0 # rest"
  shows "skip_macros c ops (k + length bs + 1) (Suc idx) (of_nat x) s = skip_macros c ops k idx (of_nat (x + length bs + 1)) s"
  using assms(3,4)
proof (induction bs arbitrary: x)
  case Nil
  note len = arg_cong[OF macro_bytes_nth[OF assms(1,2)], of length]
  have x: "x < DYNAMIC_KEYMAP_MACRO_EEPROM_SIZE c" "macro_bytes c s ! x = 0"
    using Nil.prems(2) len by (auto simp: not_less nth_via_drop intro: ccontr)
  show ?case using x read_macro_byte[OF assms(1,2), of "of_nat x"] macro_offset[OF assms(2), of x] by (simp add: add.commute)
next
  case (Cons b bs)
  note len = arg_cong[OF macro_bytes_nth[OF assms(1,2)], of length]
  have x: "x < DYNAMIC_KEYMAP_MACRO_EEPROM_SIZE c" "macro_bytes c s ! x = b"
    using Cons.prems(2) len by (auto simp: not_less nth_via_drop intro: ccontr)
  have "drop (Suc x) (macro_bytes c s) = bs @ 0 # rest" using Cons.prems(2) by (metis append_Cons drop_Suc list.sel(3) tl_drop)
  from Cons.IH[OF _ this] Cons.prems(1) x show ?case
    using read_macro_byte[OF assms(1,2), of "of_nat x"] macro_offset[OF assms(2), of x] by (simp add: add.commute)
qed

lemma skip_macros_ok:
  assumes "good s" "dk_ok c bytes" "\<forall>cmds \<in> set ms. 0 \<notin> set (concat (map ss_encode cmds))" "drop x (macro_bytes c s) = macro_area ms"
    "x + length (macro_area ms) = DYNAMIC_KEYMAP_MACRO_EEPROM_SIZE c"
  shows "skip_macros c ops (length (macro_area ms)) idx (of_nat x) s = Some (if idx \<le> length ms
    then Some (of_nat (DYNAMIC_KEYMAP_MACRO_EEPROM_SIZE c - length (macro_area (drop idx ms)))) else None)"
  using assms(3-5)
proof (induction ms arbitrary: x idx)
  case Nil
  then show ?case by (cases idx) (simp_all add: macro_area_def)
next
  case (Cons cmds ms)
  let ?bs = "concat (map ss_encode cmds)"
  have d: "drop x (macro_bytes c s) = ?bs @ 0 # macro_area ms" using Cons.prems(2) by (simp add: macro_area_def)
  have l: "length (macro_area (cmds # ms)) = length (macro_area ms) + length ?bs + 1" by (simp add: macro_area_def)
  show ?case
  proof (cases idx)
    case 0
    have "DYNAMIC_KEYMAP_MACRO_EEPROM_SIZE c - length (macro_area (cmds # ms)) = x" using Cons.prems(3) by simp
    then show ?thesis by (simp add: 0)
  next
    case (Suc i)
    have d': "drop (x + length ?bs + 1) (macro_bytes c s) = macro_area ms"
      using arg_cong[OF d, of "drop (length ?bs + 1)"] by (simp add: add.commute add.left_commute)
    have "skip_macros c ops (length (macro_area (cmds # ms))) idx (of_nat x) s
        = skip_macros c ops (length (macro_area ms)) i (of_nat (x + length ?bs + 1)) s"
      unfolding l Suc by (rule skip_one_macro[OF assms(1,2) _ d]) (use Cons.prems(1) in simp)
    with Cons.IH[OF _ d', of i] Cons.prems(1,3) show ?thesis by (simp add: Suc l)
  qed
qed

text \<open>What \<open>send_string\<close> gets from an offset on.\<close>

lemma macro_input:
  assumes "good s" "dk_ok c bytes" "x \<le> DYNAMIC_KEYMAP_MACRO_EEPROM_SIZE c"
  shows "those (map (\<lambda>i. dynamic_keymap_read_byte c ops (of_nat x + of_nat i) s) [0..<DYNAMIC_KEYMAP_MACRO_EEPROM_SIZE c - x + 3])
    = Some (drop x (macro_bytes c s) @ [0, 0, 0])"
proof -
  let ?n = "DYNAMIC_KEYMAP_MACRO_EEPROM_SIZE c"
  have len: "length (macro_bytes c s) = ?n" using macro_bytes_nth[OF assms(1,2)] by simp
  have "dynamic_keymap_read_byte c ops (of_nat x + of_nat i) s = Some ((drop x (macro_bytes c s) @ [0, 0, 0]) ! i)"
    if i: "i < ?n - x + 3" for i
  proof -
    have "i - (?n - x) < 3" using i by linarith
    then have "[0, 0, 0 :: u8] ! (i - (?n - x)) = 0" by (auto simp: less_Suc_eq numeral_3_eq_3)
    then show ?thesis
      using read_macro_byte[OF assms(1,2), of "of_nat (x + i)"] macro_offset[OF assms(2), of "x + i"] i assms(3) len
      by (auto simp: nth_append)
  qed
  then have "map (\<lambda>i. dynamic_keymap_read_byte c ops (of_nat x + of_nat i) s) [0..<?n - x + 3]
      = map Some (drop x (macro_bytes c s) @ [0, 0, 0])"
    using len by (intro nth_equalityI) (simp_all del: upt_Suc map_append)
  then show ?thesis by (simp only: those_map_Some)
qed

lemma macro_send_ok:
  assumes "good s" "dk_ok c bytes" "\<forall>cmds \<in> set ms. (\<forall>x \<in> set cmds. ss_valid x) \<and> 0 \<notin> set (concat (map ss_encode cmds))"
    "macro_bytes c s = macro_area ms"
  shows "dynamic_keymap_macro_send c ops typing interval idx s e
    = Some (if idx < DYNAMIC_KEYMAP_MACRO_COUNT c \<and> idx < length ms then fold (ss_perform typing interval) (ms ! idx) e else e)"
proof -
  let ?n = "DYNAMIC_KEYMAP_MACRO_EEPROM_SIZE c"
  have pos: "0 < ?n" by (rule areas_fit(5)[OF assms(2) bytes])
  have len: "length (macro_area ms) = ?n" using macro_bytes_nth[OF assms(1,2)] assms(4) by simp
  then have ms: "ms \<noteq> []" using pos by (auto simp: macro_area_def)
  have last: "dynamic_keymap_read_byte c ops (of_nat (?n - 1)) s = Some 0"
  proof -
    have "macro_area ms ! (?n - 1) = last (macro_area ms)" using len pos by (subst last_conv_nth) auto
    also have "\<dots> = 0" using ms by (cases ms rule: rev_cases) (simp_all add: macro_area_def)
    finally show ?thesis using read_macro_byte[OF assms(1,2), of "of_nat (?n - 1)"] macro_offset[OF assms(2), of "?n - 1"] pos assms(4)
      by simp
  qed
  have skip: "skip_macros c ops ?n idx 0 s
      = Some (if idx \<le> length ms then Some (of_nat (?n - length (macro_area (drop idx ms)))) else None)"
    using skip_macros_ok[OF assms(1,2), of ms 0 idx] assms(3,4) len by simp
  show ?thesis
  proof (cases "idx < DYNAMIC_KEYMAP_MACRO_COUNT c \<and> idx \<le> length ms")
    case True
    let ?rest = "macro_area (drop idx ms)"
    have area: "macro_area ms = macro_area (take idx ms) @ ?rest"
      by (metis append_take_drop_id concat_append macro_area_def map_append)
    then have l: "length (macro_area (take idx ms)) + length ?rest = ?n" using len by (metis length_append)
    define x where "x = ?n - length ?rest"
    have x: "x \<le> ?n" "drop x (macro_bytes c s) = ?rest" "?n - x = length ?rest"
      using l area assms(4) by (simp_all add: x_def)
    note input = macro_input[OF assms(1,2) x(1), unfolded x(2,3)]
    have "\<exists>more. ?rest @ [0, 0, 0] = concat (map ss_encode (if idx < length ms then ms ! idx else [])) @ 0 # more"
    proof (cases "idx < length ms")
      case True
      then have "drop idx ms = ms ! idx # drop (Suc idx) ms" by (simp add: Cons_nth_drop_Suc)
      then show ?thesis using True by (simp add: macro_area_def)
    qed (simp add: macro_area_def)
    then obtain more where "?rest @ [0, 0, 0] = concat (map ss_encode (if idx < length ms then ms ! idx else [])) @ 0 # more" by blast
    moreover have "\<forall>y \<in> set (if idx < length ms then ms ! idx else []). ss_valid y" using assms(3) by auto
    ultimately have "map_option fst (send_string_with_delay_impl typing interval (?rest @ [0, 0, 0]) e)
        = Some (fold (ss_perform typing interval) (if idx < length ms then ms ! idx else []) e)"
      using send_commands by (metis (no_types, lifting) fst_conv option.simps(9))
    moreover have "skip_macros c ops ?n idx 0 s = Some (Some (of_nat x))" using skip True unfolding x_def by simp
    ultimately show ?thesis
      using True last input macro_offset[OF assms(2), of x] x(1,3)
      by (cases "idx < length ms") (simp_all add: dynamic_keymap_macro_send_def Let_def)
  next
    case False
    then show ?thesis using last skip by (auto simp: dynamic_keymap_macro_send_def Let_def)
  qed
qed

end

section \<open>On the emulated EEPROM\<close>

definition emulated_eeprom ::
    "wear_leveling_cfg \<Rightarrow> 'b backing_store_ops \<Rightarrow> (nat \<Rightarrow> u8) \<Rightarrow> 'b wear_leveling eeprom_ops" where
  "emulated_eeprom cfg ops stack = \<lparr>op_eeprom_read_byte = eeprom_read_byte cfg,
     op_eeprom_update_byte = eeprom_update_byte cfg ops,
     op_eeprom_update_block = (\<lambda>v. eeprom_update_block cfg ops (map stack [0..<length v]) v)\<rparr>"

definition restart ::
    "wear_leveling_cfg \<Rightarrow> 'b backing_store_ops \<Rightarrow> ('b \<Rightarrow> 'b) \<Rightarrow> (nat \<Rightarrow> u8) \<Rightarrow> 'b wear_leveling \<Rightarrow> 'b wear_leveling" where
  "restart cfg ops reset stack s = power_up cfg ops (map stack [0..<16]) (reset (store s))"

sublocale resettable_store < eeprom_bytes: persistent_bytes "emulated_eeprom cfg ops stack" live cache
    "WEAR_LEVELING_LOGICAL_SIZE cfg" "restart cfg ops reset stack" for stack
proof
  show "WEAR_LEVELING_LOGICAL_SIZE cfg \<le> 2 ^ 19" using cfg_ok by (simp add: wear_leveling_cfg_ok_def)
  fix s assume s: "live s"
  show len: "length (cache s) = WEAR_LEVELING_LOGICAL_SIZE cfg" by (rule live_cache[OF s])
  {
    fix a :: u32 and v assume a: "unat a < WEAR_LEVELING_LOGICAL_SIZE cfg"
    show "op_eeprom_read_byte (emulated_eeprom cfg ops stack) a s = Some (cache s ! unat a)"
      using read_block_live[OF s, of a "[0]"] a len dvd_sizes(5)
      by (simp add: emulated_eeprom_def eeprom_read_byte_def take_Suc hd_drop_conv_nth)
    show "\<exists>s'. op_eeprom_update_byte (emulated_eeprom cfg ops stack) a v s = Some s' \<and> live s' \<and> cache s' = (cache s)[unat a := v]"
      using step_live[OF s, of "Update_Byte a v" stack] a len dvd_sizes(5)
      by (simp add: emulated_eeprom_def store_block_def memcpy_at_list_update)
  next
    fix a :: u32 and vs :: "u8 list" assume a: "unat a + length vs \<le> WEAR_LEVELING_LOGICAL_SIZE cfg"
    then show "\<exists>s'. op_eeprom_update_block (emulated_eeprom cfg ops stack) vs a s = Some s' \<and> live s'
        \<and> cache s' = memcpy_at (cache s) (unat a) vs"
      using step_live[OF s, of "Update_Block a vs" stack] len a dvd_sizes(5) by (simp add: emulated_eeprom_def store_block_def)
  }
  show "live (restart cfg ops reset stack s) \<and> cache (restart cfg ops reset stack s) = cache s"
    using step_live[OF s, of Reset stack] by (simp add: restart_def)
qed

text \<open>What the host reads.\<close>

definition shows_contents :: "dk_cfg \<Rightarrow> 's eeprom_ops \<Rightarrow> dk_contents \<Rightarrow> 's \<Rightarrow> bool" where
  "shows_contents c ops a s \<longleftrightarrow>
     (\<forall>l r k. keycode_at_keymap_location c ops l r k s = Some (if on_keymap c l r k then spec_keycode a l r k else 0))
     \<and> (\<forall>l e d. keycode_at_encodermap_location c ops l e d s = Some (if on_encodermap c l e then spec_encoder a l e d else 0))
     \<and> nvm_dynamic_keymap_macro_read_buffer c ops 0 (DYNAMIC_KEYMAP_MACRO_EEPROM_SIZE c) s = Some (spec_macros a)"

context persistent_bytes
begin

lemma macro_read_all:
  assumes "good s" "dk_ok c bytes"
  shows "nvm_dynamic_keymap_macro_read_buffer c ops 0 (DYNAMIC_KEYMAP_MACRO_EEPROM_SIZE c) s = Some (macro_bytes c s)"
  using read_area_ok[OF assms(1) areas_fit(1)[OF assms(2) bytes], of 0 "DYNAMIC_KEYMAP_MACRO_EEPROM_SIZE c"]
    macro_offset[OF assms(2), of "DYNAMIC_KEYMAP_MACRO_EEPROM_SIZE c"] macro_bytes_nth[OF assms]
  by (simp add: nvm_dynamic_keymap_macro_read_buffer_def cong: map_cong)

lemma shows_iff_holds:
  assumes "good s" "dk_ok c bytes"
  shows "shows_contents c ops a s \<longleftrightarrow> holds c a s"
  using macro_read_all[OF assms] assms(1)
  by (auto simp: shows_contents_def holds_def keycode_at_keymap_location_def keycode_at_encodermap_location_def)

lemma contents_exist: "good s \<Longrightarrow> dk_ok c bytes \<Longrightarrow> \<exists>a. holds c a s"
  by (rule exI[of _ "\<lparr>spec_keycode = \<lambda>l r k. the (nvm_dynamic_keymap_read_keycode c ops l r k s),
    spec_encoder = \<lambda>l e d. the (nvm_dynamic_keymap_read_encoder c ops l e d s), spec_macros = macro_bytes c s\<rparr>"])
    (simp add: holds_def read_keycode read_encoder)

lemma outside_bytes:
  assumes "good s" "good t" "outside c t = outside c s" "dk_ok c bytes" "unat p < bytes"
    and "unat p < DYNAMIC_KEYMAP_EEPROM_ADDR c \<or> DYNAMIC_KEYMAP_EEPROM_MAX_ADDR c < unat p"
  shows "op_eeprom_read_byte ops p t = op_eeprom_read_byte ops p s"
proof -
  have e: "DYNAMIC_KEYMAP_MACRO_EEPROM_ADDR c + DYNAMIC_KEYMAP_MACRO_EEPROM_SIZE c = DYNAMIC_KEYMAP_EEPROM_MAX_ADDR c + 1"
    using assms(4) by (simp add: dk_ok_def DYNAMIC_KEYMAP_MACRO_EEPROM_SIZE_def)
  have eq: "take (DYNAMIC_KEYMAP_EEPROM_ADDR c) (mem t) = take (DYNAMIC_KEYMAP_EEPROM_ADDR c) (mem s)"
    "drop (DYNAMIC_KEYMAP_EEPROM_MAX_ADDR c + 1) (mem t) = drop (DYNAMIC_KEYMAP_EEPROM_MAX_ADDR c + 1) (mem s)"
    using assms(3) unfolding outside_def e by simp_all
  have "mem t ! unat p = mem s ! unat p"
  proof (cases "unat p < DYNAMIC_KEYMAP_EEPROM_ADDR c")
    case True
    then show ?thesis using eq(1) by (metis nth_take)
  next
    case False
    then obtain i where i: "unat p = DYNAMIC_KEYMAP_EEPROM_MAX_ADDR c + 1 + i" using assms(6) by (metis Suc_eq_plus1 Suc_leI le_Suc_ex)
    have "length (mem t) = bytes" "length (mem s) = bytes" using mem_length assms(1,2) by simp_all
    then show ?thesis using arg_cong[OF eq(2), of "\<lambda>xs. xs ! i"] assms(5) unfolding i by simp
  qed
  then show ?thesis using read_law[OF assms(1,5)] read_law[OF assms(2,5)] by simp
qed

lemma run_shows:
  assumes "good s" "dk_ok c bytes" "\<forall>x \<in> set xs. dk_op_ok x"
  shows "\<exists>a t. shows_contents c ops a s \<and> dk_run c ops power_cycle xs s = Some t \<and> shows_contents c ops (fold (dk_spec c) xs a) t
    \<and> (\<forall>p. unat p < bytes \<and> (unat p < DYNAMIC_KEYMAP_EEPROM_ADDR c \<or> DYNAMIC_KEYMAP_EEPROM_MAX_ADDR c < unat p)
        \<longrightarrow> op_eeprom_read_byte ops p t = op_eeprom_read_byte ops p s)"
proof -
  obtain a where a: "holds c a s" using contents_exist[OF assms(1,2)] by blast
  obtain t where t: "dk_run c ops power_cycle xs s = Some t" "holds c (fold (dk_spec c) xs a) t" "outside c t = outside c s"
    using run_holds[OF assms(2) a assms(3)] by blast
  have g: "good t" using t(2) by (simp add: holds_def)
  show ?thesis
    using a t(1,2) shows_iff_holds[OF assms(1,2)] shows_iff_holds[OF g assms(2)] outside_bytes[OF assms(1) g t(3) assms(2)]
    by (intro exI[of _ a] exI[of _ t]) auto
qed

lemma macros_sent:
  assumes "good s" "dk_ok c bytes" "\<forall>cmds \<in> set ms. (\<forall>x \<in> set cmds. ss_valid x) \<and> 0 \<notin> set (concat (map ss_encode cmds))"
    and "length (macro_area ms) = DYNAMIC_KEYMAP_MACRO_EEPROM_SIZE c" and l: "length (macro_area ms) < 65536"
  shows "\<exists>t. dynamic_keymap_macro_set_buffer c ops 0 (macro_area ms) s = Some t
    \<and> (\<forall>typing interval idx e. dynamic_keymap_macro_send c ops typing interval idx t (e :: 'e)
        = Some (if idx < DYNAMIC_KEYMAP_MACRO_COUNT c \<and> idx < length ms then fold (ss_perform typing interval) (ms ! idx) e else e))"
proof -
  obtain a where a: "holds c a s" using contents_exist[OF assms(1,2)] by blast
  obtain t where t: "dynamic_keymap_macro_set_buffer c ops 0 (macro_area ms) s = Some t"
    "holds c (dk_spec c (Set_Macros 0 (macro_area ms)) a) t"
    using holds_set_macros[OF assms(2) a l, of 0] by auto
  have "length (spec_macros a) = length (macro_area ms)" using a macro_bytes_nth[OF assms(1,2)] assms(4) by (simp add: holds_def)
  then have "macro_bytes c t = map (\<lambda>p. patched 0 (macro_area ms) p (spec_macros a ! p)) [0..<length (macro_area ms)]"
    using t(2) by (simp add: holds_def)
  also have "\<dots> = map ((!) (macro_area ms)) [0..<length (macro_area ms)]"
    by (rule map_cong) (simp_all add: patched_def)
  also have "\<dots> = macro_area ms" by (rule map_nth)
  finally have m: "macro_bytes c t = macro_area ms" .
  have g: "good t" using t(2) by (simp add: holds_def)
  show ?thesis using t(1) macro_send_ok[OF g assms(2,3) m] by blast
qed

end

text \<open>After any history of the EEPROM.\<close>

context resettable_store
begin

lemma maps_after_run:
  assumes "valid b" "data b = replicate (WEAR_LEVELING_BACKING_SIZE cfg) 0" "\<not> opened b"
    and "\<forall>e \<in> set es. event_span e < 2 ^ 32" "dk_ok c (WEAR_LEVELING_LOGICAL_SIZE cfg)" "\<forall>x \<in> set xs. dk_op_ok x"
  shows "\<exists>s a t. eeprom_run cfg ops reset stack es (power_up cfg ops junk b) = Some s
    \<and> shows_contents c (emulated_eeprom cfg ops stack) a s
    \<and> dk_run c (emulated_eeprom cfg ops stack) (restart cfg ops reset stack) xs s = Some t
    \<and> shows_contents c (emulated_eeprom cfg ops stack) (fold (dk_spec c) xs a) t
    \<and> (\<forall>p. unat p < WEAR_LEVELING_LOGICAL_SIZE cfg
          \<and> (unat p < DYNAMIC_KEYMAP_EEPROM_ADDR c \<or> DYNAMIC_KEYMAP_EEPROM_MAX_ADDR c < unat p)
        \<longrightarrow> eeprom_read_byte cfg p t = eeprom_read_byte cfg p s)"
proof -
  obtain s where s: "eeprom_run cfg ops reset stack es (power_up cfg ops junk b) = Some s" "live s"
    using run_from_erased[OF assms(1-4)] by blast
  have e: "op_eeprom_read_byte (emulated_eeprom cfg ops stack) = eeprom_read_byte cfg" by (simp add: emulated_eeprom_def)
  from eeprom_bytes.run_shows[OF s(2) assms(5,6), of stack] s(1) show ?thesis unfolding e by blast
qed

lemma macros_after_run:
  assumes "valid b" "data b = replicate (WEAR_LEVELING_BACKING_SIZE cfg) 0" "\<not> opened b"
    and "\<forall>e \<in> set es. event_span e < 2 ^ 32" "dk_ok c (WEAR_LEVELING_LOGICAL_SIZE cfg)"
    and "\<forall>cmds \<in> set ms. (\<forall>x \<in> set cmds. ss_valid x) \<and> 0 \<notin> set (concat (map ss_encode cmds))"
    and "length (macro_area ms) = DYNAMIC_KEYMAP_MACRO_EEPROM_SIZE c" "length (macro_area ms) < 65536"
  shows "\<exists>s t. eeprom_run cfg ops reset stack es (power_up cfg ops junk b) = Some s
    \<and> dynamic_keymap_macro_set_buffer c (emulated_eeprom cfg ops stack) 0 (macro_area ms) s = Some t
    \<and> (\<forall>typing interval idx e. dynamic_keymap_macro_send c (emulated_eeprom cfg ops stack) typing interval idx t (e :: 'e)
        = Some (if idx < DYNAMIC_KEYMAP_MACRO_COUNT c \<and> idx < length ms then fold (ss_perform typing interval) (ms ! idx) e else e))"
proof -
  obtain s where s: "eeprom_run cfg ops reset stack es (power_up cfg ops junk b) = Some s" "live s"
    using run_from_erased[OF assms(1-4)] by blast
  from eeprom_bytes.macros_sent[OF s(2) assms(5-8), of stack, where 'e = 'e] s(1) show ?thesis by blast
qed

end

section \<open>Properties\<close>

text \<open>The operations on the EEPROM of the microcontroller, and a power cycle.\<close>

abbreviation eeprom_bytes_on :: "mcu \<Rightarrow> u32 \<Rightarrow> nat \<Rightarrow> (nat \<Rightarrow> u8) \<Rightarrow> mock_flash wear_leveling eeprom_ops" where
  "eeprom_bytes_on m flash_base kb stack \<equiv> emulated_eeprom (legacy_wear_cfg m) (eeprom_on m flash_base kb) stack"

abbreviation restart_on :: "mcu \<Rightarrow> u32 \<Rightarrow> nat \<Rightarrow> (nat \<Rightarrow> u8) \<Rightarrow> mock_flash wear_leveling \<Rightarrow> mock_flash wear_leveling" where
  "restart_on m flash_base kb stack \<equiv> restart (legacy_wear_cfg m) (eeprom_on m flash_base kb) mock_Lock stack"

lemma legacy_logical_size: "WEAR_LEVELING_LOGICAL_SIZE (legacy_wear_cfg m) = 1024"
  by (simp add: legacy_wear_cfg_def)

text \<open>
  C20. From any state that a history of the EEPROM leads to, the keymap, the encoder map and the
  macros behave as three plain maps: after any sequence of changes of keys, encoders, parts of the
  keymap and of the macros, of resets of the keymap and the macros and of power cycles, everything
  the host reads is what the sequence leaves in these maps. What lies outside the maps reads as 0,
  and no other byte of the EEPROM changes.
\<close>

theorem dynamic_keymap_refines:
  assumes "erased_flash m kb f" "\<forall>e \<in> set es. event_span e < 2 ^ 32" "dk_ok c 1024" "\<forall>x \<in> set xs. dk_op_ok x"
  shows "\<exists>s a t. eeprom_run (legacy_wear_cfg m) (eeprom_on m flash_base kb) mock_Lock stack es
        (power_up (legacy_wear_cfg m) (eeprom_on m flash_base kb) junk f) = Some s
    \<and> shows_contents c (eeprom_bytes_on m flash_base kb stack) a s
    \<and> dk_run c (eeprom_bytes_on m flash_base kb stack) (restart_on m flash_base kb stack) xs s = Some t
    \<and> shows_contents c (eeprom_bytes_on m flash_base kb stack) (fold (dk_spec c) xs a) t
    \<and> (\<forall>p. unat p < 1024 \<and> (unat p < DYNAMIC_KEYMAP_EEPROM_ADDR c \<or> DYNAMIC_KEYMAP_EEPROM_MAX_ADDR c < unat p)
        \<longrightarrow> eeprom_read_byte (legacy_wear_cfg m) p t = eeprom_read_byte (legacy_wear_cfg m) p s)"
  using mock_eeprom.maps_after_run[of kb f m es c xs flash_base stack junk, unfolded legacy_logical_size] assms
  by (simp add: erased_flash_def mock_opened_def legacy_wear_cfg_def)


text \<open>A macro pad of two keys and one encoder, with two layers.\<close>

definition small_pad :: dk_cfg where
  "small_pad = \<lparr>DYNAMIC_KEYMAP_LAYER_COUNT = 2, DK_MATRIX_ROWS = 1, DK_MATRIX_COLS = 2, DK_NUM_ENCODERS = 1,
     DYNAMIC_KEYMAP_EEPROM_ADDR = 37, DYNAMIC_KEYMAP_EEPROM_MAX_ADDR = 160, DYNAMIC_KEYMAP_MACRO_COUNT = 2,
     keycode_at_keymap_location_raw = \<lambda>l r k. 4, keycode_at_encodermap_location_raw = \<lambda>l e d. 5\<rparr>"

lemma small_pad_ok: "dk_ok small_pad 1024"
  by (simp add: dk_ok_def small_pad_def DYNAMIC_KEYMAP_MACRO_EEPROM_ADDR_def DYNAMIC_KEYMAP_ENCODER_EEPROM_ADDR_def
      DYNAMIC_KEYMAP_SIZE_def)

theorem dynamic_keymap_refines_witness:
  "\<exists>s t. eeprom_run (legacy_wear_cfg STM32F042) (eeprom_on STM32F042 0x08000000 64) mock_Lock (\<lambda>_. 0) [Write_Block 3 [7]]
        (power_up (legacy_wear_cfg STM32F042) (eeprom_on STM32F042 0x08000000 64) [] blank_flash) = Some s
    \<and> dk_run small_pad (eeprom_bytes_on STM32F042 0x08000000 64 (\<lambda>_. 0)) (restart_on STM32F042 0x08000000 64 (\<lambda>_. 0))
        [Reset_Keymap, Set_Keycode 1 0 1 0x1234, Power_Cycle, Set_Encoder 0 0 True 9] s = Some t
    \<and> keycode_at_keymap_location small_pad (eeprom_bytes_on STM32F042 0x08000000 64 (\<lambda>_. 0)) 1 0 1 t = Some 0x1234
    \<and> keycode_at_keymap_location small_pad (eeprom_bytes_on STM32F042 0x08000000 64 (\<lambda>_. 0)) 1 0 0 t = Some 4
    \<and> eeprom_read_byte (legacy_wear_cfg STM32F042) 3 t = eeprom_read_byte (legacy_wear_cfg STM32F042) 3 s"
proof -
  let ?xs = "[Reset_Keymap, Set_Keycode 1 0 1 0x1234, Power_Cycle, Set_Encoder 0 0 True 9]"
  let ?o = "eeprom_bytes_on STM32F042 0x08000000 64 (\<lambda>_. 0)"
  have small: "\<forall>e \<in> set [Write_Block 3 [7]]. event_span e < 2 ^ 32" and ok: "\<forall>x \<in> set ?xs. dk_op_ok x" by simp_all
  obtain s a t where st: "eeprom_run (legacy_wear_cfg STM32F042) (eeprom_on STM32F042 0x08000000 64) mock_Lock (\<lambda>_. 0)
        [Write_Block 3 [7]] (power_up (legacy_wear_cfg STM32F042) (eeprom_on STM32F042 0x08000000 64) [] blank_flash) = Some s"
    "dk_run small_pad ?o (restart_on STM32F042 0x08000000 64 (\<lambda>_. 0)) ?xs s = Some t"
    "shows_contents small_pad ?o (fold (dk_spec small_pad) ?xs a) t"
    "\<forall>p. unat p < 1024 \<and> (unat p < DYNAMIC_KEYMAP_EEPROM_ADDR small_pad \<or> DYNAMIC_KEYMAP_EEPROM_MAX_ADDR small_pad < unat p)
      \<longrightarrow> eeprom_read_byte (legacy_wear_cfg STM32F042) p t = eeprom_read_byte (legacy_wear_cfg STM32F042) p s"
    using dynamic_keymap_refines[OF blank_flash_erased small small_pad_ok ok] by metis
  have "keycode_at_keymap_location small_pad ?o 1 0 1 t = Some 0x1234" "keycode_at_keymap_location small_pad ?o 1 0 0 t = Some 4"
    using st(3) by (simp_all add: shows_contents_def on_keymap_def small_pad_def)
  moreover have "eeprom_read_byte (legacy_wear_cfg STM32F042) 3 t = eeprom_read_byte (legacy_wear_cfg STM32F042) 3 s"
    using st(4) by (simp add: small_pad_def)
  ultimately show ?thesis using st(1,2) by blast
qed


end
