(* ===== verification/Via.thy ===== *)
theory Via
  imports Dynamic_Keymap Action_Code
begin

text \<open>
  The protocol of the VIA configurator (quantum/via.c, quantum/nvm/eeprom/nvm_via.c): packets of 32
  bytes that read and change the keymap, the encoder map, the macros and the layout options.

  The build has no lighting and no audio, and no function of it is overridden by the keyboard. A
  read or write outside the packet is None.
\<close>

section \<open>Settings of VIA in the EEPROM\<close>

record via_cfg =
  via_dk :: dk_cfg
  VIA_EEPROM_MAGIC_ADDR :: nat
  VIA_EEPROM_LAYOUT_OPTIONS_SIZE :: nat
  VIA_EEPROM_LAYOUT_OPTIONS_DEFAULT :: "32 word"
  VIA_FIRMWARE_VERSION :: "32 word"
  QMK_KEYCODES_VERSION_BCD :: "32 word"
  QMK_BUILDDATE :: "8 word list"
  VIA_EEPROM_ALLOW_RESET :: bool
  via_matrix_value :: "nat \<Rightarrow> 32 word"

definition VIA_EEPROM_LAYOUT_OPTIONS_ADDR :: "via_cfg \<Rightarrow> nat" where
  "VIA_EEPROM_LAYOUT_OPTIONS_ADDR c = VIA_EEPROM_MAGIC_ADDR c + 3"

text \<open>The keymap starts after the settings. The date of the build is written in digits.\<close>

definition via_ok :: "via_cfg \<Rightarrow> nat \<Rightarrow> bool" where
  "via_ok c n \<longleftrightarrow> dk_ok (via_dk c) n \<and> 1 \<le> VIA_EEPROM_LAYOUT_OPTIONS_SIZE c \<and> VIA_EEPROM_LAYOUT_OPTIONS_SIZE c \<le> 4
     \<and> VIA_EEPROM_LAYOUT_OPTIONS_ADDR c + VIA_EEPROM_LAYOUT_OPTIONS_SIZE c \<le> DYNAMIC_KEYMAP_EEPROM_ADDR (via_dk c)
     \<and> list_all (\<lambda>i. QMK_BUILDDATE c ! i AND 0x0F \<le> 9) [2, 3, 5, 6, 8, 9]"

definition via_magic :: "via_cfg \<Rightarrow> nat \<Rightarrow> u8" where
  "via_magic c i = push_bit 4 (QMK_BUILDDATE c ! i AND 0x0F) OR (QMK_BUILDDATE c ! (i + 1) AND 0x0F)"

definition nvm_via_read_magic :: "via_cfg \<Rightarrow> 's eeprom_ops \<Rightarrow> 's \<Rightarrow> (u8 \<times> u8 \<times> u8) option" where
  "nvm_via_read_magic c ops s = (let a = of_nat (VIA_EEPROM_MAGIC_ADDR c) in do {
     m0 \<leftarrow> op_eeprom_read_byte ops a s;
     m1 \<leftarrow> op_eeprom_read_byte ops (a + 1) s;
     m2 \<leftarrow> op_eeprom_read_byte ops (a + 2) s;
     Some (m0, m1, m2)})"

definition nvm_via_update_magic :: "via_cfg \<Rightarrow> 's eeprom_ops \<Rightarrow> u8 \<Rightarrow> u8 \<Rightarrow> u8 \<Rightarrow> 's \<Rightarrow> 's option" where
  "nvm_via_update_magic c ops m0 m1 m2 s = (let a = of_nat (VIA_EEPROM_MAGIC_ADDR c) in do {
     s \<leftarrow> op_eeprom_update_byte ops a m0 s;
     s \<leftarrow> op_eeprom_update_byte ops (a + 1) m1 s;
     op_eeprom_update_byte ops (a + 2) m2 s})"

definition nvm_via_read_layout_options :: "via_cfg \<Rightarrow> 's eeprom_ops \<Rightarrow> 's \<Rightarrow> u32 option" where
  "nvm_via_read_layout_options c ops s = fold (\<lambda>i v. do {
       v \<leftarrow> v;
       b \<leftarrow> op_eeprom_read_byte ops (of_nat (VIA_EEPROM_LAYOUT_OPTIONS_ADDR c + i)) s;
       Some (push_bit 8 v OR ucast b)})
     [0..<VIA_EEPROM_LAYOUT_OPTIONS_SIZE c] (Some 0)"

definition nvm_via_update_layout_options :: "via_cfg \<Rightarrow> 's eeprom_ops \<Rightarrow> u32 \<Rightarrow> 's \<Rightarrow> 's option" where
  "nvm_via_update_layout_options c ops v = for_each (\<lambda>i. op_eeprom_update_byte ops
       (of_nat (VIA_EEPROM_LAYOUT_OPTIONS_ADDR c + VIA_EEPROM_LAYOUT_OPTIONS_SIZE c - 1 - i)) (ucast (drop_bit (8 * i) v AND 0xFF)))
     [0..<VIA_EEPROM_LAYOUT_OPTIONS_SIZE c]"

definition via_eeprom_is_valid :: "via_cfg \<Rightarrow> 's eeprom_ops \<Rightarrow> 's \<Rightarrow> bool option" where
  "via_eeprom_is_valid c ops s = map_option (\<lambda>m. m = (via_magic c 2, via_magic c 5, via_magic c 8)) (nvm_via_read_magic c ops s)"

definition via_eeprom_set_valid :: "via_cfg \<Rightarrow> 's eeprom_ops \<Rightarrow> bool \<Rightarrow> 's \<Rightarrow> 's option" where
  "via_eeprom_set_valid c ops valid =
     (if valid then nvm_via_update_magic c ops (via_magic c 2) (via_magic c 5) (via_magic c 8)
      else nvm_via_update_magic c ops 0xFF 0xFF 0xFF)"

definition eeconfig_init_via :: "via_cfg \<Rightarrow> 's eeprom_ops \<Rightarrow> 's \<Rightarrow> 's option" where
  "eeconfig_init_via c ops s = do {
     s \<leftarrow> via_eeprom_set_valid c ops False s;
     s \<leftarrow> nvm_via_update_layout_options c ops (VIA_EEPROM_LAYOUT_OPTIONS_DEFAULT c) s;
     s \<leftarrow> dynamic_keymap_reset (via_dk c) ops s;
     s \<leftarrow> nvm_dynamic_keymap_macro_reset (via_dk c) ops s;
     via_eeprom_set_valid c ops True s}"

definition via_init :: "via_cfg \<Rightarrow> 's eeprom_ops \<Rightarrow> 's \<Rightarrow> 's option" where
  "via_init c ops s = do {
     _ \<leftarrow> nvm_via_read_layout_options c ops s;
     valid \<leftarrow> via_eeprom_is_valid c ops s;
     if \<not> valid then eeconfig_init_via c ops s else Some s}"

section \<open>Packets\<close>

definition id_get_protocol_version :: u8 where "id_get_protocol_version = 0x01"
definition id_get_keyboard_value :: u8 where "id_get_keyboard_value = 0x02"
definition id_set_keyboard_value :: u8 where "id_set_keyboard_value = 0x03"
definition id_dynamic_keymap_get_keycode :: u8 where "id_dynamic_keymap_get_keycode = 0x04"
definition id_dynamic_keymap_set_keycode :: u8 where "id_dynamic_keymap_set_keycode = 0x05"
definition id_dynamic_keymap_reset :: u8 where "id_dynamic_keymap_reset = 0x06"
definition id_custom_set_value :: u8 where "id_custom_set_value = 0x07"
definition id_custom_get_value :: u8 where "id_custom_get_value = 0x08"
definition id_custom_save :: u8 where "id_custom_save = 0x09"
definition id_eeprom_reset :: u8 where "id_eeprom_reset = 0x0A"
definition id_dynamic_keymap_macro_get_count :: u8 where "id_dynamic_keymap_macro_get_count = 0x0C"
definition id_dynamic_keymap_macro_get_buffer_size :: u8 where "id_dynamic_keymap_macro_get_buffer_size = 0x0D"
definition id_dynamic_keymap_macro_get_buffer :: u8 where "id_dynamic_keymap_macro_get_buffer = 0x0E"
definition id_dynamic_keymap_macro_set_buffer :: u8 where "id_dynamic_keymap_macro_set_buffer = 0x0F"
definition id_dynamic_keymap_macro_reset :: u8 where "id_dynamic_keymap_macro_reset = 0x10"
definition id_dynamic_keymap_get_layer_count :: u8 where "id_dynamic_keymap_get_layer_count = 0x11"
definition id_dynamic_keymap_get_buffer :: u8 where "id_dynamic_keymap_get_buffer = 0x12"
definition id_dynamic_keymap_set_buffer :: u8 where "id_dynamic_keymap_set_buffer = 0x13"
definition id_dynamic_keymap_get_encoder :: u8 where "id_dynamic_keymap_get_encoder = 0x14"
definition id_dynamic_keymap_set_encoder :: u8 where "id_dynamic_keymap_set_encoder = 0x15"
definition id_unhandled :: u8 where "id_unhandled = 0xFF"

definition id_uptime :: u8 where "id_uptime = 0x01"
definition id_layout_options :: u8 where "id_layout_options = 0x02"
definition id_switch_matrix_state :: u8 where "id_switch_matrix_state = 0x03"
definition id_firmware_version :: u8 where "id_firmware_version = 0x04"
definition id_device_indication :: u8 where "id_device_indication = 0x05"
definition id_keycodes_version :: u8 where "id_keycodes_version = 0x06"

definition VIA_PROTOCOL_VERSION :: u16 where "VIA_PROTOCOL_VERSION = 0x000D"

lemmas via_ids = id_get_protocol_version_def id_get_keyboard_value_def id_set_keyboard_value_def
  id_dynamic_keymap_get_keycode_def id_dynamic_keymap_set_keycode_def id_dynamic_keymap_reset_def id_custom_set_value_def
  id_custom_get_value_def id_custom_save_def id_eeprom_reset_def id_dynamic_keymap_macro_get_count_def
  id_dynamic_keymap_macro_get_buffer_size_def id_dynamic_keymap_macro_get_buffer_def id_dynamic_keymap_macro_set_buffer_def
  id_dynamic_keymap_macro_reset_def id_dynamic_keymap_get_layer_count_def id_dynamic_keymap_get_buffer_def
  id_dynamic_keymap_set_buffer_def id_dynamic_keymap_get_encoder_def id_dynamic_keymap_set_encoder_def id_unhandled_def

text \<open>\<open>command_data\<close> starts at the second byte of the packet.\<close>

definition put_word :: "nat \<Rightarrow> u16 \<Rightarrow> u8 list \<Rightarrow> u8 list" where
  "put_word i w d = d[Suc i := ucast (drop_bit 8 w), Suc i + 1 := ucast (w AND 0xFF)]"

definition put_long :: "nat \<Rightarrow> u32 \<Rightarrow> u8 list \<Rightarrow> u8 list" where
  "put_long i w d = d[Suc i := ucast (drop_bit 24 w AND 0xFF), Suc i + 1 := ucast (drop_bit 16 w AND 0xFF),
     Suc i + 2 := ucast (drop_bit 8 w AND 0xFF), Suc i + 3 := ucast (w AND 0xFF)]"

definition get_word :: "nat \<Rightarrow> u8 list \<Rightarrow> u16" where
  "get_word i d = push_bit 8 (ucast (d ! Suc i)) OR ucast (d ! (Suc i + 1))"

definition get_long :: "nat \<Rightarrow> u8 list \<Rightarrow> u32" where
  "get_long i d = push_bit 24 (ucast (d ! Suc i)) OR push_bit 16 (ucast (d ! (Suc i + 1)))
     OR push_bit 8 (ucast (d ! (Suc i + 2))) OR ucast (d ! (Suc i + 3))"

definition unhandled :: "u8 list \<Rightarrow> u8 list" where
  "unhandled d = d[0 := id_unhandled]"

definition switch_matrix_state :: "via_cfg \<Rightarrow> u8 list \<Rightarrow> u8 list" where
  "switch_matrix_state c d =
     (let offset = unat (d ! 2); cols = DK_MATRIX_COLS (via_dk c);
          rows = filter (\<lambda>row. row + offset < DK_MATRIX_ROWS (via_dk c)) [0..<28 div ((cols + 7) div 8)];
          put = (\<lambda>row. let v = via_matrix_value c (row + offset)
            in (if 24 < cols then [ucast (drop_bit 24 v AND 0xFF)] else []) @ (if 16 < cols then [ucast (drop_bit 16 v AND 0xFF)] else [])
              @ (if 8 < cols then [ucast (drop_bit 8 v AND 0xFF)] else []) @ [ucast (v AND 0xFF)])
      in memcpy_at d 3 (concat (map put rows)))"

text \<open>The buffer commands: \<open>offset\<close> and \<open>size\<close> are bytes of the packet, the data follow them.\<close>

definition receive_get_buffer :: "(u16 \<Rightarrow> u16 \<Rightarrow> 's \<Rightarrow> u8 list option) \<Rightarrow> u8 list \<Rightarrow> 's \<Rightarrow> ('s \<times> u8 list) option" where
  "receive_get_buffer get d s = (let n = unat (d ! 3) in
     if length d < 4 + n then None
     else map_option (\<lambda>bs. (s, memcpy_at d 4 bs)) (get (get_word 0 d) (of_nat n) s))"

definition receive_set_buffer :: "(u16 \<Rightarrow> u8 list \<Rightarrow> 's \<Rightarrow> 's option) \<Rightarrow> u8 list \<Rightarrow> 's \<Rightarrow> ('s \<times> u8 list) option" where
  "receive_set_buffer set_to d s = (let n = unat (d ! 3) in
     if length d < 4 + n then None
     else map_option (\<lambda>s. (s, d)) (set_to (get_word 0 d) (take n (drop 4 d)) s))"

definition receive_get_keyboard_value :: "via_cfg \<Rightarrow> 's eeprom_ops \<Rightarrow> u32 \<Rightarrow> u8 list \<Rightarrow> 's \<Rightarrow> ('s \<times> u8 list) option" where
  "receive_get_keyboard_value c ops now d s =
     (if d ! 1 = id_uptime then Some (s, put_long 1 now d)
      else if d ! 1 = id_layout_options then map_option (\<lambda>v. (s, put_long 1 v d)) (nvm_via_read_layout_options c ops s)
      else if d ! 1 = id_switch_matrix_state then Some (s, switch_matrix_state c d)
      else if d ! 1 = id_firmware_version then Some (s, put_long 1 (VIA_FIRMWARE_VERSION c) d)
      else if d ! 1 = id_keycodes_version then Some (s, put_long 1 (QMK_KEYCODES_VERSION_BCD c) d)
      else Some (s, unhandled d))"

definition receive_set_keyboard_value :: "via_cfg \<Rightarrow> 's eeprom_ops \<Rightarrow> u8 list \<Rightarrow> 's \<Rightarrow> ('s \<times> u8 list) option" where
  "receive_set_keyboard_value c ops d s =
     (if d ! 1 = id_layout_options then map_option (\<lambda>s. (s, d)) (nvm_via_update_layout_options c ops (get_long 1 d) s)
      else if d ! 1 = id_device_indication then Some (s, d)
      else Some (s, unhandled d))"

text \<open>The packet that \<open>raw_hid_send\<close> gets.\<close>

definition raw_hid_receive :: "via_cfg \<Rightarrow> 's eeprom_ops \<Rightarrow> u32 \<Rightarrow> u8 list \<Rightarrow> 's \<Rightarrow> ('s \<times> u8 list) option" where
  "raw_hid_receive c ops now d s =
     (let k = via_dk c; command_id = d ! 0; unchanged = map_option (\<lambda>s. (s, d)) in
      if command_id = id_get_protocol_version then Some (s, put_word 0 VIA_PROTOCOL_VERSION d)
      else if command_id = id_get_keyboard_value then receive_get_keyboard_value c ops now d s
      else if command_id = id_set_keyboard_value then receive_set_keyboard_value c ops d s
      else if command_id = id_dynamic_keymap_get_keycode then
        map_option (\<lambda>w. (s, put_word 3 w d)) (nvm_dynamic_keymap_read_keycode k ops (d ! 1) (d ! 2) (d ! 3) s)
      else if command_id = id_dynamic_keymap_set_keycode then
        unchanged (nvm_dynamic_keymap_update_keycode k ops (d ! 1) (d ! 2) (d ! 3) (get_word 3 d) s)
      else if command_id = id_dynamic_keymap_reset then unchanged (dynamic_keymap_reset k ops s)
      else if command_id = id_custom_set_value \<or> command_id = id_custom_get_value \<or> command_id = id_custom_save then
        Some (s, unhandled d)
      else if command_id = id_eeprom_reset \<and> VIA_EEPROM_ALLOW_RESET c then
        unchanged (do {s \<leftarrow> via_eeprom_set_valid c ops False s; eeconfig_init_via c ops s})
      else if command_id = id_dynamic_keymap_macro_get_count then Some (s, d[1 := of_nat (DYNAMIC_KEYMAP_MACRO_COUNT k)])
      else if command_id = id_dynamic_keymap_macro_get_buffer_size then
        Some (s, put_word 0 (of_nat (DYNAMIC_KEYMAP_MACRO_EEPROM_SIZE k)) d)
      else if command_id = id_dynamic_keymap_macro_get_buffer then
        receive_get_buffer (dynamic_keymap_macro_get_buffer k ops) d s
      else if command_id = id_dynamic_keymap_macro_set_buffer then
        receive_set_buffer (dynamic_keymap_macro_set_buffer k ops) d s
      else if command_id = id_dynamic_keymap_macro_reset then unchanged (nvm_dynamic_keymap_macro_reset k ops s)
      else if command_id = id_dynamic_keymap_get_layer_count then Some (s, d[1 := of_nat (DYNAMIC_KEYMAP_LAYER_COUNT k)])
      else if command_id = id_dynamic_keymap_get_buffer then receive_get_buffer (dynamic_keymap_get_buffer k ops) d s
      else if command_id = id_dynamic_keymap_set_buffer then receive_set_buffer (dynamic_keymap_set_buffer k ops) d s
      else if command_id = id_dynamic_keymap_get_encoder then
        map_option (\<lambda>w. (s, put_word 3 w d)) (nvm_dynamic_keymap_read_encoder k ops (d ! 1) (d ! 2) (d ! 3 \<noteq> 0) s)
      else if command_id = id_dynamic_keymap_set_encoder then
        unchanged (nvm_dynamic_keymap_update_encoder k ops (d ! 1) (d ! 2) (d ! 3 \<noteq> 0) (get_word 3 d) s)
      else Some (s, unhandled d))"

text \<open>The keycodes of macros.\<close>

definition QK_MACRO :: u16 where "QK_MACRO = 0x7700"
definition QK_MACRO_MAX :: u16 where "QK_MACRO_MAX = 0x777F"

definition process_record_via ::
    "via_cfg \<Rightarrow> 's eeprom_ops \<Rightarrow> 'e ss_ops \<Rightarrow> nat \<Rightarrow> u16 \<Rightarrow> keyrecord_t \<Rightarrow> 's \<Rightarrow> 'e \<Rightarrow> ('e \<times> bool) option" where
  "process_record_via c ops typing interval keycode record s e =
     (if pressed record \<and> QK_MACRO \<le> keycode \<and> keycode \<le> QK_MACRO_MAX then
        map_option (\<lambda>e. (e, False)) (dynamic_keymap_macro_send (via_dk c) ops typing interval (unat (ucast (keycode - QK_MACRO) :: u8)) s e)
      else Some (e, True))"

section \<open>The settings\<close>

context persistent_bytes
begin

lemma via_addresses:
  assumes "via_ok c bytes"
  shows "dk_ok (via_dk c) bytes"
    "VIA_EEPROM_LAYOUT_OPTIONS_ADDR c + VIA_EEPROM_LAYOUT_OPTIONS_SIZE c \<le> DYNAMIC_KEYMAP_EEPROM_ADDR (via_dk c)"
    "DYNAMIC_KEYMAP_EEPROM_ADDR (via_dk c) \<le> bytes"
    "x < DYNAMIC_KEYMAP_EEPROM_ADDR (via_dk c) \<Longrightarrow> unat (of_nat x :: u32) = x \<and> x < bytes"
proof -
  show ok: "dk_ok (via_dk c) bytes"
    "VIA_EEPROM_LAYOUT_OPTIONS_ADDR c + VIA_EEPROM_LAYOUT_OPTIONS_SIZE c \<le> DYNAMIC_KEYMAP_EEPROM_ADDR (via_dk c)"
    using assms by (simp_all add: via_ok_def)
  show le: "DYNAMIC_KEYMAP_EEPROM_ADDR (via_dk c) \<le> bytes"
    using areas_fit(3,4)[OF ok(1) bytes] encoder_area[of "via_dk c"] by linarith
  show "x < DYNAMIC_KEYMAP_EEPROM_ADDR (via_dk c) \<Longrightarrow> unat (of_nat x :: u32) = x \<and> x < bytes"
    using le bytes unat_of_nat_32[of x] by simp
qed

lemma update_at:
  assumes "good s" "x < bytes"
  shows "\<exists>s'. op_eeprom_update_byte ops (of_nat x) v s = Some s' \<and> good s' \<and> mem s' = (mem s)[x := v]"
  using update_law[OF assms(1), of "of_nat x" v] assms(2) bytes unat_of_nat_32[of x] by simp

lemma layout_updated:
  assumes "good s" "via_ok c bytes"
  shows "\<exists>s'. nvm_via_update_layout_options c ops v s = Some s' \<and> good s'
    \<and> (\<forall>j < bytes. mem s' ! j = (if VIA_EEPROM_LAYOUT_OPTIONS_ADDR c \<le> j
        \<and> j < VIA_EEPROM_LAYOUT_OPTIONS_ADDR c + VIA_EEPROM_LAYOUT_OPTIONS_SIZE c
        then ucast (drop_bit (8 * (VIA_EEPROM_LAYOUT_OPTIONS_ADDR c + VIA_EEPROM_LAYOUT_OPTIONS_SIZE c - 1 - j)) v AND 0xFF) else mem s ! j))"
proof -
  define A n where An: "A = VIA_EEPROM_LAYOUT_OPTIONS_ADDR c" "n = VIA_EEPROM_LAYOUT_OPTIONS_SIZE c"
  have fit: "A + n \<le> bytes" using via_addresses(2,3)[OF assms(2)] by (simp add: An)
  let ?f = "\<lambda>i. op_eeprom_update_byte ops (of_nat (A + n - 1 - i)) (ucast (drop_bit (8 * i) v AND 0xFF))"
  have "\<exists>s'. for_each ?f [0..<k] s = Some s' \<and> good s' \<and> (\<forall>j < bytes. mem s' ! j
      = (if A + n - k \<le> j \<and> j < A + n then ucast (drop_bit (8 * (A + n - 1 - j)) v AND 0xFF) else mem s ! j))" if "k \<le> n" for k
    using that
  proof (induction k)
    case (Suc k)
    then obtain t where t: "for_each ?f [0..<k] s = Some t" "good t" "\<forall>j < bytes. mem t ! j
      = (if A + n - k \<le> j \<and> j < A + n then ucast (drop_bit (8 * (A + n - 1 - j)) v AND 0xFF) else mem s ! j)" by auto
    have x: "A + n - 1 - k < bytes" using fit Suc.prems by linarith
    from update_at[OF t(2) x] obtain u where u: "?f k t = Some u" "good u"
      "mem u = (mem t)[A + n - 1 - k := ucast (drop_bit (8 * k) v AND 0xFF)]" by blast
    have "mem u ! j = (if A + n - Suc k \<le> j \<and> j < A + n then ucast (drop_bit (8 * (A + n - 1 - j)) v AND 0xFF) else mem s ! j)"
      if j: "j < bytes" for j
    proof (cases "j = A + n - 1 - k")
      case True
      then have "A + n - 1 - j = k" using Suc.prems by simp
      then show ?thesis using True Suc.prems j mem_length[OF t(2)] by (auto simp: u(3))
    next
      case False
      then have "A + n - Suc k \<le> j \<longleftrightarrow> A + n - k \<le> j" if "j < A + n" using that Suc.prems by linarith
      then show ?thesis using False j t(3) mem_length[OF t(2)] by (auto simp: u(3))
    qed
    then show ?case using t(1) u(1,2) by (auto simp: for_each_snoc)
  next
    case 0
    show ?case using assms(1) by (auto simp: for_each_Nil)
  qed
  from this[of n, OF order_refl, unfolded diff_add_inverse2] show ?thesis
    unfolding nvm_via_update_layout_options_def An[symmetric] .
qed

lemma layout_read:
  assumes "good s" "via_ok c bytes"
  shows "nvm_via_read_layout_options c ops s = Some (fold (\<lambda>i v. push_bit 8 v OR ucast (mem s ! (VIA_EEPROM_LAYOUT_OPTIONS_ADDR c + i)))
    [0..<VIA_EEPROM_LAYOUT_OPTIONS_SIZE c] 0)"
proof -
  have "fold (\<lambda>i v. Option.bind v (\<lambda>v. Option.bind (op_eeprom_read_byte ops (of_nat (VIA_EEPROM_LAYOUT_OPTIONS_ADDR c + i)) s)
        (\<lambda>b. Some (push_bit 8 v OR ucast b)))) [0..<k] (Some 0)
      = Some (fold (\<lambda>i v. push_bit 8 v OR ucast (mem s ! (VIA_EEPROM_LAYOUT_OPTIONS_ADDR c + i))) [0..<k] 0)"
    if "k \<le> VIA_EEPROM_LAYOUT_OPTIONS_SIZE c" for k
    using that
  proof (induction k)
    case (Suc k)
    have "VIA_EEPROM_LAYOUT_OPTIONS_ADDR c + k < DYNAMIC_KEYMAP_EEPROM_ADDR (via_dk c)"
      using via_addresses(2)[OF assms(2)] Suc.prems by linarith
    from via_addresses(4)[OF assms(2) this] read_law[OF assms(1), of "of_nat (VIA_EEPROM_LAYOUT_OPTIONS_ADDR c + k)"] Suc
    show ?case by simp
  qed simp
  from this[of "VIA_EEPROM_LAYOUT_OPTIONS_SIZE c"] show ?thesis by (simp add: nvm_via_read_layout_options_def)
qed

lemma layout_roundtrip:
  assumes "good s" "via_ok c bytes" "\<forall>i < VIA_EEPROM_LAYOUT_OPTIONS_SIZE c. mem s ! (VIA_EEPROM_LAYOUT_OPTIONS_ADDR c + i)
    = ucast (drop_bit (8 * (VIA_EEPROM_LAYOUT_OPTIONS_SIZE c - 1 - i)) v AND 0xFF)"
  shows "nvm_via_read_layout_options c ops s = Some (take_bit (8 * VIA_EEPROM_LAYOUT_OPTIONS_SIZE c) v)"
proof -
  let ?n = "VIA_EEPROM_LAYOUT_OPTIONS_SIZE c"
  have n: "?n \<le> 4" using assms(2) by (simp add: via_ok_def)
  have ff: "(0xFF :: u32) = mask 8" by (simp add: mask_eq_exp_minus_1)
  have "fold (\<lambda>i v. push_bit 8 v OR ucast (mem s ! (VIA_EEPROM_LAYOUT_OPTIONS_ADDR c + i))) [0..<k] 0
      = take_bit (8 * k) (drop_bit (8 * (?n - k)) v)" if "k \<le> ?n" for k
    using that
  proof (induction k)
    case (Suc k)
    have b: "mem s ! (VIA_EEPROM_LAYOUT_OPTIONS_ADDR c + k) = ucast (drop_bit (8 * (?n - Suc k)) v AND mask 8)"
      using assms(3) Suc.prems unfolding ff by simp
    have "push_bit 8 (take_bit (8 * k) (drop_bit (8 * (?n - k)) v)) OR ucast (mem s ! (VIA_EEPROM_LAYOUT_OPTIONS_ADDR c + k))
        = take_bit (8 * Suc k) (drop_bit (8 * (?n - Suc k)) v)"
    proof (rule word_eqI_bits)
      fix i :: nat assume i: "i < LENGTH(32)"
      have "8 * (?n - k) + (i - 8) = 8 * (?n - Suc k) + i" if "8 \<le> i" using that Suc.prems by (simp add: Suc_diff_le)
      then show "bit (push_bit 8 (take_bit (8 * k) (drop_bit (8 * (?n - k)) v)) OR ucast (mem s ! (VIA_EEPROM_LAYOUT_OPTIONS_ADDR c + k))) i
          \<longleftrightarrow> bit (take_bit (8 * Suc k) (drop_bit (8 * (?n - Suc k)) v)) i"
        using i unfolding b by (auto simp: bit_or_iff bit_push_bit_iff bit_take_bit_iff bit_drop_bit_eq bit_ucast_iff bit_and_iff bit_mask_iff)
    qed
    then show ?case using Suc by simp
  qed simp
  from this[of ?n] show ?thesis using layout_read[OF assms(1,2)] by simp
qed

section \<open>What packets do\<close>

end

text \<open>The specification: the maps and the layout options.\<close>

definition is_buffer_command :: "u8 \<Rightarrow> bool" where
  "is_buffer_command i \<longleftrightarrow> i \<in> {id_dynamic_keymap_macro_get_buffer, id_dynamic_keymap_macro_set_buffer,
     id_dynamic_keymap_get_buffer, id_dynamic_keymap_set_buffer}"

definition packet_ok :: "u8 list \<Rightarrow> bool" where
  "packet_ok d \<longleftrightarrow> length d = 32 \<and> (is_buffer_command (d ! 0) \<longrightarrow> unat (d ! 3) \<le> 28)"

definition via_ops :: "via_cfg \<Rightarrow> u8 list \<Rightarrow> dk_op list" where
  "via_ops c d = (let i = d ! 0 in
     if i = id_dynamic_keymap_set_keycode then [Set_Keycode (d ! 1) (d ! 2) (d ! 3) (get_word 3 d)]
     else if i = id_dynamic_keymap_set_encoder then [Set_Encoder (d ! 1) (d ! 2) (d ! 3 \<noteq> 0) (get_word 3 d)]
     else if i = id_dynamic_keymap_set_buffer then [Set_Buffer (get_word 0 d) (take (unat (d ! 3)) (drop 4 d))]
     else if i = id_dynamic_keymap_macro_set_buffer then [Set_Macros (get_word 0 d) (take (unat (d ! 3)) (drop 4 d))]
     else if i = id_dynamic_keymap_reset then [Reset_Keymap]
     else if i = id_dynamic_keymap_macro_reset then [Reset_Macros]
     else if i = id_eeprom_reset \<and> VIA_EEPROM_ALLOW_RESET c then [Reset_Keymap, Reset_Macros]
     else [])"

definition via_options :: "via_cfg \<Rightarrow> u8 list \<Rightarrow> u32 \<Rightarrow> u32" where
  "via_options c d v =
     (if d ! 0 = id_set_keyboard_value \<and> d ! 1 = id_layout_options
      then take_bit (8 * VIA_EEPROM_LAYOUT_OPTIONS_SIZE c) (get_long 1 d)
      else if d ! 0 = id_eeprom_reset \<and> VIA_EEPROM_ALLOW_RESET c
      then take_bit (8 * VIA_EEPROM_LAYOUT_OPTIONS_SIZE c) (VIA_EEPROM_LAYOUT_OPTIONS_DEFAULT c)
      else v)"

definition via_effect :: "via_cfg \<Rightarrow> u8 list \<Rightarrow> dk_contents \<times> u32 \<Rightarrow> dk_contents \<times> u32" where
  "via_effect c d = map_prod (fold (dk_spec (via_dk c)) (via_ops c d)) (via_options c d)"

text \<open>The defaults.\<close>

definition default_contents :: "via_cfg \<Rightarrow> dk_contents \<times> u32 \<Rightarrow> dk_contents \<times> u32" where
  "default_contents c a = (fold (dk_spec (via_dk c)) [Reset_Keymap, Reset_Macros] (fst a),
     take_bit (8 * VIA_EEPROM_LAYOUT_OPTIONS_SIZE c) (VIA_EEPROM_LAYOUT_OPTIONS_DEFAULT c))"

text \<open>The answers to the commands that read.\<close>

definition via_answer :: "via_cfg \<Rightarrow> u8 list \<Rightarrow> dk_contents \<times> u32 \<Rightarrow> u8 list option" where
  "via_answer c d a = (let i = d ! 0; k = via_dk c in
     if i = id_dynamic_keymap_get_keycode then Some (put_word 3
       (if on_keymap k (d ! 1) (d ! 2) (d ! 3) then spec_keycode (fst a) (d ! 1) (d ! 2) (d ! 3) else 0) d)
     else if i = id_dynamic_keymap_get_encoder then Some (put_word 3
       (if on_encodermap k (d ! 1) (d ! 2) then spec_encoder (fst a) (d ! 1) (d ! 2) (d ! 3 \<noteq> 0) else 0) d)
     else if i = id_dynamic_keymap_macro_get_buffer then Some (memcpy_at d 4 (map (\<lambda>j. let p = unat (get_word 0 d) + j
       in if p < length (spec_macros (fst a)) then spec_macros (fst a) ! p else 0) [0..<unat (d ! 3)]))
     else if i = id_get_keyboard_value \<and> d ! 1 = id_layout_options then Some (put_long 1 (snd a) d)
     else None)"

lemma receive_changes:
  assumes "packet_ok d" "d ! 0 \<in> {id_dynamic_keymap_set_keycode, id_dynamic_keymap_set_encoder, id_dynamic_keymap_set_buffer,
    id_dynamic_keymap_macro_set_buffer, id_dynamic_keymap_reset, id_dynamic_keymap_macro_reset}"
  shows "raw_hid_receive c ops now d s = map_option (\<lambda>t. (t, d)) (dk_run (via_dk c) ops pc (via_ops c d) s)"
    "\<forall>x \<in> set (via_ops c d). dk_op_ok x" "via_options c d v = v" "via_answer c d a = None"
proof -
  have n: "\<not> 32 < 4 + unat (d ! 3)" if "is_buffer_command (d ! 0)" using assms(1) that by (simp add: packet_ok_def)
  have len: "length d = 32" using assms(1) by (simp add: packet_ok_def)
  have nil: "dk_run k ops pc [] = Some" for k by (rule ext) simp
  show "raw_hid_receive c ops now d s = map_option (\<lambda>t. (t, d)) (dk_run (via_dk c) ops pc (via_ops c d) s)"
    using assms(2) n by (elim insertE emptyE)
      (simp_all add: raw_hid_receive_def via_ops_def via_ids Let_def receive_set_buffer_def is_buffer_command_def len nil)
  show "\<forall>x \<in> set (via_ops c d). dk_op_ok x" "via_options c d v = v" "via_answer c d a = None"
    using assms(2) unat_lt_256[of "d ! 3"] len by (auto simp: via_ops_def via_options_def via_answer_def via_ids Let_def)
qed

context persistent_bytes
begin

definition via_holds :: "via_cfg \<Rightarrow> dk_contents \<times> u32 \<Rightarrow> 's \<Rightarrow> bool" where
  "via_holds c a s \<longleftrightarrow> holds (via_dk c) (fst a) s \<and> nvm_via_read_layout_options c ops s = Some (snd a)"

lemma holds_good: "holds c a s \<Longrightarrow> good s"
  by (simp add: holds_def)

text \<open>Changes below the keymap, and in it.\<close>

lemma holds_above:
  assumes "dk_ok c bytes" "holds c a s" "good t" "\<forall>j < bytes. DYNAMIC_KEYMAP_EEPROM_ADDR c \<le> j \<longrightarrow> mem t ! j = mem s ! j"
  shows "holds c a t"
proof -
  have g: "good s" using assms(2) by (simp add: holds_def)
  note fits = areas_fit[OF assms(1) bytes]
  have key: "\<forall>l r k. on_keymap c l r k \<longrightarrow> nvm_dynamic_keymap_read_keycode c ops l r k t = nvm_dynamic_keymap_read_keycode c ops l r k s"
    using keycode_bytes[OF assms(1) g assms(3)] assms(4) fits(3,4) by (meson less_le_trans less_trans)
  have enc: "\<forall>l e d. on_encodermap c l e \<longrightarrow> nvm_dynamic_keymap_read_encoder c ops l e d t = nvm_dynamic_keymap_read_encoder c ops l e d s"
    using encoder_bytes[OF assms(1) g assms(3)] assms(4) fits(3) encoder_area by (meson le_trans less_trans)
  have "DYNAMIC_KEYMAP_EEPROM_ADDR c \<le> DYNAMIC_KEYMAP_MACRO_EEPROM_ADDR c" using encoder_area fits(4) by (rule le_trans)
  then have "macro_bytes c t = macro_bytes c s"
    unfolding macro_bytes_nth[OF g assms(1)] macro_bytes_nth[OF assms(3,1)] using assms(4) fits(1) by simp
  then show ?thesis using assms(2,3) key enc by (simp add: holds_def)
qed

lemma layout_same:
  assumes "via_ok c bytes" "good s" "good t"
    and "\<forall>j < DYNAMIC_KEYMAP_EEPROM_ADDR (via_dk c). VIA_EEPROM_LAYOUT_OPTIONS_ADDR c \<le> j \<longrightarrow> mem t ! j = mem s ! j"
  shows "nvm_via_read_layout_options c ops t = nvm_via_read_layout_options c ops s"
proof -
  have "mem t ! (VIA_EEPROM_LAYOUT_OPTIONS_ADDR c + i) = mem s ! (VIA_EEPROM_LAYOUT_OPTIONS_ADDR c + i)"
    if "i < VIA_EEPROM_LAYOUT_OPTIONS_SIZE c" for i
    using assms(4) via_addresses(2)[OF assms(1)] that by simp
  then show ?thesis unfolding layout_read[OF assms(2,1)] layout_read[OF assms(3,1)]
    by (intro arg_cong[of _ _ Some] fold_cong refl) auto
qed

text \<open>The bytes below the keymap.\<close>

lemma outside_below:
  assumes "outside c t = outside c s" "j < DYNAMIC_KEYMAP_EEPROM_ADDR c"
  shows "mem t ! j = mem s ! j"
  using assms(1) nth_take[OF assms(2)] unfolding outside_def by (metis prod.inject)

lemma run_via_holds:
  assumes "via_ok c bytes" "via_holds c a s" "\<forall>x \<in> set xs. dk_op_ok x"
  shows "\<exists>t. dk_run (via_dk c) ops power_cycle xs s = Some t \<and> via_holds c (fold (dk_spec (via_dk c)) xs (fst a), snd a) t
    \<and> outside (via_dk c) t = outside (via_dk c) s"
proof -
  have h: "holds (via_dk c) (fst a) s" and l: "nvm_via_read_layout_options c ops s = Some (snd a)"
    using assms(2) unfolding via_holds_def by (rule conjunct1, rule conjunct2)
  from run_holds[OF via_addresses(1)[OF assms(1)] h assms(3)] obtain t where
    t: "dk_run (via_dk c) ops power_cycle xs s = Some t" "holds (via_dk c) (fold (dk_spec (via_dk c)) xs (fst a)) t"
    "outside (via_dk c) t = outside (via_dk c) s" by (elim exE conjE)
  note g = holds_good[OF h] holds_good[OF t(2)]
  have "nvm_via_read_layout_options c ops t = nvm_via_read_layout_options c ops s"
    using layout_same[OF assms(1) g] outside_below[OF t(3)] by blast
  with l have "nvm_via_read_layout_options c ops t = Some (snd a)" by simp
  with t(2) have "via_holds c (fold (dk_spec (via_dk c)) xs (fst a), snd a) t" unfolding via_holds_def fst_conv snd_conv ..
  with t(1,3) show ?thesis by blast
qed

lemma options_holds:
  assumes "via_ok c bytes" "via_holds c a s"
  shows "\<exists>t. nvm_via_update_layout_options c ops v s = Some t
    \<and> via_holds c (fst a, take_bit (8 * VIA_EEPROM_LAYOUT_OPTIONS_SIZE c) v) t
    \<and> (\<forall>j < VIA_EEPROM_LAYOUT_OPTIONS_ADDR c. mem t ! j = mem s ! j)"
proof -
  have h: "holds (via_dk c) (fst a) s" and g: "good s" and ok: "dk_ok (via_dk c) bytes"
    using assms(1,2) by (simp_all add: via_holds_def via_ok_def holds_def)
  let ?A = "VIA_EEPROM_LAYOUT_OPTIONS_ADDR c" and ?n = "VIA_EEPROM_LAYOUT_OPTIONS_SIZE c"
  note below = via_addresses(2,3)[OF assms(1)]
  obtain t where t: "nvm_via_update_layout_options c ops v s = Some t" "good t"
    "\<forall>j < bytes. mem t ! j = (if ?A \<le> j \<and> j < ?A + ?n then ucast (drop_bit (8 * (?A + ?n - 1 - j)) v AND 0xFF) else mem s ! j)"
    using layout_updated[OF g assms(1)] by blast
  have b: "mem t ! (?A + i) = ucast (drop_bit (8 * (?n - 1 - i)) v AND 0xFF)" if i: "i < ?n" for i
  proof -
    have lt: "?A + i < bytes" using i below by linarith
    have "?A + ?n - 1 - (?A + i) = ?n - 1 - i" by simp
    then show ?thesis using t(3)[rule_format, OF lt] i by (simp only: le_add1 nat_add_left_cancel_less simp_thms if_True)
  qed
  have "mem t ! j = mem s ! j" if "j < bytes" "DYNAMIC_KEYMAP_EEPROM_ADDR (via_dk c) \<le> j" for j
  proof -
    have "\<not> j < ?A + ?n" using that below by linarith
    then show ?thesis using t(3)[rule_format, OF that(1)] by simp
  qed
  then have "holds (via_dk c) (fst a) t" using holds_above[OF ok h t(2)] by blast
  moreover have "nvm_via_read_layout_options c ops t = Some (take_bit (8 * ?n) v)"
    using layout_roundtrip[OF t(2) assms(1)] b by blast
  moreover have "\<forall>j < ?A. mem t ! j = mem s ! j"
  proof (intro allI impI)
    fix j assume j: "j < ?A"
    then have "j < bytes" "\<not> ?A \<le> j" using below by linarith+
    then show "mem t ! j = mem s ! j" using t(3) by simp
  qed
  ultimately show ?thesis using t(1) by (intro exI[of _ t]) (simp add: via_holds_def)
qed

text \<open>The commands that change nothing.\<close>

lemma get_buffers:
  assumes "dk_ok k bytes" "holds k a s" "n \<le> 28"
  shows "dynamic_keymap_macro_get_buffer k ops offset (of_nat n) s = Some (map (\<lambda>j. let p = unat offset + j
      in if p < length (spec_macros a) then spec_macros a ! p else 0) [0..<n])"
    "\<exists>bs. dynamic_keymap_get_buffer k ops offset (of_nat n) s = Some bs"
proof -
  note g = holds_good[OF assms(2)] and fits = areas_fit[OF assms(1) bytes]
  have n: "unat (of_nat n :: u16) = n" using assms(3) unat_of_nat_mod[of n, where 'a = 16] by simp
  have o: "unat (ucast offset :: u32) + n < 2 ^ 32" using ucast_offset[of "replicate n 0" offset] assms(3) by simp
  have m: "spec_macros a = macro_bytes k s" using assms(2) by (simp add: holds_def)
  show "dynamic_keymap_macro_get_buffer k ops offset (of_nat n) s = Some (map (\<lambda>j. let p = unat offset + j
      in if p < length (spec_macros a) then spec_macros a ! p else 0) [0..<n])"
    using read_area_ok[OF g fits(1) o] unfolding m macro_bytes_nth[OF g assms(1)]
    by (simp add: dynamic_keymap_macro_get_buffer_def nvm_dynamic_keymap_macro_read_buffer_def unat_ucast_16_32 n add.assoc Let_def)
  have "DYNAMIC_KEYMAP_EEPROM_ADDR k + DYNAMIC_KEYMAP_SIZE k \<le> bytes"
    using fits(3,4) by (simp add: DYNAMIC_KEYMAP_ENCODER_EEPROM_ADDR_def)
  from read_area_ok[OF g this o] show "\<exists>bs. dynamic_keymap_get_buffer k ops offset (of_nat n) s = Some bs"
    by (simp add: dynamic_keymap_get_buffer_def nvm_dynamic_keymap_read_buffer_def n)
qed

lemma read_answers:
  assumes "dk_ok k bytes" "holds k a s"
  shows "nvm_dynamic_keymap_read_keycode k ops l r x s = Some (if on_keymap k l r x then spec_keycode a l r x else 0)"
    "nvm_dynamic_keymap_read_encoder k ops l e b s = Some (if on_encodermap k l e then spec_encoder a l e b else 0)"
proof -
  note g = holds_good[OF assms(2)]
  show "nvm_dynamic_keymap_read_keycode k ops l r x s = Some (if on_keymap k l r x then spec_keycode a l r x else 0)"
    using assms(2) read_keycode[OF g assms(1)] by (cases "on_keymap k l r x") (simp_all add: holds_def)
  show "nvm_dynamic_keymap_read_encoder k ops l e b s = Some (if on_encodermap k l e then spec_encoder a l e b else 0)"
    using assms(2) read_encoder[OF g assms(1)] by (cases "on_encodermap k l e") (simp_all add: holds_def)
qed

lemma receive_reads:
  assumes "via_ok c bytes" "via_holds c a s" "packet_ok d"
    and "d ! 0 \<notin> {id_dynamic_keymap_set_keycode, id_dynamic_keymap_set_encoder, id_dynamic_keymap_set_buffer,
      id_dynamic_keymap_macro_set_buffer, id_dynamic_keymap_reset, id_dynamic_keymap_macro_reset}"
    and "\<not> (d ! 0 = id_set_keyboard_value \<and> d ! 1 = id_layout_options)" "\<not> (d ! 0 = id_eeprom_reset \<and> VIA_EEPROM_ALLOW_RESET c)"
  shows "\<exists>r. raw_hid_receive c ops now d s = Some (s, r) \<and> (\<forall>answer. via_answer c d a = Some answer \<longrightarrow> r = answer)"
proof -
  have h: "holds (via_dk c) (fst a) s" and l: "nvm_via_read_layout_options c ops s = Some (snd a)"
    using assms(2) by (simp_all add: via_holds_def)
  note ok = via_addresses(1)[OF assms(1)]
  have len: "length d = 32" using assms(3) by (simp add: packet_ok_def)
  have size: "unat (d ! 3) \<le> 28" if "is_buffer_command (d ! 0)" using assms(3) that by (simp add: packet_ok_def)
  consider (macro) "d ! 0 = id_dynamic_keymap_macro_get_buffer" | (buffer) "d ! 0 = id_dynamic_keymap_get_buffer"
    | (keycode) "d ! 0 = id_dynamic_keymap_get_keycode" | (encoder) "d ! 0 = id_dynamic_keymap_get_encoder"
    | (get) "d ! 0 = id_get_keyboard_value" | (set_value) "d ! 0 = id_set_keyboard_value"
    | (other) "d ! 0 \<notin> {id_dynamic_keymap_macro_get_buffer, id_dynamic_keymap_get_buffer, id_dynamic_keymap_get_keycode,
        id_dynamic_keymap_get_encoder, id_get_keyboard_value, id_set_keyboard_value}" by blast
  then show ?thesis
  proof cases
    case macro
    have n: "unat (d ! 3) \<le> 28" by (rule size) (simp add: is_buffer_command_def macro)
    show ?thesis using get_buffers(1)[OF ok h n, of "get_word 0 d"] n len
      by (simp add: raw_hid_receive_def via_answer_def receive_get_buffer_def macro via_ids Let_def)
  next
    case buffer
    have n: "unat (d ! 3) \<le> 28" by (rule size) (simp add: is_buffer_command_def buffer)
    show ?thesis using get_buffers(2)[OF ok h n, of "get_word 0 d"] n len
      by (auto simp: raw_hid_receive_def via_answer_def receive_get_buffer_def buffer via_ids Let_def)
  next
    case keycode
    show ?thesis using read_answers(1)[OF ok h] by (simp add: raw_hid_receive_def via_answer_def keycode via_ids Let_def)
  next
    case encoder
    show ?thesis using read_answers(2)[OF ok h] by (simp add: raw_hid_receive_def via_answer_def encoder via_ids Let_def)
  next
    case get
    show ?thesis using l by (simp add: raw_hid_receive_def via_answer_def receive_get_keyboard_value_def get via_ids Let_def
          id_uptime_def id_layout_options_def)
  next
    case set_value
    show ?thesis using assms(5) by (simp add: raw_hid_receive_def via_answer_def receive_set_keyboard_value_def set_value via_ids Let_def)
  next
    case other
    then have "via_answer c d a = None" by (simp add: via_answer_def Let_def)
    moreover have "\<exists>r. raw_hid_receive c ops now d s = Some (s, r)"
      using other assms(4,6) unfolding raw_hid_receive_def Let_def by auto
    ultimately show ?thesis by simp
  qed
qed

text \<open>The magic number.\<close>

lemma magic_below:
  assumes "via_ok c bytes"
  shows "VIA_EEPROM_MAGIC_ADDR c + 2 < DYNAMIC_KEYMAP_EEPROM_ADDR (via_dk c)"
  using via_addresses(2)[OF assms] by (simp add: VIA_EEPROM_LAYOUT_OPTIONS_ADDR_def)

lemma magic_updated:
  assumes "good s" "via_ok c bytes"
  shows "\<exists>t. nvm_via_update_magic c ops m0 m1 m2 s = Some t \<and> good t \<and> mem t = (mem s)[VIA_EEPROM_MAGIC_ADDR c := m0,
    VIA_EEPROM_MAGIC_ADDR c + 1 := m1, VIA_EEPROM_MAGIC_ADDR c + 2 := m2]"
proof -
  let ?M = "VIA_EEPROM_MAGIC_ADDR c"
  have M: "?M < bytes" "?M + 1 < bytes" "?M + 2 < bytes" using magic_below[OF assms(2)] via_addresses(3)[OF assms(2)] by simp_all
  obtain s1 where s1: "op_eeprom_update_byte ops (of_nat ?M) m0 s = Some s1" "good s1" "mem s1 = (mem s)[?M := m0]"
    using update_at[OF assms(1) M(1)] by blast
  obtain s2 where s2: "op_eeprom_update_byte ops (of_nat (?M + 1)) m1 s1 = Some s2" "good s2" "mem s2 = (mem s1)[?M + 1 := m1]"
    using update_at[OF s1(2) M(2)] by blast
  obtain s3 where s3: "op_eeprom_update_byte ops (of_nat (?M + 2)) m2 s2 = Some s3" "good s3" "mem s3 = (mem s2)[?M + 2 := m2]"
    using update_at[OF s2(2) M(3)] by blast
  show ?thesis using s1 s2 s3 by (intro exI[of _ s3]) (simp add: nvm_via_update_magic_def Let_def ac_simps)
qed

lemma valid_iff:
  assumes "good s" "via_ok c bytes"
  shows "via_eeprom_is_valid c ops s = Some (mem s ! VIA_EEPROM_MAGIC_ADDR c = via_magic c 2
    \<and> mem s ! (VIA_EEPROM_MAGIC_ADDR c + 1) = via_magic c 5 \<and> mem s ! (VIA_EEPROM_MAGIC_ADDR c + 2) = via_magic c 8)"
proof -
  let ?M = "VIA_EEPROM_MAGIC_ADDR c"
  have r: "op_eeprom_read_byte ops (of_nat x) s = Some (mem s ! x)" if "x \<le> ?M + 2" for x
    using read_law[OF assms(1), of "of_nat x"] via_addresses(4)[OF assms(2), of x] magic_below[OF assms(2)] that by simp
  from r[of ?M] r[of "?M + 1"] r[of "?M + 2"] show ?thesis
    by (simp add: via_eeprom_is_valid_def nvm_via_read_magic_def Let_def add.commute[of "of_nat _"])
qed

lemma valid_same:
  assumes "via_ok c bytes" "good s" "good t" "\<forall>j < VIA_EEPROM_LAYOUT_OPTIONS_ADDR c. mem t ! j = mem s ! j"
  shows "via_eeprom_is_valid c ops t = via_eeprom_is_valid c ops s"
  using assms(4) by (simp add: valid_iff[OF assms(2,1)] valid_iff[OF assms(3,1)] VIA_EEPROM_LAYOUT_OPTIONS_ADDR_def)

lemma set_valid_holds:
  assumes "via_ok c bytes" "via_holds c a s"
  shows "\<exists>t. via_eeprom_set_valid c ops valid s = Some t \<and> via_holds c a t \<and> (valid \<longrightarrow> via_eeprom_is_valid c ops t = Some True)"
proof -
  have h: "holds (via_dk c) (fst a) s" and l: "nvm_via_read_layout_options c ops s = Some (snd a)"
    using assms(2) by (simp_all add: via_holds_def)
  let ?M = "VIA_EEPROM_MAGIC_ADDR c" and ?m = "\<lambda>i. if valid then via_magic c i else 0xFF"
  obtain t where t: "via_eeprom_set_valid c ops valid s = Some t" "good t" "mem t = (mem s)[?M := ?m 2, ?M + 1 := ?m 5, ?M + 2 := ?m 8]"
    using magic_updated[OF holds_good[OF h] assms(1), of "?m 2" "?m 5" "?m 8"] unfolding via_eeprom_set_valid_def by (cases valid) auto
  note below = magic_below[OF assms(1)]
  have same: "mem t ! j = mem s ! j" if "?M + 3 \<le> j" for j using that by (simp add: t(3))
  have "holds (via_dk c) (fst a) t" using holds_above[OF via_addresses(1)[OF assms(1)] h t(2)] same below by simp
  moreover have "nvm_via_read_layout_options c ops t = Some (snd a)"
    using layout_same[OF assms(1) holds_good[OF h] t(2)] same l by (simp add: VIA_EEPROM_LAYOUT_OPTIONS_ADDR_def)
  moreover have "via_eeprom_is_valid c ops t = Some True" if valid
    using that below via_addresses(3)[OF assms(1)] mem_length[OF holds_good[OF h]]
    by (simp add: valid_iff[OF t(2) assms(1)] t(3) nth_list_update)
  ultimately show ?thesis using t(1) by (intro exI[of _ t]) (simp add: via_holds_def)
qed

lemma init_holds:
  assumes "via_ok c bytes" "via_holds c a s"
  shows "\<exists>t. eeconfig_init_via c ops s = Some t \<and> via_eeprom_is_valid c ops t = Some True \<and> via_holds c (default_contents c a) t"
proof -
  let ?D = "VIA_EEPROM_LAYOUT_OPTIONS_DEFAULT c" and ?b = "8 * VIA_EEPROM_LAYOUT_OPTIONS_SIZE c"
  obtain s1 where s1: "via_eeprom_set_valid c ops False s = Some s1" "via_holds c a s1"
    using set_valid_holds[OF assms, of False] by (elim exE conjE)
  obtain s2 where s2: "nvm_via_update_layout_options c ops ?D s1 = Some s2" "via_holds c (fst a, take_bit ?b ?D) s2"
    using options_holds[OF assms(1) s1(2), of ?D] by (elim exE conjE)
  have ok: "\<forall>x \<in> set [Reset_Keymap, Reset_Macros]. dk_op_ok x" by simp
  obtain s3 where s3: "dk_run (via_dk c) ops power_cycle [Reset_Keymap, Reset_Macros] s2 = Some s3"
    "via_holds c (default_contents c a) s3"
    using run_via_holds[OF assms(1) s2(2) ok] unfolding default_contents_def fst_conv snd_conv by (elim exE conjE)
  obtain s4 where s4: "via_eeprom_set_valid c ops True s3 = Some s4" "via_holds c (default_contents c a) s4"
    "via_eeprom_is_valid c ops s4 = Some True"
    using set_valid_holds[OF assms(1) s3(2), of True] by auto
  have "Option.bind (dynamic_keymap_reset (via_dk c) ops s2) (nvm_dynamic_keymap_macro_reset (via_dk c) ops) = Some s3"
    using s3(1) by (cases "dynamic_keymap_reset (via_dk c) ops s2"; cases "nvm_dynamic_keymap_macro_reset (via_dk c) ops
      (the (dynamic_keymap_reset (via_dk c) ops s2))") simp_all
  then show ?thesis using s1(1) s2(1) s4 unfolding eeconfig_init_via_def by (auto simp: bind_eq_Some_conv)
qed

lemma packet_holds:
  assumes "via_ok c bytes" "via_holds c a s" "packet_ok d"
  shows "\<exists>t r. raw_hid_receive c ops now d s = Some (t, r) \<and> via_holds c (via_effect c d a) t
    \<and> (\<forall>answer. via_answer c d a = Some answer \<longrightarrow> r = answer)
    \<and> (via_eeprom_is_valid c ops s = Some True \<longrightarrow> via_eeprom_is_valid c ops t = Some True)"
proof -
  let ?changes = "{id_dynamic_keymap_set_keycode, id_dynamic_keymap_set_encoder, id_dynamic_keymap_set_buffer,
    id_dynamic_keymap_macro_set_buffer, id_dynamic_keymap_reset, id_dynamic_keymap_macro_reset}"
  have h: "holds (via_dk c) (fst a) s" and l: "nvm_via_read_layout_options c ops s = Some (snd a)"
    using assms(2) by (simp_all add: via_holds_def)
  note g = holds_good[OF h] and ok = via_addresses(1)[OF assms(1)]
  consider (changes) "d ! 0 \<in> ?changes" | (options) "d ! 0 = id_set_keyboard_value" "d ! 1 = id_layout_options"
    | (reset) "d ! 0 = id_eeprom_reset" "VIA_EEPROM_ALLOW_RESET c"
    | (other) "d ! 0 \<notin> ?changes" "\<not> (d ! 0 = id_set_keyboard_value \<and> d ! 1 = id_layout_options)"
      "\<not> (d ! 0 = id_eeprom_reset \<and> VIA_EEPROM_ALLOW_RESET c)" by blast
  then show ?thesis
  proof cases
    case changes
    note r = receive_changes[OF assms(3) changes, where c = c]
    from run_via_holds[OF assms(1,2) r(2)] obtain t where
      "dk_run (via_dk c) ops power_cycle (via_ops c d) s = Some t" "via_holds c (fold (dk_spec (via_dk c)) (via_ops c d) (fst a), snd a) t"
      and o: "outside (via_dk c) t = outside (via_dk c) s"
      by (elim exE conjE)
    moreover from this(2) have "good t" by (simp add: via_holds_def holds_def)
    moreover have "\<forall>j < VIA_EEPROM_LAYOUT_OPTIONS_ADDR c. mem t ! j = mem s ! j"
      using outside_below[OF o] via_addresses(2)[OF assms(1)] by simp
    ultimately show ?thesis using r(1)[of ops now s power_cycle] r(3,4) valid_same[OF assms(1) g]
      by (intro exI[of _ t] exI[of _ d]) (simp add: via_effect_def map_prod_def split_beta)
  next
    case options
    from options_holds[OF assms(1,2), of "get_long 1 d"] obtain t where
      "nvm_via_update_layout_options c ops (get_long 1 d) s = Some t"
      "via_holds c (fst a, take_bit (8 * VIA_EEPROM_LAYOUT_OPTIONS_SIZE c) (get_long 1 d)) t"
      and "\<forall>j < VIA_EEPROM_LAYOUT_OPTIONS_ADDR c. mem t ! j = mem s ! j" by (elim exE conjE)
    moreover from this(2) have "good t" by (simp add: via_holds_def holds_def)
    ultimately show ?thesis using options valid_same[OF assms(1) g]
      by (intro exI[of _ t] exI[of _ d]) (simp add: raw_hid_receive_def receive_set_keyboard_value_def via_effect_def via_ops_def
          via_options_def via_answer_def via_ids map_prod_def split_beta Let_def)
  next
    case reset
    from set_valid_holds[OF assms(1,2), of False] obtain u where u: "via_eeprom_set_valid c ops False s = Some u" "via_holds c a u"
      by (elim exE conjE)
    from init_holds[OF assms(1) u(2)] obtain t where "eeconfig_init_via c ops u = Some t" "via_eeprom_is_valid c ops t = Some True"
      "via_holds c (default_contents c a) t" by (elim exE conjE)
    then show ?thesis using reset u(1) unfolding default_contents_def
      by (intro exI[of _ t] exI[of _ d]) (simp add: raw_hid_receive_def via_effect_def via_ops_def
          via_options_def via_answer_def via_ids map_prod_def split_beta Let_def)
  next
    case other
    have same: "via_effect c d a = a"
    proof -
      have "via_ops c d = []" using other(1,3) unfolding via_ops_def Let_def by auto
      moreover have "via_options c d = (\<lambda>v. v)" using other(2,3) unfolding via_options_def by auto
      ultimately show ?thesis by (simp add: via_effect_def map_prod_def split_beta)
    qed
    from receive_reads[OF assms other] show ?thesis unfolding same using assms(2) by blast
  qed
qed

text \<open>Validity after a boot, and what keeps it.\<close>

lemma via_contents_exist:
  assumes "good s" "via_ok c bytes"
  shows "\<exists>a. via_holds c a s"
proof -
  obtain k where "holds (via_dk c) k s" using contents_exist[OF assms(1) via_addresses(1)[OF assms(2)]] by blast
  then show ?thesis using layout_read[OF assms] by (auto simp: via_holds_def)
qed

lemma power_holds:
  assumes "via_ok c bytes" "via_holds c a s"
  shows "via_holds c a (power_cycle s)" "via_eeprom_is_valid c ops (power_cycle s) = via_eeprom_is_valid c ops s"
proof -
  have g: "good s" using assms(2) by (simp add: via_holds_def holds_def)
  have ok: "\<forall>x \<in> set [Power_Cycle]. dk_op_ok x" by simp
  show "via_holds c a (power_cycle s)" using run_via_holds[OF assms ok] by simp
  show "via_eeprom_is_valid c ops (power_cycle s) = via_eeprom_is_valid c ops s"
    using valid_same[OF assms(1) g] power_law[OF g] by simp
qed

lemma boot_holds:
  assumes "via_ok c bytes" "via_holds c a s"
  shows "\<exists>t. via_init c ops (power_cycle s) = Some t \<and> via_eeprom_is_valid c ops t = Some True
    \<and> via_holds c (if via_eeprom_is_valid c ops s = Some True then a else default_contents c a) t"
proof -
  note p = power_holds[OF assms]
  have g: "good s" using assms(2) by (simp add: via_holds_def holds_def)
  obtain v where v: "via_eeprom_is_valid c ops s = Some v" using valid_iff[OF g assms(1)] by blast
  have l: "nvm_via_read_layout_options c ops (power_cycle s) = Some (snd a)" using p(1) by (simp add: via_holds_def)
  show ?thesis
  proof (cases v)
    case True
    then show ?thesis using p v l by (simp add: via_init_def)
  next
    case False
    from init_holds[OF assms(1) p(1)] obtain t where "eeconfig_init_via c ops (power_cycle s) = Some t"
      "via_eeprom_is_valid c ops t = Some True" "via_holds c (default_contents c a) t" by (elim exE conjE)
    then show ?thesis using p(2) v l False by (intro exI[of _ t]) (simp add: via_init_def)
  qed
qed

end

text \<open>A session of the host: packets, with the clock, and reboots.\<close>

datatype via_event = Packet "32 word" "8 word list" | Reboot

fun via_event_ok :: "via_event \<Rightarrow> bool" where
  "via_event_ok (Packet now d) \<longleftrightarrow> packet_ok d"
| "via_event_ok Reboot \<longleftrightarrow> True"

fun via_step :: "via_cfg \<Rightarrow> 's eeprom_ops \<Rightarrow> ('s \<Rightarrow> 's) \<Rightarrow> via_event \<Rightarrow> 's \<Rightarrow> ('s \<times> u8 list list) option" where
  "via_step c ops power_cycle (Packet now d) s = map_option (\<lambda>(s, r). (s, [r])) (raw_hid_receive c ops now d s)"
| "via_step c ops power_cycle Reboot s = map_option (\<lambda>s. (s, [])) (via_init c ops (power_cycle s))"

fun via_run :: "via_cfg \<Rightarrow> 's eeprom_ops \<Rightarrow> ('s \<Rightarrow> 's) \<Rightarrow> via_event list \<Rightarrow> 's \<Rightarrow> ('s \<times> u8 list list) option" where
  "via_run c ops power_cycle [] s = Some (s, [])"
| "via_run c ops power_cycle (x # xs) s = do {
     (s, rs) \<leftarrow> via_step c ops power_cycle x s;
     (s, rs') \<leftarrow> via_run c ops power_cycle xs s;
     Some (s, rs @ rs')}"

text \<open>What it leaves, and what the replies are.\<close>

fun via_spec :: "via_cfg \<Rightarrow> via_event \<Rightarrow> dk_contents \<times> u32 \<Rightarrow> dk_contents \<times> u32" where
  "via_spec c (Packet now d) a = via_effect c d a"
| "via_spec c Reboot a = a"

fun via_replies :: "via_cfg \<Rightarrow> via_event list \<Rightarrow> dk_contents \<times> u32 \<Rightarrow> u8 list list \<Rightarrow> bool" where
  "via_replies c [] a rs \<longleftrightarrow> rs = []"
| "via_replies c (Reboot # xs) a rs \<longleftrightarrow> via_replies c xs a rs"
| "via_replies c (Packet now d # xs) a rs \<longleftrightarrow> (case rs of [] \<Rightarrow> False | r # rs \<Rightarrow>
     (case via_answer c d a of None \<Rightarrow> True | Some answer \<Rightarrow> r = answer) \<and> via_replies c xs (via_effect c d a) rs)"

text \<open>What the host reads.\<close>

definition via_shows :: "via_cfg \<Rightarrow> 's eeprom_ops \<Rightarrow> dk_contents \<times> u32 \<Rightarrow> 's \<Rightarrow> bool" where
  "via_shows c ops a s \<longleftrightarrow> shows_contents (via_dk c) ops (fst a) s \<and> nvm_via_read_layout_options c ops s = Some (snd a)"

context persistent_bytes
begin

lemma via_shows_iff:
  assumes "good s" "via_ok c bytes"
  shows "via_shows c ops a s \<longleftrightarrow> via_holds c a s"
  using shows_iff_holds[OF assms(1) via_addresses(1)[OF assms(2)]] by (simp add: via_shows_def via_holds_def)

lemma session_holds:
  assumes "via_ok c bytes" "via_holds c a s" "via_eeprom_is_valid c ops s = Some True" "\<forall>x \<in> set xs. via_event_ok x"
  shows "\<exists>t rs. via_run c ops power_cycle xs s = Some (t, rs) \<and> via_holds c (fold (via_spec c) xs a) t
    \<and> via_eeprom_is_valid c ops t = Some True \<and> via_replies c xs a rs"
  using assms(2-4)
proof (induction xs arbitrary: a s)
  case (Cons x xs)
  show ?case
  proof (cases x)
    case (Packet now d)
    then have "packet_ok d" using Cons.prems(3) by simp
    from packet_holds[OF assms(1) Cons.prems(1) this, of now] Cons.prems(2) obtain t r where
      t: "raw_hid_receive c ops now d s = Some (t, r)" "via_holds c (via_effect c d a) t" "via_eeprom_is_valid c ops t = Some True"
      "\<forall>answer. via_answer c d a = Some answer \<longrightarrow> r = answer" by (elim exE conjE) blast
    obtain u rs where u: "via_run c ops power_cycle xs t = Some (u, rs)"
      "via_holds c (fold (via_spec c) xs (via_effect c d a)) u" "via_eeprom_is_valid c ops u = Some True"
      "via_replies c xs (via_effect c d a) rs"
      using Cons.IH[OF t(2,3)] Cons.prems(3) by auto
    show ?thesis using t(1,4) u Packet by (intro exI[of _ u] exI[of _ "r # rs"]) (simp split: option.split)
  next
    case Reboot
    from boot_holds[OF assms(1) Cons.prems(1)] obtain t where
      t: "via_init c ops (power_cycle s) = Some t" "via_holds c a t" "via_eeprom_is_valid c ops t = Some True"
      using Cons.prems(2) by auto
    obtain u rs where u: "via_run c ops power_cycle xs t = Some (u, rs)" "via_holds c (fold (via_spec c) xs a) u"
      "via_eeprom_is_valid c ops u = Some True" "via_replies c xs a rs"
      using Cons.IH[OF t(2,3)] Cons.prems(3) by auto
    show ?thesis using t(1) u Reboot by (intro exI[of _ u] exI[of _ rs]) simp
  qed
qed simp

lemma session_shows:
  assumes "good s" "via_ok c bytes" "\<forall>x \<in> set xs. via_event_ok x"
  shows "\<exists>b a t u rs. via_shows c ops b s
    \<and> a = (if via_eeprom_is_valid c ops s = Some True then b else default_contents c b)
    \<and> via_init c ops (power_cycle s) = Some t \<and> via_shows c ops a t
    \<and> via_run c ops power_cycle xs t = Some (u, rs) \<and> via_shows c ops (fold (via_spec c) xs a) u \<and> via_replies c xs a rs"
proof -
  obtain b where b: "via_holds c b s" using via_contents_exist[OF assms(1,2)] by blast
  let ?a = "if via_eeprom_is_valid c ops s = Some True then b else default_contents c b"
  obtain t where t: "via_init c ops (power_cycle s) = Some t" "via_eeprom_is_valid c ops t = Some True" "via_holds c ?a t"
    using boot_holds[OF assms(2) b] by (elim exE conjE)
  obtain u rs where u: "via_run c ops power_cycle xs t = Some (u, rs)" "via_holds c (fold (via_spec c) xs ?a) u" "via_replies c xs ?a rs"
    using session_holds[OF assms(2) t(3,2) assms(3)] by (elim exE conjE)
  have "good t" "good u" using t(3) u(2) by (simp_all add: via_holds_def holds_def)
  note iffs = via_shows_iff[OF assms(1,2)] via_shows_iff[OF this(1) assms(2)] via_shows_iff[OF this(2) assms(2)]
  show ?thesis
    by (rule exI[of _ b], rule exI[of _ ?a], rule exI[of _ t], rule exI[of _ u], rule exI[of _ rs], unfold iffs)
      (intro conjI b refl t(1,3) u)
qed

lemma packet_fails_iff:
  assumes "good s" "via_ok c bytes" "length d = 32"
  shows "raw_hid_receive c ops now d s = None \<longleftrightarrow> is_buffer_command (d ! 0) \<and> 28 < unat (d ! 3)"
proof (cases "packet_ok d")
  case True
  obtain a where a: "via_holds c a s" using via_contents_exist[OF assms(1,2)] by blast
  show ?thesis using packet_holds[OF assms(2) a True, of now] True by (auto simp: packet_ok_def)
next
  case False
  then have f: "is_buffer_command (d ! 0)" "28 < unat (d ! 3)" using assms(3) by (auto simp: packet_ok_def)
  then show ?thesis using assms(3) unfolding is_buffer_command_def
    by (elim insertE emptyE) (simp_all add: raw_hid_receive_def receive_get_buffer_def receive_set_buffer_def via_ids Let_def)
qed

end

text \<open>After any history of the EEPROM.\<close>

context resettable_store
begin

lemma session_after_run:
  assumes "valid b" "data b = replicate (WEAR_LEVELING_BACKING_SIZE cfg) 0" "\<not> opened b"
    and "\<forall>e \<in> set es. event_span e < 2 ^ 32" "via_ok c (WEAR_LEVELING_LOGICAL_SIZE cfg)" "\<forall>x \<in> set xs. via_event_ok x"
  shows "\<exists>s b' a t u rs. eeprom_run cfg ops reset stack es (power_up cfg ops junk b) = Some s
    \<and> via_shows c (emulated_eeprom cfg ops stack) b' s
    \<and> a = (if via_eeprom_is_valid c (emulated_eeprom cfg ops stack) s = Some True then b' else default_contents c b')
    \<and> via_init c (emulated_eeprom cfg ops stack) (restart cfg ops reset stack s) = Some t
    \<and> via_shows c (emulated_eeprom cfg ops stack) a t
    \<and> via_run c (emulated_eeprom cfg ops stack) (restart cfg ops reset stack) xs t = Some (u, rs)
    \<and> via_shows c (emulated_eeprom cfg ops stack) (fold (via_spec c) xs a) u \<and> via_replies c xs a rs"
proof -
  obtain s where s: "eeprom_run cfg ops reset stack es (power_up cfg ops junk b) = Some s" "live s"
    using run_from_erased[OF assms(1-4)] by blast
  show ?thesis
    using eeprom_bytes.session_shows[OF s(2) assms(5,6), of stack] by (intro exI[of _ s], unfold s(1) simp_thms)
qed

lemma packet_after_run:
  assumes "valid b" "data b = replicate (WEAR_LEVELING_BACKING_SIZE cfg) 0" "\<not> opened b"
    and "\<forall>e \<in> set es. event_span e < 2 ^ 32" "via_ok c (WEAR_LEVELING_LOGICAL_SIZE cfg)" "length d = 32"
  shows "\<exists>s. eeprom_run cfg ops reset stack es (power_up cfg ops junk b) = Some s
    \<and> (raw_hid_receive c (emulated_eeprom cfg ops stack) now d s = None \<longleftrightarrow> is_buffer_command (d ! 0) \<and> 28 < unat (d ! 3))"
proof -
  obtain s where s: "eeprom_run cfg ops reset stack es (power_up cfg ops junk b) = Some s" "live s"
    using run_from_erased[OF assms(1-4)] by blast
  show ?thesis using s(1) eeprom_bytes.packet_fails_iff[OF s(2) assms(5,6), of stack now] by (intro exI[of _ s] conjI)
qed

end

section \<open>Properties\<close>



text \<open>The small pad under VIA.\<close>

definition small_via :: via_cfg where
  "small_via = \<lparr>via_dk = small_pad, VIA_EEPROM_MAGIC_ADDR = 32, VIA_EEPROM_LAYOUT_OPTIONS_SIZE = 1,
     VIA_EEPROM_LAYOUT_OPTIONS_DEFAULT = 0, VIA_FIRMWARE_VERSION = 0, QMK_KEYCODES_VERSION_BCD = 0,
     QMK_BUILDDATE = map (\<lambda>n. of_nat n) [50, 48, 49, 57, 45, 49, 49, 45, 48, 53], VIA_EEPROM_ALLOW_RESET = True,
     via_matrix_value = \<lambda>_. 0\<rparr>"

lemma small_via_ok: "via_ok small_via 1024"
proof -
  have "list_all (\<lambda>i. QMK_BUILDDATE small_via ! i AND 0x0F \<le> 9) [2, 3, 5, 6, 8, 9]" by (simp add: small_via_def)
  then show ?thesis using small_pad_ok
    by (simp add: via_ok_def VIA_EEPROM_LAYOUT_OPTIONS_ADDR_def) (simp add: small_via_def small_pad_def)
qed

definition small_packet :: "u8 list \<Rightarrow> u8 list" where
  "small_packet d = d @ replicate (32 - length d) 0"



end
