(* ===== verification/Via_Recovery.thy ===== *)
theory Via_Recovery
  imports Via
begin

text \<open>
  Losing power while VIA restores the defaults (\<open>eeconfig_init_via\<close> of quantum/via.c): the EEPROM
  drops every write from some point on, a byte or a block at a time. The magic number is cleared
  first and set last, so that the next boot notices.
\<close>

section \<open>An EEPROM that stops\<close>

definition limited :: "'s eeprom_ops \<Rightarrow> (nat \<times> 's) eeprom_ops" where
  "limited ops = \<lparr>op_eeprom_read_byte = (\<lambda>a (n, s). op_eeprom_read_byte ops a s),
     op_eeprom_update_byte = (\<lambda>a v (n, s). if n = 0 then Some (0, s) else map_option (Pair (n - 1)) (op_eeprom_update_byte ops a v s)),
     op_eeprom_update_block = (\<lambda>v a (n, s). if n = 0 then Some (0, s) else map_option (Pair (n - 1)) (op_eeprom_update_block ops v a s))\<rparr>"

text \<open>The magic number of a build is never that of an erased or cleared EEPROM.\<close>

lemma digits_not_FF:
  assumes "y AND 0x0F \<le> (9 :: u8)"
  shows "push_bit 4 (x AND 0x0F) OR (y AND 0x0F) \<noteq> 0xFF"
proof
  assume eq: "push_bit 4 (x AND 0x0F) OR (y AND 0x0F) = 0xFF"
  have m: "(0x0F :: u8) = mask 4" by (simp add: mask_eq_exp_minus_1)
  have "(push_bit 4 (x AND 0x0F) OR (y AND 0x0F)) AND 0x0F = y AND 0x0F" unfolding m
    by (rule word_eqI_bits) (auto simp: bit_and_iff bit_or_iff bit_push_bit_iff bit_mask_iff)
  then have "y AND 0x0F = 0xFF AND 0x0F" by (simp only: eq)
  also have "(0xFF :: u8) AND 0x0F = 15" by simp
  finally show False using assms by simp
qed

lemma magic_not_cleared:
  assumes "via_ok c n"
  shows "via_magic c 2 \<noteq> 0xFF" "via_magic c 5 \<noteq> 0xFF" "via_magic c 8 \<noteq> 0xFF"
proof -
  have "QMK_BUILDDATE c ! 3 AND 0x0F \<le> 9" "QMK_BUILDDATE c ! 6 AND 0x0F \<le> 9" "QMK_BUILDDATE c ! 9 AND 0x0F \<le> 9"
    using assms by (simp_all add: via_ok_def)
  from this[THEN digits_not_FF] show "via_magic c 2 \<noteq> 0xFF" "via_magic c 5 \<noteq> 0xFF" "via_magic c 8 \<noteq> 0xFF"
    by (simp_all add: via_magic_def)
qed

context persistent_bytes
begin

text \<open>
  A routine and the same routine on the EEPROM that stops: what is left of the budget says whether it
  was completed; below \<open>lo\<close> it changes nothing.
\<close>

definition cut :: "nat \<Rightarrow> ('s \<Rightarrow> 's option) \<Rightarrow> (nat \<times> 's \<Rightarrow> (nat \<times> 's) option) \<Rightarrow> bool" where
  "cut lo f g \<longleftrightarrow> (\<forall>n s. good s \<longrightarrow> (\<exists>m t. g (n, s) = Some (m, t) \<and> good t \<and> (0 < m \<longrightarrow> f s = Some t)
     \<and> (n = 0 \<longrightarrow> m = 0 \<and> t = s) \<and> (\<forall>j < lo. mem t ! j = mem s ! j)))"

lemma cutD:
  assumes "cut lo f g" "good s"
  shows "\<exists>m t. g (n, s) = Some (m, t) \<and> good t \<and> (0 < m \<longrightarrow> f s = Some t) \<and> (n = 0 \<longrightarrow> m = 0 \<and> t = s)
    \<and> (\<forall>j < lo. mem t ! j = mem s ! j)"
  using assms by (simp add: cut_def)

lemma cut_skip: "cut lo Some Some"
  by (simp add: cut_def)

lemma cut_bind:
  assumes "cut lo f g" "cut lo f' g'"
  shows "cut lo (\<lambda>s. Option.bind (f s) f') (\<lambda>s. Option.bind (g s) g')"
  unfolding cut_def
proof (intro allI impI)
  fix n s assume s: "good s"
  obtain m1 t1 where 1: "g (n, s) = Some (m1, t1)" "good t1" "0 < m1 \<longrightarrow> f s = Some t1" "n = 0 \<longrightarrow> m1 = 0 \<and> t1 = s"
    "\<forall>j < lo. mem t1 ! j = mem s ! j" using cutD[OF assms(1) s, of n] by (elim exE conjE)
  obtain m t where 2: "g' (m1, t1) = Some (m, t)" "good t" "0 < m \<longrightarrow> f' t1 = Some t" "m1 = 0 \<longrightarrow> m = 0 \<and> t = t1"
    "\<forall>j < lo. mem t ! j = mem t1 ! j" using cutD[OF assms(2) 1(2), of m1] by (elim exE conjE)
  have "0 < m \<longrightarrow> Option.bind (f s) f' = Some t" using 1(3) 2(3,4) by (cases "m1 = 0") auto
  then show "\<exists>m t. Option.bind (g (n, s)) g' = Some (m, t) \<and> good t \<and> (0 < m \<longrightarrow> Option.bind (f s) f' = Some t)
      \<and> (n = 0 \<longrightarrow> m = 0 \<and> t = s) \<and> (\<forall>j < lo. mem t ! j = mem s ! j)"
    using 1 2 by (intro exI[of _ m] exI[of _ t]) auto
qed

lemma cut_for_each:
  assumes "\<And>x. x \<in> set xs \<Longrightarrow> cut lo (f x) (g x)"
  shows "cut lo (for_each f xs) (for_each g xs)"
  using assms
proof (induction xs)
  case Nil
  then show ?case using cut_skip by (simp add: cut_def for_each_Nil)
next
  case (Cons x xs)
  then have "cut lo (\<lambda>s. Option.bind (f x s) (for_each f xs)) (\<lambda>s. Option.bind (g x s) (for_each g xs))"
    by (intro cut_bind) simp_all
  then show ?case unfolding for_each_Cons[symmetric] .
qed

lemma cut_byte:
  assumes "lo \<le> unat a" "unat a < bytes"
  shows "cut lo (op_eeprom_update_byte ops a v) (op_eeprom_update_byte (limited ops) a v)"
  unfolding cut_def
proof (intro allI impI)
  fix n s assume s: "good s"
  obtain t where t: "op_eeprom_update_byte ops a v s = Some t" "good t" "mem t = (mem s)[unat a := v]"
    using update_law[OF s assms(2)] by blast
  then have "\<forall>j < lo. mem t ! j = mem s ! j" using assms(1) by simp
  then show "\<exists>m t. op_eeprom_update_byte (limited ops) a v (n, s) = Some (m, t) \<and> good t
      \<and> (0 < m \<longrightarrow> op_eeprom_update_byte ops a v s = Some t) \<and> (n = 0 \<longrightarrow> m = 0 \<and> t = s) \<and> (\<forall>j < lo. mem t ! j = mem s ! j)"
    using s t by (cases "n = 0") (simp_all add: limited_def)
qed

lemma cut_block:
  assumes "lo \<le> unat a" "unat a + length vs \<le> bytes"
  shows "cut lo (op_eeprom_update_block ops vs a) (op_eeprom_update_block (limited ops) vs a)"
  unfolding cut_def
proof (intro allI impI)
  fix n s assume s: "good s"
  obtain t where t: "op_eeprom_update_block ops vs a s = Some t" "good t" "mem t = memcpy_at (mem s) (unat a) vs"
    using block_law[OF s assms(2)] by blast
  then have "\<forall>j < lo. mem t ! j = mem s ! j" using assms mem_length[OF s] by (simp add: nth_memcpy_at)
  then show "\<exists>m t. op_eeprom_update_block (limited ops) vs a (n, s) = Some (m, t) \<and> good t
      \<and> (0 < m \<longrightarrow> op_eeprom_update_block ops vs a s = Some t) \<and> (n = 0 \<longrightarrow> m = 0 \<and> t = s) \<and> (\<forall>j < lo. mem t ! j = mem s ! j)"
    using s t by (cases "n = 0") (simp_all add: limited_def)
qed

lemma cut_big_endian:
  assumes "unat (a + 1) = unat a + 1" "lo \<le> unat a" "unat a + 1 < bytes"
  shows "cut lo (update_big_endian ops a w) (update_big_endian (limited ops) a w)"
proof -
  have "cut lo (op_eeprom_update_byte ops a (ucast (drop_bit 8 w))) (op_eeprom_update_byte (limited ops) a (ucast (drop_bit 8 w)))"
    "cut lo (op_eeprom_update_byte ops (a + 1) (ucast (w AND 0xFF))) (op_eeprom_update_byte (limited ops) (a + 1) (ucast (w AND 0xFF)))"
    using assms by (auto intro!: cut_byte)
  from cut_bind[OF this] show ?thesis by (simp add: update_big_endian_def[abs_def])
qed

section \<open>The steps of the reset\<close>

lemma cut_keycode:
  assumes "dk_ok k bytes"
  shows "cut (DYNAMIC_KEYMAP_EEPROM_ADDR k) (nvm_dynamic_keymap_update_keycode k ops l r x w)
    (nvm_dynamic_keymap_update_keycode k (limited ops) l r x w)"
proof (cases "on_keymap k l r x")
  case True
  note a = key_address[OF assms bytes True]
  from cut_big_endian[of "dynamic_keymap_key_to_eeprom_address k l r x" "DYNAMIC_KEYMAP_EEPROM_ADDR k" w]
  have "cut (DYNAMIC_KEYMAP_EEPROM_ADDR k) (update_big_endian ops (dynamic_keymap_key_to_eeprom_address k l r x) w)
      (update_big_endian (limited ops) (dynamic_keymap_key_to_eeprom_address k l r x) w)"
    using a key_slot_range[OF True] by simp
  then show ?thesis using True by (simp add: nvm_dynamic_keymap_update_keycode_def[abs_def])
qed (use cut_skip in \<open>simp add: nvm_dynamic_keymap_update_keycode_def[abs_def]\<close>)

lemma cut_encoder:
  assumes "dk_ok k bytes"
  shows "cut (DYNAMIC_KEYMAP_EEPROM_ADDR k) (nvm_dynamic_keymap_update_encoder k ops l e d w)
    (nvm_dynamic_keymap_update_encoder k (limited ops) l e d w)"
proof (cases "on_encodermap k l e")
  case True
  note a = encoder_address[OF assms bytes True, of d]
  let ?a = "dynamic_keymap_encoder_to_eeprom_address k l e + (if d then 0 else 2)"
  have "DYNAMIC_KEYMAP_EEPROM_ADDR k \<le> encoder_slot k l e d"
    using encoder_slot_range[OF True, of d] encoder_area[of k] by linarith
  then have "cut (DYNAMIC_KEYMAP_EEPROM_ADDR k) (update_big_endian ops ?a w) (update_big_endian (limited ops) ?a w)"
    using cut_big_endian[of ?a "DYNAMIC_KEYMAP_EEPROM_ADDR k" w] a by simp
  then show ?thesis using True by (simp add: nvm_dynamic_keymap_update_encoder_def[abs_def])
qed (use cut_skip in \<open>simp add: nvm_dynamic_keymap_update_encoder_def[abs_def]\<close>)

lemma cut_keymap:
  assumes "dk_ok k bytes"
  shows "cut (DYNAMIC_KEYMAP_EEPROM_ADDR k) (dynamic_keymap_reset k ops) (dynamic_keymap_reset k (limited ops))"
  unfolding dynamic_keymap_reset_def[abs_def]
  by (intro cut_for_each cut_bind cut_keycode[OF assms] cut_encoder[OF assms])

lemma cut_macros:
  assumes "dk_ok k bytes"
  shows "cut (DYNAMIC_KEYMAP_EEPROM_ADDR k) (nvm_dynamic_keymap_macro_reset k ops) (nvm_dynamic_keymap_macro_reset k (limited ops))"
proof -
  define b n where bn: "b = DYNAMIC_KEYMAP_MACRO_EEPROM_ADDR k" "n = DYNAMIC_KEYMAP_MACRO_EEPROM_SIZE k"
  have fit: "b + n \<le> bytes" and lo: "DYNAMIC_KEYMAP_EEPROM_ADDR k \<le> b"
    using areas_fit(1,4)[OF assms bytes] encoder_area[of k] by (simp_all add: bn)
  have "cut (DYNAMIC_KEYMAP_EEPROM_ADDR k) (op_eeprom_update_block ops (replicate (min 16 (n - i)) 0) (of_nat (b + i)))
      (op_eeprom_update_block (limited ops) (replicate (min 16 (n - i)) 0) (of_nat (b + i)))"
    if "i \<in> set (map ((*) 16) [0..<(n + 15) div 16])" for i
  proof (rule cut_block)
    have lt: "i < n" using that by auto
    have a: "unat (of_nat (b + i) :: u32) = b + i" by (rule unat_of_nat_32) (use fit lt bytes in simp)
    show "DYNAMIC_KEYMAP_EEPROM_ADDR k \<le> unat (of_nat (b + i) :: u32)" using lo a by simp
    show "unat (of_nat (b + i) :: u32) + length (replicate (min 16 (n - i)) (0 :: u8)) \<le> bytes" using fit lt a by simp
  qed
  from cut_for_each[OF this] show ?thesis
    unfolding nvm_dynamic_keymap_macro_reset_def[abs_def] Let_def bn[symmetric] .
qed

lemma cut_options:
  assumes "via_ok c bytes"
  shows "cut (VIA_EEPROM_LAYOUT_OPTIONS_ADDR c) (nvm_via_update_layout_options c ops v) (nvm_via_update_layout_options c (limited ops) v)"
  unfolding nvm_via_update_layout_options_def
proof (rule cut_for_each)
  fix i assume "i \<in> set [0..<VIA_EEPROM_LAYOUT_OPTIONS_SIZE c]"
  then have i: "VIA_EEPROM_LAYOUT_OPTIONS_ADDR c \<le> VIA_EEPROM_LAYOUT_OPTIONS_ADDR c + VIA_EEPROM_LAYOUT_OPTIONS_SIZE c - 1 - i"
    "VIA_EEPROM_LAYOUT_OPTIONS_ADDR c + VIA_EEPROM_LAYOUT_OPTIONS_SIZE c - 1 - i < DYNAMIC_KEYMAP_EEPROM_ADDR (via_dk c)"
    using via_addresses(2)[OF assms] by auto
  let ?a = "of_nat (VIA_EEPROM_LAYOUT_OPTIONS_ADDR c + VIA_EEPROM_LAYOUT_OPTIONS_SIZE c - 1 - i) :: u32"
  have "unat ?a = VIA_EEPROM_LAYOUT_OPTIONS_ADDR c + VIA_EEPROM_LAYOUT_OPTIONS_SIZE c - 1 - i" "unat ?a < bytes"
    using via_addresses(4)[OF assms i(2)] by auto
  then show "cut (VIA_EEPROM_LAYOUT_OPTIONS_ADDR c) (op_eeprom_update_byte ops ?a (ucast (drop_bit (8 * i) v AND 0xFF)))
      (op_eeprom_update_byte (limited ops) ?a (ucast (drop_bit (8 * i) v AND 0xFF)))"
    using i(1) by (intro cut_byte) simp_all
qed

lemma cut_mono: "cut hi f g \<Longrightarrow> lo \<le> hi \<Longrightarrow> cut lo f g"
  unfolding cut_def by (meson less_le_trans)

lemma magic_limited:
  assumes "good s" "via_ok c bytes"
  shows "\<exists>t. nvm_via_update_magic c (limited ops) m0 m1 m2 (n, s) = Some (n - 3, t) \<and> good t
    \<and> (2 < n \<longrightarrow> nvm_via_update_magic c ops m0 m1 m2 s = Some t) \<and> (n = 0 \<longrightarrow> t = s)
    \<and> mem t = (let M = VIA_EEPROM_MAGIC_ADDR c in
        if n = 0 then mem s else if n = 1 then (mem s)[M := m0] else if n = 2 then (mem s)[M := m0, M + 1 := m1]
        else (mem s)[M := m0, M + 1 := m1, M + 2 := m2])"
proof -
  let ?M = "VIA_EEPROM_MAGIC_ADDR c"
  have M: "?M < bytes" "?M + 1 < bytes" "?M + 2 < bytes" using magic_below[OF assms(2)] via_addresses(3)[OF assms(2)] by simp_all
  obtain s1 where s1: "op_eeprom_update_byte ops (of_nat ?M) m0 s = Some s1" "good s1" "mem s1 = (mem s)[?M := m0]"
    using update_at[OF assms(1) M(1)] by blast
  obtain s2 where s2: "op_eeprom_update_byte ops (of_nat (?M + 1)) m1 s1 = Some s2" "good s2" "mem s2 = (mem s1)[?M + 1 := m1]"
    using update_at[OF s1(2) M(2)] by blast
  obtain s3 where s3: "op_eeprom_update_byte ops (of_nat (?M + 2)) m2 s2 = Some s3" "good s3" "mem s3 = (mem s2)[?M + 2 := m2]"
    using update_at[OF s2(2) M(3)] by blast
  consider "n = 0" | "n = 1" | "n = 2" | "2 < n" by linarith
  then show ?thesis
  proof cases
    case 1
    then show ?thesis using assms(1) by (simp add: nvm_via_update_magic_def limited_def Let_def)
  next
    case 2
    then show ?thesis using s1 by (intro exI[of _ s1]) (simp add: nvm_via_update_magic_def limited_def Let_def)
  next
    case 3
    then show ?thesis using s1 s2 by (intro exI[of _ s2]) (simp add: nvm_via_update_magic_def limited_def Let_def ac_simps)
  next
    case 4
    then show ?thesis using s1 s2 s3 by (intro exI[of _ s3]) (simp add: nvm_via_update_magic_def limited_def Let_def ac_simps)
  qed
qed

section \<open>The whole reset\<close>

lemma init_interrupted:
  assumes "good s" "via_ok c bytes"
  shows "\<exists>m t. eeconfig_init_via c (limited ops) (n, s) = Some (m, t) \<and> good t
    \<and> (via_eeprom_is_valid c ops t = Some True \<longrightarrow> eeconfig_init_via c ops s = Some t \<or> n = 0 \<and> t = s)
    \<and> (n = 0 \<longrightarrow> t = s)"
proof -
  let ?M = "VIA_EEPROM_MAGIC_ADDR c" and ?D = "VIA_EEPROM_LAYOUT_OPTIONS_DEFAULT c"
  define f where "f ops' s' = Option.bind (nvm_via_update_layout_options c ops' ?D s')
    (\<lambda>s'. Option.bind (dynamic_keymap_reset (via_dk c) ops' s') (nvm_dynamic_keymap_macro_reset (via_dk c) ops'))"
    for ops' :: "'s eeprom_ops" and s'
  define g where "g ops' s' = Option.bind (nvm_via_update_layout_options c ops' ?D s')
    (\<lambda>s'. Option.bind (dynamic_keymap_reset (via_dk c) ops' s') (nvm_dynamic_keymap_macro_reset (via_dk c) ops'))"
    for ops' :: "(nat \<times> 's) eeprom_ops" and s'
  note dk = via_addresses(1)[OF assms(2)] and no = magic_not_cleared[OF assms(2)]
  have le: "VIA_EEPROM_LAYOUT_OPTIONS_ADDR c \<le> DYNAMIC_KEYMAP_EEPROM_ADDR (via_dk c)" using via_addresses(2)[OF assms(2)] by simp
  have "cut (VIA_EEPROM_LAYOUT_OPTIONS_ADDR c) (f ops) (g (limited ops))" unfolding f_def[abs_def] g_def[abs_def]
    by (intro cut_bind cut_options[OF assms(2)] cut_mono[OF cut_keymap[OF dk] le] cut_mono[OF cut_macros[OF dk] le])
  note body = cutD[OF this]
  have whole: "eeconfig_init_via c ops s' = Option.bind (nvm_via_update_magic c ops 0xFF 0xFF 0xFF s')
      (\<lambda>s'. Option.bind (f ops s') (nvm_via_update_magic c ops (via_magic c 2) (via_magic c 5) (via_magic c 8)))"
    "eeconfig_init_via c (limited ops) p = Option.bind (nvm_via_update_magic c (limited ops) 0xFF 0xFF 0xFF p)
      (\<lambda>p. Option.bind (g (limited ops) p) (nvm_via_update_magic c (limited ops) (via_magic c 2) (via_magic c 5) (via_magic c 8)))"
    for s' p by (simp_all add: eeconfig_init_via_def via_eeprom_set_valid_def f_def g_def cong: bind_option_cong)
  obtain t1 where 1: "nvm_via_update_magic c (limited ops) 0xFF 0xFF 0xFF (n, s) = Some (n - 3, t1)" "good t1"
    "2 < n \<longrightarrow> nvm_via_update_magic c ops 0xFF 0xFF 0xFF s = Some t1" "n = 0 \<longrightarrow> t1 = s"
    "mem t1 = (let M = ?M in if n = 0 then mem s else if n = 1 then (mem s)[M := 0xFF] else if n = 2 then (mem s)[M := 0xFF, M + 1 := 0xFF]
        else (mem s)[M := 0xFF, M + 1 := 0xFF, M + 2 := 0xFF])" using magic_limited[OF assms, of "0xFF" "0xFF" "0xFF" n] by (elim exE conjE)
  obtain m2 t2 where 2: "g (limited ops) (n - 3, t1) = Some (m2, t2)" "good t2" "0 < m2 \<longrightarrow> f ops t1 = Some t2"
    "n - 3 = 0 \<longrightarrow> m2 = 0 \<and> t2 = t1" "\<forall>j < VIA_EEPROM_LAYOUT_OPTIONS_ADDR c. mem t2 ! j = mem t1 ! j"
    using body[OF 1(2), of "n - 3"] by (elim exE conjE)
  obtain t where 3: "nvm_via_update_magic c (limited ops) (via_magic c 2) (via_magic c 5) (via_magic c 8) (m2, t2) = Some (m2 - 3, t)"
    "good t" "2 < m2 \<longrightarrow> nvm_via_update_magic c ops (via_magic c 2) (via_magic c 5) (via_magic c 8) t2 = Some t" "m2 = 0 \<longrightarrow> t = t2"
    "mem t = (let M = ?M in if m2 = 0 then mem t2 else if m2 = 1 then (mem t2)[M := via_magic c 2]
        else if m2 = 2 then (mem t2)[M := via_magic c 2, M + 1 := via_magic c 5]
        else (mem t2)[M := via_magic c 2, M + 1 := via_magic c 5, M + 2 := via_magic c 8])"
    using magic_limited[OF 2(2) assms(2), of "via_magic c 2" "via_magic c 5" "via_magic c 8" m2] by (elim exE conjE)
  have below: "?M < length (mem s)" "Suc ?M < length (mem s)" "Suc (Suc ?M) < length (mem s)"
    using magic_below[OF assms(2)] via_addresses(3)[OF assms(2)] mem_length[OF assms(1)] by simp_all
  have lens: "length (mem t1) = length (mem s)" "length (mem t2) = length (mem s)"
    using mem_length[OF assms(1)] mem_length[OF 1(2)] mem_length[OF 2(2)] by simp_all
  have at: "mem t2 ! ?M = mem t1 ! ?M" "mem t2 ! Suc ?M = mem t1 ! Suc ?M" "mem t2 ! Suc (Suc ?M) = mem t1 ! Suc (Suc ?M)"
    using 2(5) by (simp_all add: VIA_EEPROM_LAYOUT_OPTIONS_ADDR_def)
  have "via_eeprom_is_valid c ops t = Some True \<longrightarrow> eeconfig_init_via c ops s = Some t \<or> n = 0 \<and> t = s"
  proof (cases "2 < m2")
    case True
    then have "2 < n" "0 < m2" using 2(4) by auto
    then show ?thesis using 1(3) 2(3) 3(3) True by (simp add: whole(1))
  next
    case False
    show ?thesis
    proof (cases "n = 0")
      case True
      then show ?thesis using 1(4) 2(4) 3(4) by simp
    next
      case n: False
      have "via_eeprom_is_valid c ops t \<noteq> Some True"
      proof (cases "m2 = 0")
        case True
        have "mem t1 ! ?M = 0xFF" using n below by (simp add: 1(5) Let_def)
        then show ?thesis using True 3(4) no no[symmetric] by (simp add: valid_iff[OF 2(2) assms(2)] at)
      next
        case m: False
        then have "\<not> n \<le> 3" using 2(4) by auto
        then have "mem t1 ! Suc (Suc ?M) = 0xFF" using below by (simp add: 1(5) Let_def)
        moreover have "mem t ! Suc (Suc ?M) = mem t2 ! Suc (Suc ?M)" using m False by (simp add: 3(5) Let_def)
        ultimately show ?thesis using no no[symmetric] at(3) by (simp add: valid_iff[OF 3(2) assms(2)])
      qed
      then show ?thesis by simp
    qed
  qed
  moreover have "n = 0 \<longrightarrow> t = s" using 1(4) 2(4) 3(4) by simp
  ultimately show ?thesis using 1(1) 2(1) 3(1,2) by (intro exI[of _ "m2 - 3"] exI[of _ t]) (simp add: whole(2))
qed

lemma default_contents_same:
  assumes "via_ok c bytes" "via_holds c a s" "via_holds c b t"
  shows "default_contents c a = default_contents c b"
proof -
  have "good s" "good t" "spec_macros (fst a) = macro_bytes (via_dk c) s" "spec_macros (fst b) = macro_bytes (via_dk c) t"
    using assms(2,3) by (simp_all add: via_holds_def holds_def)
  then have "length (spec_macros (fst a)) = length (spec_macros (fst b))"
    using macro_bytes_nth[OF _ via_addresses(1)[OF assms(1)]] by simp
  then show ?thesis by (simp add: default_contents_def)
qed

lemma reset_recovers:
  assumes "good s" "via_ok c bytes"
  shows "\<exists>b m t u. via_shows c ops b s \<and> eeconfig_init_via c (limited ops) (n, s) = Some (m, t)
    \<and> via_init c ops (power_cycle t) = Some u \<and> via_eeprom_is_valid c ops u = Some True
    \<and> via_shows c ops (if n = 0 \<and> via_eeprom_is_valid c ops s = Some True then b else default_contents c b) u"
proof -
  obtain b where b: "via_holds c b s" using via_contents_exist[OF assms] by blast
  obtain m t where t: "eeconfig_init_via c (limited ops) (n, s) = Some (m, t)" "good t"
    "via_eeprom_is_valid c ops t = Some True \<longrightarrow> eeconfig_init_via c ops s = Some t \<or> n = 0 \<and> t = s" "n = 0 \<longrightarrow> t = s"
    using init_interrupted[OF assms, of n] by (elim exE conjE)
  let ?kept = "n = 0 \<and> via_eeprom_is_valid c ops s = Some True"
  have "\<exists>a. via_holds c a t \<and> (if via_eeprom_is_valid c ops t = Some True then a else default_contents c a)
      = (if ?kept then b else default_contents c b)"
  proof (cases "n = 0")
    case True
    then show ?thesis using b t(4) by (intro exI[of _ b]) simp
  next
    case n: False
    show ?thesis
    proof (cases "via_eeprom_is_valid c ops t = Some True")
      case True
      have "via_holds c (default_contents c b) t" using init_holds[OF assms(2) b] t(3) True n by auto
      then show ?thesis using True n by (intro exI[of _ "default_contents c b"]) simp
    next
      case False
      obtain a where a: "via_holds c a t" using via_contents_exist[OF t(2) assms(2)] by blast
      show ?thesis using a False n default_contents_same[OF assms(2) a b] by (intro exI[of _ a]) simp
    qed
  qed
  then obtain a where a: "via_holds c a t" "(if via_eeprom_is_valid c ops t = Some True then a else default_contents c a)
      = (if ?kept then b else default_contents c b)" by (elim exE conjE)
  obtain u where u: "via_init c ops (power_cycle t) = Some u" "via_eeprom_is_valid c ops u = Some True"
    "via_holds c (if ?kept then b else default_contents c b) u"
    using boot_holds[OF assms(2) a(1)] unfolding a(2) by (elim exE conjE)
  have "good u" using u(3) unfolding via_holds_def holds_def by (elim conjE)
  note iffs = via_shows_iff[OF assms] via_shows_iff[OF this assms(2)]
  show ?thesis
    by (rule exI[of _ b], rule exI[of _ m], rule exI[of _ t], rule exI[of _ u], unfold iffs) (intro conjI b t(1) u)
qed

end

text \<open>After any history of the EEPROM.\<close>

context resettable_store
begin

lemma reset_after_run:
  assumes "valid b" "data b = replicate (WEAR_LEVELING_BACKING_SIZE cfg) 0" "\<not> opened b"
    and "\<forall>e \<in> set es. event_span e < 2 ^ 32" "via_ok c (WEAR_LEVELING_LOGICAL_SIZE cfg)"
  shows "\<exists>s. eeprom_run cfg ops reset stack es (power_up cfg ops junk b) = Some s
    \<and> (\<exists>b' m t u. via_shows c (emulated_eeprom cfg ops stack) b' s
      \<and> eeconfig_init_via c (limited (emulated_eeprom cfg ops stack)) (n, s) = Some (m, t)
      \<and> via_init c (emulated_eeprom cfg ops stack) (restart cfg ops reset stack t) = Some u
      \<and> via_eeprom_is_valid c (emulated_eeprom cfg ops stack) u = Some True
      \<and> via_shows c (emulated_eeprom cfg ops stack)
          (if n = 0 \<and> via_eeprom_is_valid c (emulated_eeprom cfg ops stack) s = Some True then b' else default_contents c b') u)"
proof -
  obtain s where s: "eeprom_run cfg ops reset stack es (power_up cfg ops junk b) = Some s" "live s"
    using run_from_erased[OF assms(1-4)] by blast
  show ?thesis by (rule exI[of _ s], rule conjI[OF s(1)]) (rule eeprom_bytes.reset_recovers[OF s(2) assms(5)])
qed

end

section \<open>Properties\<close>

text \<open>
  C17. Restoring the defaults survives a loss of power at any write: whatever the history of the EEPROM
  and after however many writes the reset stops, the next boot leaves the defaults, with the magic
  number set. Only if no write came through and the EEPROM was valid, the old contents stay; a mix
  of both never does.
\<close>

theorem via_reset_crash_safe:
  assumes "erased_flash m kb f" "\<forall>e \<in> set es. event_span e < 2 ^ 32" "via_ok c 1024"
  shows "\<exists>s. eeprom_run (legacy_wear_cfg m) (eeprom_on m flash_base kb) mock_Lock stack es
        (power_up (legacy_wear_cfg m) (eeprom_on m flash_base kb) junk f) = Some s
    \<and> (\<exists>b left t u. via_shows c (eeprom_bytes_on m flash_base kb stack) b s
      \<and> eeconfig_init_via c (limited (eeprom_bytes_on m flash_base kb stack)) (n, s) = Some (left, t)
      \<and> via_init c (eeprom_bytes_on m flash_base kb stack) (restart_on m flash_base kb stack t) = Some u
      \<and> via_eeprom_is_valid c (eeprom_bytes_on m flash_base kb stack) u = Some True
      \<and> via_shows c (eeprom_bytes_on m flash_base kb stack)
          (if n = 0 \<and> via_eeprom_is_valid c (eeprom_bytes_on m flash_base kb stack) s = Some True then b
           else default_contents c b) u)"
  using mock_eeprom.reset_after_run[of kb f m es c flash_base stack junk n, unfolded legacy_logical_size] assms
  by (simp add: erased_flash_def mock_opened_def legacy_wear_cfg_def)

theorem via_reset_crash_safe_witness:
  "\<exists>s left t u. eeprom_run (legacy_wear_cfg STM32F042) (eeprom_on STM32F042 0x08000000 64) mock_Lock (\<lambda>_. 0) []
        (power_up (legacy_wear_cfg STM32F042) (eeprom_on STM32F042 0x08000000 64) [] blank_flash) = Some s
    \<and> eeconfig_init_via small_via (limited (eeprom_bytes_on STM32F042 0x08000000 64 (\<lambda>_. 0))) (5, s) = Some (left, t)
    \<and> via_init small_via (eeprom_bytes_on STM32F042 0x08000000 64 (\<lambda>_. 0)) (restart_on STM32F042 0x08000000 64 (\<lambda>_. 0) t) = Some u
    \<and> keycode_at_keymap_location small_pad (eeprom_bytes_on STM32F042 0x08000000 64 (\<lambda>_. 0)) 1 0 1 u = Some 4"
proof -
  let ?e = "eeprom_bytes_on STM32F042 0x08000000 64 (\<lambda>_. 0)"
  have none: "\<forall>e \<in> set []. event_span e < 2 ^ 32" by simp
  from via_reset_crash_safe[OF blank_flash_erased none small_via_ok, of STM32F042 "0x08000000" "\<lambda>_. 0" "[]" 5]
  obtain s b left t u where
    "eeprom_run (legacy_wear_cfg STM32F042) (eeprom_on STM32F042 0x08000000 64) mock_Lock (\<lambda>_. 0) []
        (power_up (legacy_wear_cfg STM32F042) (eeprom_on STM32F042 0x08000000 64) [] blank_flash) = Some s"
    "eeconfig_init_via small_via (limited ?e) (5, s) = Some (left, t)"
    "via_init small_via ?e (restart_on STM32F042 0x08000000 64 (\<lambda>_. 0) t) = Some u"
    "via_shows small_via ?e (if 5 = (0 :: nat) \<and> via_eeprom_is_valid small_via ?e s = Some True then b
      else default_contents small_via b) u" by (elim exE conjE)
  moreover from this(4) have "keycode_at_keymap_location small_pad ?e 1 0 1 u = Some 4"
    by (simp add: via_shows_def shows_contents_def default_contents_def small_via_def on_keymap_def) (simp add: small_pad_def)
  ultimately show ?thesis by blast
qed

end
