(* ===== verification/Unicode.thy ===== *)
theory Unicode
  imports Send_String "HOL-Library.Monad_Syntax"
begin

text \<open>
  Unicode input (quantum/unicode/utf8.c and unicode.c, with the modified keycodes of
  quantum/quantum.c): code points are typed as hexadecimal digits that the input method of the
  host puts together. A string is a list of bytes with its terminator; None means that it was
  read past its end.
\<close>

section \<open>UTF-8\<close>

text \<open>The code point, -1 if there is none, and the rest of the string.\<close>

definition six :: "u8 \<Rightarrow> u32" where
  "six b = ucast (b AND 0x3F)"

definition decode_utf8 :: "u8 list \<Rightarrow> (int \<times> u8 list) option" where
  "decode_utf8 str = map_option (\<lambda>(code_point, next). (if 0xD800 \<le> code_point \<and> code_point \<le> 0xDFFF then -1 else code_point, next))
     (case str of
        [] \<Rightarrow> None
      | b0 # str \<Rightarrow>
          if b0 < 0x80 then Some (uint b0, str)
          else if b0 AND 0xE0 = 0xC0 then
            (case str of b1 # str \<Rightarrow> Some (uint (push_bit 6 (ucast (b0 AND 0x1F)) OR six b1), str) | _ \<Rightarrow> None)
          else if b0 AND 0xF0 = 0xE0 then
            (case str of b1 # b2 # str \<Rightarrow>
               Some (uint (push_bit 12 (ucast (b0 AND 0x0F)) OR push_bit 6 (six b1) OR six b2), str) | _ \<Rightarrow> None)
          else if b0 AND 0xF8 = 0xF0 \<and> b0 \<le> 0xF4 then
            (case str of b1 # b2 # b3 # str \<Rightarrow>
               Some (uint (push_bit 18 (ucast (b0 AND 0x07)) OR push_bit 12 (six b1) OR push_bit 6 (six b2) OR six b3), str) | _ \<Rightarrow> None)
          else Some (-1, str))"

section \<open>Keys\<close>

record led_t =
  num_lock :: bool
  caps_lock :: bool

text \<open>The operations on the keyboard that typing uses; \<open>uo_typing\<close> has those of strings.\<close>

record 'e unicode_ops =
  uo_typing :: "'e ss_ops"
  uo_register_mods :: "8 word \<Rightarrow> 'e \<Rightarrow> 'e"
  uo_unregister_mods :: "8 word \<Rightarrow> 'e \<Rightarrow> 'e"
  uo_register_weak_mods :: "8 word \<Rightarrow> 'e \<Rightarrow> 'e"
  uo_unregister_weak_mods :: "8 word \<Rightarrow> 'e \<Rightarrow> 'e"
  uo_get_mods :: "'e \<Rightarrow> 8 word"
  uo_set_mods :: "8 word \<Rightarrow> 'e \<Rightarrow> 'e"
  uo_clear_mods :: "'e \<Rightarrow> 'e"
  uo_clear_weak_mods :: "'e \<Rightarrow> 'e"
  host_keyboard_led_state :: "'e \<Rightarrow> led_t"

definition extract_mod_bits :: "u16 \<Rightarrow> u8" where
  "extract_mod_bits code =
     (if \<not> (0x0100 \<le> code \<and> code \<le> 0x1FFF) then 0
      else
        let left = (if code AND 0x0100 \<noteq> 0 then BIT 0 else 0) OR (if code AND 0x0200 \<noteq> 0 then BIT 1 else 0)
              OR (if code AND 0x0400 \<noteq> 0 then BIT 2 else 0) OR (if code AND 0x0800 \<noteq> 0 then BIT 3 else 0)
        in if code AND 0x1000 \<noteq> 0 then push_bit 4 left else left)"

definition mods_only :: "u16 \<Rightarrow> bool" where
  "mods_only code \<longleftrightarrow> 0xE0 \<le> code \<and> code \<le> 0xE7 \<or> code = 0"

definition register_code16 :: "'e unicode_ops \<Rightarrow> u16 \<Rightarrow> 'e \<Rightarrow> 'e" where
  "register_code16 ops code e =
     (let e = (if mods_only code then uo_register_mods ops (extract_mod_bits code) e
               else uo_register_weak_mods ops (extract_mod_bits code) e)
      in ss_register_code (uo_typing ops) (ucast code) e)"

definition unregister_code16 :: "'e unicode_ops \<Rightarrow> u16 \<Rightarrow> 'e \<Rightarrow> 'e" where
  "unregister_code16 ops code e =
     (let e = ss_unregister_code (uo_typing ops) (ucast code) e
      in if mods_only code then uo_unregister_mods ops (extract_mod_bits code) e
         else uo_unregister_weak_mods ops (extract_mod_bits code) e)"

definition tap_code16_delay :: "'e unicode_ops \<Rightarrow> u16 \<Rightarrow> nat \<Rightarrow> 'e \<Rightarrow> 'e" where
  "tap_code16_delay ops code delay e = unregister_code16 ops code (ss_wait_ms (uo_typing ops) delay (register_code16 ops code e))"

record unicode_cfg =
  UNICODE_TYPE_DELAY :: nat
  UC_TAP_CODE_DELAY :: nat
  UC_TAP_HOLD_CAPS_DELAY :: nat

definition UC_CAPS_LOCK :: u8 where "UC_CAPS_LOCK = 0x39"

definition tap_code16 :: "unicode_cfg \<Rightarrow> 'e unicode_ops \<Rightarrow> u16 \<Rightarrow> 'e \<Rightarrow> 'e" where
  "tap_code16 c ops code = tap_code16_delay ops code (if code = ucast UC_CAPS_LOCK then UC_TAP_HOLD_CAPS_DELAY c else UC_TAP_CODE_DELAY c)"

section \<open>Input sequences\<close>

datatype unicode_input_modes = UNICODE_MODE_MACOS | UNICODE_MODE_LINUX | UNICODE_MODE_WINDOWS | UNICODE_MODE_BSD
  | UNICODE_MODE_WINCOMPOSE | UNICODE_MODE_EMACS

definition LCTL :: "u16 \<Rightarrow> u16" where "LCTL kc = 0x0100 OR kc"
definition LSFT :: "u16 \<Rightarrow> u16" where "LSFT kc = 0x0200 OR kc"

definition UNICODE_KEY_MAC :: u8 where "UNICODE_KEY_MAC = 0xE2"
definition UNICODE_KEY_LNX :: u16 where "UNICODE_KEY_LNX = LCTL (LSFT 0x18)"
definition UNICODE_KEY_WINC :: u8 where "UNICODE_KEY_WINC = 0xE6"
definition UC_NUM_LOCK :: u8 where "UC_NUM_LOCK = 0x53"
definition UC_LEFT_ALT :: u8 where "UC_LEFT_ALT = 0xE2"
definition UC_KP_PLUS :: u8 where "UC_KP_PLUS = 0x57"
definition UC_KP_1 :: u8 where "UC_KP_1 = 0x59"
definition UC_A :: u8 where "UC_A = 0x04"
definition UC_U :: u8 where "UC_U = 0x18"
definition UC_ENTER :: u8 where "UC_ENTER = 0x28"
definition UC_SPACE :: u8 where "UC_SPACE = 0x2C"
definition UC_ESCAPE :: u8 where "UC_ESCAPE = 0x29"

text \<open>\<open>unicode_saved_mods\<close> and \<open>unicode_saved_led_state\<close> are passed from the start to the end.\<close>

definition unicode_input_start :: "unicode_cfg \<Rightarrow> 'e unicode_ops \<Rightarrow> unicode_input_modes \<Rightarrow> 'e \<Rightarrow> (u8 \<times> led_t) \<times> 'e" where
  "unicode_input_start c ops mode e =
     (let t = uo_typing ops; led = host_keyboard_led_state ops e;
          e = (if mode = UNICODE_MODE_LINUX \<and> caps_lock led then ss_tap_code t UC_CAPS_LOCK e else e);
          saved = uo_get_mods ops e;
          e = uo_clear_weak_mods ops (uo_clear_mods ops e);
          e = (case mode of
              UNICODE_MODE_MACOS \<Rightarrow> ss_register_code t UNICODE_KEY_MAC e
            | UNICODE_MODE_LINUX \<Rightarrow> tap_code16 c ops UNICODE_KEY_LNX e
            | UNICODE_MODE_WINDOWS \<Rightarrow>
                ss_tap_code t UC_KP_PLUS (ss_wait_ms t (UNICODE_TYPE_DELAY c) (ss_register_code t UC_LEFT_ALT
                  (if num_lock led then e else ss_tap_code t UC_NUM_LOCK e)))
            | UNICODE_MODE_WINCOMPOSE \<Rightarrow> ss_tap_code t UC_U (ss_tap_code t UNICODE_KEY_WINC e)
            | UNICODE_MODE_EMACS \<Rightarrow> tap_code16 c ops 0x28 (tap_code16 c ops 0x25 (tap_code16 c ops (LCTL 0x1B) e))
            | UNICODE_MODE_BSD \<Rightarrow> e)
      in ((saved, led), ss_wait_ms t (UNICODE_TYPE_DELAY c) e))"

definition unicode_input_finish :: "unicode_cfg \<Rightarrow> 'e unicode_ops \<Rightarrow> unicode_input_modes \<Rightarrow> u8 \<times> led_t \<Rightarrow> 'e \<Rightarrow> 'e" where
  "unicode_input_finish c ops mode saved e =
     (let t = uo_typing ops; led = snd saved;
          e = (case mode of
              UNICODE_MODE_MACOS \<Rightarrow> ss_unregister_code t UNICODE_KEY_MAC e
            | UNICODE_MODE_LINUX \<Rightarrow>
                let e = ss_tap_code t UC_SPACE e in if caps_lock led then ss_tap_code t UC_CAPS_LOCK e else e
            | UNICODE_MODE_WINDOWS \<Rightarrow>
                let e = ss_unregister_code t UC_LEFT_ALT e in if num_lock led then e else ss_tap_code t UC_NUM_LOCK e
            | UNICODE_MODE_WINCOMPOSE \<Rightarrow> ss_tap_code t UC_ENTER e
            | UNICODE_MODE_EMACS \<Rightarrow> tap_code16 c ops (ucast UC_ENTER) e
            | UNICODE_MODE_BSD \<Rightarrow> e)
      in uo_set_mods ops (fst saved) e)"

definition unicode_input_cancel :: "unicode_cfg \<Rightarrow> 'e unicode_ops \<Rightarrow> unicode_input_modes \<Rightarrow> u8 \<times> led_t \<Rightarrow> 'e \<Rightarrow> 'e" where
  "unicode_input_cancel c ops mode saved e =
     (let t = uo_typing ops; led = snd saved;
          e = (case mode of
              UNICODE_MODE_MACOS \<Rightarrow> ss_unregister_code t UNICODE_KEY_MAC e
            | UNICODE_MODE_LINUX \<Rightarrow>
                let e = ss_tap_code t UC_ESCAPE e in if caps_lock led then ss_tap_code t UC_CAPS_LOCK e else e
            | UNICODE_MODE_WINDOWS \<Rightarrow>
                let e = ss_unregister_code t UC_LEFT_ALT e in if num_lock led then e else ss_tap_code t UC_NUM_LOCK e
            | UNICODE_MODE_WINCOMPOSE \<Rightarrow> ss_tap_code t UC_ESCAPE e
            | UNICODE_MODE_EMACS \<Rightarrow> tap_code16 c ops (LCTL 0x0A) e
            | UNICODE_MODE_BSD \<Rightarrow> e)
      in uo_set_mods ops (fst saved) e)"

definition send_nibble :: "'e ss_ops \<Rightarrow> nat \<Rightarrow> u8 \<Rightarrow> 'e \<Rightarrow> 'e option" where
  "send_nibble t interval number =
     (if number AND 0xF \<le> 9 then send_char_with_delay t interval (number + 48)
      else send_char_with_delay t interval (number - 10 + 97))"

definition send_nibble_wrapper :: "unicode_cfg \<Rightarrow> 'e unicode_ops \<Rightarrow> unicode_input_modes \<Rightarrow> u8 \<Rightarrow> 'e \<Rightarrow> 'e option" where
  "send_nibble_wrapper c ops mode digit e =
     (if mode = UNICODE_MODE_WINDOWS then
        Some (ss_tap_code (uo_typing ops)
          (if digit < 10 then UC_KP_1 + of_nat ((10 + unat digit - 1) mod 10) else UC_A + (digit - 10)) e)
      else send_nibble (uo_typing ops) (UC_TAP_CODE_DELAY c) digit e)"

text \<open>The loop with \<open>first_digit\<close>; the indices go from 7 to 0.\<close>

fun hex32_digits ::
    "unicode_cfg \<Rightarrow> 'e unicode_ops \<Rightarrow> unicode_input_modes \<Rightarrow> u32 \<Rightarrow> nat \<Rightarrow> bool \<Rightarrow> 'e \<Rightarrow> 'e option" where
  "hex32_digits c ops mode hex 0 first_digit e = Some e"
| "hex32_digits c ops mode hex (Suc i) first_digit e =
     (let digit = ucast (drop_bit (4 * i) hex AND 0xF) in do {
        e \<leftarrow> (if first_digit \<and> mode = UNICODE_MODE_WINCOMPOSE \<and> 9 < digit
           then send_nibble_wrapper c ops mode 0 e else Some e);
        (if digit \<noteq> 0 \<or> \<not> first_digit \<or> i < 4
        then Option.bind (send_nibble_wrapper c ops mode digit e) (hex32_digits c ops mode hex i False)
        else hex32_digits c ops mode hex i first_digit e)})"

definition register_hex32 :: "unicode_cfg \<Rightarrow> 'e unicode_ops \<Rightarrow> unicode_input_modes \<Rightarrow> u32 \<Rightarrow> 'e \<Rightarrow> 'e option" where
  "register_hex32 c ops mode hex = hex32_digits c ops mode hex 8 True"

definition register_hex :: "unicode_cfg \<Rightarrow> 'e unicode_ops \<Rightarrow> unicode_input_modes \<Rightarrow> u16 \<Rightarrow> 'e \<Rightarrow> 'e option" where
  "register_hex c ops mode hex e =
     fold (\<lambda>i e. Option.bind e (send_nibble_wrapper c ops mode (ucast (drop_bit (i * 4) hex AND 0xF)))) [3, 2, 1, 0] (Some e)"

definition register_unicode :: "unicode_cfg \<Rightarrow> 'e unicode_ops \<Rightarrow> unicode_input_modes \<Rightarrow> u32 \<Rightarrow> 'e \<Rightarrow> 'e option" where
  "register_unicode c ops mode code_point e =
     (if 0x10FFFF < code_point \<or> 0xFFFF < code_point \<and> mode = UNICODE_MODE_WINDOWS then Some e
      else
        let (saved, e) = unicode_input_start c ops mode e in
        map_option (unicode_input_finish c ops mode saved)
          (if 0xFFFF < code_point \<and> mode = UNICODE_MODE_MACOS then
             let code_point = code_point - 0x10000; lo = code_point AND 0x3FF; hi = drop_bit 10 (code_point AND 0xFFC00)
             in Option.bind (register_hex32 c ops mode (hi + 0xD800) e) (register_hex32 c ops mode (lo + 0xDC00))
           else register_hex32 c ops mode code_point e))"

lemma decode_utf8_shorter:
  assumes "decode_utf8 str = Some (code_point, rest)"
  shows "length rest < length str"
  using assms by (auto simp: decode_utf8_def split: list.splits if_splits)

function send_unicode_string :: "unicode_cfg \<Rightarrow> 'e unicode_ops \<Rightarrow> unicode_input_modes \<Rightarrow> u8 list \<Rightarrow> 'e \<Rightarrow> 'e option" where
  "send_unicode_string c ops mode str e =
     (if str = [] then None
      else if hd str = 0 then Some e
      else case decode_utf8 str of
          None \<Rightarrow> None
        | Some (code_point, rest) \<Rightarrow>
            if 0 \<le> code_point
            then Option.bind (register_unicode c ops mode (of_int code_point) e) (send_unicode_string c ops mode rest)
            else send_unicode_string c ops mode rest e)"
  by pat_completeness auto
termination
  by (relation "measure (\<lambda>(c, ops, mode, str, e). length str)") (auto dest!: decode_utf8_shorter[OF sym] decode_utf8_shorter)

declare send_unicode_string.simps [simp del]

section \<open>The host\<close>

text \<open>
  The input methods that the modes are for: a key or a sequence of keys starts the digits, another
  one ends them. On macOS eight digits are a surrogate pair. WinCompose takes a sequence that starts
  with a letter for another one, the numeric keypad gives digits only while num lock is on, and the
  sequence of IBus needs caps lock to be off.
\<close>

datatype composing = Idle | Armed | Armed_Again | Digits "nat list"

record host_input =
  hi_caps :: bool
  hi_num :: bool
  hi_mods :: "8 word"
  hi_weak :: "8 word"
  hi_state :: composing
  hi_out :: "nat list"

definition held_mods :: "host_input \<Rightarrow> u8" where
  "held_mods h = hi_mods h OR hi_weak h"

definition hex_value :: "nat list \<Rightarrow> nat" where
  "hex_value ds = foldl (\<lambda>v d. 16 * v + d) 0 ds"

definition composed :: "unicode_input_modes \<Rightarrow> nat list \<Rightarrow> nat" where
  "composed mode ds =
     (if mode = UNICODE_MODE_MACOS \<and> length ds = 8
      then 0x10000 + (hex_value (take 4 ds) - 0xD800) * 0x400 + (hex_value (drop 4 ds) - 0xDC00)
      else hex_value ds)"

definition digit_of_key :: "unicode_input_modes \<Rightarrow> nat \<Rightarrow> nat option" where
  "digit_of_key mode k =
     (if 0x04 \<le> k \<and> k \<le> 0x09 then Some (k + 6)
      else let one = (if mode = UNICODE_MODE_WINDOWS then 0x59 else 0x1E)
        in if one \<le> k \<and> k \<le> one + 9 then Some ((k - one + 1) mod 10) else None)"

definition commit :: "unicode_input_modes \<Rightarrow> host_input \<Rightarrow> host_input" where
  "commit mode h = (case hi_state h of
     Digits ds \<Rightarrow> h\<lparr>hi_state := Idle, hi_out := hi_out h @ [composed mode ds]\<rparr>
   | _ \<Rightarrow> h\<lparr>hi_state := Idle\<rparr>)"

definition add_digit :: "unicode_input_modes \<Rightarrow> nat \<Rightarrow> host_input \<Rightarrow> host_input" where
  "add_digit mode k h = (case (hi_state h, digit_of_key mode k) of
     (Digits ds, Some d) \<Rightarrow>
       h\<lparr>hi_state := if mode = UNICODE_MODE_WINCOMPOSE \<and> ds = [] \<and> 9 < d then Idle else Digits (ds @ [d])\<rparr>
   | _ \<Rightarrow> h)"

text \<open>A key that is no modifier, in each mode.\<close>

definition compose_key :: "unicode_input_modes \<Rightarrow> nat \<Rightarrow> host_input \<Rightarrow> host_input" where
  "compose_key mode k h = (case mode of
     UNICODE_MODE_MACOS \<Rightarrow> if held_mods h = 4 then add_digit mode k h else h
   | UNICODE_MODE_LINUX \<Rightarrow>
       if k = 0x18 \<and> held_mods h = 3 \<and> \<not> hi_caps h then h\<lparr>hi_state := Digits []\<rparr>
       else if k = 0x2C then commit mode h
       else if held_mods h = 0 then add_digit mode k h else h
   | UNICODE_MODE_WINDOWS \<Rightarrow>
       if \<not> hi_num h \<or> held_mods h \<noteq> 4 then h
       else if k = 0x57 \<and> hi_state h = Armed then h\<lparr>hi_state := Digits []\<rparr>
       else add_digit mode k h
   | UNICODE_MODE_WINCOMPOSE \<Rightarrow>
       if k = 0x18 \<and> hi_state h = Armed then h\<lparr>hi_state := Digits []\<rparr>
       else if k = 0x28 then commit mode h
       else if held_mods h = 0 then add_digit mode k h else h
   | UNICODE_MODE_EMACS \<Rightarrow>
       if k = 0x1B \<and> held_mods h = 1 then h\<lparr>hi_state := Armed\<rparr>
       else if k = 0x25 \<and> hi_state h = Armed then h\<lparr>hi_state := Armed_Again\<rparr>
       else if k = 0x28 then if hi_state h = Armed_Again then h\<lparr>hi_state := Digits []\<rparr> else commit mode h
       else if held_mods h = 0 then add_digit mode k h else h
   | UNICODE_MODE_BSD \<Rightarrow> h)"

definition host_press :: "unicode_input_modes \<Rightarrow> u8 \<Rightarrow> host_input \<Rightarrow> host_input" where
  "host_press mode key h = (let k = unat key in
     if k = 0x39 then h\<lparr>hi_caps := \<not> hi_caps h\<rparr>
     else if k = 0x53 then h\<lparr>hi_num := \<not> hi_num h\<rparr>
     else if 0xE0 \<le> k \<and> k \<le> 0xE7 then
       h\<lparr>hi_mods := hi_mods h OR BIT (k - 0xE0),
         hi_state := if k = 0xE2 \<and> mode = UNICODE_MODE_MACOS then Digits []
           else if k = 0xE2 \<and> mode = UNICODE_MODE_WINDOWS \<or> k = 0xE6 \<and> mode = UNICODE_MODE_WINCOMPOSE then Armed
           else hi_state h\<rparr>
     else compose_key mode k h)"

definition host_release :: "unicode_input_modes \<Rightarrow> u8 \<Rightarrow> host_input \<Rightarrow> host_input" where
  "host_release mode key h = (let k = unat key in
     if 0xE0 \<le> k \<and> k \<le> 0xE7 then
       let h = h\<lparr>hi_mods := hi_mods h AND NOT (BIT (k - 0xE0))\<rparr>
       in if k = 0xE2 \<and> (mode = UNICODE_MODE_MACOS \<or> mode = UNICODE_MODE_WINDOWS) then commit mode h else h
     else h)"

definition host_typing :: "unicode_input_modes \<Rightarrow> host_input ss_ops" where
  "host_typing mode = \<lparr>ss_register_code = host_press mode, ss_unregister_code = host_release mode,
     ss_tap_code = (\<lambda>k h. host_release mode k (host_press mode k h)),
     ss_tap_code_delay = (\<lambda>k d h. host_release mode k (host_press mode k h)), ss_wait_ms = (\<lambda>n h. h)\<rparr>"

definition host_ops :: "unicode_input_modes \<Rightarrow> host_input unicode_ops" where
  "host_ops mode = \<lparr>uo_typing = host_typing mode,
     uo_register_mods = (\<lambda>m h. h\<lparr>hi_mods := hi_mods h OR m\<rparr>), uo_unregister_mods = (\<lambda>m h. h\<lparr>hi_mods := hi_mods h AND NOT m\<rparr>),
     uo_register_weak_mods = (\<lambda>m h. h\<lparr>hi_weak := hi_weak h OR m\<rparr>),
     uo_unregister_weak_mods = (\<lambda>m h. h\<lparr>hi_weak := hi_weak h AND NOT m\<rparr>),
     uo_get_mods = hi_mods, uo_set_mods = (\<lambda>m h. h\<lparr>hi_mods := m\<rparr>), uo_clear_mods = (\<lambda>h. h\<lparr>hi_mods := 0\<rparr>),
     uo_clear_weak_mods = (\<lambda>h. h\<lparr>hi_weak := 0\<rparr>),
     host_keyboard_led_state = (\<lambda>h. \<lparr>num_lock = hi_num h, caps_lock = hi_caps h\<rparr>)\<rparr>"

section \<open>Sequences\<close>

text \<open>The host while digits are typed.\<close>

definition typing_digits :: "unicode_input_modes \<Rightarrow> host_input \<Rightarrow> nat list \<Rightarrow> host_input" where
  "typing_digits mode h ds = h\<lparr>hi_mods := if mode = UNICODE_MODE_MACOS \<or> mode = UNICODE_MODE_WINDOWS then 4 else 0,
     hi_weak := 0, hi_state := Digits ds, hi_caps := hi_caps h \<and> mode \<noteq> UNICODE_MODE_LINUX,
     hi_num := hi_num h \<or> mode = UNICODE_MODE_WINDOWS\<rparr>"

lemmas host_simps = host_ops_def host_typing_def host_press_def host_release_def compose_key_def held_mods_def commit_def Let_def
  tap_code16_def tap_code16_delay_def register_code16_def unregister_code16_def extract_mod_bits_def mods_only_def
  UNICODE_KEY_MAC_def UNICODE_KEY_LNX_def UNICODE_KEY_WINC_def UC_NUM_LOCK_def UC_CAPS_LOCK_def UC_LEFT_ALT_def UC_KP_PLUS_def
  UC_U_def UC_ENTER_def UC_SPACE_def LCTL_def LSFT_def BIT_def

lemma start_digits:
  assumes "mode \<noteq> UNICODE_MODE_BSD"
  shows "unicode_input_start c (host_ops mode) mode h
    = ((hi_mods h, \<lparr>num_lock = hi_num h, caps_lock = hi_caps h\<rparr>), typing_digits mode h [])"
proof -
  have bits: "push_bit 2 1 = (4 :: u8)" "push_bit 6 1 = (64 :: u8)" "push_bit 0 1 = (1 :: u8)" "push_bit 1 1 = (2 :: u8)" by simp_all
  show ?thesis using assms
    by (cases mode) (simp_all add: unicode_input_start_def typing_digits_def host_simps bits)
qed

lemma finish_digits:
  assumes "mode \<noteq> UNICODE_MODE_BSD" "hi_state h = Idle"
  shows "unicode_input_finish c (host_ops mode) mode (hi_mods h, \<lparr>num_lock = hi_num h, caps_lock = hi_caps h\<rparr>) (typing_digits mode h ds)
    = h\<lparr>hi_weak := 0, hi_out := hi_out h @ [composed mode ds]\<rparr>"
proof -
  have bits: "push_bit 2 1 = (4 :: u8)" by simp
  show ?thesis using assms
    by (cases mode; cases "hi_num h"; cases "hi_caps h") (simp_all add: unicode_input_finish_def typing_digits_def host_simps bits)
qed

text \<open>Digits.\<close>

lemma digit_cases:
  assumes "unat (d :: u8) < 16"
  obtains "d = 0" | "d = 1" | "d = 2" | "d = 3" | "d = 4" | "d = 5" | "d = 6" | "d = 7" | "d = 8" | "d = 9" | "d = 10"
    | "d = 11" | "d = 12" | "d = 13" | "d = 14" | "d = 15"
proof -
  have "d = of_nat (unat d)" by simp
  moreover have "unat d \<in> {0, 1, 2, 3, 4, 5, 6, 7, 8, 9, 10, 11, 12, 13, 14, 15}" using assms by simp presburger
  ultimately show ?thesis using that by (elim insertE emptyE) simp_all
qed

definition nibble_key :: "u8 \<Rightarrow> u8" where
  "nibble_key d = (if d = 0 then 0x27 else if d \<le> 9 then 0x1D + d else d - 6)"

lemma send_nibble_key:
  assumes "unat d < 16"
  shows "send_nibble t i d e = Some (ss_wait_ms t i (ss_tap_code_delay t (nibble_key d) i e))"
  using assms
  by (cases rule: digit_cases)
    (simp_all add: send_nibble_def send_char_with_delay_def nibble_key_def Let_def PGM_LOADBIT_def shift_lut_bytes
      ascii_to_keycode_lut_def ascii_to_altgr_lut_def ascii_to_dead_lut_def)

lemma nibble_of:
  "unat (ucast (drop_bit (4 * i) hex AND 0xF) :: u8) = unat (hex :: u32) div 16 ^ i mod 16"
proof -
  have m: "(0xF :: u32) = mask 4" by (simp add: mask_eq_exp_minus_1)
  have "unat hex < 2 ^ LENGTH(32)" by (rule unsigned_less)
  then have lt: "unat hex mod 4294967296 = unat hex" by simp
  have "unat (drop_bit (4 * i) hex AND 0xF) = unat hex div 16 ^ i mod 16"
    unfolding m take_bit_eq_mask[symmetric] unsigned_take_bit_eq unsigned_drop_bit_eq
    using lt by (simp add: take_bit_eq_mod drop_bit_eq_div power_mult)
  then show ?thesis by (simp add: unsigned_ucast_eq take_bit_nat_eq_self_iff)
qed

lemma register_unicode_returns: "\<exists>t. register_unicode c ops mode code_point e = Some t"
proof -
  have nibble: "\<exists>t. send_nibble_wrapper c ops mode d e = Some t" if "unat d < 16" for d e
    using that by (simp add: send_nibble_wrapper_def send_nibble_key)
  have hex: "\<exists>t. hex32_digits c ops mode hex i f e = Some t" for hex i f e
  proof (induction i arbitrary: f e)
    case (Suc i)
    let ?d = "ucast (drop_bit (4 * i) hex AND 0xF) :: u8"
    have d: "unat ?d < 16" by (simp add: nibble_of del: unsigned_and_eq)
    have "\<exists>e1. (if f \<and> mode = UNICODE_MODE_WINCOMPOSE \<and> 9 < ?d then send_nibble_wrapper c ops mode 0 e else Some e) = Some e1"
      using nibble[of 0 e] by auto
    then obtain e1 where e1: "(if f \<and> mode = UNICODE_MODE_WINCOMPOSE \<and> 9 < ?d then send_nibble_wrapper c ops mode 0 e else Some e) = Some e1" ..
    obtain e2 where "send_nibble_wrapper c ops mode ?d e1 = Some e2" using nibble[OF d] by blast
    then show ?case using e1 Suc.IH by (simp add: Let_def)
  qed simp
  obtain saved e1 where s: "unicode_input_start c ops mode e = (saved, e1)" by fastforce
  have two: "\<exists>t. Option.bind (register_hex32 c ops mode hi e1) (register_hex32 c ops mode lo) = Some t" for hi lo
    using hex[of hi 8 True e1] hex[of lo 8 True] by (auto simp: register_hex32_def)
  obtain t1 where t1: "register_hex32 c ops mode code_point e1 = Some t1" using hex[of code_point 8 True e1] by (auto simp: register_hex32_def)
  obtain t2 where t2: "Option.bind (register_hex32 c ops mode (drop_bit 10 ((code_point - 0x10000) AND 0xFFC00) + 0xD800) e1)
      (register_hex32 c ops mode (((code_point - 0x10000) AND 0x3FF) + 0xDC00)) = Some t2" using two by blast
  show ?thesis unfolding register_unicode_def s Let_def prod.case t1 t2 by auto
qed

lemma nibble_typed:
  assumes "mode \<noteq> UNICODE_MODE_BSD" "unat d < 16" "mode = UNICODE_MODE_WINCOMPOSE \<longrightarrow> ds \<noteq> [] \<or> unat d \<le> 9"
  shows "send_nibble_wrapper c (host_ops mode) mode d (typing_digits mode h ds) = Some (typing_digits mode h (ds @ [unat d]))"
proof (cases "mode = UNICODE_MODE_WINDOWS")
  case True
  show ?thesis using assms(2)
    by (cases rule: digit_cases)
      (simp_all add: True send_nibble_wrapper_def host_ops_def host_typing_def host_press_def host_release_def compose_key_def
        typing_digits_def held_mods_def add_digit_def digit_of_key_def UC_KP_1_def UC_A_def Let_def)
next
  case False
  show ?thesis using assms(2)
  proof (cases rule: digit_cases)
  qed (use assms(1,3) False in \<open>cases mode; auto simp: send_nibble_wrapper_def send_nibble_key nibble_key_def host_ops_def host_typing_def
        host_press_def host_release_def compose_key_def typing_digits_def held_mods_def add_digit_def digit_of_key_def Let_def\<close>)+
qed

text \<open>The digits that the loop sends.\<close>

fun digits_sent :: "unicode_input_modes \<Rightarrow> u32 \<Rightarrow> nat \<Rightarrow> bool \<Rightarrow> nat list" where
  "digits_sent mode hex 0 first_digit = []"
| "digits_sent mode hex (Suc i) first_digit =
     (let d = unat hex div 16 ^ i mod 16
      in if d \<noteq> 0 \<or> \<not> first_digit \<or> i < 4
         then (if first_digit \<and> mode = UNICODE_MODE_WINCOMPOSE \<and> 9 < d then [0] else []) @ d # digits_sent mode hex i False
         else digits_sent mode hex i first_digit)"

lemma digits_typed:
  assumes "mode \<noteq> UNICODE_MODE_BSD" "mode = UNICODE_MODE_WINCOMPOSE \<longrightarrow> (first_digit \<longleftrightarrow> ds = [])"
  shows "hex32_digits c (host_ops mode) mode hex n first_digit (typing_digits mode h ds)
    = Some (typing_digits mode h (ds @ digits_sent mode hex n first_digit))"
  using assms(2)
proof (induction n arbitrary: ds first_digit)
  case (Suc i)
  define d :: u8 where "d = ucast (drop_bit (4 * i) hex AND 0xF)"
  have u: "unat d = unat hex div 16 ^ i mod 16" unfolding d_def by (rule nibble_of)
  have lt: "unat d < 16" by (simp add: u)
  have zero: "d = 0 \<longleftrightarrow> unat d = 0" "9 < d \<longleftrightarrow> 9 < unat d" by (simp_all add: unat_eq_0_iff word_less_nat_alt)
  show ?case
  proof (cases "first_digit \<and> mode = UNICODE_MODE_WINCOMPOSE \<and> 9 < d")
    case True
    then have ds: "ds = []" using Suc.prems by simp
    have "send_nibble_wrapper c (host_ops mode) mode 0 (typing_digits mode h []) = Some (typing_digits mode h [0])"
      using nibble_typed[OF assms(1), of 0 "[]"] by simp
    moreover have "send_nibble_wrapper c (host_ops mode) mode d (typing_digits mode h [0]) = Some (typing_digits mode h [0, unat d])"
      using nibble_typed[OF assms(1) lt, of "[0]"] by simp
    moreover have "hex32_digits c (host_ops mode) mode hex i False (typing_digits mode h [0, unat d])
        = Some (typing_digits mode h ([0, unat d] @ digits_sent mode hex i False))" using Suc.IH[of False "[0, unat d]"] by simp
    ultimately show ?thesis using True ds zero u by (auto simp: Let_def simp flip: d_def)
  next
    case False
    show ?thesis
    proof (cases "d \<noteq> 0 \<or> \<not> first_digit \<or> i < 4")
      case send: True
      have "mode = UNICODE_MODE_WINCOMPOSE \<longrightarrow> ds \<noteq> [] \<or> unat d \<le> 9" using False Suc.prems zero(2) by auto
      from nibble_typed[OF assms(1) lt this] Suc.IH[of False "ds @ [unat d]"] show ?thesis
        using False send zero u by (auto simp: Let_def simp flip: d_def)
    next
      case skip: False
      then show ?thesis using False Suc.prems Suc.IH[of first_digit ds] zero u by (auto simp: Let_def simp flip: d_def)
    qed
  qed
qed simp

lemma hex_value_append: "hex_value (ds @ [d]) = 16 * hex_value ds + d"
  by (simp add: hex_value_def)

lemma digits_value:
  assumes "hex_value ds = unat hex div 16 ^ n" "first_digit \<Longrightarrow> ds = []"
  shows "hex_value (ds @ digits_sent mode hex n first_digit) = unat hex"
  using assms
proof (induction n arbitrary: ds first_digit)
  case (Suc i)
  let ?d = "unat hex div 16 ^ i mod 16"
  have "unat hex div 16 ^ Suc i = unat hex div 16 ^ i div 16" by (simp only: power_Suc2 div_mult2_eq)
  then have step: "16 * hex_value ds + ?d = unat hex div 16 ^ i" using Suc.prems(1) by simp
  have lead: "hex_value (ds @ [0]) = hex_value ds" if first_digit using Suc.prems(2)[OF that] by (simp add: hex_value_def)
  show ?case
  proof (cases "?d \<noteq> 0 \<or> \<not> first_digit \<or> i < 4")
    case True
    let ?z = "if first_digit \<and> mode = UNICODE_MODE_WINCOMPOSE \<and> 9 < ?d then [0] else []"
    have "hex_value (ds @ ?z) = hex_value ds" using lead by simp
    then have "hex_value ((ds @ ?z) @ [?d]) = unat hex div 16 ^ i" using step unfolding hex_value_append by simp
    from Suc.IH[OF this, of False] show ?thesis using True by (simp add: Let_def)
  next
    case False
    then show ?thesis using Suc.IH[of ds first_digit] Suc.prems step by (simp add: Let_def hex_value_def)
  qed
qed simp

lemma hex32_typed:
  assumes "mode \<noteq> UNICODE_MODE_BSD" "mode = UNICODE_MODE_WINCOMPOSE \<longrightarrow> ds = []"
  shows "register_hex32 c (host_ops mode) mode hex (typing_digits mode h ds)
    = Some (typing_digits mode h (ds @ digits_sent mode hex 8 True))"
  using digits_typed[OF assms(1), of True ds c hex 8 h] assms(2) by (simp add: register_hex32_def)

lemma hex32_value: "hex_value (digits_sent mode hex 8 True) = unat hex"
proof -
  have "unat hex < 2 ^ LENGTH(32)" by (rule unsigned_less)
  then have "unat hex div 16 ^ 8 = 0" by simp
  then show ?thesis using digits_value[of "[]" hex 8 True mode] by (simp add: hex_value_def)
qed

lemma digits_skip:
  assumes "unat hex < 16 ^ i" "4 \<le> i"
  shows "digits_sent mode hex (Suc i) True = digits_sent mode hex i True"
  using assms by simp

lemma digits_length: "length (digits_sent mode hex n False) = n"
  by (induction n) (simp_all add: Let_def)

lemma four_digits:
  assumes "unat hex < 0x10000" "mode \<noteq> UNICODE_MODE_WINCOMPOSE"
  shows "length (digits_sent mode hex 8 True) = 4"
proof -
  have e: "8 = Suc 7" "7 = Suc 6" "6 = Suc 5" "5 = Suc 4" "4 = Suc 3" by simp_all
  have "digits_sent mode hex 8 True = digits_sent mode hex 7 True" unfolding e(1) by (rule digits_skip) (use assms in simp_all)
  also have "\<dots> = digits_sent mode hex 6 True" unfolding e(2) by (rule digits_skip) (use assms in simp_all)
  also have "\<dots> = digits_sent mode hex 5 True" unfolding e(3) by (rule digits_skip) (use assms in simp_all)
  also have "\<dots> = digits_sent mode hex 4 True" unfolding e(4) by (rule digits_skip) (use assms in simp_all)
  also have "length \<dots> = Suc 3" unfolding e(5) digits_sent.simps(2) Let_def using assms(2) digits_length[of mode hex 3] by simp
  finally show ?thesis by simp
qed

text \<open>Surrogate pairs.\<close>

lemma surrogates:
  assumes "0xFFFF < unat cp" "unat (cp :: u32) \<le> 0x10FFFF"
  shows "unat ((cp - 0x10000) AND 0x3FF) = (unat cp - 0x10000) mod 0x400"
    "unat (drop_bit 10 ((cp - 0x10000) AND 0xFFC00)) = (unat cp - 0x10000) div 0x400"
proof -
  define w where "w = cp - 0x10000"
  have "(0x10000 :: u32) \<le> cp" using assms(1) by (simp add: word_le_nat_alt)
  then have u: "unat w = unat cp - 0x10000" unfolding w_def by (simp add: unat_sub)
  have m: "(0x3FF :: u32) = mask 10" "(0xFFC00 :: u32) = push_bit 10 (mask 10)" by (simp_all add: mask_eq_exp_minus_1)
  have lt: "unat w < 2 ^ 20" using assms by (simp add: u)
  have t: "take_bit LENGTH(32) (unat w) = unat w" using lt by (simp add: take_bit_nat_eq_self_iff)
  have "drop_bit 10 (w AND 0xFFC00) = drop_bit 10 w" unfolding m(2)
  proof (rule word_eqI_bits)
    fix k
    show "bit (drop_bit 10 (w AND push_bit 10 (mask 10))) k = bit (drop_bit 10 w) k"
      using bit_small[OF lt, of "10 + k"] by (auto simp: bit_drop_bit_eq bit_and_iff bit_push_bit_iff bit_mask_iff)
  qed
  moreover have "unat (w AND 0x3FF) = unat w mod 0x400"
    unfolding m(1) take_bit_eq_mask[symmetric] unsigned_take_bit_eq by (simp add: take_bit_eq_mod)
  moreover have "unat (drop_bit 10 w) = unat w div 0x400"
    unfolding unsigned_drop_bit_eq t by (simp add: drop_bit_eq_div)
  ultimately show "unat ((cp - 0x10000) AND 0x3FF) = (unat cp - 0x10000) mod 0x400"
    "unat (drop_bit 10 ((cp - 0x10000) AND 0xFFC00)) = (unat cp - 0x10000) div 0x400"
    by (simp_all add: u flip: w_def)
qed

lemma unicode_typed:
  assumes "mode \<noteq> UNICODE_MODE_BSD" "hi_state h = Idle" "unat cp \<le> 0x10FFFF"
  shows "register_unicode c (host_ops mode) mode cp h
    = Some (if mode = UNICODE_MODE_WINDOWS \<and> 0xFFFF < unat cp then h else h\<lparr>hi_weak := 0, hi_out := hi_out h @ [unat cp]\<rparr>)"
proof -
  have big: "0x10FFFF < cp \<longleftrightarrow> 0x10FFFF < unat cp" "0xFFFF < cp \<longleftrightarrow> 0xFFFF < unat cp" by (simp_all add: word_less_nat_alt)
  note start = start_digits[OF assms(1), of c h] and finish = finish_digits[OF assms(1,2), of c]
  consider (windows) "mode = UNICODE_MODE_WINDOWS" "0xFFFF < unat cp" | (mac) "mode = UNICODE_MODE_MACOS" "0xFFFF < unat cp"
    | (plain) "\<not> (0xFFFF < unat cp \<and> (mode = UNICODE_MODE_WINDOWS \<or> mode = UNICODE_MODE_MACOS))" by blast
  then show ?thesis
  proof cases
    case windows
    then show ?thesis by (simp add: register_unicode_def big)
  next
    case mac
    define h0 l0 where hl: "h0 = drop_bit 10 ((cp - 0x10000) AND 0xFFC00)" "l0 = (cp - 0x10000) AND 0x3FF"
    define hi lo where "hi = h0 + 0xD800" and "lo = l0 + 0xDC00"
    note s = surrogates[OF mac(2) assms(3), folded hl]
    have "unat h0 < 0x400" using s(2) assms(3) mac(2) by simp
    then have hi: "unat hi = (unat cp - 0x10000) div 0x400 + 0xD800" unfolding hi_def by (subst unat_add_lem[THEN iffD1]) (simp_all add: s(2))
    have "unat l0 < 0x400" using s(1) by simp
    then have lo: "unat lo = (unat cp - 0x10000) mod 0x400 + 0xDC00" unfolding lo_def by (subst unat_add_lem[THEN iffD1]) (simp_all add: s(1))
    let ?d = "digits_sent mode hi 8 True" and ?d' = "digits_sent mode lo 8 True"
    have "unat hi < 0x10000" "unat lo < 0x10000" using hi lo assms(3) mac(2) by simp_all
    then have four: "length ?d = 4" "length ?d' = 4" using four_digits mac(1) by simp_all
    have "composed mode (?d @ ?d') = 0x10000 + (unat cp - 0x10000) div 0x400 * 0x400 + (unat cp - 0x10000) mod 0x400"
      using four mac(1) by (simp add: composed_def hex32_value hi lo)
    then have whole: "composed mode (?d @ ?d') = unat cp" using mac(2) by (simp add: mult.commute)
    have typed: "register_hex32 c (host_ops mode) mode hi (typing_digits mode h []) = Some (typing_digits mode h ?d)"
      "register_hex32 c (host_ops mode) mode lo (typing_digits mode h ?d) = Some (typing_digits mode h (?d @ ?d'))"
      using hex32_typed[OF assms(1), of "[]" c hi h] hex32_typed[OF assms(1), of ?d c lo h] mac(1) by simp_all
    have m: "(mode = UNICODE_MODE_MACOS) = True" "(mode = UNICODE_MODE_WINDOWS) = False" using mac(1) by simp_all
    show ?thesis unfolding register_unicode_def Let_def hl[symmetric] hi_def[symmetric] lo_def[symmetric]
      using mac(2) assms(3) by (simp add: m typed big start finish whole)
  next
    case plain
    let ?d = "digits_sent mode cp 8 True"
    have "composed mode ?d = unat cp"
    proof (cases "mode = UNICODE_MODE_MACOS")
      case True
      then have "length ?d = 4" using plain by (intro four_digits) auto
      then show ?thesis by (simp add: composed_def hex32_value)
    qed (simp add: composed_def hex32_value)
    then show ?thesis using plain assms(3) hex32_typed[OF assms(1), of "[]" c cp h]
      by (auto simp: register_unicode_def big start finish)
  qed
qed

section \<open>Encoding\<close>

definition utf8_encode :: "nat \<Rightarrow> u8 list" where
  "utf8_encode cp =
     (if cp < 0x80 then [of_nat cp]
      else if cp < 0x800 then [0xC0 + of_nat (cp div 64), 0x80 + of_nat (cp mod 64)]
      else if cp < 0x10000 then [0xE0 + of_nat (cp div 4096), 0x80 + of_nat (cp div 64 mod 64), 0x80 + of_nat (cp mod 64)]
      else [0xF0 + of_nat (cp div 262144), 0x80 + of_nat (cp div 4096 mod 64), 0x80 + of_nat (cp div 64 mod 64), 0x80 + of_nat (cp mod 64)])"

definition scalar_value :: "nat \<Rightarrow> bool" where
  "scalar_value cp \<longleftrightarrow> cp \<le> 0x10FFFF \<and> \<not> (0xD800 \<le> cp \<and> cp \<le> 0xDFFF)"

lemma upto_list_all: "n < k \<Longrightarrow> list_all P [0..<k] \<Longrightarrow> P n"
  by (simp add: list_all_iff)

lemma six_byte: "n < 64 \<Longrightarrow> six (0x80 + of_nat n) = of_nat n"
  by (erule upto_list_all[where P = "\<lambda>n. six (0x80 + of_nat n) = of_nat n"]) (code_simp)

lemma lead_2: "n < 32 \<Longrightarrow> \<not> (0xC0 + of_nat n :: u8) < 0x80 \<and> (0xC0 + of_nat n :: u8) AND 0xE0 = 0xC0
    \<and> ucast ((0xC0 + of_nat n :: u8) AND 0x1F) = (of_nat n :: u32)"
  by (erule upto_list_all[where P = "\<lambda>n. \<not> (0xC0 + of_nat n :: u8) < 0x80 \<and> (0xC0 + of_nat n :: u8) AND 0xE0 = 0xC0
    \<and> ucast ((0xC0 + of_nat n :: u8) AND 0x1F) = (of_nat n :: u32)"]) (code_simp)

lemma lead_3: "n < 16 \<Longrightarrow> \<not> (0xE0 + of_nat n :: u8) < 0x80 \<and> (0xE0 + of_nat n :: u8) AND 0xE0 \<noteq> 0xC0 \<and> (0xE0 + of_nat n :: u8) AND 0xF0 = 0xE0
    \<and> ucast ((0xE0 + of_nat n :: u8) AND 0x0F) = (of_nat n :: u32)"
  by (erule upto_list_all[where P = "\<lambda>n. \<not> (0xE0 + of_nat n :: u8) < 0x80 \<and> (0xE0 + of_nat n :: u8) AND 0xE0 \<noteq> 0xC0
    \<and> (0xE0 + of_nat n :: u8) AND 0xF0 = 0xE0 \<and> ucast ((0xE0 + of_nat n :: u8) AND 0x0F) = (of_nat n :: u32)"]) (code_simp)

lemma lead_4: "n < 5 \<Longrightarrow> \<not> (0xF0 + of_nat n :: u8) < 0x80 \<and> (0xF0 + of_nat n :: u8) AND 0xE0 \<noteq> 0xC0 \<and> (0xF0 + of_nat n :: u8) AND 0xF0 \<noteq> 0xE0
    \<and> (0xF0 + of_nat n :: u8) AND 0xF8 = 0xF0 \<and> (0xF0 + of_nat n :: u8) \<le> 0xF4 \<and> ucast ((0xF0 + of_nat n :: u8) AND 0x07) = (of_nat n :: u32)"
  by (erule upto_list_all[where P = "\<lambda>n. \<not> (0xF0 + of_nat n :: u8) < 0x80 \<and> (0xF0 + of_nat n :: u8) AND 0xE0 \<noteq> 0xC0
    \<and> (0xF0 + of_nat n :: u8) AND 0xF0 \<noteq> 0xE0 \<and> (0xF0 + of_nat n :: u8) AND 0xF8 = 0xF0 \<and> (0xF0 + of_nat n :: u8) \<le> 0xF4
    \<and> ucast ((0xF0 + of_nat n :: u8) AND 0x07) = (of_nat n :: u32)"]) (code_simp)

lemma or_low_bits:
  assumes "b < 2 ^ n"
  shows "push_bit n (of_nat a) OR of_nat b = (of_nat (a * 2 ^ n + b) :: u32)"
proof -
  have "push_bit n a OR b = push_bit n a + b"
  proof (rule disjunctive_add[symmetric])
    fix k
    have "\<not> bit b k" if "n \<le> k"
    proof -
      have "take_bit n b = b" using assms by (simp add: take_bit_nat_eq_self_iff)
      then show ?thesis using that by (metis bit_take_bit_iff leD)
    qed
    then show "\<not> bit (push_bit n a) k \<or> \<not> bit b k" by (auto simp: bit_push_bit_iff)
  qed
  then have "of_nat (push_bit n a OR b) = (of_nat (a * 2 ^ n + b) :: u32)" by (simp add: push_bit_eq_mult)
  then show ?thesis by (simp only: of_nat_or_eq push_bit_of_nat)
qed

lemma decode_encoded:
  assumes "scalar_value cp"
  shows "decode_utf8 (utf8_encode cp @ rest) = Some (int cp, rest)"
proof -
  have c: "cp \<le> 0x10FFFF" "\<not> (0xD800 \<le> cp \<and> cp \<le> 0xDFFF)" using assms by (simp_all add: scalar_value_def)
  have val: "uint (of_nat cp :: u32) = int cp" using c(1) by (simp add: unsigned_of_nat take_bit_nat_eq_self_iff take_bit_int_eq_self_iff)
  have m64: "n mod 64 < (64 :: nat)" for n by simp
  consider (one) "cp < 0x80" | (two) "0x80 \<le> cp" "cp < 0x800" | (three) "0x800 \<le> cp" "cp < 0x10000" | (four) "0x10000 \<le> cp" by linarith
  then show ?thesis
  proof cases
    case one
    then have "unat (of_nat cp :: u8) = cp" by (intro unat_of_nat_mod) simp
    then have "(of_nat cp :: u8) < 0x80" using one by (simp add: word_less_nat_alt)
    moreover have "uint (of_nat cp :: u8) = int cp" using one by (simp add: unsigned_of_nat take_bit_int_eq_self_iff take_bit_nat_eq_self_iff)
    ultimately show ?thesis using one c by (simp add: utf8_encode_def decode_utf8_def)
  next
    case two
    have "push_bit 6 (of_nat (cp div 64)) OR of_nat (cp mod 64) = (of_nat cp :: u32)"
      using or_low_bits[of "cp mod 64" 6 "cp div 64"] by (simp add: mult.commute)
    moreover have "cp div 64 < 32" using two by simp
    ultimately show ?thesis using two c lead_2 six_byte[OF m64] val by (simp add: utf8_encode_def decode_utf8_def)
  next
    case three
    have a: "push_bit 6 (of_nat (cp div 64 mod 64)) OR of_nat (cp mod 64) = (of_nat (cp mod 4096) :: u32)"
      using or_low_bits[of "cp mod 64" 6 "cp div 64 mod 64"] mod_mult2_eq[of cp 64 64] by (simp add: mult.commute add.commute)
    have "push_bit 12 (of_nat (cp div 4096)) OR of_nat (cp mod 4096) = (of_nat cp :: u32)"
      using or_low_bits[of "cp mod 4096" 12 "cp div 4096"] by (simp add: mult.commute)
    then have "push_bit 12 (of_nat (cp div 4096)) OR push_bit 6 (of_nat (cp div 64 mod 64)) OR of_nat (cp mod 64) = (of_nat cp :: u32)"
      by (simp add: or.assoc a)
    moreover have "cp div 4096 < 16" using three by simp
    ultimately show ?thesis using three c lead_3 six_byte[OF m64] val by (simp add: utf8_encode_def decode_utf8_def)
  next
    case four
    have a: "push_bit 6 (of_nat (cp div 64 mod 64)) OR of_nat (cp mod 64) = (of_nat (cp mod 4096) :: u32)"
      using or_low_bits[of "cp mod 64" 6 "cp div 64 mod 64"] mod_mult2_eq[of cp 64 64] by (simp add: mult.commute add.commute)
    have b: "push_bit 12 (of_nat (cp div 4096 mod 64)) OR of_nat (cp mod 4096) = (of_nat (cp mod 262144) :: u32)"
      using or_low_bits[of "cp mod 4096" 12 "cp div 4096 mod 64"] mod_mult2_eq[of cp 4096 64] by (simp add: mult.commute add.commute)
    have "push_bit 18 (of_nat (cp div 262144)) OR of_nat (cp mod 262144) = (of_nat cp :: u32)"
      using or_low_bits[of "cp mod 262144" 18 "cp div 262144"] by (simp add: mult.commute)
    then have "push_bit 18 (of_nat (cp div 262144)) OR push_bit 12 (of_nat (cp div 4096 mod 64))
        OR push_bit 6 (of_nat (cp div 64 mod 64)) OR of_nat (cp mod 64) = (of_nat cp :: u32)"
      by (simp add: or.assoc a b)
    moreover have "cp div 262144 < 5" using c(1) by simp
    ultimately show ?thesis using four c lead_4 six_byte[OF m64] val by (simp add: utf8_encode_def decode_utf8_def)
  qed
qed

lemma encode_not_0:
  assumes "0 < cp" "cp \<le> 0x10FFFF"
  shows "utf8_encode cp \<noteq> [] \<and> hd (utf8_encode cp) \<noteq> 0"
proof -
  have nz: "\<not> x < 0x80 \<Longrightarrow> x \<noteq> 0" for x :: u8 by auto
  have "(of_nat cp :: u8) \<noteq> 0" if "cp < 0x80"
  proof -
    have "unat (of_nat cp :: u8) = cp" using that by (intro unat_of_nat_mod) simp
    then show ?thesis using assms(1) by auto
  qed
  moreover have "(0xC0 + of_nat (cp div 64) :: u8) \<noteq> 0" if "cp < 0x800" by (rule nz) (use that lead_2[of "cp div 64"] in simp)
  moreover have "(0xE0 + of_nat (cp div 4096) :: u8) \<noteq> 0" if "cp < 0x10000" by (rule nz) (use that lead_3[of "cp div 4096"] in simp)
  moreover have "(0xF0 + of_nat (cp div 262144) :: u8) \<noteq> 0" by (rule nz) (use assms(2) lead_4[of "cp div 262144"] in simp)
  ultimately show ?thesis by (simp add: utf8_encode_def)
qed

section \<open>Properties\<close>

text \<open>A host with caps lock on and shift held, and the default settings.\<close>

definition capital_host :: host_input where
  "capital_host = \<lparr>hi_caps = True, hi_num = False, hi_mods = 2, hi_weak = 0, hi_state = Idle, hi_out = []\<rparr>"

definition default_unicode_cfg :: unicode_cfg where
  "default_unicode_cfg = \<lparr>UNICODE_TYPE_DELAY = 10, UC_TAP_CODE_DELAY = 0, UC_TAP_HOLD_CAPS_DELAY = 80\<rparr>"



lemma bind_all_None: "(\<And>e. f e = None) \<Longrightarrow> Option.bind x f = None"
  by (cases x) simp_all

text \<open>
  C37. A string that ends in the middle of a code point is read past its terminator, whatever comes
  before it.
\<close>

theorem unicode_string_reads_past:
  assumes "\<forall>cp \<in> set cps. scalar_value cp \<and> cp \<noteq> 0" "scalar_value cp" "0 < k" "k < length (utf8_encode cp)"
  shows "send_unicode_string c ops mode (concat (map utf8_encode cps) @ take k (utf8_encode cp) @ [0]) e = None"
  using assms(1)
proof (induction cps arbitrary: e)
  case Nil
  have nz: "\<not> x < 0x80 \<Longrightarrow> x \<noteq> 0" for x :: u8 by auto
  have past: "send_unicode_string c ops mode [] e' = None" for e' by (simp add: send_unicode_string.simps)
  have cp: "cp \<le> 0x10FFFF" using assms(2) by (simp add: scalar_value_def)
  have "\<not> cp < 0x80" using assms(3,4) by (auto simp: utf8_encode_def)
  then consider (two) "0x80 \<le> cp" "cp < 0x800" | (three) "0x800 \<le> cp" "cp < 0x10000" | (four) "0x10000 \<le> cp" by linarith
  then show ?case
  proof cases
    case two
    then have "k = 1" using assms(3,4) by (simp add: utf8_encode_def)
    then show ?thesis using two lead_2[of "cp div 64"] nz past
      by (subst send_unicode_string.simps) (auto simp: utf8_encode_def decode_utf8_def bind_all_None)
  next
    case three
    then have "k = 1 \<or> k = 2" using assms(3,4) by (auto simp: utf8_encode_def)
    then show ?thesis using three lead_3[of "cp div 4096"] nz past
      by (subst send_unicode_string.simps) (auto simp: utf8_encode_def decode_utf8_def bind_all_None)
  next
    case four
    then have "k = 1 \<or> k = 2 \<or> k = 3" using assms(3,4) by (auto simp: utf8_encode_def)
    then show ?thesis using four cp lead_4[of "cp div 262144"] nz past
      by (subst send_unicode_string.simps) (auto simp: utf8_encode_def decode_utf8_def bind_all_None)
  qed
next
  case (Cons x cps)
  have x: "scalar_value x" "x \<noteq> 0" "x \<le> 0x10FFFF" using Cons.prems by (simp_all add: scalar_value_def)
  have "send_unicode_string c ops mode (concat (map utf8_encode cps) @ take k (utf8_encode cp) @ [0]) e' = None" for e'
    using Cons by simp
  then show ?case using decode_encoded[OF x(1), of "concat (map utf8_encode cps) @ take k (utf8_encode cp) @ [0]"] encode_not_0[of x] x(2,3)
    by (subst send_unicode_string.simps) (simp add: hd_append bind_all_None)
qed

theorem unicode_string_reads_past_witness:
  "send_unicode_string default_unicode_cfg (host_ops UNICODE_MODE_LINUX) UNICODE_MODE_LINUX [0x41, 0xE2, 0x82, 0] capital_host = None"
proof -
  have cps: "\<forall>cp \<in> set [0x41]. scalar_value cp \<and> cp \<noteq> 0" and cp: "scalar_value 0x20AC" by (simp_all add: scalar_value_def)
  have k: "0 < (2 :: nat)" "2 < length (utf8_encode 0x20AC)" by (simp_all add: utf8_encode_def)
  have s: "concat (map utf8_encode [0x41]) @ take 2 (utf8_encode 0x20AC) @ [0] = [0x41, 0xE2, 0x82, 0]" by (simp add: utf8_encode_def)
  show ?thesis using unicode_string_reads_past[OF cps cp k, unfolded s] .
qed

end
