(* ===== verification/Unicode_Keys.thy ===== *)
theory Unicode_Keys
  imports Unicode Action_Code "HOL-Library.Sublist"
begin

text \<open>
  Keycodes for Unicode input: the input modes that are cycled through (quantum/unicode/unicode.c), the
  keycodes of quantum/process_keycode/process_unicode_common.c, process_unicode.c and
  process_unicodemap.c with quantum/unicode/unicodemap.c, and the mnemonics of quantum/unicode/ucis.c
  and process_ucis.c. None means an access outside an array.
\<close>

section \<open>Input modes\<close>

text \<open>\<open>unicode_config\<close>, what of it is in the EEPROM, and \<open>selected_index\<close>.\<close>

record unicode_modes =
  input_mode :: "8 word"
  stored_mode :: "8 word"
  selected_index :: int

text \<open>Values that are no mode take no branch anywhere, like \<open>UNICODE_MODE_BSD\<close>.\<close>

definition unicode_mode :: "u8 \<Rightarrow> unicode_input_modes" where
  "unicode_mode m = (case map_of [(0, UNICODE_MODE_MACOS), (1, UNICODE_MODE_LINUX), (2, UNICODE_MODE_WINDOWS), (3, UNICODE_MODE_BSD),
     (4, UNICODE_MODE_WINCOMPOSE), (5, UNICODE_MODE_EMACS)] m of Some mode \<Rightarrow> mode | None \<Rightarrow> UNICODE_MODE_BSD)"

record unicode_modes_cfg =
  selected :: "8 word list"
  UNICODE_CYCLE_PERSIST :: bool

definition unicode_input_mode_init :: "unicode_modes_cfg \<Rightarrow> unicode_modes \<Rightarrow> unicode_modes" where
  "unicode_input_mode_init c s =
     (let s = s\<lparr>input_mode := stored_mode s\<rparr> in
      case (if UNICODE_CYCLE_PERSIST c then find (\<lambda>i. selected c ! i = input_mode s) [0..<length (selected c)] else None) of
        Some i \<Rightarrow> s\<lparr>selected_index := int i\<rparr>
      | None \<Rightarrow> s\<lparr>selected_index := 0, input_mode := selected c ! 0\<rparr>)"

definition persist_unicode_input_mode :: "unicode_modes \<Rightarrow> unicode_modes" where
  "persist_unicode_input_mode s = s\<lparr>stored_mode := input_mode s\<rparr>"

definition set_unicode_input_mode :: "u8 \<Rightarrow> unicode_modes \<Rightarrow> unicode_modes" where
  "set_unicode_input_mode mode s = persist_unicode_input_mode (s\<lparr>input_mode := mode\<rparr>)"

definition cycle_unicode_input_mode :: "unicode_modes_cfg \<Rightarrow> int \<Rightarrow> unicode_modes \<Rightarrow> unicode_modes" where
  "cycle_unicode_input_mode c offset s =
     (let n = int (length (selected c));
          i = (selected_index s + offset) smod n;
          i = (if i < 0 then i + n else i);
          s = s\<lparr>selected_index := i, input_mode := selected c ! nat i\<rparr>
      in if UNICODE_CYCLE_PERSIST c then persist_unicode_input_mode s else s)"

definition unicode_input_mode_step :: "unicode_modes_cfg \<Rightarrow> unicode_modes \<Rightarrow> unicode_modes" where
  "unicode_input_mode_step c = cycle_unicode_input_mode c 1"

definition unicode_input_mode_step_reverse :: "unicode_modes_cfg \<Rightarrow> unicode_modes \<Rightarrow> unicode_modes" where
  "unicode_input_mode_step_reverse c = cycle_unicode_input_mode c (- 1)"

definition on_selected :: "unicode_modes_cfg \<Rightarrow> unicode_modes \<Rightarrow> bool" where
  "on_selected c s \<longleftrightarrow> 0 \<le> selected_index s \<and> selected_index s < int (length (selected c))
     \<and> input_mode s = selected c ! nat (selected_index s)"

lemma smod_step:
  assumes "0 \<le> i" "i < n" "k = 1 \<or> k = - 1"
  shows "(let j = (i + k) smod n in if j < 0 then j + n else j) = (i + k) mod (n :: int)"
proof (cases "i + k < 0")
  case True
  then have i: "i = 0" "k = - 1" using assms by auto
  show ?thesis
  proof (cases "n = 1")
    case False
    then have "(- 1 :: int) smod n = - 1" using assms by (simp add: i signed_modulo_int_def signed_divide_int_def)
    moreover have "(- 1) mod n = n - 1" using assms False by (simp add: zmod_minus1)
    ultimately show ?thesis by (simp add: i)
  qed (simp add: i signed_modulo_int_def signed_divide_int_def)
next
  case False
  then have "(i + k) smod n = (i + k) mod n"
    using assms by (simp add: signed_modulo_int_def signed_divide_int_def minus_div_mult_eq_mod sgn_if)
  moreover have "0 \<le> (i + k) mod n" using assms by simp
  ultimately show ?thesis by (simp add: Let_def)
qed

lemma cycle_selected:
  assumes "on_selected c s" "k = 1 \<or> k = - 1"
  shows "on_selected c (cycle_unicode_input_mode c k s)"
    "selected_index (cycle_unicode_input_mode c k s) = (selected_index s + k) mod int (length (selected c))"
proof -
  have r: "0 \<le> selected_index s" "selected_index s < int (length (selected c))" using assms(1) by (simp_all add: on_selected_def)
  note m = smod_step[OF r assms(2), unfolded Let_def]
  then show i: "selected_index (cycle_unicode_input_mode c k s) = (selected_index s + k) mod int (length (selected c))"
    by (simp add: cycle_unicode_input_mode_def persist_unicode_input_mode_def Let_def)
  have "0 < int (length (selected c))" using r by linarith
  moreover have "input_mode (cycle_unicode_input_mode c k s) = selected c ! nat (selected_index (cycle_unicode_input_mode c k s))"
    by (simp add: cycle_unicode_input_mode_def persist_unicode_input_mode_def Let_def)
  moreover have "selected c \<noteq> []" using r by (cases "selected c") simp_all
  ultimately show "on_selected c (cycle_unicode_input_mode c k s)" unfolding on_selected_def i by simp
qed

section \<open>Keycodes\<close>

definition QK_UNICODE :: u16 where "QK_UNICODE = 0x8000"
definition QK_UNICODE_MAX :: u16 where "QK_UNICODE_MAX = 0xFFFF"
definition QK_UNICODEMAP :: u16 where "QK_UNICODEMAP = 0x8000"
definition QK_UNICODEMAP_PAIR :: u16 where "QK_UNICODEMAP_PAIR = 0xC000"
definition QK_UNICODEMAP_PAIR_MAX :: u16 where "QK_UNICODEMAP_PAIR_MAX = 0xFFFF"
definition QK_UNICODE_MODE_NEXT :: u16 where "QK_UNICODE_MODE_NEXT = 0x7C30"
definition QK_UNICODE_MODE_PREVIOUS :: u16 where "QK_UNICODE_MODE_PREVIOUS = 0x7C31"
definition QK_UNICODE_MODE_MACOS :: u16 where "QK_UNICODE_MODE_MACOS = 0x7C32"
definition QK_UNICODE_MODE_LINUX :: u16 where "QK_UNICODE_MODE_LINUX = 0x7C33"
definition QK_UNICODE_MODE_WINDOWS :: u16 where "QK_UNICODE_MODE_WINDOWS = 0x7C34"
definition QK_UNICODE_MODE_BSD :: u16 where "QK_UNICODE_MODE_BSD = 0x7C35"
definition QK_UNICODE_MODE_WINCOMPOSE :: u16 where "QK_UNICODE_MODE_WINCOMPOSE = 0x7C36"
definition QK_UNICODE_MODE_EMACS :: u16 where "QK_UNICODE_MODE_EMACS = 0x7C37"

definition MOD_MASK_SHIFT :: u8 where "MOD_MASK_SHIFT = 0x22"

definition process_unicode ::
    "unicode_cfg \<Rightarrow> 'e unicode_ops \<Rightarrow> u16 \<Rightarrow> keyrecord_t \<Rightarrow> unicode_modes \<Rightarrow> 'e \<Rightarrow> ('e \<times> bool) option" where
  "process_unicode c ops keycode record s e =
     (if pressed record \<and> QK_UNICODE \<le> keycode \<and> keycode \<le> QK_UNICODE_MAX
      then map_option (\<lambda>e. (e, True)) (register_unicode c ops (unicode_mode (input_mode s)) (ucast (keycode AND 0x7FFF)) e)
      else Some (e, True))"

text \<open>The build with \<open>UNICODE_ENABLE\<close>.\<close>

definition unicode_mode_keycode :: "unicode_modes_cfg \<Rightarrow> bool \<Rightarrow> u16 \<Rightarrow> unicode_modes \<Rightarrow> unicode_modes" where
  "unicode_mode_keycode c shifted keycode s =
     (if keycode = QK_UNICODE_MODE_NEXT then if shifted then unicode_input_mode_step_reverse c s else unicode_input_mode_step c s
      else if keycode = QK_UNICODE_MODE_PREVIOUS then if shifted then unicode_input_mode_step c s else unicode_input_mode_step_reverse c s
      else if keycode = QK_UNICODE_MODE_MACOS then set_unicode_input_mode 0 s
      else if keycode = QK_UNICODE_MODE_LINUX then set_unicode_input_mode 1 s
      else if keycode = QK_UNICODE_MODE_WINDOWS then set_unicode_input_mode 2 s
      else if keycode = QK_UNICODE_MODE_BSD then set_unicode_input_mode 3 s
      else if keycode = QK_UNICODE_MODE_WINCOMPOSE then set_unicode_input_mode 4 s
      else if keycode = QK_UNICODE_MODE_EMACS then set_unicode_input_mode 5 s
      else s)"

definition process_unicode_common ::
    "unicode_modes_cfg \<Rightarrow> unicode_cfg \<Rightarrow> 'e unicode_ops \<Rightarrow> u16 \<Rightarrow> keyrecord_t \<Rightarrow> unicode_modes \<Rightarrow> 'e
      \<Rightarrow> (unicode_modes \<times> 'e \<times> bool) option" where
  "process_unicode_common mc c ops keycode record s e =
     (let s = (if pressed record then unicode_mode_keycode mc (uo_get_mods ops e AND MOD_MASK_SHIFT \<noteq> 0) keycode s else s)
      in map_option (Pair s) (process_unicode c ops keycode record s e))"

text \<open>\<open>mods\<close> are the modifiers, weak and one-shot ones included.\<close>

definition unicodemap_index :: "u8 \<Rightarrow> bool \<Rightarrow> u16 \<Rightarrow> u8" where
  "unicodemap_index mods caps keycode =
     (if QK_UNICODEMAP_PAIR \<le> keycode then
        ucast (if (mods AND MOD_MASK_SHIFT \<noteq> 0) \<noteq> caps then drop_bit 7 keycode AND 0x7F else keycode AND 0x7F)
      else ucast (keycode AND 0x3FFF))"

lemma unicodemap_index_wraps: "unicodemap_index mods caps 0x8100 = unicodemap_index mods caps 0x8000"
  by (simp add: unicodemap_index_def QK_UNICODEMAP_PAIR_def)

definition process_unicodemap ::
    "unicode_cfg \<Rightarrow> 'e unicode_ops \<Rightarrow> (u8 \<Rightarrow> u32) \<Rightarrow> u8 \<Rightarrow> u16 \<Rightarrow> keyrecord_t \<Rightarrow> unicode_modes \<Rightarrow> 'e \<Rightarrow> ('e \<times> bool) option" where
  "process_unicodemap c ops unicode_map mods keycode record s e =
     (if QK_UNICODEMAP \<le> keycode \<and> keycode \<le> QK_UNICODEMAP_PAIR_MAX \<and> pressed record
      then map_option (\<lambda>e. (e, True)) (register_unicode c ops (unicode_mode (input_mode s))
        (unicode_map (unicodemap_index mods (caps_lock (host_keyboard_led_state ops e)) keycode)) e)
      else Some (e, True))"

section \<open>Mnemonics\<close>

record ucis =
  ucis_count :: "8 word"
  ucis_active :: bool
  ucis_input :: "8 word list"

definition ucis_start :: "unicode_cfg \<Rightarrow> 'e unicode_ops \<Rightarrow> unicode_input_modes \<Rightarrow> ucis \<Rightarrow> 'e \<Rightarrow> (ucis \<times> 'e) option" where
  "ucis_start c ops mode s e = map_option (Pair (s\<lparr>ucis_count := 0, ucis_active := True\<rparr>)) (register_unicode c ops mode 0x2328 e)"

definition keycode_to_char :: "u16 \<Rightarrow> u8" where
  "keycode_to_char keycode =
     (if 0x04 \<le> keycode \<and> keycode \<le> 0x1D then 97 + ucast (keycode - 0x04)
      else if 0x1E \<le> keycode \<and> keycode \<le> 0x26 then 49 + ucast (keycode - 0x1E)
      else if keycode = 0x27 then 48
      else 0)"

definition ucis_add :: "u16 \<Rightarrow> ucis \<Rightarrow> (ucis \<times> bool) option" where
  "ucis_add keycode s =
     (let c = keycode_to_char keycode in
      if c \<noteq> 0 then
        if length (ucis_input s) \<le> unat (ucis_count s) then None
        else Some (s\<lparr>ucis_input := (ucis_input s)[unat (ucis_count s) := c], ucis_count := ucis_count s + 1\<rparr>, True)
      else Some (s, False))"

definition ucis_remove_last :: "ucis \<Rightarrow> ucis \<times> bool" where
  "ucis_remove_last s = (if ucis_count s \<noteq> 0 then (s\<lparr>ucis_count := ucis_count s - 1\<rparr>, True) else (s, False))"

text \<open>The loop from index \<open>i\<close>; the mnemonic has its terminator.\<close>

fun match_chars :: "nat \<Rightarrow> nat \<Rightarrow> u8 list \<Rightarrow> u8 list \<Rightarrow> bool option" where
  "match_chars count i [] m = None"
| "match_chars count i (x # xs) m =
     (if x = 0 then Some True
      else if count < i then Some False
      else case m of [] \<Rightarrow> None | y # ys \<Rightarrow> if x \<noteq> y then Some False else match_chars count (Suc i) xs ys)"

definition match_mnemonic :: "u8 list \<Rightarrow> ucis \<Rightarrow> bool option" where
  "match_mnemonic mnemonic s = match_chars (unat (ucis_count s)) 0 (ucis_input s) (mnemonic @ [0])"

definition register_ucis :: "unicode_cfg \<Rightarrow> 'e unicode_ops \<Rightarrow> unicode_input_modes \<Rightarrow> u32 list \<Rightarrow> 'e \<Rightarrow> 'e option" where
  "register_ucis c ops mode code_points e =
     fold (\<lambda>cp e. Option.bind e (register_unicode c ops mode cp)) (takeWhile (\<lambda>cp. cp \<noteq> 0) code_points) (Some e)"

text \<open>The table, without its end mark, is searched from the first entry on; it has at most 255 entries.\<close>

type_synonym ucis_symbols = "(u8 list \<times> u32 list) list"

fun find_symbol :: "ucis_symbols \<Rightarrow> ucis \<Rightarrow> u32 list option option" where
  "find_symbol [] s = Some None"
| "find_symbol ((mnemonic, code_points) # table) s = (case match_mnemonic mnemonic s of
     None \<Rightarrow> None | Some True \<Rightarrow> Some (Some code_points) | Some False \<Rightarrow> find_symbol table s)"

definition ucis_finish :: "unicode_cfg \<Rightarrow> 'e unicode_ops \<Rightarrow> unicode_input_modes \<Rightarrow> ucis_symbols \<Rightarrow> ucis \<Rightarrow> 'e \<Rightarrow> (ucis \<times> 'e) option" where
  "ucis_finish c ops mode table s e = map_option (Pair (s\<lparr>ucis_active := False\<rparr>)) (case find_symbol table s of
     None \<Rightarrow> None
   | Some None \<Rightarrow> Some e
   | Some (Some code_points) \<Rightarrow> register_ucis c ops mode code_points ((ss_tap_code (uo_typing ops) 0x2A ^^ Suc (unat (ucis_count s))) e))"

definition ucis_cancel :: "ucis \<Rightarrow> ucis" where
  "ucis_cancel s = s\<lparr>ucis_count := 0, ucis_active := False\<rparr>"

definition process_ucis ::
    "unicode_cfg \<Rightarrow> 'e unicode_ops \<Rightarrow> unicode_input_modes \<Rightarrow> ucis_symbols \<Rightarrow> u16 \<Rightarrow> keyrecord_t \<Rightarrow> ucis \<Rightarrow> 'e
      \<Rightarrow> (ucis \<times> 'e \<times> bool) option" where
  "process_ucis c ops mode table keycode record s e =
     (if ucis_active s \<and> pressed record then
        let special = keycode = 0x2C \<or> keycode = 0x28 \<or> keycode = 0x29 \<or> keycode = 0x2A in
        if length (ucis_input s) \<le> unat (ucis_count s) \<and> \<not> special then Some (s, e, False)
        else case ucis_add keycode s of
            None \<Rightarrow> None
          | Some (s, True) \<Rightarrow> Some (s, e, True)
          | Some (s, False) \<Rightarrow>
              if keycode = 0x2A then let (s, r) = ucis_remove_last s in Some (s, e, r)
              else if keycode = 0x29 then Some (ucis_cancel s, e, False)
              else if keycode = 0x2C \<or> keycode = 0x28 then map_option (\<lambda>(s, e). (s, e, False)) (ucis_finish c ops mode table s e)
              else Some (s, e, True)
      else Some (s, e, True))"

text \<open>A start, or a key that is pressed.\<close>

datatype ucis_event = Start | Press "16 word"

fun ucis_step :: "unicode_cfg \<Rightarrow> 'e unicode_ops \<Rightarrow> unicode_input_modes \<Rightarrow> ucis_symbols \<Rightarrow> keyrecord_t \<Rightarrow> ucis_event \<Rightarrow> ucis \<times> 'e
    \<Rightarrow> (ucis \<times> 'e) option" where
  "ucis_step c ops mode table r Start (s, e) = ucis_start c ops mode s e"
| "ucis_step c ops mode table r (Press k) (s, e) = map_option (\<lambda>(s, e, b). (s, e)) (process_ucis c ops mode table k r s e)"

definition ucis_run :: "unicode_cfg \<Rightarrow> 'e unicode_ops \<Rightarrow> unicode_input_modes \<Rightarrow> ucis_symbols \<Rightarrow> keyrecord_t \<Rightarrow> ucis_event list
    \<Rightarrow> ucis \<times> 'e \<Rightarrow> (ucis \<times> 'e) option" where
  "ucis_run c ops mode table r xs s = fold (\<lambda>x s. Option.bind s (ucis_step c ops mode table r x)) xs (Some s)"

lemma ucis_run_Nil: "ucis_run c ops mode table r [] s = Some s"
  by (simp add: ucis_run_def)

lemma ucis_run_none: "ucis_run c ops mode table r [] = Some"
  by (rule ext) (rule ucis_run_Nil)

lemma ucis_run_Cons:
  "ucis_run c ops mode table r (x # xs) s = Option.bind (ucis_step c ops mode table r x s) (ucis_run c ops mode table r xs)"
proof -
  have "fold (\<lambda>x s. Option.bind s (ucis_step c ops mode table r x)) xs None = None" by (induction xs) simp_all
  then show ?thesis by (cases "ucis_step c ops mode table r x s") (simp_all add: ucis_run_def)
qed

lemma ucis_run_append:
  "ucis_run c ops mode table r (xs @ ys) s = Option.bind (ucis_run c ops mode table r xs s) (ucis_run c ops mode table r ys)"
proof (induction xs arbitrary: s)
  case (Cons x xs)
  then show ?case by (cases "ucis_step c ops mode table r x s") (simp_all add: ucis_run_Cons)
qed (simp add: ucis_run_Nil)

definition ucis_text :: "u16 list \<Rightarrow> u8 list" where
  "ucis_text ks = map keycode_to_char ks"

lemma letters_typed:
  assumes "pressed r" "ucis_active s" "\<forall>k \<in> set ks. keycode_to_char k \<noteq> 0" "length (ucis_input s) \<le> 255"
    and "unat (ucis_count s) + length ks \<le> length (ucis_input s)"
  shows "ucis_run c ops mode table r (map Press ks) (s, e)
    = Some (s\<lparr>ucis_input := take (unat (ucis_count s)) (ucis_input s) @ ucis_text ks @ drop (unat (ucis_count s) + length ks) (ucis_input s),
        ucis_count := of_nat (unat (ucis_count s) + length ks)\<rparr>, e)"
  using assms(2-5)
proof (induction ks arbitrary: s)
  case (Cons k ks)
  let ?n = "unat (ucis_count s)"
  let ?s = "s\<lparr>ucis_input := (ucis_input s)[?n := keycode_to_char k], ucis_count := ucis_count s + 1\<rparr>"
  have n: "?n < length (ucis_input s)" using Cons.prems(4) by simp
  have "unat (ucis_count s + 1) = ?n + 1"
    by (subst unat_add_lem[THEN iffD1]) (use n Cons.prems(3) in simp_all)
  then have c1: "unat (ucis_count ?s) = ?n + 1" by simp
  have step: "ucis_step c ops mode table r (Press k) (s, e) = Some (?s, e)"
    using assms(1) Cons.prems(1,2) n by (simp add: process_ucis_def ucis_add_def Let_def)
  have "ucis_run c ops mode table r (map Press ks) (?s, e)
      = Some (?s\<lparr>ucis_input := take (unat (ucis_count ?s)) (ucis_input ?s) @ ucis_text ks @ drop (unat (ucis_count ?s) + length ks) (ucis_input ?s),
        ucis_count := of_nat (unat (ucis_count ?s) + length ks)\<rparr>, e)"
    by (rule Cons.IH) (use Cons.prems c1 in simp_all)
  moreover have "take (?n + 1) ((ucis_input s)[?n := keycode_to_char k]) = take ?n (ucis_input s) @ [keycode_to_char k]"
    using n by (simp add: take_Suc_conv_app_nth)
  ultimately show ?case using step c1 by (simp add: ucis_run_Cons ucis_text_def del: ucis_step.simps)
qed (simp add: ucis_run_Nil ucis_text_def)

text \<open>Matching.\<close>

lemma match_typed:
  assumes "0 \<notin> set xs" "0 \<notin> set m" "i + length xs \<le> Suc count"
  shows "match_chars count i (xs @ 0 # rest) (m @ [0]) = Some (prefix xs m)"
  using assms
proof (induction xs arbitrary: i m)
  case (Cons x xs)
  then show ?case by (cases m) (auto simp: Cons.IH)
qed simp

lemma match_stale:
  assumes "x \<noteq> 0" "0 \<notin> set m"
  shows "match_chars count i (m @ x # rest) (m @ [0]) = Some False"
  using assms by (induction m arbitrary: i) auto

definition fresh_ucis :: "nat \<Rightarrow> ucis" where
  "fresh_ucis n = \<lparr>ucis_count = 0, ucis_active = False, ucis_input = replicate n 0\<rparr>"

text \<open>A start and letters, from any buffer.\<close>

lemma started:
  assumes "pressed r" "\<forall>k \<in> set ks. keycode_to_char k \<noteq> 0" "length (ucis_input s) \<le> 255" "length ks \<le> length (ucis_input s)"
    and "register_unicode c ops mode 0x2328 e = Some t"
  shows "ucis_run c ops mode table r (Start # map Press ks) (s, e)
    = Some (s\<lparr>ucis_input := ucis_text ks @ drop (length ks) (ucis_input s), ucis_count := of_nat (length ks), ucis_active := True\<rparr>, t)"
  using letters_typed[OF assms(1) _ assms(2), of "s\<lparr>ucis_count := 0, ucis_active := True\<rparr>" c ops mode table t] assms(3-5)
  by (simp add: ucis_run_Cons ucis_start_def)

lemma text_not_0: "\<forall>k \<in> set ks. keycode_to_char k \<noteq> 0 \<Longrightarrow> 0 \<notin> set (ucis_text ks)"
  by (auto simp: ucis_text_def)

lemma unat_length: "n \<le> 255 \<Longrightarrow> unat (of_nat n :: u8) = n"
  by (rule unat_of_nat_mod) simp

lemma fresh_found:
  assumes "length ks < n" "n \<le> 255" "\<forall>k \<in> set ks. keycode_to_char k \<noteq> 0" "\<forall>x \<in> set table. 0 \<notin> set (fst x)"
  shows "find_symbol table (fresh_ucis n\<lparr>ucis_input := ucis_text ks @ drop (length ks) (replicate n 0), ucis_count := of_nat (length ks),
      ucis_active := True\<rparr>) = Some (map_option snd (find (\<lambda>x. prefix (ucis_text ks) (fst x)) table))"
proof -
  obtain rest where rest: "replicate (n - length ks) (0 :: u8) = 0 # rest" using assms(1) by (cases "n - length ks") simp_all
  have u: "unat (of_nat (length ks) :: u8) = length ks" using assms(1,2) by (intro unat_length) simp
  have len: "length (ucis_text ks) = length ks" by (simp add: ucis_text_def)
  show ?thesis using assms(4)
  proof (induction table)
    case (Cons x table)
    obtain m cps where x: "x = (m, cps)" by fastforce
    have "match_chars (length ks) 0 (ucis_text ks @ 0 # rest) (m @ [0]) = Some (prefix (ucis_text ks) m)"
      using match_typed[OF text_not_0[OF assms(3)], of m 0 "length ks" rest] Cons.prems x len by simp
    then show ?case using Cons by (simp add: x match_mnemonic_def rest u)
  qed simp
qed

section \<open>Properties\<close>


text \<open>A key that is pressed.\<close>

definition pressed_key :: keyrecord_t where
  "pressed_key = no_record\<lparr>kr_event := (kr_event no_record)\<lparr>ev_pressed := True\<rparr>\<rparr>"


text \<open>
  C36. The buffer keeps what was typed before: after a longer text, even one that was cancelled, a
  mnemonic that is typed in full is not found, although it is in a fresh buffer.
\<close>

theorem ucis_stale_input:
  assumes "pressed r" "\<forall>k \<in> set ks \<union> set js. keycode_to_char k \<noteq> 0" "length ks < length js" "length js \<le> n" "n \<le> 255"
  shows "(\<exists>s t. ucis_run c ops mode table r (Start # map Press ks) (fresh_ucis n, e) = Some (s, t)
        \<and> match_mnemonic (ucis_text ks) s = Some True)
    \<and> (\<exists>s t. ucis_run c ops mode table r (Start # map Press js @ Press 0x29 # Start # map Press ks) (fresh_ucis n, e) = Some (s, t)
        \<and> match_mnemonic (ucis_text ks) s = Some False)"
proof -
  have ks: "\<forall>k \<in> set ks. keycode_to_char k \<noteq> 0" and js: "\<forall>k \<in> set js. keycode_to_char k \<noteq> 0" using assms(2) by auto
  obtain t where t: "register_unicode c ops mode 0x2328 e = Some t" using register_unicode_returns[of c ops mode "0x2328" e] ..
  obtain t' where t': "register_unicode c ops mode 0x2328 t = Some t'" using register_unicode_returns[of c ops mode "0x2328" t] ..
  have u: "unat (of_nat (length ks) :: u8) = length ks" using assms(3-5) by (intro unat_length) simp
  have len: "length (ucis_text ks) = length ks" by (simp add: ucis_text_def)
  obtain rest where rest: "replicate (n - length ks) (0 :: u8) = 0 # rest" using assms(3,4) by (cases "n - length ks") simp_all
  have one: "ucis_run c ops mode table r (Start # map Press ks) (fresh_ucis n, e)
      = Some (fresh_ucis n\<lparr>ucis_input := ucis_text ks @ drop (length ks) (replicate n 0), ucis_count := of_nat (length ks), ucis_active := True\<rparr>, t)"
    using started[OF assms(1) ks _ _ t, of "fresh_ucis n"] assms(3-5) by (simp add: fresh_ucis_def)
  have "match_chars (length ks) 0 (ucis_text ks @ 0 # rest) (ucis_text ks @ [0]) = Some True"
    using match_typed[OF text_not_0[OF ks] text_not_0[OF ks], of 0 "length ks" rest] len by simp
  then have fresh: "\<exists>s t. ucis_run c ops mode table r (Start # map Press ks) (fresh_ucis n, e) = Some (s, t)
      \<and> match_mnemonic (ucis_text ks) s = Some True"
    using one by (simp add: match_mnemonic_def u rest)
  let ?b = "fresh_ucis n\<lparr>ucis_input := ucis_text js @ drop (length js) (replicate n 0), ucis_count := 0, ucis_active := False\<rparr>"
  have two: "ucis_run c ops mode table r (Start # map Press js) (fresh_ucis n, e)
      = Some (fresh_ucis n\<lparr>ucis_input := ucis_text js @ drop (length js) (replicate n 0), ucis_count := of_nat (length js), ucis_active := True\<rparr>, t)"
    using started[OF assms(1) js _ _ t, of "fresh_ucis n"] assms(4,5) by (simp add: fresh_ucis_def)
  have escape: "ucis_step c ops mode table r (Press 0x29) (fresh_ucis n\<lparr>ucis_input := ucis_text js @ drop (length js) (replicate n 0),
      ucis_count := of_nat (length js), ucis_active := True\<rparr>, t) = Some (?b, t)"
    using assms(1) by (simp add: process_ucis_def ucis_add_def keycode_to_char_def ucis_cancel_def)
  have three: "ucis_run c ops mode table r (Start # map Press ks) (?b, t) = Some (?b\<lparr>ucis_input := ucis_text ks
      @ drop (length ks) (ucis_text js @ drop (length js) (replicate n 0)), ucis_count := of_nat (length ks), ucis_active := True\<rparr>, t')"
    using started[OF assms(1) ks _ _ t', of ?b] assms(3-5) by (simp add: ucis_text_def)
  have run: "ucis_run c ops mode table r (Start # map Press js @ Press 0x29 # Start # map Press ks) (fresh_ucis n, e)
      = Some (?b\<lparr>ucis_input := ucis_text ks @ drop (length ks) (ucis_text js @ drop (length js) (replicate n 0)),
          ucis_count := of_nat (length ks), ucis_active := True\<rparr>, t')"
    using ucis_run_append[of c ops mode table r "Start # map Press js" "Press 0x29 # Start # map Press ks"] two escape three
    by (simp add: ucis_run_Cons[of _ _ _ _ _ "Press 0x29"] del: ucis_step.simps)
  obtain x xs where x: "drop (length ks) (ucis_text js) = x # xs" "x \<noteq> 0"
  proof -
    obtain x xs where d: "drop (length ks) (ucis_text js) = x # xs" using assms(3) by (cases "drop (length ks) (ucis_text js)") (simp_all add: ucis_text_def)
    then have "x \<in> set (ucis_text js)" by (metis in_set_dropD list.set_intros(1))
    then show ?thesis using that d text_not_0[OF js] by metis
  qed
  have "match_chars (length ks) 0 (ucis_text ks @ x # (xs @ drop (length js) (replicate n 0))) (ucis_text ks @ [0]) = Some False"
    by (rule match_stale[OF x(2) text_not_0[OF ks]])
  then have "match_mnemonic (ucis_text ks) (?b\<lparr>ucis_input := ucis_text ks @ drop (length ks) (ucis_text js @ drop (length js) (replicate n 0)),
          ucis_count := of_nat (length ks), ucis_active := True\<rparr>) = Some False"
    using assms(3) x(1) by (simp add: match_mnemonic_def u ucis_text_def)
  with run fresh show ?thesis by blast
qed

theorem ucis_stale_input_witness:
  "\<exists>s t. ucis_run default_unicode_cfg (host_ops UNICODE_MODE_LINUX) UNICODE_MODE_LINUX [([112, 111], [0x1F4A9])] pressed_key
      (Start # map Press [0x04, 0x04, 0x04] @ Press 0x29 # Start # map Press [0x13, 0x12]) (fresh_ucis 32, capital_host) = Some (s, t)
    \<and> match_mnemonic [112, 111] s = Some False"
proof -
  have r: "pressed pressed_key" by (simp add: pressed_key_def)
  have ks: "\<forall>k \<in> set [0x13, 0x12] \<union> set [0x04, 0x04, 0x04]. keycode_to_char k \<noteq> 0" by (simp add: keycode_to_char_def)
  have n: "length [0x13, 0x12 :: u16] < length [0x04, 0x04, 0x04 :: u16]" "length [0x04, 0x04, 0x04 :: u16] \<le> 32" "(32 :: nat) \<le> 255" by simp_all
  have po: "ucis_text [0x13, 0x12] = [112, 111]" by (simp add: ucis_text_def keycode_to_char_def)
  show ?thesis using ucis_stale_input[OF r ks n, of default_unicode_cfg "host_ops UNICODE_MODE_LINUX" UNICODE_MODE_LINUX
      "[([112, 111], [0x1F4A9])]" capital_host, THEN conjunct2] unfolding po .
qed

end
