(* ===== verification/Action_Types.thy ===== *)
theory Action_Types
  imports Keymap
begin

text \<open>
  The fields of action codes (quantum/action_code.h) as \<open>action_for_keycode\<close> of
  quantum/keymap_common.c builds them: which kind of action each range of keycodes gives, and that the fields
  that the interpreter reads are those that were packed.
\<close>

section \<open>Narrow words\<close>

definition narrow :: "nat \<Rightarrow> u16 \<Rightarrow> bool" where
  "narrow n p \<longleftrightarrow> unat p < 2 ^ n"

lemma narrow_iff_bits: "narrow n p \<longleftrightarrow> (\<forall>k \<ge> n. \<not> bit p k)"
proof
  assume "narrow n p"
  then show "\<forall>k \<ge> n. \<not> bit p k" using bit_small[of p n] by (auto simp: narrow_def not_less dest: leD)
next
  assume clear: "\<forall>k \<ge> n. \<not> bit p k"
  have "take_bit n p = p" by (rule word_eqI_bits) (use clear in \<open>simp add: bit_take_bit_iff; meson not_less\<close>)
  then have "take_bit n (unat p) = unat p" by (metis unsigned_take_bit_eq)
  then show "narrow n p" unfolding narrow_def by (metis take_bit_nat_less_exp)
qed

lemma narrow_or [intro]: "narrow n p \<Longrightarrow> narrow n q \<Longrightarrow> narrow n (p OR q)"
  by (simp add: narrow_iff_bits bit_or_iff)

lemma narrow_push: "narrow m p \<Longrightarrow> m + k \<le> n \<Longrightarrow> narrow n (push_bit k p)"
  by (auto simp: narrow_iff_bits bit_push_bit_iff)

lemma narrow_mono: "narrow m p \<Longrightarrow> m \<le> n \<Longrightarrow> narrow n p"
  by (simp add: narrow_iff_bits)

lemma narrow_and: "narrow n q \<Longrightarrow> narrow n (p AND q)"
  by (simp add: narrow_iff_bits bit_and_iff)

lemma narrow_ucast: "narrow 8 (ucast (w :: u8))"
  by (auto simp: narrow_iff_bits bit_ucast_iff dest: bit_imp_le_length)

lemma narrow_numeral: "n < 2 ^ m \<Longrightarrow> n < 65536 \<Longrightarrow> narrow m (of_nat n)"
  by (simp add: narrow_def unat_of_nat_mod)

section \<open>Kinds and codes\<close>

lemma action_bits: "narrow 13 p \<Longrightarrow> drop_bit 12 (ACTION k p) = action_kind_value k OR of_bool (bit p 12)"
proof (rule word_eqI_bits)
  fix i assume p: "narrow 13 p" and i: "i < LENGTH(16)"
  have "narrow 4 (action_kind_value k)" by (cases k) (simp_all add: narrow_def)
  then have k: "bit (action_kind_value k) i \<Longrightarrow> i < 4" unfolding narrow_def by (rule bit_small)
  have "bit p (12 + i) \<longleftrightarrow> i = 0 \<and> bit p 12" using p by (cases i) (simp_all add: narrow_iff_bits)
  then show "bit (drop_bit 12 (ACTION k p)) i \<longleftrightarrow> bit (action_kind_value k OR of_bool (bit p 12)) i"
    using k i by (auto simp: ACTION_def bit_drop_bit_eq bit_or_iff bit_push_bit_iff bit_of_bool_iff narrow_iff_bits)
qed

lemma kind_of_action:
  assumes "narrow 12 p"
  shows "action_kind (ACTION k p) = Some k"
proof -
  have "narrow 13 p" "\<not> bit p 12" using assms by (auto simp: narrow_iff_bits)
  then have d: "drop_bit 12 (ACTION k p) = action_kind_value k" using action_bits by simp
  show ?thesis unfolding action_kind_def bit_field_def d by (cases k) simp_all
qed

text \<open>Modifiers and layers of five bits reach into the kind.\<close>

lemma kind_of_wide_action:
  assumes "narrow 13 p"
  shows "action_kind (ACTION ACT_LMODS p) = Some (if bit p 12 then ACT_RMODS else ACT_LMODS)"
    "action_kind (ACTION ACT_LMODS_TAP p) = Some (if bit p 12 then ACT_RMODS_TAP else ACT_LMODS_TAP)"
    "action_kind (ACTION ACT_LAYER_TAP p) = Some (if bit p 12 then ACT_LAYER_TAP_EXT else ACT_LAYER_TAP)"
  unfolding action_kind_def bit_field_def action_bits[OF assms] by simp_all

lemma tap_code_of_action: "layer_tap_code (ACTION k (push_bit 8 x OR y)) = ucast y"
  unfolding layer_tap_code_def bit_field_def ACTION_def
  by (rule word_eqI_bits) (auto simp: bit_ucast_iff bit_take_bit_iff bit_or_iff bit_push_bit_iff)

lemma layer_of_action:
  assumes "narrow 8 y" "narrow 5 x"
  shows "layer_tap_val (ACTION ACT_LAYER_TAP (push_bit 8 x OR y)) = ucast x"
proof -
  have a: "\<not> bit (10 :: u16) 0" by simp
  show ?thesis unfolding layer_tap_val_def bit_field_def ACTION_def
  proof (rule word_eqI_bits)
    fix i assume i: "i < LENGTH(8)"
    have "bit x i \<Longrightarrow> i < 5" "\<not> bit y (8 + i)" using assms by (auto simp: narrow_iff_bits not_less[symmetric])
    moreover have "i < 5 \<Longrightarrow> \<not> (12 \<le> 8 + i \<and> bit (10 :: u16) (8 + i - 12))" using a by (cases "i = 4") auto
    ultimately show "bit (ucast (take_bit 5 (drop_bit 8 (push_bit 12 (action_kind_value ACT_LAYER_TAP) OR (push_bit 8 x OR y)))) :: u8) i
        \<longleftrightarrow> bit (ucast x :: u8) i"
      using i by (auto simp: bit_ucast_iff bit_take_bit_iff bit_drop_bit_eq bit_or_iff bit_push_bit_iff)
  qed
qed

lemma keycode_config_low:
  assumes "narrow 8 k"
  shows "narrow 8 (keycode_config c k)"
  using assms by (auto simp: keycode_config_def narrow_def KC_CAPS_LOCK_def KC_LOCKING_CAPS_LOCK_def KC_LEFT_CTRL_def KC_ESCAPE_def
      KC_LEFT_ALT_def KC_LEFT_GUI_def KC_RIGHT_CTRL_def KC_RIGHT_ALT_def KC_RIGHT_GUI_def KC_GRAVE_def KC_BACKSLASH_def KC_BACKSPACE_def)

lemma consumer_usage: "narrow 10 (KEYCODE2CONSUMER key)"
  by (auto simp: KEYCODE2CONSUMER_def narrow_def)

lemma system_usage: "narrow 10 (KEYCODE2SYSTEM key)"
  by (auto simp: KEYCODE2SYSTEM_def narrow_def)

section \<open>Ranges\<close>

definition keycode_kinds :: "u16 \<Rightarrow> action_kind_id set" where
  "keycode_kinds k =
     (if IS_SYSTEM_KEYCODE k \<or> IS_CONSUMER_KEYCODE k then {ACT_USAGE}
      else if IS_MOUSE_KEYCODE k then {ACT_MOUSEKEY}
      else if 0x0100 \<le> k \<and> k \<le> 0x1FFF then {ACT_LMODS, ACT_RMODS}
      else if 0x2000 \<le> k \<and> k \<le> 0x3FFF \<or> 0x52A0 \<le> k \<and> k \<le> 0x52BF then {ACT_LMODS_TAP, ACT_RMODS_TAP}
      else if 0x4000 \<le> k \<and> k \<le> 0x4FFF then {ACT_LAYER_TAP}
      else if 0x5000 \<le> k \<and> k \<le> 0x51FF then {ACT_LAYER_MODS}
      else if 0x5200 \<le> k \<and> k \<le> 0x521F \<or> 0x5240 \<le> k \<and> k \<le> 0x527F then {ACT_LAYER}
      else if 0x5220 \<le> k \<and> k \<le> 0x523F \<or> 0x5280 \<le> k \<and> k \<le> 0x529F \<or> 0x52C0 \<le> k \<and> k \<le> 0x52DF
        then {ACT_LAYER_TAP, ACT_LAYER_TAP_EXT}
      else {ACT_LMODS})"

text \<open>The keys that are one thing when tapped and another when held.\<close>

definition dual_role :: "keymap_config_t \<Rightarrow> u16 \<Rightarrow> bool" where
  "dual_role c k \<longleftrightarrow>
     (0x2000 \<le> k \<and> k \<le> 0x4FFF \<and> (let t = keycode_config c (k AND 0xFF) in t \<le> 0xE7 \<or> t = 0xF0 \<or> t = 0xF4))
     \<or> 0x5280 \<le> k \<and> k \<le> 0x52DF"

definition taps_with :: "u8 \<Rightarrow> bool" where
  "taps_with code \<longleftrightarrow> code \<le> 0xE7 \<or> code = OP_TAP_TOGGLE \<or> code = OP_ONESHOT"

lemma kind_not_tap:
  assumes "action_kind a = Some t" "t \<notin> {ACT_LMODS_TAP, ACT_RMODS_TAP, ACT_LAYER_TAP, ACT_LAYER_TAP_EXT, ACT_SWAP_HANDS}"
  shows "\<not> is_tap_action a"
  using assms by (auto simp: is_tap_action_def)

lemma kind_tap:
  assumes "action_kind a = Some t" "t \<in> {ACT_LMODS_TAP, ACT_RMODS_TAP, ACT_LAYER_TAP, ACT_LAYER_TAP_EXT}"
  shows "is_tap_action a \<longleftrightarrow> taps_with (layer_tap_code a)"
  using assms by (auto simp: is_tap_action_def taps_with_def)

lemma packed: "narrow 5 x \<Longrightarrow> narrow 8 y \<Longrightarrow> narrow 13 (push_bit 8 x OR y)" "narrow 4 x \<Longrightarrow> narrow 8 y \<Longrightarrow> narrow 12 (push_bit 8 x OR y)"
  by (auto intro!: narrow_or intro: narrow_push narrow_mono)

lemma mods_narrow: "narrow 5 (m AND 0x1f)" "narrow 4 (m AND 0xF)" "narrow 8 (m AND 0xFF)"
  by (rule narrow_and, simp add: narrow_def)+

lemma mods_key:
  assumes "narrow 8 key"
  shows "\<exists>t \<in> {ACT_LMODS, ACT_RMODS}. action_kind (ACTION_MODS_KEY mods key) = Some t" "\<not> is_tap_action (ACTION_MODS_KEY mods key)"
proof -
  have k: "action_kind (ACTION_MODS_KEY mods key) = Some (if bit (push_bit 8 (mods AND 0x1f) OR key) 12 then ACT_RMODS else ACT_LMODS)"
    unfolding ACTION_MODS_KEY_def by (rule kind_of_wide_action(1)[OF packed(1)[OF mods_narrow(1) assms]])
  show "\<exists>t \<in> {ACT_LMODS, ACT_RMODS}. action_kind (ACTION_MODS_KEY mods key) = Some t" using k by auto
  show "\<not> is_tap_action (ACTION_MODS_KEY mods key)" by (rule kind_not_tap[OF k]) simp
qed

lemma mods_tap:
  assumes "narrow 8 key"
  shows "\<exists>t \<in> {ACT_LMODS_TAP, ACT_RMODS_TAP}. action_kind (ACTION_MODS_TAP_KEY mods key) = Some t"
    "is_tap_action (ACTION_MODS_TAP_KEY mods key) \<longleftrightarrow> taps_with (ucast key)"
proof -
  have k: "action_kind (ACTION_MODS_TAP_KEY mods key)
      = Some (if bit (push_bit 8 (mods AND 0x1f) OR key) 12 then ACT_RMODS_TAP else ACT_LMODS_TAP)"
    unfolding ACTION_MODS_TAP_KEY_def by (rule kind_of_wide_action(2)[OF packed(1)[OF mods_narrow(1) assms]])
  show "\<exists>t \<in> {ACT_LMODS_TAP, ACT_RMODS_TAP}. action_kind (ACTION_MODS_TAP_KEY mods key) = Some t" using k by auto
  have "layer_tap_code (ACTION_MODS_TAP_KEY mods key) = ucast key" unfolding ACTION_MODS_TAP_KEY_def by (rule tap_code_of_action)
  then show "is_tap_action (ACTION_MODS_TAP_KEY mods key) \<longleftrightarrow> taps_with (ucast key)" using kind_tap[OF k] by simp
qed

lemma layer_tap:
  assumes "narrow 5 layer" "narrow 8 key"
  shows "\<exists>t \<in> {ACT_LAYER_TAP, ACT_LAYER_TAP_EXT}. action_kind (ACTION_LAYER_TAP layer key) = Some t"
    "is_tap_action (ACTION_LAYER_TAP layer key) \<longleftrightarrow> taps_with (ucast key)"
proof -
  have k: "action_kind (ACTION_LAYER_TAP layer key) = Some (if bit (push_bit 8 layer OR key) 12 then ACT_LAYER_TAP_EXT else ACT_LAYER_TAP)"
    unfolding ACTION_LAYER_TAP_def by (rule kind_of_wide_action(3)[OF packed(1)[OF assms]])
  show "\<exists>t \<in> {ACT_LAYER_TAP, ACT_LAYER_TAP_EXT}. action_kind (ACTION_LAYER_TAP layer key) = Some t" using k by auto
  have "layer_tap_code (ACTION_LAYER_TAP layer key) = ucast key" unfolding ACTION_LAYER_TAP_def by (rule tap_code_of_action)
  then show "is_tap_action (ACTION_LAYER_TAP layer key) \<longleftrightarrow> taps_with (ucast key)" using kind_tap[OF k] by simp
qed

lemma unat_ucast_8_16: "unat (ucast (x :: u8) :: u16) = unat x"
proof -
  have "unat x < 2 ^ LENGTH(8)" by (rule unsigned_less)
  then show ?thesis by (simp add: unsigned_ucast_eq take_bit_nat_eq_self_iff)
qed

lemma ucast_8_16_8: "ucast (ucast (x :: u8) :: u16) = x"
  by (rule word_eqI_bits) (simp add: bit_ucast_iff)

lemma layer_bitop:
  assumes "narrow 5 layer" "bop \<le> 3" "onn \<le> 3"
  shows "action_kind (ACTION_LAYER_BITOP bop (layer div 4) bits onn) = Some ACT_LAYER"
proof -
  have "unat (layer div 4) < 2 ^ 3" using assms(1) by (simp add: narrow_def unat_div)
  then have n: "narrow 3 (layer div 4)" "narrow 2 (ucast bop)" "narrow 2 (ucast onn)"
    using assms(2,3) by (simp_all add: narrow_def word_le_nat_alt unat_ucast_8_16)
  have "narrow 12 (push_bit 10 (ucast bop) OR push_bit 8 (ucast onn) OR push_bit 5 (layer div 4) OR (bits AND 0x1f))"
    by (intro narrow_or narrow_push[OF n(1)] narrow_push[OF n(2)] narrow_push[OF n(3)] narrow_mono[OF mods_narrow(1)]) simp_all
  then show ?thesis unfolding ACTION_LAYER_BITOP_def by (rule kind_of_action)
qed

definition well_typed :: "keymap_config_t \<Rightarrow> u16 \<Rightarrow> u16 \<Rightarrow> bool" where
  "well_typed c k a \<longleftrightarrow> (\<exists>t \<in> keycode_kinds k. action_kind a = Some t) \<and> (is_tap_action a \<longleftrightarrow> dual_role c k)"

lemma plain: "action_kind a = Some ACT_LMODS \<Longrightarrow> keycode_kinds k = {ACT_LMODS} \<Longrightarrow> \<not> dual_role c k \<Longrightarrow> well_typed c k a"
  using kind_not_tap[of a ACT_LMODS] by (simp add: well_typed_def)

lemmas keycode_ranges = Let_def IS_BASIC_KEYCODE_def IS_MODIFIER_KEYCODE_def IS_SYSTEM_KEYCODE_def IS_CONSUMER_KEYCODE_def
  IS_MOUSE_KEYCODE_def KC_TRANSPARENT_def word_le_nat_alt

lemmas range_spec = keycode_kinds_def dual_role_def IS_SYSTEM_KEYCODE_def IS_CONSUMER_KEYCODE_def IS_MOUSE_KEYCODE_def word_le_nat_alt

lemma typed_basic:
  assumes k: "keycode_config c keycode = k" and True: "unat k \<le> 0xFF"
  shows "well_typed c k (action_for_keycode c keycode)"
proof -
  let ?a = "action_for_keycode c keycode"
  note ranges = action_for_keycode_def k keycode_ranges
  have nk: "narrow 8 k" using True by (simp add: narrow_def)
  then have n12: "narrow 12 k" by (rule narrow_mono) simp
  have role: "\<not> dual_role c k" using True by (simp add: range_spec)
  consider (key) "4 \<le> unat k \<and> unat k \<le> 0xA4 \<or> 0xE0 \<le> unat k \<and> unat k \<le> 0xE7" | (system) "0xA5 \<le> unat k" "unat k \<le> 0xA7" | (consumer) "0xA8 \<le> unat k" "unat k \<le> 0xC2"
    | (mouse) "0xCD \<le> unat k" "unat k \<le> 0xDF" | (transparent) "k = 1"
    | (none) "k \<noteq> 1" "unat k < 4 \<or> 0xC2 < unat k \<and> unat k < 0xCD \<or> 0xE7 < unat k" by linarith
  then show ?thesis
  proof cases
    case key
    then have a: "?a = ACTION_KEY k" by (auto simp: ranges)
    have "keycode_kinds k = {ACT_LMODS}" using key True by (auto simp: range_spec)
    then show ?thesis by (intro plain) (use role kind_of_action[OF n12] in \<open>simp_all add: a ACTION_KEY_def\<close>)
  next
    case system
    then have a: "?a = ACTION_USAGE_SYSTEM (KEYCODE2SYSTEM (ucast k))" by (auto simp: ranges)
    have "action_kind ?a = Some ACT_USAGE" unfolding a ACTION_USAGE_SYSTEM_def
      by (rule kind_of_action) (use narrow_mono[OF system_usage, of 12] in simp)
    moreover have "keycode_kinds k = {ACT_USAGE}" using system by (auto simp: range_spec)
    ultimately show ?thesis using role kind_not_tap[of ?a ACT_USAGE] by (simp add: well_typed_def)
  next
    case consumer
    then have a: "?a = ACTION_USAGE_CONSUMER (KEYCODE2CONSUMER (ucast k))" by (auto simp: ranges)
    have "action_kind ?a = Some ACT_USAGE" unfolding a ACTION_USAGE_CONSUMER_def
      by (rule kind_of_action, rule narrow_or[OF _ narrow_mono[OF consumer_usage]]) (simp_all add: narrow_def)
    moreover have "keycode_kinds k = {ACT_USAGE}" using consumer by (auto simp: range_spec)
    ultimately show ?thesis using role kind_not_tap[of ?a ACT_USAGE] by (simp add: well_typed_def)
  next
    case mouse
    then have a: "?a = ACTION_MOUSEKEY k" by (auto simp: ranges)
    have "action_kind ?a = Some ACT_MOUSEKEY" unfolding a ACTION_MOUSEKEY_def by (rule kind_of_action[OF n12])
    moreover have "keycode_kinds k = {ACT_MOUSEKEY}" using mouse by (auto simp: range_spec)
    ultimately show ?thesis using role kind_not_tap[of ?a ACT_MOUSEKEY] by (simp add: well_typed_def)
  next
    case transparent
    have a: "?a = 1" using transparent by (simp add: ranges)
    have "action_kind ?a = Some ACT_LMODS" unfolding a by (simp add: action_kind_def bit_field_def)
    moreover have "keycode_kinds k = {ACT_LMODS}" using transparent by (auto simp: range_spec)
    ultimately show ?thesis using plain role by blast
  next
    case none
    have a: "?a = 0" using none True by (auto simp: ranges ACTION_NO_def)
    have "action_kind ?a = Some ACT_LMODS" unfolding a by (simp add: action_kind_def bit_field_def)
    moreover have "keycode_kinds k = {ACT_LMODS}" using none True by (auto simp: range_spec)
    ultimately show ?thesis using plain role by blast
  qed
qed

lemma taps_low:
  "taps_with (ucast (keycode_config c (k AND 0xFF)))
    \<longleftrightarrow> (let t = keycode_config c (k AND 0xFF) in t \<le> 0xE7 \<or> t = 0xF0 \<or> t = 0xF4)"
proof -
  have "unat (ucast (keycode_config c (k AND 0xFF)) :: u8) = unat (keycode_config c (k AND 0xFF))"
    using keycode_config_low[OF mods_narrow(3), of c k] by (simp add: narrow_def unsigned_ucast_eq take_bit_nat_eq_self_iff)
  then show ?thesis by (simp add: taps_with_def Let_def OP_TAP_TOGGLE_def OP_ONESHOT_def word_le_nat_alt word_unat_eq_iff)
qed

lemma taps_codes: "taps_with 0" "\<not> taps_with 0xF1" "taps_with 0xF4" "taps_with 0xF0"
  by (simp_all add: taps_with_def OP_TAP_TOGGLE_def OP_ONESHOT_def)

lemma typed_mods_and_taps:
  assumes k: "keycode_config c keycode = k" and lo: "0x100 \<le> unat k" and hi: "unat k < 0x5200"
  shows "well_typed c k (action_for_keycode c keycode)"
proof -
  let ?a = "action_for_keycode c keycode" and ?low = "keycode_config c (k AND 0xFF)"
  have k1: "k \<noteq> 1" using lo by auto
  note ranges = action_for_keycode_def k keycode_ranges
  have n: "narrow 8 ?low" by (rule keycode_config_low[OF mods_narrow(3)])
  consider (mods) "unat k \<le> 0x1FFF" | (mod_tap) "0x2000 \<le> unat k" "unat k \<le> 0x3FFF"
    | (layer_tap) "0x4000 \<le> unat k" "unat k \<le> 0x4FFF" | (layer_mods) "0x5000 \<le> unat k" "unat k \<le> 0x51FF" using hi by linarith
  then show ?thesis
  proof cases
    case mods
    then have a: "?a = ACTION_MODS_KEY (ucast (mod_config c (ucast (drop_bit 8 k AND 0x1F)))) ?low" using lo k1 by (auto simp: ranges)
    have "keycode_kinds k = {ACT_LMODS, ACT_RMODS}" "\<not> dual_role c k" using mods lo by (auto simp: range_spec)
    then show ?thesis using mods_key[OF n] by (simp add: well_typed_def a)
  next
    case mod_tap
    then have a: "?a = ACTION_MODS_TAP_KEY (ucast (mod_config c (ucast (drop_bit 8 k AND 0x1F)))) ?low" using k1 by (auto simp: ranges)
    have "keycode_kinds k = {ACT_LMODS_TAP, ACT_RMODS_TAP}" "dual_role c k \<longleftrightarrow> taps_with (ucast ?low)"
      unfolding taps_low using mod_tap by (auto simp: range_spec)
    then show ?thesis using mods_tap[OF n] by (simp add: well_typed_def a)
  next
    case layer_tap
    then have a: "?a = ACTION_LAYER_TAP (drop_bit 8 k AND 0xF) ?low" using k1 by (auto simp: ranges)
    have t: "action_kind ?a = Some ACT_LAYER_TAP" unfolding a ACTION_LAYER_TAP_def by (rule kind_of_action[OF packed(2)[OF mods_narrow(2) n]])
    have "keycode_kinds k = {ACT_LAYER_TAP}" "dual_role c k \<longleftrightarrow> taps_with (ucast ?low)"
      unfolding taps_low using layer_tap by (auto simp: range_spec)
    moreover have "layer_tap_code ?a = ucast ?low" unfolding a ACTION_LAYER_TAP_def by (rule tap_code_of_action)
    ultimately show ?thesis using kind_tap[OF t] t by (simp add: well_typed_def)
  next
    case layer_mods
    then obtain m :: u8 where a: "?a = ACTION_LAYER_MODS (drop_bit 5 k AND 0xF) (ucast m)" using k1 by (auto simp: ranges)
    have t: "action_kind ?a = Some ACT_LAYER_MODS"
      unfolding a ACTION_LAYER_MODS_def by (rule kind_of_action[OF packed(2)[OF mods_narrow(2) narrow_ucast]])
    have "keycode_kinds k = {ACT_LAYER_MODS}" "\<not> dual_role c k" using layer_mods by (auto simp: range_spec)
    then show ?thesis using t kind_not_tap[OF t] by (simp add: well_typed_def)
  qed
qed

lemma typed_layers:
  assumes k: "keycode_config c keycode = k" and lo: "0x5200 \<le> unat k"
  shows "well_typed c k (action_for_keycode c keycode)"
proof -
  let ?a = "action_for_keycode c keycode" and ?layer = "k AND 0x1F"
  have k1: "k \<noteq> 1" using lo by auto
  note ranges = action_for_keycode_def k keycode_ranges
  have tap: "well_typed c k ?a" if a: "?a = ACTION_LAYER_TAP ?layer (ucast code)"
    and s: "keycode_kinds k = {ACT_LAYER_TAP, ACT_LAYER_TAP_EXT}" "dual_role c k \<longleftrightarrow> taps_with code" for code :: u8
    using layer_tap[OF mods_narrow(1) narrow_ucast] s by (simp add: well_typed_def a ucast_8_16_8)
  have bitop: "well_typed c k ?a" if a: "?a = ACTION_LAYER_BITOP bop (?layer div 4) bits onn" and s: "bop \<le> 3" "onn \<le> 3"
    "keycode_kinds k = {ACT_LAYER}" "\<not> dual_role c k" for bop bits onn
    using layer_bitop[OF mods_narrow(1) s(1,2)] kind_not_tap[of ?a ACT_LAYER] s(3,4) by (simp add: well_typed_def a)
  consider (goto) "unat k \<le> 0x521F" | (momentary) "0x5220 \<le> unat k" "unat k \<le> 0x523F" | (default) "0x5240 \<le> unat k" "unat k \<le> 0x525F"
    | (toggle) "0x5260 \<le> unat k" "unat k \<le> 0x527F" | (oneshot) "0x5280 \<le> unat k" "unat k \<le> 0x529F"
    | (oneshot_mods) "0x52A0 \<le> unat k" "unat k \<le> 0x52BF" | (tap_toggle) "0x52C0 \<le> unat k" "unat k \<le> 0x52DF"
    | (none) "0x52E0 \<le> unat k" by linarith
  then show ?thesis
  proof cases
    case goto
    show ?thesis by (rule bitop[of OP_BIT_SET _ ON_PRESS])
        (use goto lo k1 in \<open>auto simp: ranges ACTION_LAYER_GOTO_def OP_BIT_SET_def ON_PRESS_def range_spec\<close>)
  next
    case momentary
    show ?thesis by (rule tap[of OP_ON_OFF])
        (use momentary k1 in \<open>auto simp: ranges ACTION_LAYER_MOMENTARY_def taps_codes OP_ON_OFF_def range_spec\<close>)
  next
    case default
    show ?thesis by (rule bitop[of OP_BIT_SET _ 0])
        (use default k1 in \<open>auto simp: ranges ACTION_DEFAULT_LAYER_SET_def OP_BIT_SET_def range_spec\<close>)
  next
    case toggle
    show ?thesis by (rule bitop[of OP_BIT_XOR _ ON_RELEASE])
        (use toggle k1 in \<open>auto simp: ranges ACTION_LAYER_TOGGLE_def OP_BIT_XOR_def ON_RELEASE_def range_spec\<close>)
  next
    case oneshot
    show ?thesis by (rule tap[of OP_ONESHOT])
        (use oneshot k1 in \<open>auto simp: ranges ACTION_LAYER_ONESHOT_def taps_codes OP_ONESHOT_def range_spec\<close>)
  next
    case tap_toggle
    show ?thesis by (rule tap[of OP_TAP_TOGGLE])
        (use tap_toggle k1 in \<open>auto simp: ranges ACTION_LAYER_TAP_TOGGLE_def taps_codes OP_TAP_TOGGLE_def range_spec\<close>)
  next
    case oneshot_mods
    then obtain m where a: "?a = ACTION_MODS_TAP_KEY m 0"
      using k1 by (auto simp: ranges ACTION_MODS_ONESHOT_def ACTION_MODS_TAP_KEY_def MODS_ONESHOT_def)
    have "narrow 8 0" by (simp add: narrow_def)
    from mods_tap[OF this, of m] show ?thesis using oneshot_mods by (auto simp: well_typed_def a taps_codes range_spec)
  next
    case none
    have a: "?a = 0" using none k1 by (auto simp: ranges ACTION_NO_def)
    show ?thesis unfolding a by (rule plain) (use none in \<open>auto simp: action_kind_def bit_field_def range_spec\<close>)
  qed
qed

text \<open>
  C22. Every keycode becomes an action of the kind that its range says, so that the interpreter never
  meets a kind it does not know; and the actions that wait for a tap are exactly those of the dual-role keycodes.
\<close>

theorem action_for_keycode_typed:
  "(\<exists>t \<in> keycode_kinds (keycode_config c keycode). action_kind (action_for_keycode c keycode) = Some t)
    \<and> (is_tap_action (action_for_keycode c keycode) \<longleftrightarrow> dual_role c (keycode_config c keycode))"
proof -
  let ?k = "keycode_config c keycode"
  consider "unat ?k \<le> 0xFF" | "0x100 \<le> unat ?k" "unat ?k < 0x5200" | "0x5200 \<le> unat ?k" by linarith
  then have "well_typed c ?k (action_for_keycode c keycode)"
    by cases (rule typed_basic[OF refl], assumption, rule typed_mods_and_taps[OF refl], assumption+, rule typed_layers[OF refl], assumption)
  then show ?thesis unfolding well_typed_def .
qed

end
