(* ===== verification/Spec2Isabelle.thy ===== *)
theory Spec2Isabelle
  imports Encoder Midi Debounce_Timing Matrix Eeprom Firmware Crc Secure Dynamic_Macro Deferred_Exec Via_Recovery
    Unicode_Keys Action_Types
begin

text \<open>
  A model of the core of the QMK keyboard firmware (a C program), with its correctness proofs.

  \<^bold>\<open>The program.\<close> The main loop of the firmware scans the key matrix, debounces it, compares it
  with the matrix of the last pass and hands every change, as an event, to the action code. That
  looks the key up in the keymap through the active layers, changes layers, modifiers and held
  keys, and sends the host a report whenever something changed. Beside this path stand the
  rotary encoders, which queue events of their own, a MIDI device, and settings that are kept in
  an EEPROM, which on most microcontrollers is emulated in flash by a wear-leveling log.

  \<^bold>\<open>Conventions.\<close> The static variables of a C file are the fields of a record; a function takes
  and returns the record. Machine integers are words (\<open>u8\<close>, \<open>u16\<close>, \<open>u32\<close>, \<open>u64\<close>), and where the
  code computes in \<open>int\<close> after promotion so does the model. Readings of clocks and pins,
  keyboard and user hooks, and keymaps are arguments; calls that leave the modelled code (to
  \<open>action_exec\<close>, to the host, to MIDI callbacks) are recorded in order. A function returns an
  option where the code may read or write outside an object. All definitions compute. Most loops
  are folds over index lists or structural recursions; \<open>bitpop_loop\<close>, \<open>midi_send_array_from\<close>,
  \<open>wear_leveling_write_raw\<close>, \<open>process_record\<close>, \<open>allocate_loop\<close>, \<open>send_string_with_delay_impl\<close>
  and \<open>send_unicode_string\<close> are recursions with a termination proof, the loop of the encoder task is a partial function that
  is proved to return. Four loops count steps that bound them: the playback of the write log one for
  each unit of the backing store, because every entry moves on by one unit at least;
  \<open>process_waiting\<close> one for each of the eight places of the waiting buffer; the loops over a
  dynamic macro one for each record between their pointers; the search for a macro one for each
  byte of the macro area.

  \<^bold>\<open>Theories.\<close>
  \<^item> \<open>Prelude\<close>: integer types, single bits, loops, lists.
  \<^item> \<open>Bitwise\<close>: quantum/bitwise.c. Population count, highest bit and reversal against
    their mathematical definitions.
  \<^item> \<open>Ring_Queue\<close>: the locale \<open>bounded_fifo\<close>, the contract of the ring buffers, with the index
    arithmetic they share. \<open>Byte_Queue\<close> (quantum/midi/bytequeue) and \<open>Encoder\<close> interpret it.
  \<^item> \<open>Midi\<close>: quantum/midi/midi.c and midi_device.c. Senders, input queue and parser; the round
    trip from sender to callback, system-exclusive messages and realtime bytes.
  \<^item> \<open>Key_Event\<close>: the key positions and events of quantum/keyboard.h.
  \<^item> \<open>Encoder\<close>: quantum/encoder.c and drivers/encoder/encoder_quadrature.c. The events queued
    follow the shaft exactly, and the task sends all of them and ends.
  \<^item> \<open>Debounce\<close>: quantum/debounce/none.c and the locale \<open>debouncer\<close>, the contract of the matrix
    code with any of the algorithms. \<open>Debounce_Cells\<close> is the locale \<open>cellwise\<close>, which reduces an
    algorithm with counters to a step of each cell and gives the contract; \<open>Debounce_Key\<close> is the
    case of one cell per key. \<open>Debounce_Per_Key\<close> interprets it on sym_defer_pk.c and
    sym_eager_pk.c, \<open>Debounce_Asym\<close> on asym_eager_defer_pk.c, \<open>Debounce_Per_Row\<close> on
    sym_defer_pr.c and sym_eager_pr.c; it has sym_defer_g.c as well. \<open>Debounce_Timing\<close> says what the
    per-key algorithms promise over whole runs of scans.
  \<^item> \<open>Matrix\<close>: quantum/matrix.c, matrix_common.c and the matrix task of quantum/keyboard.c, over any
    \<open>debouncer\<close>. The events of each key alternate and agree with the matrix, and the keys sent
    as held are the closed contacts once the debouncer has settled.
  \<^item> \<open>Layers\<close>: quantum/action_layer.c. The layer state as a set, the search for the layer of a
    key, and the cache of the layer of each held key (locale \<open>layer_array\<close>), which makes a
    release match its press.
  \<^item> \<open>Report\<close>: tmk_core/protocol/report.c. Both kinds of report are sets of held keys (locale
    \<open>key_set\<close>, interpreted on the six slots and on the bitmap).
  \<^item> \<open>Action_Util\<close>: quantum/action_util.c over the reports and the layers. Modifiers, one-shot
    modifiers and layers, and sending: the host has the current state after every send.
  \<^item> \<open>Action_Code\<close>: quantum/action_code.h and the key records of quantum/action.h. \<open>Keymap\<close>:
    quantum/keymap_common.c and keycode_config.c, from keycodes to actions. \<open>Action_Types\<close>: the kind
    of the action of every keycode, and the fields packed into it.
  \<^item> \<open>Action\<close>: \<open>process_record\<close> and \<open>process_action\<close> of quantum/action.c with every kind of action, over
    \<open>Action_Util\<close> and \<open>Layers\<close>.
  \<^item> \<open>Tapping\<close>: the state machine and the waiting buffer of quantum/action_tapping.c, for any
    interpreter of the records (\<open>tapping_ops\<close>). \<open>Tapping_Events\<close>: every event is processed once, and
    what the log of the calls has to do with the run; \<open>Tapping_Policy\<close>: when a dual-role key is
    tapped and when it is held. \<open>Firmware\<close>: \<open>action_exec\<close> with the interpreter of \<open>Action\<close>, where
    both become properties of the whole path from event to action. \<open>tap_or_hold\<close> is about keys whose
    role does not depend on the layer.
  \<^item> \<open>Dynamic_Macro\<close>, \<open>Secure\<close>: quantum/process_keycode/process_dynamic_macro.c, and quantum/secure.c
    with its keycodes. The shared buffer of the macros refines two lists; the lock opens only on
    its sequence, but a request that times out keeps the progress made.
  \<^item> \<open>Deferred_Exec\<close>, \<open>Crc\<close>, \<open>Send_String\<close>: quantum/deferred_exec.c, crc.c and send_string/send_string.c.
    Tokens are unique, due callbacks run; what the two builds of \<open>crc8\<close> compute; an encoded string
    performs its commands.
  \<^item> \<open>Wear_Log\<close>: the log entries of quantum/wear_leveling/wear_leveling_internal.h and the
    checksum of lib/fnv/hash_64a.c, with encode and decode round trips. \<open>Wear_Leveling\<close>: all
    functions of quantum/wear_leveling/wear_leveling.c, over the operations of any backing store.
    \<open>Wear_Contract\<close>: the locale \<open>backing_store\<close>, and what writing gives; \<open>Wear_Recovery\<close>: the
    playback of a log and the start-up. \<open>Wear_Flash\<close>: the driver wear_leveling_legacy.c over the
    locale \<open>legacy_flash\<close>, which gives \<open>backing_store\<close>, and its interpretation on the flash of the
    test platform (platforms/test/legacy_flash_ops_mock.c).
  \<^item> \<open>Eeprom\<close>: drivers/eeprom/eeprom_driver.c and eeprom_wear_leveling.c. Any history of writes,
    formats and resets leaves what it leaves in a plain array.
  \<^item> \<open>Dynamic_Keymap\<close>: quantum/dynamic_keymap.c and quantum/nvm/eeprom/nvm_dynamic_keymap.c over the
    locale \<open>byte_memory\<close>, which the emulated EEPROM gives (a sublocale of its \<open>resettable_store\<close>). The
    maps in the EEPROM are plain maps that survive power cycles, and macros written by the host
    are performed.
  \<^item> \<open>Via\<close>: quantum/via.c and nvm_via.c over the same contract: sessions of packets and reboots act
    on one table. \<open>Via_Recovery\<close>: restoring the defaults with the power lost at any write.
  \<^item> \<open>Unicode\<close>: quantum/unicode/utf8.c and unicode.c, with the modified keycodes of quantum/quantum.c.
    Strings of code points arrive at the input method of the host. \<open>Unicode_Keys\<close>: the input modes, the
    keycodes of quantum/process_keycode/process_unicode*.c, the Unicode map and the mnemonics of ucis.c.

  \<^bold>\<open>Bounds.\<close> The numbers of rows, columns, encoders and pulses, the debounce time and the sizes
  of the wear-leveling areas are parameters, under the limits that the code states in static
  assertions or needs for its integer types (\<open>cfg_ok\<close>, \<open>wear_leveling_cfg_ok\<close>); the write sizes
  2, 4 and 8 are all modelled. Layer states have the default 16 bits. Times are
  natural numbers whose neighbours are less than a wrap of the clock apart.

  \<^bold>\<open>Not modelled.\<close> Keyboard and keymap definitions (configuration and tables), lighting, painter,
  audio and the displays (hardware drivers around arithmetic that has no state worth an
  invariant), the split transport and the USB stacks (transactions of hardware and third-party
  code), the register-level platform code, vendored libraries, and so far most of the
  key-processing features of quantum/process_keycode (combos, tap dance, auto shift, caps word, key
  overrides and others), which the interpreter takes as a parameter.
\<close>

end
